(* ===== verification/Hcl_Prelude.thy ===== *)
theory Hcl_Prelude
  imports Main "HOL-Library.Word" "HOL-Library.Multiset"
begin

text \<open>
  Shared vocabulary of the development: the widths of the machine integers the
  library uses, the failures an operation of the library can end in, the result
  type and its sequencing, the interprocess mutex that guards a shared object,
  and generic lemmas on lists and strings.
\<close>

named_theorems hcl_simps \<open>unfolding rules of the sequencing and locking combinators\<close>
named_theorems hcl_wf \<open>preservation of well-formedness\<close>

section \<open>Machine integers\<close>

type_synonym u8 = "8 word"
type_synonym u16 = "16 word"
type_synonym u32 = "32 word"
type_synonym u64 = "64 word"

section \<open>Failures and results\<close>

text \<open>
  Every exception, blocked wait, failed \<^verbatim>\<open>assert\<close> and undefined behaviour of the C++
  sources is a value of this type.
\<close>

datatype hcl_error =
    Logic_Error string      \<comment> \<open>a thrown \<^verbatim>\<open>std::logic_error\<close>\<close>
  | Out_Of_Range            \<comment> \<open>\<^verbatim>\<open>std::out_of_range\<close>, or an index or read past an array\<close>
  | Buffer_Overflow         \<comment> \<open>a write past the end of a fixed buffer\<close>
  | Null_Deref              \<comment> \<open>a null or dangling pointer is followed\<close>
  | Div_By_Zero
  | Shift_Too_Wide          \<comment> \<open>a shift by at least the width of its operand\<close>
  | Would_Block             \<comment> \<open>a wait that the caller itself would have to end\<close>
  | Assert_Failed
  | No_Handler              \<comment> \<open>a remote call of a name no server has bound\<close>
  | Bad_Message             \<comment> \<open>arguments or a response of another type than expected\<close>
  | File_Error              \<comment> \<open>a backing file that cannot be created or opened\<close>
  | Out_Of_Memory
  | No_Return               \<comment> \<open>control leaves a function that returns a value without a \<^verbatim>\<open>return\<close>\<close>
  | Diverges                \<comment> \<open>a loop that does not end\<close>

type_synonym 'a result = "hcl_error + 'a"

definition rbind :: "'a result \<Rightarrow> ('a \<Rightarrow> 'b result) \<Rightarrow> 'b result" where
  "rbind m f = (case m of Inl e \<Rightarrow> Inl e | Inr x \<Rightarrow> f x)"

definition rmap :: "('a \<Rightarrow> 'b) \<Rightarrow> 'a result \<Rightarrow> 'b result" where
  "rmap f m = rbind m (\<lambda>x. Inr (f x))"

definition rguard :: "bool \<Rightarrow> hcl_error \<Rightarrow> 'a result \<Rightarrow> 'a result" where
  "rguard b e m = (if b then m else Inl e)"

lemma rbind_simps [simp, hcl_simps]:
  "rbind (Inl e) f = Inl e" "rbind (Inr x) f = f x"
  by (simp_all add: rbind_def)

lemma rbind_eq_Inr [simp]: "rbind m f = Inr y \<longleftrightarrow> (\<exists>x. m = Inr x \<and> f x = Inr y)"
  by (cases m) simp_all

lemma rbind_eq_Inl: "rbind m f = Inl e \<longleftrightarrow> m = Inl e \<or> (\<exists>x. m = Inr x \<and> f x = Inl e)"
  by (cases m) simp_all

lemma rmap_simps [simp, hcl_simps]:
  "rmap f (Inl e) = Inl e" "rmap f (Inr x) = Inr (f x)"
  by (simp_all add: rmap_def)

lemma rmap_eq_Inr [simp]: "rmap f m = Inr y \<longleftrightarrow> (\<exists>x. m = Inr x \<and> f x = y)"
  by (cases m) simp_all

lemma rguard_simps [simp, hcl_simps]:
  "rguard True e m = m" "rguard False e m = Inl e"
  by (simp_all add: rguard_def)

lemma rguard_eq_Inr [simp]: "rguard b e m = Inr y \<longleftrightarrow> b \<and> m = Inr y"
  by (simp add: rguard_def)

section \<open>Shared objects under an interprocess mutex\<close>

text \<open>
  An object in a memory-mapped segment together with the mutex constructed beside it.
  The mutex is a \<^verbatim>\<open>boost::interprocess::interprocess_mutex\<close>: not recursive, so a caller
  that locks it while it is held waits. In a sequential step nobody else can release it,
  hence \<open>Would_Block\<close>.
\<close>

record 'd shm =
  mtx :: bool
  obj :: 'd

definition mutex_lock :: "'d shm \<Rightarrow> 'd shm result" where
  "mutex_lock s = (if mtx s then Inl Would_Block else Inr (s\<lparr>mtx := True\<rparr>))"

definition mutex_unlock :: "'d shm \<Rightarrow> 'd shm" where
  "mutex_unlock s = s\<lparr>mtx := False\<rparr>"

text \<open>The body of a function run on the object, without and with a \<^verbatim>\<open>scoped_lock\<close>.\<close>

definition plain_access :: "('d \<Rightarrow> 'r \<times> 'd) \<Rightarrow> 'd shm \<Rightarrow> ('r \<times> 'd shm) result" where
  "plain_access f s = (case f (obj s) of (r, d) \<Rightarrow> Inr (r, s\<lparr>obj := d\<rparr>))"

definition scoped_lock :: "('d \<Rightarrow> 'r \<times> 'd) \<Rightarrow> 'd shm \<Rightarrow> ('r \<times> 'd shm) result" where
  "scoped_lock f s =
     rbind (mutex_lock s) (\<lambda>s. rbind (plain_access f s) (\<lambda>(r, s). Inr (r, mutex_unlock s)))"

lemma plain_access_eq [hcl_simps]:
  "plain_access f s = Inr (fst (f (obj s)), s\<lparr>obj := snd (f (obj s))\<rparr>)"
  by (simp add: plain_access_def split: prod.splits)

lemma scoped_lock_free [hcl_simps]:
  "\<not> mtx s \<Longrightarrow> scoped_lock f s = Inr (fst (f (obj s)), s\<lparr>obj := snd (f (obj s))\<rparr>)"
  by (cases s) (simp add: scoped_lock_def mutex_lock_def mutex_unlock_def plain_access_eq)

lemma scoped_lock_held [hcl_simps]: "mtx s \<Longrightarrow> scoped_lock f s = Inl Would_Block"
  by (simp add: scoped_lock_def mutex_lock_def)

section \<open>C strings and decimal numerals\<close>

definition NUL :: char where
  "NUL = CHR 0x00"

text \<open>What a function that reads a C string sees of an array of characters.\<close>

definition cstr :: "string \<Rightarrow> string" where
  "cstr s = takeWhile (\<lambda>c. c \<noteq> NUL) s"

lemma cstr_id [simp]: "NUL \<notin> set s \<Longrightarrow> cstr s = s"
  by (auto simp: cstr_def takeWhile_eq_all_conv)

lemma NUL_cstr [simp]: "NUL \<notin> set (cstr s)"
  by (auto simp: cstr_def dest: set_takeWhileD)

lemma cstr_append [simp]: "NUL \<notin> set s \<Longrightarrow> cstr (s @ t) = s @ cstr t"
  by (auto simp: cstr_def takeWhile_append)

lemma cstr_NUL [simp]: "cstr (NUL # t) = []" "cstr [] = []"
  by (simp_all add: cstr_def)

lemma cstr_cstr [simp]: "cstr (cstr s) = cstr s"
  by simp

lemma length_cstr: "length (cstr s) \<le> length s"
  by (simp add: cstr_def length_takeWhile_le)

lemma length_cstr_less: "NUL \<in> set s \<Longrightarrow> length (cstr s) < length s"
  by (induction s) (auto simp: cstr_def)

definition digit_char :: "nat \<Rightarrow> char" where
  "digit_char d = char_of (48 + d)"

definition is_digit :: "char \<Rightarrow> bool" where
  "is_digit c \<longleftrightarrow> 48 \<le> (of_char c :: nat) \<and> (of_char c :: nat) \<le> 57"

definition digit_val :: "char \<Rightarrow> nat" where
  "digit_val c = of_char c - 48"

text \<open>\<^verbatim>\<open>std::to_string\<close> on an unsigned value.\<close>

fun to_string :: "nat \<Rightarrow> string" where
  "to_string n = (if n < 10 then [digit_char n] else to_string (n div 10) @ [digit_char (n mod 10)])"

declare to_string.simps [simp del]

fun digits_val :: "nat \<Rightarrow> string \<Rightarrow> nat" where
  "digits_val acc [] = acc"
| "digits_val acc (c # cs) = (if is_digit c then digits_val (10 * acc + digit_val c) cs else acc)"

lemma digit_char_simps [simp]:
  assumes "d < 10"
  shows "is_digit (digit_char d)" "digit_val (digit_char d) = d" "digit_char d \<noteq> NUL"
proof -
  have "of_char (digit_char d) = 48 + d"
    using assms by (simp add: digit_char_def)
  then show "is_digit (digit_char d)" "digit_val (digit_char d) = d"
    using assms by (simp_all add: is_digit_def digit_val_def)
  show "digit_char d \<noteq> NUL"
  proof
    assume "digit_char d = NUL"
    then have "of_char (digit_char d) = (of_char NUL :: nat)" by simp
    with \<open>of_char (digit_char d) = 48 + d\<close> show False by (simp add: NUL_def)
  qed
qed

lemma to_string_digits: "\<forall>c \<in> set (to_string n). is_digit c \<and> c \<noteq> NUL"
proof (induction n rule: to_string.induct)
  case (1 n)
  then show ?case by (subst to_string.simps) auto
qed

lemma digits_val_append:
  "\<forall>c \<in> set s. is_digit c \<Longrightarrow> digits_val acc (s @ t) = digits_val (digits_val acc s) t"
  by (induction s arbitrary: acc) auto

lemma digits_val_to_string [simp]: "digits_val 0 (to_string n) = n"
proof (induction n rule: to_string.induct)
  case (1 n)
  show ?case
  proof (cases "n < 10")
    case True
    then show ?thesis by (subst to_string.simps) simp
  next
    case False
    have "digits_val 0 (to_string (n div 10) @ [digit_char (n mod 10)]) =
          digits_val (n div 10) [digit_char (n mod 10)]"
      using 1 False to_string_digits by (simp add: digits_val_append)
    then show ?thesis using False by (subst to_string.simps) simp
  qed
qed

lemma to_string_inject [simp]: "to_string m = to_string n \<longleftrightarrow> m = n"
  by (metis digits_val_to_string)

lemma NUL_to_string [simp]: "NUL \<notin> set (to_string n)"
  using to_string_digits by auto

lemma length_to_string_bound: "n < 10 ^ Suc k \<Longrightarrow> length (to_string n) \<le> Suc k"
proof (induction k arbitrary: n)
  case 0
  then show ?case by (subst to_string.simps) simp
next
  case (Suc k)
  show ?case
  proof (cases "n < 10")
    case True
    then show ?thesis by (subst to_string.simps) simp
  next
    case False
    from Suc.prems have "n div 10 < 10 ^ Suc k" by (simp add: less_mult_imp_div_less)
    then have "length (to_string (n div 10)) \<le> Suc k" by (rule Suc.IH)
    with False show ?thesis by (subst to_string.simps) simp
  qed
qed

section \<open>Lists\<close>

lemma map_of_distinct_split:
  "distinct (map fst xs) \<Longrightarrow> (k, v) \<in> set xs \<Longrightarrow> map_of xs k = Some v"
  by (rule map_of_is_SomeI)

lemma mset_concat_map_upd:
  "i < n \<Longrightarrow> mset (f i) + (\<Sum>j\<leftarrow>filter (\<lambda>j. j \<noteq> i) [0..<n]. mset (f j)) = (\<Sum>j<n. mset (f j))"
proof -
  assume i: "i < n"
  have "(\<Sum>j\<leftarrow>filter (\<lambda>j. j \<noteq> i) [0..<n]. mset (f j)) = (\<Sum>j\<in>{..<n} - {i}. mset (f j))"
    by (subst sum_list_distinct_conv_sum_set) (auto intro!: sum.cong)
  then show ?thesis
    using i by (simp add: sum.remove [of "{..<n}" i])
qed

text \<open>Searching a sorted list from the lower bound of a range on.\<close>

lemma takeWhile_sorted_filter:
  "sorted (map f es) \<Longrightarrow> takeWhile (\<lambda>e. f e \<le> b) es = filter (\<lambda>e. f e \<le> (b :: 'k::linorder)) es"
  by (induction es) (auto intro!: filter_False [symmetric] dest: order_trans)

lemma dropWhile_sorted_filter:
  "sorted (map f es) \<Longrightarrow> dropWhile (\<lambda>e. f e < a) es = filter (\<lambda>e. (a :: 'k::linorder) \<le> f e) es"
  by (induction es) (auto intro!: filter_True [symmetric] dest: order_trans)

lemma sorted_range:
  assumes "sorted (map f es)"
  shows "takeWhile (\<lambda>e. f e \<le> b) (drop (length (takeWhile (\<lambda>e. f e < a) es)) es) =
    filter (\<lambda>e. a \<le> f e \<and> f e \<le> (b :: 'k::linorder)) es"
proof -
  have "sorted (map f (filter (\<lambda>e. a \<le> f e) es))"
    using assms by (rule sorted_filter)
  then have "takeWhile (\<lambda>e. f e \<le> b) (dropWhile (\<lambda>e. f e < a) es) =
      filter (\<lambda>e. f e \<le> b) (filter (\<lambda>e. a \<le> f e) es)"
    unfolding dropWhile_sorted_filter [OF assms] by (rule takeWhile_sorted_filter)
  then show ?thesis by (simp add: dropWhile_eq_drop conj_commute)
qed

lemma nth_before_takeWhile:
  assumes "length (takeWhile P es) \<noteq> 0"
  shows "P (es ! (length (takeWhile P es) - 1))"
proof -
  let ?n = "length (takeWhile P es) - 1"
  have "?n < length (takeWhile P es)" using assms by simp
  then have "takeWhile P es ! ?n = es ! ?n" "takeWhile P es ! ?n \<in> set (takeWhile P es)"
    by (rule takeWhile_nth, rule nth_mem)
  then show ?thesis by (metis set_takeWhileD)
qed

lemma map_of_filter_fst: "map_of (filter (\<lambda>e. fst e \<in> S) es) = map_of es |` S"
  by (induction es) (auto simp: restrict_map_def fun_eq_iff)

lemma unat_ucast_u32 [simp]: "unat (ucast x :: u64) = unat x" for x :: u32
  by (simp add: unsigned_ucast_eq take_bit_nat_eq_self order_less_le_trans [OF unsigned_less])

end
