(* ===== verification/Hcl_Char_Struct.thy ===== *)
theory Hcl_Char_Struct
  imports Hcl_Prelude
begin

text \<open>
  \<^verbatim>\<open>struct CharStruct\<close> of \<^verbatim>\<open>include/hcl/common/data_structures.h\<close> and
  \<^verbatim>\<open>src/hcl/common/data_structures.cpp\<close>: a C string in a fixed buffer of 256 bytes.
  A constructor runs on the storage it finds (\<open>mem\<close>, whose bytes are indeterminate in C++);
  it overwrites the bytes up to the terminator and keeps the others. A write past the
  buffer is \<open>Buffer_Overflow\<close>, a read of a buffer with no terminator is \<open>Out_Of_Range\<close>.
\<close>

section \<open>The C library functions used\<close>

text \<open>\<^verbatim>\<open>snprintf(buf, n, "%s", src)\<close>, with the capacity of \<open>buf\<close> checked.\<close>

definition snprintf_s :: "char list \<Rightarrow> nat \<Rightarrow> string \<Rightarrow> char list result" where
  "snprintf_s buf n src =
     (if n = 0 then Inr buf
      else let w = take (n - 1) (cstr src)
           in if length w < length buf then Inr (w @ NUL # drop (Suc (length w)) buf)
              else Inl Buffer_Overflow)"

definition strcpy :: "char list \<Rightarrow> string \<Rightarrow> char list result" where
  "strcpy dst src =
     (if length (cstr src) < length dst
      then Inr (cstr src @ NUL # drop (Suc (length (cstr src))) dst) else Inl Buffer_Overflow)"

text \<open>Reading a C string out of an array of known extent.\<close>

definition read_cstr :: "char list \<Rightarrow> string result" where
  "read_cstr buf = (if NUL \<in> set buf then Inr (cstr buf) else Inl Out_Of_Range)"

text \<open>\<^verbatim>\<open>strcmp\<close> compares as unsigned bytes; only the sign of the result is specified.\<close>

fun strcmp :: "string \<Rightarrow> string \<Rightarrow> int" where
  "strcmp [] [] = 0"
| "strcmp [] (y # ys) = -1"
| "strcmp (x # xs) [] = 1"
| "strcmp (x # xs) (y # ys) =
     (if x = y then strcmp xs ys else if (of_char x :: nat) < of_char y then -1 else 1)"

section \<open>The structure and its constructors\<close>

record charstruct =
  cs_value :: "char list"

abbreviation cs_capacity :: nat where
  "cs_capacity \<equiv> 256"

definition cs_Set_buf :: "charstruct \<Rightarrow> string \<Rightarrow> nat \<Rightarrow> charstruct result" where
  "cs_Set_buf c dat sz =
     rmap (\<lambda>b. c\<lparr>cs_value := b\<rparr>) (snprintf_s (cs_value c) (sz + 1) dat)"

definition cs_Set :: "charstruct \<Rightarrow> string \<Rightarrow> charstruct result" where
  "cs_Set c dat =
     rmap (\<lambda>b. c\<lparr>cs_value := b\<rparr>) (snprintf_s (cs_value c) (length dat + 1) (cstr dat))"

definition CharStruct_default :: "char list \<Rightarrow> charstruct" where
  "CharStruct_default mem = \<lparr>cs_value = mem\<rparr>"

definition CharStruct_cstr :: "char list \<Rightarrow> string \<Rightarrow> charstruct result" where
  "CharStruct_cstr mem dat =
     rmap (\<lambda>b. \<lparr>cs_value = b\<rparr>) (snprintf_s mem (length (cstr dat) + 1) dat)"

definition CharStruct_string :: "char list \<Rightarrow> string \<Rightarrow> charstruct result" where
  "CharStruct_string mem dat = CharStruct_cstr mem (cstr dat)"

definition CharStruct_buf :: "char list \<Rightarrow> string \<Rightarrow> nat \<Rightarrow> charstruct result" where
  "CharStruct_buf mem dat sz = rmap (\<lambda>b. \<lparr>cs_value = b\<rparr>) (snprintf_s mem sz dat)"

definition CharStruct_copy :: "char list \<Rightarrow> charstruct \<Rightarrow> charstruct result" where
  "CharStruct_copy mem other = rbind (read_cstr (cs_value other)) (CharStruct_cstr mem)"

definition CharStruct_move :: "char list \<Rightarrow> charstruct \<Rightarrow> charstruct result" where
  "CharStruct_move mem other = rbind (read_cstr (cs_value other)) (CharStruct_cstr mem)"

section \<open>Accessors and operators\<close>

definition cs_c_str :: "charstruct \<Rightarrow> string result" where
  "cs_c_str c = read_cstr (cs_value c)"

definition cs_string :: "charstruct \<Rightarrow> string result" where
  "cs_string c = read_cstr (cs_value c)"

definition cs_data :: "charstruct \<Rightarrow> char list" where
  "cs_data c = cs_value c"

definition cs_size :: "charstruct \<Rightarrow> nat result" where
  "cs_size c = rmap length (read_cstr (cs_value c))"

definition cs_assign :: "charstruct \<Rightarrow> charstruct \<Rightarrow> charstruct result" where
  "cs_assign c other =
     rbind (cs_c_str other) (\<lambda>s. rmap (\<lambda>b. c\<lparr>cs_value := b\<rparr>) (strcpy (cs_value c) s))"

definition cs_strcmp :: "charstruct \<Rightarrow> charstruct \<Rightarrow> int result" where
  "cs_strcmp a b =
     rbind (read_cstr (cs_value a)) (\<lambda>s. rmap (strcmp s) (read_cstr (cs_value b)))"

definition cs_eq :: "charstruct \<Rightarrow> charstruct \<Rightarrow> bool result" where
  "cs_eq a b = rmap (\<lambda>r. r = 0) (cs_strcmp a b)"

definition cs_gt :: "charstruct \<Rightarrow> charstruct \<Rightarrow> bool result" where
  "cs_gt a b = rmap (\<lambda>r. r > 0) (cs_strcmp a b)"

definition cs_ge :: "charstruct \<Rightarrow> charstruct \<Rightarrow> bool result" where
  "cs_ge a b = rmap (\<lambda>r. r \<ge> 0) (cs_strcmp a b)"

definition cs_lt :: "charstruct \<Rightarrow> charstruct \<Rightarrow> bool result" where
  "cs_lt a b = rmap (\<lambda>r. r < 0) (cs_strcmp a b)"

definition cs_le :: "charstruct \<Rightarrow> charstruct \<Rightarrow> bool result" where
  "cs_le a b = rmap (\<lambda>r. r \<le> 0) (cs_strcmp a b)"

text \<open>The three concatenations build a \<^verbatim>\<open>std::string\<close> first, which has no bound.\<close>

definition cs_plus :: "char list \<Rightarrow> charstruct \<Rightarrow> charstruct \<Rightarrow> charstruct result" where
  "cs_plus mem a b =
     rbind (cs_c_str a) (\<lambda>s. rbind (cs_c_str b) (\<lambda>t. CharStruct_string mem (s @ t)))"

definition cs_plus_string :: "char list \<Rightarrow> charstruct \<Rightarrow> string \<Rightarrow> charstruct result" where
  "cs_plus_string mem a t = rbind (cs_c_str a) (\<lambda>s. CharStruct_string mem (s @ t))"

definition string_plus_cs :: "char list \<Rightarrow> string \<Rightarrow> charstruct \<Rightarrow> charstruct result" where
  "string_plus_cs mem s b = rbind (cs_c_str b) (\<lambda>t. CharStruct_string mem (s @ t))"

definition cs_append :: "charstruct \<Rightarrow> charstruct \<Rightarrow> charstruct result" where
  "cs_append a b = rbind (cs_c_str a) (\<lambda>s. rbind (cs_c_str b) (\<lambda>t. cs_Set a (s @ t)))"

text \<open>\<^verbatim>\<open>std::hash<CharStruct>\<close> hashes the visible string.\<close>

definition cs_hash :: "(string \<Rightarrow> u64) \<Rightarrow> charstruct \<Rightarrow> u64 result" where
  "cs_hash std_hash k = rmap std_hash (cs_c_str k)"

text \<open>\<^verbatim>\<open>CalculateSize\<close>: \<^verbatim>\<open>sizeof\<close> of the type, and the specialisation for strings.\<close>

definition CalculateSize_string :: "string \<Rightarrow> u64" where
  "CalculateSize_string s = of_nat (length (cstr s) + 1)"

text \<open>
  The output operators, as the text they append to the stream: of C strings, bytes, pairs, \<^verbatim>\<open>CharStruct\<close> and
  vectors; \<open>sh\<close> is the operator of the elements.
\<close>

definition show_chars :: "char list \<Rightarrow> string result" where
  "show_chars m = read_cstr m"

definition show_uint8 :: "8 word \<Rightarrow> string result" where
  "show_uint8 m = Inr (to_string (unat m))"

definition show_pair :: "('a \<Rightarrow> string result) \<Rightarrow> ('b \<Rightarrow> string result) \<Rightarrow> 'a \<times> 'b \<Rightarrow> string result" where
  "show_pair sh1 sh2 m =
     rbind (sh1 (fst m)) (\<lambda>first. rbind (sh2 (snd m)) (\<lambda>second.
       Inr (''{TYPE:pair,'' @ ''first:'' @ first @ '','' @ ''second:'' @ second @ ''}'')))"

definition show_cs :: "charstruct \<Rightarrow> string result" where
  "show_cs m = rmap (\<lambda>s. ''{TYPE:CharStruct,'' @ ''value:'' @ s @ ''}'') (cs_c_str m)"

fun show_elems :: "('a \<Rightarrow> string result) \<Rightarrow> 'a list \<Rightarrow> string result" where
  "show_elems sh [] = Inr []"
| "show_elems sh (m # ms) = rbind (sh m) (\<lambda>s. rmap (\<lambda>rest. s @ '','' @ rest) (show_elems sh ms))"

definition show_vector :: "('a \<Rightarrow> string result) \<Rightarrow> 'a list \<Rightarrow> string result" where
  "show_vector sh ms = rmap (\<lambda>s. ''['' @ s @ '']'') (show_elems sh ms)"

section \<open>Well-formed values\<close>

text \<open>
  A constructed value: a buffer of 256 bytes with a terminator in it. \<open>visible\<close> is the
  string it denotes. Fresh objects that other components build use zeroed storage; by
  \<open>CharStruct_cstr_visible\<close> what the storage held is never seen.
\<close>

definition wf_cs :: "charstruct \<Rightarrow> bool" where
  "wf_cs c \<longleftrightarrow> length (cs_value c) = cs_capacity \<and> NUL \<in> set (cs_value c)"

definition visible :: "charstruct \<Rightarrow> string" where
  "visible c = cstr (cs_value c)"

abbreviation fresh_mem :: "char list" where
  "fresh_mem \<equiv> replicate cs_capacity NUL"

definition cs_of :: "string \<Rightarrow> charstruct result" where
  "cs_of s = CharStruct_cstr fresh_mem s"

lemma read_cstr_wf [simp]: "wf_cs c \<Longrightarrow> read_cstr (cs_value c) = Inr (visible c)"
  by (simp add: wf_cs_def read_cstr_def visible_def)

lemma NUL_visible [simp]: "NUL \<notin> set (visible c)"
  by (simp add: visible_def)

lemma cstr_visible [simp]: "cstr (visible c) = visible c"
  by simp

lemma length_visible: "wf_cs c \<Longrightarrow> length (visible c) < cs_capacity"
  using length_cstr_less by (force simp: wf_cs_def visible_def)

lemma snprintf_s_fits:
  assumes "length (take n (cstr s)) < length buf"
  shows "snprintf_s buf (Suc n) s =
    Inr (take n (cstr s) @ NUL # drop (Suc (length (take n (cstr s)))) buf)"
  using assms by (simp add: snprintf_s_def Let_def)

lemma CharStruct_cstr_visible:
  assumes "length mem = cs_capacity" "length (cstr s) < cs_capacity"
  shows "\<exists>c. CharStruct_cstr mem s = Inr c \<and> wf_cs c \<and> visible c = cstr s"
  using assms by (simp add: CharStruct_cstr_def snprintf_s_fits wf_cs_def visible_def)

lemma CharStruct_cstr_overflow:
  assumes "length mem = cs_capacity" "\<not> length (cstr s) < cs_capacity"
  shows "CharStruct_cstr mem s = Inl Buffer_Overflow"
  using assms by (simp add: CharStruct_cstr_def snprintf_s_def Let_def)

lemma cs_of_ok:
  assumes "length (cstr s) < cs_capacity"
  obtains c where "cs_of s = Inr c" "wf_cs c" "visible c = cstr s"
  using CharStruct_cstr_visible [of fresh_mem s] assms by (auto simp: cs_of_def)

lemma cs_plus_visible:
  assumes "length mem = cs_capacity" "wf_cs a" "wf_cs b"
    and "length (visible a) + length (visible b) < cs_capacity"
  shows "\<exists>c. cs_plus mem a b = Inr c \<and> wf_cs c \<and> visible c = visible a @ visible b"
proof -
  have [simp]: "cstr (visible a @ visible b) = visible a @ visible b" by simp
  show ?thesis
    using assms CharStruct_cstr_visible [of mem "visible a @ visible b"]
    by (simp add: cs_plus_def cs_c_str_def CharStruct_string_def)
qed

lemma cs_append_visible:
  assumes "wf_cs a" "wf_cs b" "length (visible a) + length (visible b) < cs_capacity"
  shows "\<exists>c. cs_append a b = Inr c \<and> wf_cs c \<and> visible c = visible a @ visible b"
proof -
  have [simp]: "cstr (visible a @ visible b) = visible a @ visible b" by simp
  show ?thesis
    using assms
    by (simp add: cs_append_def cs_c_str_def cs_Set_def snprintf_s_fits wf_cs_def)
       (simp add: visible_def)
qed

text \<open>The output of a vector of \<^verbatim>\<open>CharStruct\<close> shows every string, each followed by a comma.\<close>

lemma show_vector_cs:
  assumes "\<forall>c \<in> set cs. wf_cs c"
  shows "show_vector show_cs cs = Inr (''['' @ concat (map (\<lambda>c. ''{TYPE:CharStruct,value:'' @ visible c @ ''},'') cs) @ '']'')"
proof -
  have "show_elems show_cs cs = Inr (concat (map (\<lambda>c. ''{TYPE:CharStruct,value:'' @ visible c @ ''},'') cs))"
    using assms by (induction cs) (simp_all add: show_cs_def cs_c_str_def)
  then show ?thesis by (simp add: show_vector_def)
qed

section \<open>The comparison operators\<close>

lemma strcmp_refl [simp]: "strcmp s s = 0"
  by (induction s) auto

lemma strcmp_eq_0 [simp]: "strcmp s t = 0 \<longleftrightarrow> s = t"
  by (induction s t rule: strcmp.induct) auto

lemma strcmp_swap: "strcmp t s = - strcmp s t"
  by (induction s t rule: strcmp.induct) auto

lemma strcmp_trans: "strcmp s t < 0 \<Longrightarrow> strcmp t u < 0 \<Longrightarrow> strcmp s u < 0"
proof (induction s t arbitrary: u rule: strcmp.induct)
  case (2 y ys)
  then show ?case by (cases u) auto
next
  case (4 x xs y ys)
  then show ?case by (cases u) (auto split: if_splits)
qed auto

lemma cs_compare_wf:
  assumes "wf_cs a" "wf_cs b"
  shows "cs_eq a b = Inr (visible a = visible b)"
    and "cs_lt a b = Inr (strcmp (visible a) (visible b) < 0)"
    and "cs_gt a b = Inr (strcmp (visible a) (visible b) > 0)"
    and "cs_le a b = Inr (strcmp (visible a) (visible b) \<le> 0)"
    and "cs_ge a b = Inr (strcmp (visible a) (visible b) \<ge> 0)"
  using assms by (simp_all add: cs_eq_def cs_lt_def cs_gt_def cs_le_def cs_ge_def cs_strcmp_def)

section \<open>Properties\<close>

text \<open>
  C29. Concatenation of \<^verbatim>\<open>CharStruct\<close> values, by \<^verbatim>\<open>operator+\<close> and by \<^verbatim>\<open>operator+=\<close>: exact as long as the
  result and its terminator fit in the 256 bytes, a write past the buffer for every longer result.
\<close>

theorem charstruct_concat_exact_or_overflow:
  assumes "length mem = cs_capacity" "wf_cs a" "wf_cs b"
  shows "if length (visible a) + length (visible b) < cs_capacity
    then (\<exists>c. cs_plus mem a b = Inr c \<and> wf_cs c \<and> visible c = visible a @ visible b)
      \<and> (\<exists>c. cs_append a b = Inr c \<and> wf_cs c \<and> visible c = visible a @ visible b)
    else cs_plus mem a b = Inl Buffer_Overflow \<and> cs_append a b = Inl Buffer_Overflow"
proof (cases "length (visible a) + length (visible b) < cs_capacity")
  case True
  then show ?thesis using cs_plus_visible [OF assms True] cs_append_visible [OF assms(2,3) True] by simp
next
  case False
  have [simp]: "cstr (visible a @ visible b) = visible a @ visible b" by simp
  have "length (cs_value a) = cs_capacity" using assms(2) by (simp add: wf_cs_def)
  then show ?thesis
    using False assms
    by (simp add: cs_plus_def cs_append_def cs_c_str_def CharStruct_string_def CharStruct_cstr_overflow
        cs_Set_def snprintf_s_def Let_def)
qed

theorem charstruct_concat_exact_or_overflow_witness:
  "\<exists>c. cs_plus (replicate 256 CHR ''x'') \<lparr>cs_value = ''ab'' @ NUL # replicate 253 NUL\<rparr> \<lparr>cs_value = ''c'' @ NUL # replicate 254 NUL\<rparr> = Inr c
    \<and> visible c = ''abc''"
proof -
  have v: "visible \<lparr>cs_value = ''ab'' @ NUL # replicate 253 NUL\<rparr> = ''ab''" "visible \<lparr>cs_value = ''c'' @ NUL # replicate 254 NUL\<rparr> = ''c''"
    by (simp_all add: visible_def NUL_def cstr_def)
  have "wf_cs \<lparr>cs_value = ''ab'' @ NUL # replicate 253 NUL\<rparr>" "wf_cs \<lparr>cs_value = ''c'' @ NUL # replicate 254 NUL\<rparr>"
    by (simp_all add: wf_cs_def)
  then show ?thesis
    using charstruct_concat_exact_or_overflow [of "replicate 256 CHR ''x''" "\<lparr>cs_value = ''ab'' @ NUL # replicate 253 NUL\<rparr>"
        "\<lparr>cs_value = ''c'' @ NUL # replicate 254 NUL\<rparr>"] by (auto simp: v [simplified])
qed

end
