(* ===== verification/Hcl_Uri.thy ===== *)
theory Hcl_Uri
  imports Hcl_Char_Struct
begin

text \<open>
  \<^verbatim>\<open>struct URI\<close> of \<^verbatim>\<open>data_structures.h\<close> and \<^verbatim>\<open>data_structures.cpp\<close>: the addresses of
  one server, derived from the configured URI, the host name and the port. The first
  argument of the constructors tells which protocol the build selects
  (\<^verbatim>\<open>HCL_COMMUNICATION_PROTOCOL_ENABLE_UCX\<close>).
\<close>

section \<open>The string functions used\<close>

fun find_sub :: "string \<Rightarrow> string \<Rightarrow> nat option" where
  "find_sub pat [] = (if pat = [] then Some 0 else None)"
| "find_sub pat (c # cs) =
     (if take (length pat) (c # cs) = pat then Some 0 else map_option Suc (find_sub pat cs))"

definition std_substr :: "string \<Rightarrow> nat \<Rightarrow> nat \<Rightarrow> string result" where
  "std_substr s pos n = (if pos \<le> length s then Inr (take n (drop pos s)) else Inl Out_Of_Range)"

lemma find_sub_first:
  "length p > 0 \<Longrightarrow> hd p \<notin> set s \<Longrightarrow> find_sub p (s @ p @ t) = Some (length s)"
proof (induction s)
  case Nil
  then show ?case by (cases p) auto
next
  case (Cons c s)
  then show ?case by (cases p) auto
qed

lemma find_sub_None: "length p > 0 \<Longrightarrow> hd p \<notin> set s \<Longrightarrow> find_sub p s = None"
  by (induction s) (cases p; auto)+

section \<open>The structure\<close>

record uri =
  uri_server_idx :: u16
  uri_protocol :: charstruct
  uri_user_uri :: charstruct
  uri_device :: charstruct
  uri_interface :: charstruct
  uri_ip :: charstruct
  uri_client_uri :: charstruct
  uri_server_uri :: charstruct
  uri_endpoint_uri :: charstruct
  uri_port :: u16

text \<open>Concatenations of freshly built values.\<close>

definition cs_cat :: "charstruct result \<Rightarrow> charstruct result \<Rightarrow> charstruct result" where
  "cs_cat a b = rbind a (\<lambda>a. rbind b (cs_plus fresh_mem a))"

definition cs_app :: "charstruct result \<Rightarrow> charstruct result \<Rightarrow> charstruct result" where
  "cs_app a b = rbind a (\<lambda>a. rbind b (cs_append a))"

definition parse_uri :: "string \<Rightarrow> (string \<times> string \<times> string) result" where
  "parse_uri uri_str =
     (case find_sub ''://'' uri_str of
        None \<Rightarrow> Inr (uri_str, '''', '''')
      | Some protocol_end_pos \<Rightarrow>
          (let device_start_pos = protocol_end_pos + 3;
               rest = drop device_start_pos uri_str;
               (device, interface_start_pos) =
                 (case find_sub ''/'' rest of
                    None \<Rightarrow> ('''', device_start_pos)
                  | Some device_end_pos \<Rightarrow> (take device_end_pos rest, device_end_pos + 1))
           in rmap (\<lambda>interface. (take protocol_end_pos uri_str, device, interface))
                (if interface_start_pos < length uri_str - 2
                 then std_substr rest interface_start_pos (length uri_str - 2) else Inr '''')))"

definition URI_ctor :: "u16 \<Rightarrow> charstruct \<Rightarrow> charstruct \<Rightarrow> u16 \<Rightarrow> uri result" where
  "URI_ctor server_idx uri0 ip0 port0 =
     rbind (cs_string uri0) (\<lambda>uri_str.
     rbind (parse_uri uri_str) (\<lambda>(protocol_s, device_s, interface_s).
     rbind (CharStruct_copy fresh_mem uri0) (\<lambda>user_uri.
     rbind (cs_of protocol_s) (\<lambda>protocol.
     rbind (cs_of device_s) (\<lambda>device.
     rbind (cs_of interface_s) (\<lambda>interface.
     rbind (rbind (cs_of '''') (\<lambda>ip. cs_assign ip ip0)) (\<lambda>ip.
     rbind (cs_size device) (\<lambda>device_size.
       let address = cs_cat (cs_cat (Inr ip) (cs_of '':'')) (cs_of (to_string (unat port0)));
           scheme = cs_cat (Inr protocol) (cs_of ''://'');
           dev = cs_cat (Inr device) (cs_of ''/'')
       in
       rbind (cs_app (if device_size > 0 then cs_app scheme dev else scheme) address) (\<lambda>server_uri.
       rbind (cs_app scheme address) (\<lambda>client_uri.
       rbind (cs_app (if device_size > 0 then cs_app scheme dev else scheme) (Inr interface))
         (\<lambda>endpoint_uri.
       Inr \<lparr>uri_server_idx = 0, uri_protocol = protocol, uri_user_uri = user_uri,
            uri_device = device, uri_interface = interface, uri_ip = ip,
            uri_client_uri = client_uri, uri_server_uri = server_uri,
            uri_endpoint_uri = endpoint_uri, uri_port = port0\<rparr>)))))))))))"

definition URI_copy :: "uri \<Rightarrow> uri result" where
  "URI_copy other =
     rbind (CharStruct_copy fresh_mem (uri_protocol other)) (\<lambda>protocol.
     rbind (CharStruct_copy fresh_mem (uri_user_uri other)) (\<lambda>user_uri.
     rbind (CharStruct_copy fresh_mem (uri_device other)) (\<lambda>device.
     rbind (CharStruct_copy fresh_mem (uri_interface other)) (\<lambda>interface.
     rbind (CharStruct_copy fresh_mem (uri_ip other)) (\<lambda>ip.
     rbind (CharStruct_copy fresh_mem (uri_client_uri other)) (\<lambda>client_uri.
     rbind (CharStruct_copy fresh_mem (uri_server_uri other)) (\<lambda>server_uri.
     rbind (CharStruct_copy fresh_mem (uri_endpoint_uri other)) (\<lambda>endpoint_uri.
       Inr \<lparr>uri_server_idx = uri_server_idx other, uri_protocol = protocol,
            uri_user_uri = user_uri, uri_device = device, uri_interface = interface,
            uri_ip = ip, uri_client_uri = client_uri, uri_server_uri = server_uri,
            uri_endpoint_uri = endpoint_uri, uri_port = uri_port other\<rparr>))))))))"

text \<open>The move constructor has no initialiser for \<^verbatim>\<open>endpoint_uri\<close>: it keeps its storage.\<close>

definition URI_move :: "char list \<Rightarrow> uri \<Rightarrow> uri result" where
  "URI_move mem other =
     rbind (CharStruct_copy fresh_mem (uri_protocol other)) (\<lambda>protocol.
     rbind (CharStruct_copy fresh_mem (uri_user_uri other)) (\<lambda>user_uri.
     rbind (CharStruct_copy fresh_mem (uri_device other)) (\<lambda>device.
     rbind (CharStruct_copy fresh_mem (uri_interface other)) (\<lambda>interface.
     rbind (CharStruct_copy fresh_mem (uri_ip other)) (\<lambda>ip.
     rbind (CharStruct_copy fresh_mem (uri_client_uri other)) (\<lambda>client_uri.
     rbind (CharStruct_copy fresh_mem (uri_server_uri other)) (\<lambda>server_uri.
       Inr \<lparr>uri_server_idx = uri_server_idx other, uri_protocol = protocol,
            uri_user_uri = user_uri, uri_device = device, uri_interface = interface,
            uri_ip = ip, uri_client_uri = client_uri, uri_server_uri = server_uri,
            uri_endpoint_uri = CharStruct_default mem, uri_port = uri_port other\<rparr>)))))))"

text \<open>
  The default constructor, for the protocol the library is built with. Three members have no initialiser and keep
  the storage \<open>mem\<close>.
\<close>

definition URI_default :: "bool \<Rightarrow> (nat \<Rightarrow> char list) \<Rightarrow> uri result" where
  "URI_default ucx mem =
     rbind (cs_of (if ucx then ''ucx+tcp'' else ''ofi+tcp'')) (\<lambda>protocol.
     rbind (cs_of (if ucx then ''ucx+tcp://'' else ''ofi+tcp://'')) (\<lambda>user_uri.
     rbind (cs_of []) (\<lambda>device. rbind (cs_of []) (\<lambda>interface. rbind (cs_of []) (\<lambda>ip.
       Inr \<lparr>uri_server_idx = 0, uri_protocol = protocol, uri_user_uri = user_uri, uri_device = device,
            uri_interface = interface, uri_ip = ip, uri_client_uri = CharStruct_default (mem 0),
            uri_server_uri = CharStruct_default (mem 1), uri_endpoint_uri = CharStruct_default (mem 2), uri_port = 9000\<rparr>)))))"

section \<open>What the constructor computes\<close>

definition denotes :: "charstruct result \<Rightarrow> string \<Rightarrow> bool" where
  "denotes r s \<longleftrightarrow> (\<exists>c. r = Inr c \<and> wf_cs c \<and> visible c = s)"

lemma denotesE: "denotes r s \<Longrightarrow> (\<And>c. r = Inr c \<Longrightarrow> wf_cs c \<Longrightarrow> visible c = s \<Longrightarrow> P) \<Longrightarrow> P"
  by (auto simp: denotes_def)

lemma denotes_of: "NUL \<notin> set s \<Longrightarrow> length s < cs_capacity \<Longrightarrow> denotes (cs_of s) s"
  using CharStruct_cstr_visible [of fresh_mem s] by (simp add: denotes_def cs_of_def)

lemma denotes_Inr: "wf_cs c \<Longrightarrow> denotes (Inr c) (visible c)"
  by (simp add: denotes_def)

lemma denotes_cat:
  "denotes a s \<Longrightarrow> denotes b t \<Longrightarrow> length s + length t < cs_capacity \<Longrightarrow> denotes (cs_cat a b) (s @ t)"
  by (auto simp: denotes_def cs_cat_def cs_plus_visible)

lemma denotes_app:
  "denotes a s \<Longrightarrow> denotes b t \<Longrightarrow> length s + length t < cs_capacity \<Longrightarrow> denotes (cs_app a b) (s @ t)"
  by (auto simp: denotes_def cs_app_def cs_append_visible)

lemma denotes_assign:
  assumes "wf_cs c" "wf_cs d"
  shows "denotes (cs_assign c d) (visible d)"
  using assms length_visible [OF assms(2)]
  by (simp add: denotes_def cs_assign_def cs_c_str_def strcpy_def wf_cs_def) (simp add: visible_def)

lemma denotes_copy: "wf_cs c \<Longrightarrow> denotes (CharStruct_copy fresh_mem c) (visible c)"
  using CharStruct_cstr_visible [of fresh_mem "visible c"] length_visible [of c]
  by (simp add: denotes_def CharStruct_copy_def)

text \<open>A URI built from the copy that another one keeps is the same.\<close>

lemma URI_ctor_again:
  assumes "wf_cs u" "URI_ctor i u h0 p0 = Inr first"
  shows "URI_ctor 0 (uri_user_uri first) h p = URI_ctor j u h p"
proof -
  have "CharStruct_copy fresh_mem u = Inr (uri_user_uri first)"
    using assms(2) by (auto simp: URI_ctor_def Let_def)
  moreover obtain c where "CharStruct_copy fresh_mem u = Inr c" "wf_cs c" "visible c = visible u"
    using denotes_copy [OF assms(1)] by (rule denotesE)
  ultimately have c: "wf_cs (uri_user_uri first)" "visible (uri_user_uri first) = visible u" by simp_all
  then have "CharStruct_copy fresh_mem (uri_user_uri first) = CharStruct_copy fresh_mem u"
    "cs_string (uri_user_uri first) = cs_string u"
    using assms(1) by (simp_all add: CharStruct_copy_def cs_string_def)
  then show ?thesis unfolding URI_ctor_def by simp
qed

lemmas denotes_intros = denotes_of denotes_Inr denotes_cat denotes_app denotes_assign denotes_copy

text \<open>The documented format \<^verbatim>\<open>PROTOCOL://DEVICE/INTERFACE\<close>.\<close>

lemma parse_uri_format:
  assumes "CHR '':'' \<notin> set p" "CHR ''/'' \<notin> set d"
  shows "parse_uri (p @ ''://'' @ d @ ''/'' @ i) = Inr (p, d, i)"
proof -
  have f1: "find_sub ''://'' (p @ ''://'' @ d @ ''/'' @ i) = Some (length p)"
    by (rule find_sub_first) (use assms in auto)
  have f2: "find_sub ''/'' (d @ ''/'' @ i) = Some (length d)"
    by (rule find_sub_first) (use assms in auto)
  show ?thesis
    using f1 f2 by (simp add: parse_uri_def Let_def std_substr_def numeral_3_eq_3)
qed

lemma parse_uri_protocol_only:
  assumes "CHR '':'' \<notin> set p"
  shows "parse_uri (p @ ''://'') = Inr (p, '''', '''')" and "parse_uri p = Inr (p, '''', '''')"
proof -
  have "find_sub ''://'' (p @ ''://'' @ []) = Some (length p)"
    by (rule find_sub_first) (use assms in auto)
  then show "parse_uri (p @ ''://'') = Inr (p, '''', '''')"
    by (simp add: parse_uri_def Let_def numeral_3_eq_3)
  show "parse_uri p = Inr (p, '''', '''')"
    using assms by (simp add: parse_uri_def find_sub_None)
qed

definition wf_uri :: "uri \<Rightarrow> bool" where
  "wf_uri r \<longleftrightarrow> wf_cs (uri_protocol r) \<and> wf_cs (uri_user_uri r) \<and> wf_cs (uri_device r)
     \<and> wf_cs (uri_interface r) \<and> wf_cs (uri_ip r) \<and> wf_cs (uri_client_uri r)
     \<and> wf_cs (uri_server_uri r) \<and> wf_cs (uri_endpoint_uri r)"

text \<open>All that can be observed of an address: its numbers and its visible strings.\<close>

definition uri_view :: "uri \<Rightarrow> u16 \<times> string list \<times> u16" where
  "uri_view r = (uri_server_idx r,
     map visible [uri_protocol r, uri_user_uri r, uri_device r, uri_interface r, uri_ip r,
       uri_client_uri r, uri_server_uri r, uri_endpoint_uri r], uri_port r)"

lemma length_to_string_u16: "length (to_string (unat (w :: u16))) \<le> 5"
proof -
  have "unat w < 2 ^ LENGTH(16)" by (rule unsigned_less)
  then have "unat w < 10 ^ Suc 4" by simp
  then show ?thesis using length_to_string_bound [of "unat w" 4] by simp
qed

lemma URI_ctor_parsed:
  assumes wf: "wf_cs u" "wf_cs h"
    and parsed: "parse_uri (visible u) = Inr (p, d, i)"
    and nul: "NUL \<notin> set p" "NUL \<notin> set d" "NUL \<notin> set i"
    and len: "length p + length d + length (visible h) \<le> 240" "length p + length d + length i \<le> 240"
  shows "\<exists>r. URI_ctor idx u h prt = Inr r
    \<and> visible (uri_server_uri r) =
        p @ ''://'' @ (if d = [] then [] else d @ ''/'') @ visible h @ '':'' @ to_string (unat prt)
    \<and> visible (uri_client_uri r) = p @ ''://'' @ visible h @ '':'' @ to_string (unat prt)
    \<and> visible (uri_endpoint_uri r) = p @ ''://'' @ (if d = [] then [] else d @ ''/'') @ i
    \<and> uri_port r = prt \<and> uri_server_idx r = 0
    \<and> wf_uri r"
proof -
  let ?t = "to_string (unat prt)"
  have t: "length ?t \<le> 5" by (rule length_to_string_u16)
  have nc: "NUL \<noteq> CHR '':''" "NUL \<noteq> CHR ''/''" by (simp_all add: NUL_def)
  have lh: "length (visible h) < cs_capacity" using wf(2) by (rule length_visible)
  obtain uu where uu: "CharStruct_copy fresh_mem u = Inr uu" "wf_cs uu"
    using denotes_copy [OF wf(1)] by (auto simp: denotes_def)
  obtain cp where cp: "cs_of p = Inr cp" "wf_cs cp" "visible cp = p"
    using denotes_of [OF nul(1)] len by (auto simp: denotes_def)
  obtain cd where cd: "cs_of d = Inr cd" "wf_cs cd" "visible cd = d"
    using denotes_of [OF nul(2)] len by (auto simp: denotes_def)
  obtain ci where ci: "cs_of i = Inr ci" "wf_cs ci" "visible ci = i"
    using denotes_of [OF nul(3)] len by (auto simp: denotes_def)
  obtain e where e: "cs_of '''' = Inr e" "wf_cs e"
    using denotes_of [of "''''"] by (auto simp: denotes_def)
  obtain ch where ch: "cs_assign e h = Inr ch" "wf_cs ch" "visible ch = visible h"
    using denotes_assign [OF e(2) wf(2)] by (auto simp: denotes_def)
  define address where "address = cs_cat (cs_cat (Inr ch) (cs_of '':'')) (cs_of ?t)"
  define scheme where "scheme = cs_cat (Inr cp) (cs_of ''://'')"
  define dev where "dev = cs_cat (Inr cd) (cs_of ''/'')"
  define pre where "pre = (if d = [] then scheme else cs_app scheme dev)"
  have a: "denotes address ((visible ch @ '':'') @ ?t)"
    unfolding address_def by (intro denotes_intros) (use ch len t nc in auto)
  have s: "denotes scheme (visible cp @ ''://'')"
    unfolding scheme_def by (intro denotes_intros) (use cp len nc in auto)
  have dv: "denotes dev (visible cd @ ''/'')"
    unfolding dev_def by (intro denotes_intros) (use cd len nc in auto)
  define dp where "dp = (if d = [] then [] else d @ ''/'')"
  have dp: "length dp \<le> Suc (length d)" by (simp add: dp_def)
  have pr: "denotes pre (p @ ''://'' @ dp)"
    unfolding pre_def dp_def using s denotes_app [OF s dv] len cp cd by simp
  obtain su where su: "cs_app pre address = Inr su" "wf_cs su" 
      "visible su = (p @ ''://'' @ dp) @ ((visible h @ '':'') @ ?t)"
    using denotes_app [OF pr a] len t ch dp by (auto simp: denotes_def)
  obtain cu where cu: "cs_app scheme address = Inr cu" "wf_cs cu"
      "visible cu = (p @ ''://'') @ ((visible h @ '':'') @ ?t)"
    using denotes_app [OF s a] len t ch cp by (auto simp: denotes_def)
  obtain eu where eu: "cs_app pre (Inr ci) = Inr eu" "wf_cs eu" 
      "visible eu = (p @ ''://'' @ dp) @ i"
    using denotes_app [OF pr denotes_Inr [OF ci(2)]] ci(3) len dp by (auto simp: denotes_def)
  show ?thesis
    using wf parsed uu cp cd ci e ch su cu eu
    by (cases "d = []")
       (simp_all add: URI_ctor_def cs_string_def cs_size_def Let_def address_def [symmetric]
          scheme_def [symmetric] dev_def [symmetric] pre_def dp_def wf_uri_def)
qed

section \<open>Copies\<close>

lemma CharStruct_copyE:
  assumes "wf_cs c"
  obtains d where "CharStruct_copy fresh_mem c = Inr d" "wf_cs d" "visible d = visible c"
  using denotes_copy [OF assms] by (auto simp: denotes_def)

lemma URI_copy_view:
  assumes "wf_uri r"
  shows "\<exists>r'. URI_copy r = Inr r' \<and> wf_uri r' \<and> uri_view r' = uri_view r"
proof -
  have wf: "wf_cs (uri_protocol r)" "wf_cs (uri_user_uri r)" "wf_cs (uri_device r)"
    "wf_cs (uri_interface r)" "wf_cs (uri_ip r)" "wf_cs (uri_client_uri r)"
    "wf_cs (uri_server_uri r)" "wf_cs (uri_endpoint_uri r)"
    using assms by (simp_all add: wf_uri_def)
  show ?thesis
    by (rule CharStruct_copyE [OF wf(1)], rule CharStruct_copyE [OF wf(2)],
        rule CharStruct_copyE [OF wf(3)], rule CharStruct_copyE [OF wf(4)],
        rule CharStruct_copyE [OF wf(5)], rule CharStruct_copyE [OF wf(6)],
        rule CharStruct_copyE [OF wf(7)], rule CharStruct_copyE [OF wf(8)])
       (simp add: URI_copy_def wf_uri_def uri_view_def)
qed

lemma URI_move_endpoint:
  "URI_move mem r = Inr r' \<Longrightarrow> cs_value (uri_endpoint_uri r') = mem"
  by (auto simp: URI_move_def CharStruct_default_def)

end
