(* ===== verification/Hcl_Config.thy ===== *)
theory Hcl_Config
  imports Hcl_Uri "HOL-Library.AList"
begin

text \<open>
  \<^verbatim>\<open>ConfigurationManager\<close> (\<^verbatim>\<open>src/hcl/common/configuration_manager.cpp\<close>), the library object
  \<^verbatim>\<open>HCL\<close> (\<^verbatim>\<open>src/hcl/hcl_internal.cpp\<close>) and the start-up part of \<^verbatim>\<open>RPC\<close>
  (\<^verbatim>\<open>src/hcl/communication/rpc_lib.cpp\<close>). The build is the one with Thallium. The state of
  one process is a record; a thrown exception leaves the assignments made before it, so the
  operations of \<^verbatim>\<open>HCL\<close> return the state beside their result. Files are read through
  \<open>files\<close>, the lines of each file that can be opened.
\<close>

section \<open>Records\<close>

datatype RPCImplementation = THALLIUM

record configuration =
  RPC_PORT :: u16
  RPC_THREADS :: u16
  RPC_IMPLEMENTATION :: RPCImplementation
  conf_URI :: charstruct
  MEMORY_ALLOCATED :: u64
  IS_SERVER :: bool
  MY_SERVER :: u16
  NUM_SERVERS :: u32
  SERVER_ON_NODE :: bool
  SERVER_LIST_PATH :: charstruct
  SERVER_LIST :: "charstruct list"
  BACKED_FILE_DIR :: charstruct
  DYN_CONFIG :: bool

text \<open>
  The Thallium engine. It is held in \<^verbatim>\<open>Singleton<tl::engine>\<close>, so a process has at most one:
  the address and mode of the first \<^verbatim>\<open>GetInstance\<close> call.
\<close>

record engine =
  eng_address :: string
  eng_server_mode :: bool
  eng_threads :: nat
  eng_finalized :: bool

record rpc =
  rpc_is_server :: bool
  rpc_my_server_index :: u16
  rpc_threads :: nat
  rpc_uris :: "uri list"
  rpc_engine_init_str :: "charstruct option"
  rpc_has_server_engine :: bool
  rpc_endpoints :: "string list"

record hcl_process =
  conf :: configuration
  engine_instance :: "engine option"
  rpcs :: "(u16 \<times> rpc) list"
  hcl_created :: bool

definition Singleton_GetInstance :: "'a option \<Rightarrow> 'a \<Rightarrow> 'a option" where
  "Singleton_GetInstance inst new = (if inst = None then Some new else inst)"

section \<open>Reading the server list\<close>

definition c_isspace :: "char \<Rightarrow> bool" where
  "c_isspace c \<longleftrightarrow> c \<in> {CHR '' '', CHR 0x09, CHR 0x0A, CHR 0x0B, CHR 0x0C, CHR 0x0D}"

text \<open>\<^verbatim>\<open>atoi\<close>; a value outside \<^verbatim>\<open>int\<close> is undefined behaviour.\<close>

definition atoi :: "string \<Rightarrow> int result" where
  "atoi s =
     (let t = dropWhile c_isspace (cstr s);
          (neg, ds) = (case t of [] \<Rightarrow> (False, [])
                       | c # r \<Rightarrow> if c = CHR ''-'' then (True, r)
                                  else if c = CHR ''+'' then (False, r) else (False, t));
          v = int (digits_val 0 ds);
          n = (if neg then - v else v)
      in if - (2 ^ 31) \<le> n \<and> n < 2 ^ 31 then Inr n else Inl Out_Of_Range)"

text \<open>One non-empty line of the server list: \<^verbatim>\<open>hostname\<close> or \<^verbatim>\<open>hostname:count\<close>.\<close>

definition server_line :: "string \<Rightarrow> (charstruct \<times> int) result" where
  "server_line file_line =
     (case find_sub '':'' file_line of
        Some split_loc \<Rightarrow>
          rbind (cs_of (take split_loc file_line)) (\<lambda>server_node_name.
          rmap (\<lambda>count. (server_node_name, count)) (atoi (drop (split_loc + 1) file_line)))
      | None \<Rightarrow> rmap (\<lambda>server_node_name. (server_node_name, 1)) (cs_of file_line))"

fun load_servers_loop :: "string list \<Rightarrow> charstruct list \<Rightarrow> charstruct list result" where
  "load_servers_loop [] acc = Inr acc"
| "load_servers_loop (l # ls) acc =
     (if l = [] then load_servers_loop ls acc
      else rbind (server_line l) (\<lambda>(name, count).
             load_servers_loop ls (acc @ replicate (nat count) name)))"

definition LoadServers :: "(string \<Rightarrow> string list option) \<Rightarrow> configuration \<Rightarrow> configuration result" where
  "LoadServers files c =
     rmap (\<lambda>l. c\<lparr>SERVER_LIST := l, NUM_SERVERS := of_nat (length l)\<rparr>)
       (case files (visible (SERVER_LIST_PATH c)) of
          Some ls \<Rightarrow> load_servers_loop ls [] | None \<Rightarrow> Inr [])"

definition ConfigureDefaultClient ::
  "(string \<Rightarrow> string list option) \<Rightarrow> string \<Rightarrow> configuration \<Rightarrow> configuration result" where
  "ConfigureDefaultClient files path c =
     rbind (if path \<noteq> [] then rmap (\<lambda>p. c\<lparr>SERVER_LIST_PATH := p\<rparr>) (cs_of path) else Inr c) (\<lambda>c.
     rmap (\<lambda>c. c\<lparr>IS_SERVER := False, MY_SERVER := 0, SERVER_ON_NODE := False\<rparr>)
       (LoadServers files c))"

definition ConfigureDefaultServer ::
  "(string \<Rightarrow> string list option) \<Rightarrow> string \<Rightarrow> configuration \<Rightarrow> configuration result" where
  "ConfigureDefaultServer files path c =
     rbind (if path \<noteq> [] then rmap (\<lambda>p. c\<lparr>SERVER_LIST_PATH := p\<rparr>) (cs_of path) else Inr c) (\<lambda>c.
     rmap (\<lambda>c. c\<lparr>IS_SERVER := True, MY_SERVER := 0, SERVER_ON_NODE := True\<rparr>)
       (LoadServers files c))"

text \<open>The default configuration; \<open>ucx\<close> is the protocol switch of the build.\<close>

definition ConfigurationManager_ctor :: "bool \<Rightarrow> configuration result" where
  "ConfigurationManager_ctor ucx =
     rbind (cs_of (if ucx then ''ucx+tcp://'' else ''ofi+tcp://'')) (\<lambda>u.
     rbind (cs_of '''') (\<lambda>e. rbind (cs_of ''/dev/shm'') (\<lambda>d.
       Inr \<lparr>RPC_PORT = 9000, RPC_THREADS = 1, RPC_IMPLEMENTATION = THALLIUM, conf_URI = u,
            MEMORY_ALLOCATED = 1024 * 1024 * 128, IS_SERVER = False, MY_SERVER = 0,
            NUM_SERVERS = 1, SERVER_ON_NODE = True, SERVER_LIST_PATH = e, SERVER_LIST = [],
            BACKED_FILE_DIR = d, DYN_CONFIG = False\<rparr>)))"

fun load_uri_host ::
  "u16 \<Rightarrow> charstruct \<Rightarrow> charstruct \<Rightarrow> nat \<Rightarrow> u16 \<Rightarrow> uri list \<Rightarrow> (u16 \<times> uri list) result" where
  "load_uri_host prt u name 0 server_index uris = Inr (server_index, uris)"
| "load_uri_host prt u name (Suc k) server_index uris =
     rbind (URI_ctor server_index u name (prt + server_index)) (\<lambda>server_uri.
     rbind (URI_copy server_uri) (\<lambda>pushed.
       load_uri_host prt u name k (server_index + 1) (uris @ [pushed])))"

fun load_uri_loop ::
  "u16 \<Rightarrow> charstruct \<Rightarrow> string list \<Rightarrow> u16 \<Rightarrow> uri list \<Rightarrow> uri list result" where
  "load_uri_loop prt u [] server_index uris = Inr uris"
| "load_uri_loop prt u (l # ls) server_index uris =
     (if l = [] then load_uri_loop prt u ls server_index uris
      else rbind (server_line l) (\<lambda>(name, count).
           rbind (load_uri_host prt u name (nat count) server_index uris) (\<lambda>(server_index, uris).
             load_uri_loop prt u ls server_index uris)))"

definition LoadURI ::
  "(string \<Rightarrow> string list option) \<Rightarrow> u16 \<Rightarrow> charstruct \<Rightarrow> charstruct \<Rightarrow> uri list result" where
  "LoadURI files prt server_list_path u =
     (case files (visible server_list_path) of
        Some ls \<Rightarrow> load_uri_loop prt u ls 0 [] | None \<Rightarrow> Inr [])"

section \<open>The RPC object\<close>

definition rpc_init_engine_and_endpoints ::
  "rpc \<Rightarrow> engine option \<Rightarrow> (rpc \<times> engine option) result" where
  "rpc_init_engine_and_endpoints r inst =
     (if unat (rpc_my_server_index r) < length (rpc_uris r)
      then Inr (r\<lparr>rpc_endpoints := map (\<lambda>u. visible (uri_client_uri u)) (rpc_uris r)\<rparr>,
                Singleton_GetInstance inst
                  \<lparr>eng_address = visible (uri_endpoint_uri (rpc_uris r ! unat (rpc_my_server_index r))),
                   eng_server_mode = False, eng_threads = 0, eng_finalized = False\<rparr>)
      else Inl Out_Of_Range)"

definition rpc_run :: "rpc \<Rightarrow> engine option \<Rightarrow> (rpc \<times> engine option) result" where
  "rpc_run r inst =
     (let (r, inst) =
        (if rpc_is_server r
         then (r\<lparr>rpc_has_server_engine := True\<rparr>,
               Singleton_GetInstance inst
                 \<lparr>eng_address = (case rpc_engine_init_str r of Some s \<Rightarrow> visible s | None \<Rightarrow> ''''),
                  eng_server_mode = True, eng_threads = rpc_threads r, eng_finalized = False\<rparr>)
         else (r, inst))
      in rpc_init_engine_and_endpoints r inst)"

definition RPC_ctor ::
  "bool \<Rightarrow> u16 \<Rightarrow> nat \<Rightarrow> uri list \<Rightarrow> engine option \<Rightarrow> (rpc \<times> engine option) result" where
  "RPC_ctor is_srv my_idx threads uris inst =
     (let r = \<lparr>rpc_is_server = is_srv, rpc_my_server_index = my_idx, rpc_threads = threads,
               rpc_uris = uris, rpc_engine_init_str = None, rpc_has_server_engine = False,
               rpc_endpoints = []\<rparr>
      in if is_srv
         then if unat my_idx < length uris
              then rpc_run (r\<lparr>rpc_engine_init_str := Some (uri_server_uri (uris ! unat my_idx))\<rparr>) inst
              else Inl Out_Of_Range
         else rpc_run r inst)"

definition rpc_Stop :: "configuration \<Rightarrow> rpc \<Rightarrow> engine option \<Rightarrow> (rpc \<times> engine option) result" where
  "rpc_Stop c r inst =
     (if IS_SERVER c
      then if rpc_has_server_engine r
           then Inr (r\<lparr>rpc_endpoints := []\<rparr>, map_option (\<lambda>e. e\<lparr>eng_finalized := True\<rparr>) inst)
           else Inl Null_Deref
      else Inr (r, inst))"

section \<open>The library object\<close>

definition ConfigureInternalEnv :: "string option \<Rightarrow> hcl_process \<Rightarrow> hcl_process result" where
  "ConfigureInternalEnv env p =
     (case env of
        Some uri_str \<Rightarrow> rmap (\<lambda>u. p\<lparr>conf := (conf p)\<lparr>conf_URI := u\<rparr>\<rparr>) (cs_of uri_str)
      | None \<Rightarrow> Inr p)"

text \<open>
  \<^verbatim>\<open>rpcs.insert_or_assign\<close> drops the last reference to an \<^verbatim>\<open>RPC\<close> already registered for the
  port, whose destructor calls \<^verbatim>\<open>Stop\<close>.
\<close>

definition CreateRPC :: "u16 \<Rightarrow> uri list \<Rightarrow> hcl_process \<Rightarrow> unit result \<times> hcl_process" where
  "CreateRPC server_port uris p =
     (case RPC_ctor (IS_SERVER (conf p)) (MY_SERVER (conf p)) (unat (RPC_THREADS (conf p))) uris
             (engine_instance p) of
        Inl e \<Rightarrow> (Inl e, p)
      | Inr (r, inst) \<Rightarrow>
          (let q = p\<lparr>engine_instance := inst, rpcs := AList.update server_port r (rpcs p)\<rparr>
           in case map_of (rpcs p) server_port of
                None \<Rightarrow> (Inr (), q)
              | Some old \<Rightarrow>
                  (case rpc_Stop (conf p) old inst of
                     Inl e \<Rightarrow> (Inl e, q)
                   | Inr (_, inst) \<Rightarrow> (Inr (), q\<lparr>engine_instance := inst\<rparr>))))"

text \<open>The parameters of \<^verbatim>\<open>ConfigureInternal\<close>, with the value that means \<open>keep\<close> for each.\<close>

record hcl_args =
  a_port :: u16                \<comment> \<open>0\<close>
  a_num_servers :: u16         \<comment> \<open>0\<close>
  a_my_server_idx :: "16 word" \<comment> \<open>\<^verbatim>\<open>int16_t\<close>, -1\<close>
  a_memory_allocated :: u64    \<comment> \<open>0\<close>
  a_is_server :: "16 word"     \<comment> \<open>\<^verbatim>\<open>int16_t\<close>, -1\<close>
  a_server_on_node :: "16 word" \<comment> \<open>\<^verbatim>\<open>int16_t\<close>, -1\<close>
  a_backed_file_dir :: charstruct
  a_server_list_path :: charstruct
  a_uri :: charstruct

definition apply_args :: "hcl_args \<Rightarrow> configuration \<Rightarrow> configuration" where
  "apply_args a c =
     (let c = (if a_port a \<noteq> 0 then c\<lparr>RPC_PORT := a_port a\<rparr> else c);
          c = (if a_num_servers a \<noteq> 0 then c\<lparr>NUM_SERVERS := ucast (a_num_servers a)\<rparr> else c);
          c = (if a_my_server_idx a \<noteq> -1 then c\<lparr>MY_SERVER := a_my_server_idx a\<rparr> else c);
          c = (if a_memory_allocated a \<noteq> 0 then c\<lparr>MEMORY_ALLOCATED := a_memory_allocated a\<rparr> else c);
          c = (if a_is_server a \<noteq> -1 then c\<lparr>IS_SERVER := (a_is_server a = 1)\<rparr> else c);
          c = (if a_server_on_node a \<noteq> -1 then c\<lparr>SERVER_ON_NODE := (a_server_on_node a = 1)\<rparr> else c);
          c = (if visible (a_backed_file_dir a) \<noteq> [] then c\<lparr>BACKED_FILE_DIR := a_backed_file_dir a\<rparr> else c);
          c = (if visible (a_server_list_path a) \<noteq> [] then c\<lparr>SERVER_LIST_PATH := a_server_list_path a\<rparr> else c)
      in if visible (a_uri a) \<noteq> [] then c\<lparr>conf_URI := a_uri a\<rparr> else c)"

definition ConfigureInternal ::
  "(string \<Rightarrow> string list option) \<Rightarrow> bool \<Rightarrow> hcl_args \<Rightarrow> hcl_process \<Rightarrow> unit result \<times> hcl_process" where
  "ConfigureInternal files initialize a p =
     (let previous_port = RPC_PORT (conf p);
          c = apply_args a (conf p);
          p = p\<lparr>conf := c\<rparr>;
          relocated = (visible (a_server_list_path a) \<noteq> [] \<or> visible (a_uri a) \<noteq> [])
      in if \<not> initialize \<and> previous_port = RPC_PORT c \<and> relocated
         then (Inl (Logic_Error ''To change the server list or URI use a new port''), p)
         else if initialize \<or> relocated \<or> previous_port \<noteq> RPC_PORT c
         then (case LoadURI files (RPC_PORT c) (SERVER_LIST_PATH c) (conf_URI c) of
                 Inl e \<Rightarrow> (Inl e, p)
               | Inr uris \<Rightarrow>
                   (let p = (if length uris \<noteq> unat (NUM_SERVERS c)
                             then p\<lparr>conf := c\<lparr>NUM_SERVERS := of_nat (length uris)\<rparr>\<rparr> else p)
                    in CreateRPC (RPC_PORT c) uris p))
         else (Inr (), p))"

definition HCL_ctor ::
  "(string \<Rightarrow> string list option) \<Rightarrow> string option \<Rightarrow> hcl_args \<Rightarrow> hcl_process \<Rightarrow> unit result \<times> hcl_process" where
  "HCL_ctor files env a p =
     (case ConfigureInternalEnv env (p\<lparr>rpcs := []\<rparr>) of
        Inl e \<Rightarrow> (Inl e, p)
      | Inr p \<Rightarrow> ConfigureInternal files True a p)"

text \<open>\<^verbatim>\<open>HCL::GetInstance\<close>: \<^verbatim>\<open>instance\<close> is only set when the constructor returns.\<close>

definition HCL_GetInstance ::
  "(string \<Rightarrow> string list option) \<Rightarrow> string option \<Rightarrow> bool \<Rightarrow> hcl_args \<Rightarrow> hcl_process
     \<Rightarrow> unit result \<times> hcl_process" where
  "HCL_GetInstance files env initialize a p =
     (if hcl_created p then (Inr (), p)
      else if initialize
      then (case HCL_ctor files env a p of
              (Inl e, p) \<Rightarrow> (Inl e, p)
            | (Inr _, p) \<Rightarrow> (Inr (), p\<lparr>hcl_created := True\<rparr>))
      else (Inl (Logic_Error ''HCL was not initialized''), p))"

definition HCL_ReConfigure ::
  "(string \<Rightarrow> string list option) \<Rightarrow> hcl_args \<Rightarrow> hcl_process \<Rightarrow> unit result \<times> hcl_process" where
  "HCL_ReConfigure files a p = ConfigureInternal files False a p"

definition GetRPC :: "hcl_process \<Rightarrow> u16 \<Rightarrow> rpc result" where
  "GetRPC p server_port =
     (case map_of (rpcs p) server_port of
        Some r \<Rightarrow> Inr r
      | None \<Rightarrow> Inl (Logic_Error ''RPC is not initialized, ReConfigure HCL and then create the datastructure on new port.''))"

fun stop_all :: "configuration \<Rightarrow> (u16 \<times> rpc) list \<Rightarrow> engine option \<Rightarrow> engine option result" where
  "stop_all c [] inst = Inr inst"
| "stop_all c ((k, r) # rs) inst = rbind (rpc_Stop c r inst) (\<lambda>(_, inst). stop_all c rs inst)"

definition HCL_Finalize :: "hcl_process \<Rightarrow> hcl_process result" where
  "HCL_Finalize p =
     rmap (\<lambda>inst. p\<lparr>rpcs := [], engine_instance := inst\<rparr>)
       (stop_all (conf p) (rpcs p) (engine_instance p))"

section \<open>The server list and the addresses\<close>

text \<open>A server list as documented: one \<^verbatim>\<open>hostname:count\<close> per line.\<close>

definition render_entry :: "string \<times> nat \<Rightarrow> string" where
  "render_entry e = fst e @ '':'' @ to_string (snd e)"

definition wf_entry :: "string \<times> nat \<Rightarrow> bool" where
  "wf_entry e \<longleftrightarrow> CHR '':'' \<notin> set (fst e) \<and> NUL \<notin> set (fst e) \<and> length (fst e) \<le> 200 \<and> snd e < 2 ^ 31"

definition hosts_of :: "(string \<times> nat) list \<Rightarrow> string list" where
  "hosts_of es = concat (map (\<lambda>(h, c). replicate c h) es)"

definition client_address :: "string \<Rightarrow> string \<Rightarrow> u16 \<Rightarrow> string" where
  "client_address p h prt = p @ ''://'' @ h @ '':'' @ to_string (unat prt)"

fun client_addresses :: "string \<Rightarrow> u16 \<Rightarrow> string list \<Rightarrow> string list" where
  "client_addresses p q [] = []"
| "client_addresses p q (h # hs) = client_address p h q # client_addresses p (q + 1) hs"

lemma atoi_to_string: "n < 2 ^ 31 \<Longrightarrow> atoi (to_string n) = Inr (int n)"
proof -
  assume n: "n < 2 ^ 31"
  obtain c r where cr: "to_string n = c # r"
    by (metis append_is_Nil_conv list.exhaust not_Cons_self2 to_string.simps)
  then have "is_digit c" using to_string_digits [of n] by simp
  then have c: "\<not> c_isspace c" "c \<noteq> CHR ''-''" "c \<noteq> CHR ''+''"
    by (auto simp: is_digit_def c_isspace_def)
  have "digits_val 0 (c # r) = n"
    using digits_val_to_string [of n] cr by simp
  moreover have "NUL \<notin> set (c # r)"
    using NUL_to_string [of n] cr by simp
  ultimately show ?thesis
    using n c cr by (simp add: atoi_def Let_def del: digits_val.simps)
qed

lemma server_line_render:
  assumes "wf_entry e"
  shows "\<exists>n. server_line (render_entry e) = Inr (n, int (snd e)) \<and> wf_cs n \<and> visible n = fst e"
proof -
  have "find_sub '':'' (fst e @ '':'' @ to_string (snd e)) = Some (length (fst e))"
    by (rule find_sub_first) (use assms in \<open>auto simp: wf_entry_def\<close>)
  moreover obtain n where "cs_of (fst e) = Inr n" "wf_cs n" "visible n = fst e"
    using denotes_of [of "fst e"] assms by (auto simp: wf_entry_def denotes_def)
  ultimately show ?thesis
    using assms by (simp add: server_line_def render_entry_def wf_entry_def atoi_to_string)
qed

lemma render_entry_nonempty [simp]: "render_entry e \<noteq> []"
  by (simp add: render_entry_def)

lemma load_servers_loop_render:
  assumes "\<forall>e \<in> set es. wf_entry e"
  shows "\<exists>l. load_servers_loop (map render_entry es) acc = Inr (acc @ l) \<and> map visible l = hosts_of es"
  using assms
proof (induction es arbitrary: acc)
  case Nil
  then show ?case by (simp add: hosts_of_def)
next
  case (Cons e es)
  obtain n where n: "server_line (render_entry e) = Inr (n, int (snd e))" "visible n = fst e"
    using server_line_render [of e] Cons.prems by auto
  obtain l where "load_servers_loop (map render_entry es) (acc @ replicate (snd e) n) =
      Inr ((acc @ replicate (snd e) n) @ l)" "map visible l = hosts_of es"
    using Cons by (metis list.set_intros(2))
  with n show ?case by (simp add: hosts_of_def split: prod.splits)
qed

text \<open>The bounds under which no address overflows its 256 bytes.\<close>

definition addresses_fit :: "charstruct \<Rightarrow> string \<Rightarrow> string \<Rightarrow> string \<Rightarrow> bool" where
  "addresses_fit u p d i \<longleftrightarrow> wf_cs u \<and> parse_uri (visible u) = Inr (p, d, i)
     \<and> NUL \<notin> set p \<and> NUL \<notin> set d \<and> NUL \<notin> set i \<and> length p + length d + length i \<le> 40"

lemma load_uri_host_ok:
  assumes "addresses_fit u p d i" "wf_cs name" "length (visible name) \<le> 200"
  shows "\<exists>new. load_uri_host prt u name k idx uris = Inr (idx + of_nat k, uris @ new)
    \<and> map (\<lambda>r. visible (uri_client_uri r)) new =
        client_addresses p (prt + idx) (replicate k (visible name))
    \<and> (\<forall>r \<in> set new. wf_uri r)"
proof (induction k arbitrary: idx uris)
  case 0
  then show ?case by simp
next
  case (Suc k)
  obtain r where r: "URI_ctor idx u name (prt + idx) = Inr r" "wf_uri r"
      "visible (uri_client_uri r) = client_address p (visible name) (prt + idx)"
    using URI_ctor_parsed [of u name p d i idx "prt + idx"] assms
    by (auto simp: addresses_fit_def client_address_def)
  obtain r' where r': "URI_copy r = Inr r'" "wf_uri r'" "uri_view r' = uri_view r"
    using URI_copy_view [OF r(2)] by blast
  obtain new where "load_uri_host prt u name k (idx + 1) (uris @ [r']) =
      Inr (idx + 1 + of_nat k, (uris @ [r']) @ new)"
    "map (\<lambda>r. visible (uri_client_uri r)) new =
      client_addresses p (prt + (idx + 1)) (replicate k (visible name))"
    "\<forall>r \<in> set new. wf_uri r"
    using Suc.IH [of "idx + 1" "uris @ [r']"] by auto
  with r r' show ?case
    by (intro exI [of _ "r' # new"]) (simp add: uri_view_def algebra_simps)
qed

lemma client_addresses_append:
  "client_addresses p q (hs @ hs') =
     client_addresses p q hs @ client_addresses p (q + of_nat (length hs)) hs'"
  by (induction hs arbitrary: q) (simp_all add: algebra_simps)

lemma load_uri_loop_render:
  assumes "addresses_fit u p d i" "\<forall>e \<in> set es. wf_entry e"
  shows "\<exists>new. load_uri_loop prt u (map render_entry es) idx uris = Inr (uris @ new)
    \<and> map (\<lambda>r. visible (uri_client_uri r)) new = client_addresses p (prt + idx) (hosts_of es)
    \<and> (\<forall>r \<in> set new. wf_uri r)"
  using assms(2)
proof (induction es arbitrary: idx uris)
  case Nil
  then show ?case by (simp add: hosts_of_def)
next
  case (Cons e es)
  obtain n where n: "server_line (render_entry e) = Inr (n, int (snd e))" "wf_cs n" "visible n = fst e"
    using server_line_render [of e] Cons.prems by auto
  moreover have "length (visible n) \<le> 200"
    using Cons.prems n by (simp add: wf_entry_def)
  ultimately obtain new where new:
      "load_uri_host prt u n (snd e) idx uris = Inr (idx + of_nat (snd e), uris @ new)"
      "map (\<lambda>r. visible (uri_client_uri r)) new = client_addresses p (prt + idx) (replicate (snd e) (fst e))"
      "\<forall>r \<in> set new. wf_uri r"
    using load_uri_host_ok [OF assms(1), of n prt "snd e" idx uris] by auto
  obtain new' where
      "load_uri_loop prt u (map render_entry es) (idx + of_nat (snd e)) (uris @ new) =
         Inr ((uris @ new) @ new')"
      "map (\<lambda>r. visible (uri_client_uri r)) new' =
         client_addresses p (prt + (idx + of_nat (snd e))) (hosts_of es)"
      "\<forall>r \<in> set new'. wf_uri r"
    using Cons.IH [of "idx + of_nat (snd e)" "uris @ new"] Cons.prems by auto
  with n new show ?case
    by (intro exI [of _ "new @ new'"])
       (auto simp: hosts_of_def client_addresses_append algebra_simps split: prod.splits)
qed

lemma length_client_addresses [simp]: "length (client_addresses p q hs) = length hs"
  by (induction hs arbitrary: q) auto

lemma nth_client_addresses:
  "i < length hs \<Longrightarrow> client_addresses p q hs ! i = client_address p (hs ! i) (q + of_nat i)"
proof (induction hs arbitrary: q i)
  case (Cons h hs)
  then show ?case by (cases i) (simp_all add: algebra_simps)
qed simp

lemma split_at_last_colon:
  assumes "a @ '':'' @ t = b @ '':'' @ t'" "CHR '':'' \<notin> set t" "CHR '':'' \<notin> set t'"
  shows "t = t'"
proof -
  have *: "takeWhile (\<lambda>c. c \<noteq> CHR '':'') (rev (x @ '':'' @ s)) = rev s"
    if "CHR '':'' \<notin> set s" for x s :: string
    using that by (simp add: takeWhile_append takeWhile_eq_all_conv)
  from assms have "rev t = rev t'" by (metis *)
  then show ?thesis by simp
qed

lemma client_address_port:
  assumes "client_address p h q = client_address p' h' q'"
  shows "q = q'"
proof -
  have nc: "CHR '':'' \<notin> set (to_string n)" for n
    using to_string_digits [of n] by (auto simp: is_digit_def)
  from assms have "(p @ ''://'' @ h) @ '':'' @ to_string (unat q) =
      (p' @ ''://'' @ h') @ '':'' @ to_string (unat q')"
    by (simp add: client_address_def)
  then have "to_string (unat q) = to_string (unat q')"
    using nc nc by (rule split_at_last_colon)
  then show ?thesis by (simp add: word_unat_eq_iff)
qed

lemma distinct_client_addresses:
  assumes "length hs \<le> 2 ^ 16"
  shows "distinct (client_addresses p q hs)"
proof (unfold distinct_conv_nth, intro allI impI)
  fix i j
  assume ij: "i < length (client_addresses p q hs)" "j < length (client_addresses p q hs)" "i \<noteq> j"
  then have b: "i < 2 ^ LENGTH(16)" "j < 2 ^ LENGTH(16)" using assms by auto
  show "client_addresses p q hs ! i \<noteq> client_addresses p q hs ! j"
  proof
    assume "client_addresses p q hs ! i = client_addresses p q hs ! j"
    then have "q + of_nat i = q + (of_nat j :: u16)"
      using ij by (intro client_address_port [of p "hs ! i" _ p "hs ! j"])
        (simp add: nth_client_addresses)
    then have "(of_nat i :: u16) = of_nat j" by simp
    then have "i = j" using b by (metis of_nat_inverse)
    with ij show False by simp
  qed
qed

section \<open>Properties\<close>

lemma server_list_loads:
  assumes "addresses_fit u p d i" "\<forall>e \<in> set es. wf_entry e"
    and "files (visible path) = Some (map render_entry es)"
  shows "\<exists>uris. LoadURI files prt path u = Inr uris
    \<and> map (\<lambda>r. visible (uri_client_uri r)) uris = client_addresses p prt (hosts_of es)
    \<and> (\<forall>r \<in> set uris. wf_uri r)"
  using load_uri_loop_render [OF assms(1,2), of prt 0 "[]"] assms(3) by (auto simp: LoadURI_def)

definition ex_conf :: configuration where
  "ex_conf = \<lparr>RPC_PORT = 9000, RPC_THREADS = 1, RPC_IMPLEMENTATION = THALLIUM,
     conf_URI = \<lparr>cs_value = ''ofi+tcp://'' @ NUL # replicate 245 NUL\<rparr>, MEMORY_ALLOCATED = 1048576, IS_SERVER = True,
     MY_SERVER = 0, NUM_SERVERS = 1, SERVER_ON_NODE = True, SERVER_LIST_PATH = \<lparr>cs_value = ''s'' @ NUL # replicate 254 NUL\<rparr>,
     SERVER_LIST = [], BACKED_FILE_DIR = \<lparr>cs_value = ''d'' @ NUL # replicate 254 NUL\<rparr>, DYN_CONFIG = False\<rparr>"

abbreviation ex_proc :: hcl_process where
  "ex_proc \<equiv> \<lparr>conf = ex_conf, engine_instance = Some \<lparr>eng_address = ''ofi+tcp://n1:9000'', eng_server_mode = True,
     eng_threads = 1, eng_finalized = False\<rparr>, rpcs = [], hcl_created = True\<rparr>"

text \<open>Arguments that name a port and a server list.\<close>

definition ex_args :: "u16 \<Rightarrow> string \<Rightarrow> hcl_args" where
  "ex_args prt path = \<lparr>a_port = prt, a_num_servers = 0, a_my_server_idx = - 1, a_memory_allocated = 0,
     a_is_server = - 1, a_server_on_node = - 1, a_backed_file_dir = \<lparr>cs_value = [NUL]\<rparr>,
     a_server_list_path = \<lparr>cs_value = path @ [NUL]\<rparr>, a_uri = \<lparr>cs_value = [NUL]\<rparr>\<rparr>"

lemma ex_conf_fits: "addresses_fit (conf_URI ex_conf) ''ofi+tcp'' [] []"
proof -
  have "visible (conf_URI ex_conf) = ''ofi+tcp'' @ ''://''" by (simp add: ex_conf_def visible_def NUL_def cstr_def)
  then show ?thesis
    using parse_uri_protocol_only(1) [of "''ofi+tcp''"] by (simp add: addresses_fit_def ex_conf_def wf_cs_def NUL_def)
qed

text \<open>
  C27. The server list round trip: from a file of \<^verbatim>\<open>hostname:count\<close> lines \<^verbatim>\<open>LoadServers\<close> recovers every host as
  often as its count, in order, with their number in \<^verbatim>\<open>NUM_SERVERS\<close>; \<^verbatim>\<open>LoadURI\<close> gives server \<open>j\<close> the address
  \<^verbatim>\<open>protocol://host:port+j\<close>, and no two of up to \<open>2 ^ 16\<close> servers share an address.
\<close>

theorem server_list_roundtrip:
  assumes "addresses_fit u p d i" "\<forall>e \<in> set es. wf_entry e" "length (hosts_of es) \<le> 2 ^ 16"
    and "files (visible (SERVER_LIST_PATH c)) = Some (map render_entry es)"
  shows "\<exists>c' uris. LoadServers files c = Inr c' \<and> map visible (SERVER_LIST c') = hosts_of es
    \<and> NUM_SERVERS c' = of_nat (length (hosts_of es))
    \<and> LoadURI files prt (SERVER_LIST_PATH c) u = Inr uris \<and> length uris = length (hosts_of es)
    \<and> (\<forall>j < length uris. visible (uri_client_uri (uris ! j)) =
          p @ ''://'' @ hosts_of es ! j @ '':'' @ to_string (unat (prt + of_nat j)))
    \<and> distinct (map (\<lambda>r. visible (uri_client_uri r)) uris)"
proof -
  obtain l where l: "load_servers_loop (map render_entry es) [] = Inr l" "map visible l = hosts_of es"
    using load_servers_loop_render [OF assms(2), of "[]"] by auto
  then have len: "length l = length (hosts_of es)" by (metis length_map)
  obtain uris where uris: "LoadURI files prt (SERVER_LIST_PATH c) u = Inr uris"
      "map (\<lambda>r. visible (uri_client_uri r)) uris = client_addresses p prt (hosts_of es)"
    using server_list_loads [of u p d i es files "SERVER_LIST_PATH c" prt, OF assms(1,2,4)] by blast
  have "length uris = length (hosts_of es)" by (metis length_client_addresses length_map uris(2))
  moreover have "visible (uri_client_uri (uris ! j)) =
      p @ ''://'' @ hosts_of es ! j @ '':'' @ to_string (unat (prt + of_nat j))" if "j < length uris" for j
    using arg_cong [OF uris(2), of "\<lambda>xs. xs ! j"] that calculation
    by (simp add: nth_client_addresses client_address_def)
  moreover have "distinct (map (\<lambda>r. visible (uri_client_uri r)) uris)"
    unfolding uris(2) using assms(3) by (rule distinct_client_addresses)
  ultimately show ?thesis using assms(4) l len uris(1) by (auto simp: LoadServers_def)
qed

theorem server_list_roundtrip_witness:
  "\<exists>c' uris. LoadServers (\<lambda>_. Some [''n1:2'', ''n2:1'']) ex_conf = Inr c' \<and> map visible (SERVER_LIST c') = [''n1'', ''n1'', ''n2'']
    \<and> LoadURI (\<lambda>_. Some [''n1:2'', ''n2:1'']) 9000 (SERVER_LIST_PATH ex_conf) (conf_URI ex_conf) = Inr uris
    \<and> visible (uri_client_uri (uris ! 2)) = ''ofi+tcp://n2:9002''"
proof -
  let ?es = "[(''n1'', 2), (''n2'', 1)] :: (string \<times> nat) list"
  have r: "map render_entry ?es = [''n1:2'', ''n2:1'']" by code_simp
  have h: "hosts_of ?es = [''n1'', ''n1'', ''n2'']" by (simp add: hosts_of_def numeral_2_eq_2)
  have t: "to_string 9002 = ''9002''" by (simp add: to_string.simps digit_char_def char_of_def bit_0)
  have w: "\<forall>e \<in> set ?es. wf_entry e" by (simp add: wf_entry_def NUL_def)
  show ?thesis
    using server_list_roundtrip [OF ex_conf_fits w, of "\<lambda>_. Some (map render_entry ?es)" ex_conf 9000]
    unfolding r h by (auto simp: t)
qed

lemma RPC_ctor_ok:
  assumes "unat idx < length uris"
  shows "\<exists>r inst'. RPC_ctor srv idx thr uris inst = Inr (r, inst')
    \<and> rpc_endpoints r = map (\<lambda>u. visible (uri_client_uri u)) uris \<and> rpc_has_server_engine r = srv
    \<and> inst' = Singleton_GetInstance inst
        \<lparr>eng_address = visible ((if srv then uri_server_uri else uri_endpoint_uri) (uris ! unat idx)),
         eng_server_mode = srv, eng_threads = (if srv then thr else 0), eng_finalized = False\<rparr>"
  using assms
  by (auto simp: RPC_ctor_def rpc_run_def rpc_init_engine_and_endpoints_def Let_def Singleton_GetInstance_def)

text \<open>What the arguments leave in the configuration: the value given, or the old one for the value that means keep.\<close>

lemma apply_args_sel [simp]:
  "RPC_PORT (apply_args a c) = (if a_port a \<noteq> 0 then a_port a else RPC_PORT c)"
  "RPC_THREADS (apply_args a c) = RPC_THREADS c"
  "NUM_SERVERS (apply_args a c) = (if a_num_servers a \<noteq> 0 then ucast (a_num_servers a) else NUM_SERVERS c)"
  "MY_SERVER (apply_args a c) = (if a_my_server_idx a \<noteq> -1 then a_my_server_idx a else MY_SERVER c)"
  "SERVER_LIST_PATH (apply_args a c) = (if visible (a_server_list_path a) \<noteq> [] then a_server_list_path a else SERVER_LIST_PATH c)"
  "conf_URI (apply_args a c) = (if visible (a_uri a) \<noteq> [] then a_uri a else conf_URI c)"
  by (simp_all add: apply_args_def Let_def)

lemma CreateRPC_new_port:
  assumes "map_of (rpcs p) prt = None" "unat (MY_SERVER (conf p)) < length uris"
  shows "\<exists>q r. CreateRPC prt uris p = (Inr (), q) \<and> GetRPC q prt = Inr r
    \<and> rpc_endpoints r = map (\<lambda>u. visible (uri_client_uri u)) uris"
  using RPC_ctor_ok [OF assms(2), of "IS_SERVER (conf p)" "unat (RPC_THREADS (conf p))" "engine_instance p"] assms(1)
  by (auto simp: CreateRPC_def GetRPC_def Let_def update_conv')

text \<open>
  C30. Reconfiguration: \<^verbatim>\<open>ReConfigure\<close> with a new server list or URI but the same port is refused with a
  \<^verbatim>\<open>logic_error\<close>, and the engine and the registered ports stay as they were. Yet it has already stored the new list,
  URI, number of servers and index: a later \<^verbatim>\<open>ReConfigure\<close> that names only a new port opens it on the addresses of the
  refused server list and URI.
\<close>

theorem reconfigure_same_port_refused:
  assumes "a_port a \<in> {0, RPC_PORT (conf p)}"
    and "visible (a_server_list_path a) \<noteq> [] \<or> visible (a_uri a) \<noteq> []"
  shows "\<exists>q. HCL_ReConfigure files a p = (Inl (Logic_Error ''To change the server list or URI use a new port''), q)
    \<and> engine_instance q = engine_instance p \<and> rpcs q = rpcs p \<and> RPC_PORT (conf q) = RPC_PORT (conf p)
    \<and> SERVER_LIST_PATH (conf q) = (if visible (a_server_list_path a) \<noteq> [] then a_server_list_path a else SERVER_LIST_PATH (conf p))
    \<and> conf_URI (conf q) = (if visible (a_uri a) \<noteq> [] then a_uri a else conf_URI (conf p))
    \<and> NUM_SERVERS (conf q) = (if a_num_servers a \<noteq> 0 then ucast (a_num_servers a) else NUM_SERVERS (conf p))
    \<and> MY_SERVER (conf q) = (if a_my_server_idx a \<noteq> -1 then a_my_server_idx a else MY_SERVER (conf p))
    \<and> (\<forall>b uris. a_port b \<notin> {0, RPC_PORT (conf p)} \<and> map_of (rpcs p) (a_port b) = None
        \<and> visible (a_server_list_path b) = [] \<and> visible (a_uri b) = [] \<and> a_my_server_idx b = -1
        \<and> LoadURI files (a_port b) (if visible (a_server_list_path a) \<noteq> [] then a_server_list_path a else SERVER_LIST_PATH (conf p))
            (if visible (a_uri a) \<noteq> [] then a_uri a else conf_URI (conf p)) = Inr uris
        \<and> unat (MY_SERVER (conf q)) < length uris
      \<longrightarrow> (\<exists>q' r. HCL_ReConfigure files b q = (Inr (), q') \<and> GetRPC q' (a_port b) = Inr r
            \<and> rpc_endpoints r = map (\<lambda>u. visible (uri_client_uri u)) uris))"
proof -
  have refused: "HCL_ReConfigure files a p =
      (Inl (Logic_Error ''To change the server list or URI use a new port''), p\<lparr>conf := apply_args a (conf p)\<rparr>)"
    using assms by (auto simp: HCL_ReConfigure_def ConfigureInternal_def Let_def)
  define q where q: "q = p\<lparr>conf := apply_args a (conf p)\<rparr>"
  have next_port: "\<exists>q' r. HCL_ReConfigure files b q = (Inr (), q') \<and> GetRPC q' (a_port b) = Inr r
      \<and> rpc_endpoints r = map (\<lambda>u. visible (uri_client_uri u)) uris"
    if b: "a_port b \<notin> {0, RPC_PORT (conf p)}" "map_of (rpcs p) (a_port b) = None"
      "visible (a_server_list_path b) = []" "visible (a_uri b) = []" "a_my_server_idx b = -1"
      and load: "LoadURI files (a_port b) (SERVER_LIST_PATH (conf q)) (conf_URI (conf q)) = Inr uris"
      and idx: "unat (MY_SERVER (conf q)) < length uris" for b uris
  proof -
    define c where "c = apply_args b (conf q)"
    define m where "m = (if length uris \<noteq> unat (NUM_SERVERS c) then of_nat (length uris) else NUM_SERVERS c)"
    have c: "RPC_PORT c = a_port b" "SERVER_LIST_PATH c = SERVER_LIST_PATH (conf q)" "conf_URI c = conf_URI (conf q)"
        "MY_SERVER c = MY_SERVER (conf q)"
      using b by (simp_all add: c_def)
    have "RPC_PORT (conf q) \<noteq> a_port b" using assms(1) b(1) by (auto simp: q)
    then have "HCL_ReConfigure files b q = CreateRPC (a_port b) uris (q\<lparr>conf := c\<lparr>NUM_SERVERS := m\<rparr>\<rparr>)"
      using load b(3,4) c by (simp add: HCL_ReConfigure_def ConfigureInternal_def Let_def m_def flip: c_def)
    moreover have "\<exists>q' r. CreateRPC (a_port b) uris (q\<lparr>conf := c\<lparr>NUM_SERVERS := m\<rparr>\<rparr>) = (Inr (), q') \<and> GetRPC q' (a_port b) = Inr r
        \<and> rpc_endpoints r = map (\<lambda>u. visible (uri_client_uri u)) uris"
      using b(2) idx c(4) by (intro CreateRPC_new_port) (simp_all add: q)
    ultimately show ?thesis by simp
  qed
  show ?thesis
  proof (rule exI [of _ q], intro conjI allI impI)
    fix b :: hcl_args and uris
    let ?P = "if visible (a_server_list_path a) \<noteq> [] then a_server_list_path a else SERVER_LIST_PATH (conf p)"
    let ?U = "if visible (a_uri a) \<noteq> [] then a_uri a else conf_URI (conf p)"
    assume "a_port b \<notin> {0, RPC_PORT (conf p)} \<and> map_of (rpcs p) (a_port b) = None
        \<and> visible (a_server_list_path b) = [] \<and> visible (a_uri b) = [] \<and> a_my_server_idx b = -1
        \<and> LoadURI files (a_port b) ?P ?U = Inr uris \<and> unat (MY_SERVER (conf q)) < length uris"
    moreover have "SERVER_LIST_PATH (conf q) = ?P" "conf_URI (conf q) = ?U" by (simp_all add: q)
    ultimately show "\<exists>q' r. HCL_ReConfigure files b q = (Inr (), q') \<and> GetRPC q' (a_port b) = Inr r
        \<and> rpc_endpoints r = map (\<lambda>u. visible (uri_client_uri u)) uris"
      by (intro next_port) auto
  qed (use assms(1) in \<open>auto simp: refused q\<close>)
qed

text \<open>A server list that is refused on port 9000 is the one that port 9001 is opened on.\<close>

theorem reconfigure_same_port_refused_witness:
  "\<exists>q q' r. HCL_ReConfigure (\<lambda>f. if f = ''t'' then Some [''n1:1''] else None) (ex_args 0 ''t'') ex_proc =
      (Inl (Logic_Error ''To change the server list or URI use a new port''), q)
    \<and> visible (SERVER_LIST_PATH (conf q)) = ''t''
    \<and> HCL_ReConfigure (\<lambda>f. if f = ''t'' then Some [''n1:1''] else None) (ex_args 9001 []) q = (Inr (), q')
    \<and> GetRPC q' 9001 = Inr r \<and> rpc_endpoints r = [''ofi+tcp://n1:9001'']"
proof -
  let ?es = "[(''n1'', 1)] :: (string \<times> nat) list" and ?files = "\<lambda>f. if f = ''t'' then Some [''n1:1''] else None"
  let ?t = "\<lparr>cs_value = [CHR ''t'', NUL]\<rparr>" and ?p = "ex_proc" and ?a = "ex_args 0 ''t''" and ?b = "ex_args 9001 []"
  have r: "map render_entry ?es = [''n1:1'']" by code_simp
  have t: "to_string 9001 = ''9001''" by (simp add: to_string.simps digit_char_def char_of_def bit_0)
  have w: "\<forall>e \<in> set ?es. wf_entry e" by (simp add: wf_entry_def NUL_def)
  have v: "visible ?t = ''t''" "visible \<lparr>cs_value = [NUL]\<rparr> = []"
    by (simp_all add: visible_def NUL_def cstr_def)
  obtain uris where u: "LoadURI ?files 9001 ?t (conf_URI ex_conf) = Inr uris"
      "map (\<lambda>r. visible (uri_client_uri r)) uris = [''ofi+tcp://n1:9001'']"
    using server_list_loads [OF ex_conf_fits w, of ?files ?t 9001]
    unfolding r by (auto simp: hosts_of_def client_address_def t v)
  have len: "length uris = 1" using arg_cong [OF u(2), of length] by simp
  have a: "a_port ?a \<in> {0, RPC_PORT (conf ?p)}" "visible (a_server_list_path ?a) \<noteq> [] \<or> visible (a_uri ?a) \<noteq> []"
    using v by (simp_all add: ex_args_def)
  have sel: "a_port ?b = 9001" "visible (a_server_list_path ?b) = []" "visible (a_uri ?b) = []" "a_my_server_idx ?b = -1"
      "a_my_server_idx ?a = -1" "a_server_list_path ?a = ?t" "visible (a_uri ?a) = []" "MY_SERVER ex_conf = 0" "RPC_PORT ex_conf = 9000"
    using v by (simp_all add: ex_args_def ex_conf_def)
  obtain q where q: "HCL_ReConfigure ?files ?a ?p = (Inl (Logic_Error ''To change the server list or URI use a new port''), q)"
      "SERVER_LIST_PATH (conf q) = ?t" "MY_SERVER (conf q) = 0"
      "\<And>b uris. a_port b \<notin> {0, 9000} \<and> visible (a_server_list_path b) = [] \<and> visible (a_uri b) = [] \<and> a_my_server_idx b = -1
          \<and> LoadURI ?files (a_port b) ?t (conf_URI ex_conf) = Inr uris \<and> 0 < length uris
        \<Longrightarrow> \<exists>q' r. HCL_ReConfigure ?files b q = (Inr (), q') \<and> GetRPC q' (a_port b) = Inr r
            \<and> rpc_endpoints r = map (\<lambda>u. visible (uri_client_uri u)) uris"
    using reconfigure_same_port_refused [OF a, of ?files] by (elim exE) (simp add: sel v)
  show ?thesis using q(1,2) q(4) [of ?b uris] u len by (auto simp: sel v)
qed

text \<open>
  C31. One engine per process: a second port opened by a process keeps the engine of the first, listening on
  the address of the first port, and is registered as ready all the same.
\<close>

theorem second_port_keeps_first_engine:
  assumes "engine_instance p = Some e" "map_of (rpcs p) prt = None" "unat (MY_SERVER (conf p)) < length uris"
  shows "\<exists>r. CreateRPC prt uris p = (Inr (), p\<lparr>rpcs := AList.update prt r (rpcs p)\<rparr>)
    \<and> GetRPC (snd (CreateRPC prt uris p)) prt = Inr r
    \<and> rpc_endpoints r = map (\<lambda>u. visible (uri_client_uri u)) uris"
proof -
  obtain r where "RPC_ctor (IS_SERVER (conf p)) (MY_SERVER (conf p)) (unat (RPC_THREADS (conf p))) uris
      (engine_instance p) = Inr (r, Some e)" "rpc_endpoints r = map (\<lambda>u. visible (uri_client_uri u)) uris"
    using RPC_ctor_ok [OF assms(3), of "IS_SERVER (conf p)" "unat (RPC_THREADS (conf p))" "engine_instance p"] assms(1)
    by (auto simp: Singleton_GetInstance_def)
  then show ?thesis using assms(1,2) by (auto simp: CreateRPC_def GetRPC_def Let_def update_conv')
qed

theorem second_port_keeps_first_engine_witness:
  "\<exists>uris r. LoadURI (\<lambda>_. Some [''n1:1'']) 9001 (SERVER_LIST_PATH ex_conf) (conf_URI ex_conf) = Inr uris
    \<and> CreateRPC 9001 uris ex_proc = (Inr (), ex_proc\<lparr>rpcs := [(9001, r)]\<rparr>) \<and> rpc_endpoints r = [''ofi+tcp://n1:9001'']"
proof -
  let ?es = "[(''n1'', 1)] :: (string \<times> nat) list"
  have r: "map render_entry ?es = [''n1:1'']" by code_simp
  have t: "to_string 9001 = ''9001''" by (simp add: to_string.simps digit_char_def char_of_def bit_0)
  have w: "\<forall>e \<in> set ?es. wf_entry e" by (simp add: wf_entry_def NUL_def)
  obtain uris where u: "LoadURI (\<lambda>_. Some [''n1:1'']) 9001 (SERVER_LIST_PATH ex_conf) (conf_URI ex_conf) = Inr uris"
      "map (\<lambda>r. visible (uri_client_uri r)) uris = [''ofi+tcp://n1:9001'']"
    using server_list_loads [OF ex_conf_fits w, of "\<lambda>_. Some (map render_entry ?es)" "SERVER_LIST_PATH ex_conf" 9001]
    unfolding r by (auto simp: hosts_of_def client_address_def t)
  have "length uris = 1" using arg_cong [OF u(2), of length] by simp
  then show ?thesis
    using second_port_keeps_first_engine [of ex_proc _ 9001 uris] u by (auto simp: ex_conf_def)
qed

end
