(* ===== verification/Hcl_Container.thy ===== *)
theory Hcl_Container
  imports Hcl_Config
begin

text \<open>
  The base class \<^verbatim>\<open>container\<close> (\<^verbatim>\<open>include/hcl/common/container.h\<close>,
  \<^verbatim>\<open>src/hcl/common/container.cpp\<close>), the call part of \<^verbatim>\<open>RPC\<close>
  (\<^verbatim>\<open>include/hcl/communication/rpc_lib_int.cpp\<close>) and the macros of
  \<^verbatim>\<open>include/hcl/common/macros.h\<close>.

  A distributed container is a cluster: one server process per index, each with its own
  container object, its shared object and the remote procedures it has bound. A client with
  \<open>server_on_node\<close> maps the shared object of its own server; every other access is a remote
  call. Thallium, which carries the calls, is outside the sources: it is the parameter \<open>thl\<close>,
  and the locale \<open>transport\<close> states what its documentation promises.
\<close>

section \<open>The container object\<close>

record container =
  num_servers :: int
  my_server_idx :: u16
  memory_allocated :: u64
  is_server :: bool
  cont_name :: charstruct
  func_prefix :: charstruct
  backed_file :: charstruct
  cont_port :: u16
  server_on_node :: bool

definition is_local :: "container \<Rightarrow> u16 \<Rightarrow> bool" where
  "is_local c key_int \<longleftrightarrow> key_int = my_server_idx c \<and> server_on_node c"

definition is_local_node :: "container \<Rightarrow> bool" where
  "is_local_node c \<longleftrightarrow> server_on_node c"

text \<open>
  Memory-mapped segments (\<^verbatim>\<open>boost::interprocess::managed_mapped_file\<close>) are outside the
  sources: \<open>bip\<close> holds the operations used on them, \<open>'f\<close> the state of the file system.
\<close>

record ('f, 'd) segment_ops =
  bip_remove :: "string \<Rightarrow> 'f \<Rightarrow> 'f"
  bip_create_only :: "string \<Rightarrow> u64 \<Rightarrow> 'f \<Rightarrow> 'f result"
  bip_open_only :: "string \<Rightarrow> 'f \<Rightarrow> unit result"
  bip_construct_mutex :: "string \<Rightarrow> 'f \<Rightarrow> 'f result"
  bip_find_mutex :: "string \<Rightarrow> 'f \<Rightarrow> bool"
  bip_construct :: "string \<Rightarrow> string \<Rightarrow> 'd \<Rightarrow> 'f \<Rightarrow> 'f result"
  bip_find :: "string \<Rightarrow> string \<Rightarrow> 'f \<Rightarrow> 'd option"

text \<open>The library must be initialised before any container is built or called.\<close>

definition HCL_instance :: "hcl_process \<Rightarrow> hcl_process result" where
  "HCL_instance p = (if hcl_created p then Inr p else Inl (Logic_Error ''HCL was not initialized''))"

definition container_ctor ::
  "('f, 'd) segment_ops \<Rightarrow> hcl_process \<Rightarrow> charstruct \<Rightarrow> u16 \<Rightarrow> u16 \<Rightarrow> u16 \<Rightarrow> u64 \<Rightarrow> bool \<Rightarrow> bool
     \<Rightarrow> charstruct \<Rightarrow> 'f \<Rightarrow> (container \<times> 'f) result" where
  "container_ctor bip p nm prt n idx mem srv on_node dir fs =
     (let suffix = to_string (unat idx) in
      rbind (CharStruct_copy fresh_mem nm) (\<lambda>name0.
      rbind (CharStruct_copy fresh_mem nm) (\<lambda>prefix.
      rbind (cs_cat (cs_cat (cs_cat (cs_cat (Inr dir) (cs_of ''/'')) (Inr nm)) (cs_of ''_''))
               (cs_of suffix)) (\<lambda>bfile.
      rbind (cs_app (Inr name0) (cs_of (''_'' @ suffix))) (\<lambda>name1.
      let c = \<lparr>num_servers = int (unat n), my_server_idx = idx, memory_allocated = mem,
               is_server = srv, cont_name = name1, func_prefix = prefix, backed_file = bfile,
               cont_port = prt, server_on_node = on_node\<rparr>
      in rbind (HCL_instance p) (\<lambda>p. rbind (GetRPC p prt) (\<lambda>_.
         if srv
         then rbind (bip_create_only bip (visible bfile) mem (bip_remove bip (visible bfile) fs)) (\<lambda>fs.
              rmap (\<lambda>fs. (c, fs)) (bip_construct_mutex bip (visible bfile) fs))
         else if on_node
         then rmap (\<lambda>_. (c, fs)) (bip_open_only bip (visible bfile) fs)
         else Inr (c, fs))))))))"

text \<open>\<^verbatim>\<open>container::~container\<close>, \<^verbatim>\<open>lock\<close> and \<^verbatim>\<open>unlock\<close>.\<close>

definition container_dtor :: "('f, 'd) segment_ops \<Rightarrow> container \<Rightarrow> 'f \<Rightarrow> 'f" where
  "container_dtor bip c fs =
     (if is_server c then bip_remove bip (visible (backed_file c)) fs else fs)"

definition container_lock :: "container \<Rightarrow> 'd shm \<Rightarrow> 'd shm result" where
  "container_lock c s = (if server_on_node c \<or> is_server c then mutex_lock s else Inr s)"

definition container_unlock :: "container \<Rightarrow> 'd shm \<Rightarrow> 'd shm" where
  "container_unlock c s = (if server_on_node c \<or> is_server c then mutex_unlock s else s)"

text \<open>
  \<^verbatim>\<open>GetData\<close>: the value itself when no allocator is given, otherwise a shared-memory value
  assigned from it; \<open>assign\<close> is the conversion of the type's allocator.
\<close>

definition GetData :: "('v \<Rightarrow> 'v) option \<Rightarrow> 'v \<Rightarrow> 'v" where
  "GetData assign dat = (case assign of None \<Rightarrow> dat | Some f \<Rightarrow> f dat)"

text \<open>What \<^verbatim>\<open>GetData\<close> leaves in its argument: without an allocator the argument is moved from.\<close>

definition GetData_leaves :: "('v \<Rightarrow> 'v) option \<Rightarrow> ('v \<Rightarrow> 'v) \<Rightarrow> 'v \<Rightarrow> 'v" where
  "GetData_leaves assign moved dat = (case assign of None \<Rightarrow> moved dat | Some f \<Rightarrow> dat)"

section \<open>Clusters and remote calls\<close>

record ('d, 'op) server_proc =
  self :: container
  seg :: "'d shm"
  binds :: "(string \<times> 'op) list"

type_synonym ('d, 'op) cluster = "('d, 'op) server_proc list"

type_synonym ('d, 'op, 'q, 'r) thallium =
  "nat \<Rightarrow> string \<Rightarrow> 'q \<Rightarrow> ('d, 'op) cluster \<Rightarrow> ('r \<times> ('d, 'op) cluster) result"

text \<open>What the remote procedures of the containers take and return.\<close>

datatype ('k, 'v) request =
    QNone | QKey 'k | QKeyVal 'k 'v | QRange 'k 'k | QVal 'v | QCount u32 | QIndex u64

datatype ('k, 'v) response =
    RBool bool | RVal "bool \<times> 'v" | RPairs "('k \<times> 'v) list" | RKey "bool \<times> 'k"
  | RKeys "'k list" | RSomeKeys "bool \<times> 'k list" | RSize u64 | RPlain 'v

fun as_bool :: "('k, 'v) response \<Rightarrow> bool result" where
  "as_bool (RBool b) = Inr b" | "as_bool _ = Inl Bad_Message"

fun as_val :: "('k, 'v) response \<Rightarrow> (bool \<times> 'v) result" where
  "as_val (RVal x) = Inr x" | "as_val _ = Inl Bad_Message"

fun as_pairs :: "('k, 'v) response \<Rightarrow> ('k \<times> 'v) list result" where
  "as_pairs (RPairs x) = Inr x" | "as_pairs _ = Inl Bad_Message"

fun as_key :: "('k, 'v) response \<Rightarrow> (bool \<times> 'k) result" where
  "as_key (RKey x) = Inr x" | "as_key _ = Inl Bad_Message"

fun as_keys :: "('k, 'v) response \<Rightarrow> 'k list result" where
  "as_keys (RKeys x) = Inr x" | "as_keys _ = Inl Bad_Message"

fun as_size :: "('k, 'v) response \<Rightarrow> u64 result" where
  "as_size (RSize x) = Inr x" | "as_size _ = Inl Bad_Message"

fun as_plain :: "('k, 'v) response \<Rightarrow> 'v result" where
  "as_plain (RPlain x) = Inr x" | "as_plain _ = Inl Bad_Message"

text \<open>Storing back the shared object of one server, and a step of that server.\<close>

definition put_seg :: "('d, 'op) cluster \<Rightarrow> nat \<Rightarrow> 'd shm \<Rightarrow> ('d, 'op) cluster" where
  "put_seg w i s = w[i := (w ! i)\<lparr>seg := s\<rparr>]"

definition at_server ::
  "nat \<Rightarrow> ('d shm \<Rightarrow> ('r \<times> 'd shm) result) \<Rightarrow> ('d, 'op) cluster \<Rightarrow> ('r \<times> ('d, 'op) cluster) result" where
  "at_server i f w = rmap (\<lambda>(r, s). (r, put_seg w i s)) (f (seg (w ! i)))"

text \<open>
  A local access goes through the pointer that the constructor obtained: the object of the
  server with the client's own server index.
\<close>

definition local_access ::
  "container \<Rightarrow> ('d shm \<Rightarrow> ('r \<times> 'd shm) result) \<Rightarrow> ('d, 'op) cluster
     \<Rightarrow> ('r \<times> ('d, 'op) cluster) result" where
  "local_access c f w =
     (let i = unat (my_server_idx c) in if i < length w then at_server i f w else Inl Null_Deref)"

text \<open>\<^verbatim>\<open>RPC::bind\<close> registers a procedure with the engine of the server.\<close>

definition RPC_bind :: "rpc \<Rightarrow> charstruct \<Rightarrow> 'op \<Rightarrow> (string \<times> 'op) list \<Rightarrow> (string \<times> 'op) list result" where
  "RPC_bind r str func b =
     (if rpc_has_server_engine r then rmap (\<lambda>s. b @ [(s, func)]) (cs_string str) else Inl Null_Deref)"

fun bind_all ::
  "rpc \<Rightarrow> charstruct \<Rightarrow> (string \<times> 'op) list \<Rightarrow> (string \<times> 'op) list \<Rightarrow> (string \<times> 'op) list result" where
  "bind_all r prefix [] b = Inr b"
| "bind_all r prefix ((suffix, func) # fs) b =
     rbind (cs_cat (Inr prefix) (cs_of suffix)) (\<lambda>str.
     rbind (RPC_bind r str func b) (bind_all r prefix fs))"

definition bind_functions ::
  "hcl_process \<Rightarrow> container \<Rightarrow> (string \<times> 'op) list \<Rightarrow> (string \<times> 'op) list result" where
  "bind_functions p c fs =
     rbind (HCL_instance p) (\<lambda>p. rbind (GetRPC p (cont_port c)) (\<lambda>r.
       bind_all r (func_prefix c) fs []))"

text \<open>\<^verbatim>\<open>RPC::call\<close> by server index.\<close>

definition RPC_call ::
  "('d, 'op, 'q, 'r) thallium \<Rightarrow> rpc \<Rightarrow> u16 \<Rightarrow> charstruct \<Rightarrow> 'q \<Rightarrow> ('d, 'op) cluster
     \<Rightarrow> ('r \<times> ('d, 'op) cluster) result" where
  "RPC_call thl r server_index func_name q w =
     rbind (cs_c_str func_name) (\<lambda>fn.
       if unat server_index < length (rpc_endpoints r) then thl (unat server_index) fn q w
       else Inl Out_Of_Range)"

text \<open>
  The other calls of the class. The call by host name looks up the address it builds from the URI of the first server (\<open>thl_at\<close>:
  the engine, by address). The timeout is not used. The asynchronous calls have no \<^verbatim>\<open>return\<close>.
\<close>

definition RPC_callWithTimeout ::
  "('d, 'op, 'q, 'r) thallium \<Rightarrow> rpc \<Rightarrow> u16 \<Rightarrow> int \<Rightarrow> charstruct \<Rightarrow> 'q \<Rightarrow> ('d, 'op) cluster
     \<Rightarrow> ('r \<times> ('d, 'op) cluster) result" where
  "RPC_callWithTimeout thl r server_index timeout_ms func_name q w =
     rbind (cs_c_str func_name) (\<lambda>fn.
       if unat server_index < length (rpc_endpoints r) then thl (unat server_index) fn q w
       else Inl Out_Of_Range)"

definition RPC_call_host ::
  "(string \<Rightarrow> string \<Rightarrow> 'q \<Rightarrow> ('d, 'op) cluster \<Rightarrow> ('r \<times> ('d, 'op) cluster) result) \<Rightarrow> rpc \<Rightarrow> charstruct \<Rightarrow> u16
     \<Rightarrow> charstruct \<Rightarrow> 'q \<Rightarrow> ('d, 'op) cluster \<Rightarrow> ('r \<times> ('d, 'op) cluster) result" where
  "RPC_call_host thl_at r server prt func_name q w =
     rbind (cs_c_str func_name) (\<lambda>fn.
       case rpc_uris r of
         [] \<Rightarrow> Inl Out_Of_Range
       | first # _ \<Rightarrow>
           rbind (URI_ctor 0 (uri_user_uri first) server prt) (\<lambda>new_uri.
           rbind (cs_c_str (uri_client_uri new_uri)) (\<lambda>end_point. thl_at end_point fn q w)))"

definition RPC_async_call :: "rpc \<Rightarrow> u16 \<Rightarrow> charstruct \<Rightarrow> 'q \<Rightarrow> ('d, 'op) cluster \<Rightarrow> ('r \<times> ('d, 'op) cluster) result" where
  "RPC_async_call r server_index func_name q w = Inl No_Return"

definition RPC_async_call_host ::
  "rpc \<Rightarrow> charstruct \<Rightarrow> u16 \<Rightarrow> charstruct \<Rightarrow> 'q \<Rightarrow> ('d, 'op) cluster \<Rightarrow> ('r \<times> ('d, 'op) cluster) result" where
  "RPC_async_call_host r server prt func_name q w = Inl No_Return"

text \<open>The macro \<^verbatim>\<open>RPC_CALL_WRAPPER\<close>, with the decoding of the response type.\<close>

definition RPC_CALL_WRAPPER ::
  "hcl_process \<Rightarrow> ('d, 'op, 'q, 'r) thallium \<Rightarrow> container \<Rightarrow> string \<Rightarrow> u16 \<Rightarrow> ('r \<Rightarrow> 'a result) \<Rightarrow> 'q
     \<Rightarrow> ('d, 'op) cluster \<Rightarrow> ('a \<times> ('d, 'op) cluster) result" where
  "RPC_CALL_WRAPPER p thl c funcname server dec q w =
     rbind (HCL_instance p) (\<lambda>p. rbind (GetRPC p (cont_port c)) (\<lambda>r.
       rbind (cs_cat (Inr (func_prefix c)) (cs_of funcname)) (\<lambda>fn.
       rbind (RPC_call thl r server fn q w) (\<lambda>(resp, w). rmap (\<lambda>x. (x, w)) (dec resp)))))"

text \<open>
  \<^verbatim>\<open>THALLIUM_DEFINE\<close>: the procedure a server runs is the local operation on its own shared
  object, and the response is its result.
\<close>

definition THALLIUM_DEFINE :: "('a \<Rightarrow> 'r) \<Rightarrow> ('a \<times> 'd shm) result \<Rightarrow> ('r \<times> 'd shm) result" where
  "THALLIUM_DEFINE enc m = rmap (\<lambda>(x, s). (enc x, s)) m"

section \<open>The interface of the transport\<close>

definition serve ::
  "('op \<Rightarrow> 'q \<Rightarrow> container \<Rightarrow> 'd shm \<Rightarrow> ('r \<times> 'd shm) result) \<Rightarrow> nat \<Rightarrow> 'op \<Rightarrow> 'q
     \<Rightarrow> ('d, 'op) cluster \<Rightarrow> ('r \<times> ('d, 'op) cluster) result" where
  "serve handler i op q w = at_server i (handler op q (self (w ! i))) w"

locale transport =
  fixes thl :: "('d, 'op, 'q, 'r) thallium"
    and handler :: "'op \<Rightarrow> 'q \<Rightarrow> container \<Rightarrow> 'd shm \<Rightarrow> ('r \<times> 'd shm) result"
  assumes delivers:
    "i < length w \<Longrightarrow> map_of (binds (w ! i)) fn = Some op \<Longrightarrow> thl i fn q w = serve handler i op q w"
    and unbound: "i < length w \<Longrightarrow> map_of (binds (w ! i)) fn = None \<Longrightarrow> thl i fn q w = Inl No_Handler"

text \<open>An engine that runs the bound procedure, or reports that there is none.\<close>

definition direct_engine ::
  "('op \<Rightarrow> 'q \<Rightarrow> container \<Rightarrow> 'd shm \<Rightarrow> ('r \<times> 'd shm) result) \<Rightarrow> ('d, 'op, 'q, 'r) thallium" where
  "direct_engine handler i fn q w =
     (if i < length w
      then (case map_of (binds (w ! i)) fn of None \<Rightarrow> Inl No_Handler | Some op \<Rightarrow> serve handler i op q w)
      else Inl Out_Of_Range)"

interpretation direct: transport "direct_engine handler" handler
  for handler :: "'op \<Rightarrow> 'q \<Rightarrow> container \<Rightarrow> 'd shm \<Rightarrow> ('r \<times> 'd shm) result"
  by unfold_locales (simp_all add: direct_engine_def)

section \<open>Well-formed clusters\<close>

text \<open>
  A client \<open>c\<close> of process \<open>p\<close> connected to the cluster \<open>w\<close> whose servers have bound the
  procedures of the table \<open>tbl\<close>: the shape that \<^verbatim>\<open>HCL\<close> and the constructors establish.
\<close>

definition connected ::
  "hcl_process \<Rightarrow> (string \<times> 'op) list \<Rightarrow> container \<Rightarrow> ('d, 'op) cluster \<Rightarrow> bool" where
  "connected p tbl c w \<longleftrightarrow>
     hcl_created p
     \<and> (\<exists>r. map_of (rpcs p) (cont_port c) = Some r \<and> length (rpc_endpoints r) = length w)
     \<and> wf_cs (func_prefix c) \<and> length (visible (func_prefix c)) \<le> 200
     \<and> (\<forall>e \<in> set tbl. NUL \<notin> set (fst e) \<and> length (fst e) \<le> 50)
     \<and> num_servers c = int (length w) \<and> length w < 2 ^ 16 \<and> unat (my_server_idx c) < length w
     \<and> (\<forall>s \<in> set w. binds s = map (\<lambda>(n, op). (visible (func_prefix c) @ n, op)) tbl)"

definition quiescent :: "('d, 'op) cluster \<Rightarrow> bool" where
  "quiescent w \<longleftrightarrow> (\<forall>s \<in> set w. \<not> mtx (seg s))"

lemma length_put_seg [simp]: "length (put_seg w i s) = length w"
  by (simp add: put_seg_def)

lemma nth_put_seg: "i < length w \<Longrightarrow> put_seg w i s ! j = (if i = j then (w ! i)\<lparr>seg := s\<rparr> else w ! j)"
  by (auto simp: put_seg_def nth_list_update)

lemma set_put_segD: "x \<in> set (put_seg w i s) \<Longrightarrow> i < length w \<Longrightarrow> x \<in> set w \<or> x = (w ! i)\<lparr>seg := s\<rparr>"
  by (auto simp: put_seg_def dest: set_update_subset_insert [THEN subsetD])

lemma connected_put_seg [hcl_wf]: "connected p tbl c w \<Longrightarrow> i < length w \<Longrightarrow> connected p tbl c (put_seg w i s)"
  by (auto simp: connected_def dest!: set_put_segD)

lemma quiescent_put_seg [hcl_wf]: "quiescent w \<Longrightarrow> i < length w \<Longrightarrow> \<not> mtx s \<Longrightarrow> quiescent (put_seg w i s)"
  by (auto simp: quiescent_def dest!: set_put_segD)

lemma quiescentD: "quiescent w \<Longrightarrow> i < length w \<Longrightarrow> \<not> mtx (seg (w ! i))"
  by (simp add: quiescent_def)

lemma map_of_prefix:
  "map_of (map (\<lambda>(n, op). (pre @ n, op)) tbl) (pre @ sfx) = map_of tbl sfx"
  by (induction tbl) auto

lemma connected_name:
  assumes "connected p tbl c w" "NUL \<notin> set sfx" "length sfx \<le> 50"
  obtains fn where "cs_cat (Inr (func_prefix c)) (cs_of sfx) = Inr fn"
    "cs_c_str fn = Inr (visible (func_prefix c) @ sfx)"
proof -
  have "wf_cs (func_prefix c)" "length (visible (func_prefix c)) \<le> 200"
    using assms(1) by (simp_all add: connected_def)
  then have "denotes (cs_cat (Inr (func_prefix c)) (cs_of sfx)) (visible (func_prefix c) @ sfx)"
    using assms by (intro denotes_cat denotes_Inr denotes_of) auto
  then show ?thesis using that by (auto simp: denotes_def cs_c_str_def)
qed

lemma connected_bound:
  "connected p tbl c w \<Longrightarrow> map_of tbl sfx = Some op \<Longrightarrow> NUL \<notin> set sfx \<and> length sfx \<le> 50"
  by (frule map_of_SomeD) (force simp: connected_def)

lemma unat_of_nat_u16: "i < 2 ^ 16 \<Longrightarrow> unat (of_nat i :: u16) = i"
  by (simp add: unat_of_nat)

context transport
begin

text \<open>A remote call of a bound procedure is one step of the addressed server.\<close>

lemma wrapper_serves:
  assumes con: "connected p tbl c w" and i: "i < length w" and op: "map_of tbl sfx = Some op"
  shows "RPC_CALL_WRAPPER p thl c sfx (of_nat i) dec q w =
    rbind (serve handler i op q w) (\<lambda>(resp, w). rmap (\<lambda>x. (x, w)) (dec resp))"
proof -
  obtain r where r: "map_of (rpcs p) (cont_port c) = Some r" "length (rpc_endpoints r) = length w"
    using con by (auto simp: connected_def)
  obtain fn where fn: "cs_cat (Inr (func_prefix c)) (cs_of sfx) = Inr fn"
      "cs_c_str fn = Inr (visible (func_prefix c) @ sfx)"
    using connected_name [OF con] connected_bound [OF con op] by blast
  have "binds (w ! i) = map (\<lambda>(n, op). (visible (func_prefix c) @ n, op)) tbl"
    using con i by (auto simp: connected_def)
  then have "map_of (binds (w ! i)) (visible (func_prefix c) @ sfx) = Some op"
    using op by (simp add: map_of_prefix)
  then have "thl i (visible (func_prefix c) @ sfx) q w = serve handler i op q w"
    using i by (rule delivers [rotated])
  moreover have "unat (of_nat i :: u16) = i"
    using con i by (intro unat_of_nat_u16) (auto simp: connected_def)
  ultimately show ?thesis
    using con i r fn
    by (simp add: RPC_CALL_WRAPPER_def HCL_instance_def GetRPC_def RPC_call_def connected_def)
qed

text \<open>A remote call of a name that no server has bound fails.\<close>

lemma wrapper_unbound:
  assumes con: "connected p tbl c w" and i: "i < length w" and op: "map_of tbl sfx = None"
    and sfx: "NUL \<notin> set sfx" "length sfx \<le> 50"
  shows "RPC_CALL_WRAPPER p thl c sfx (of_nat i) dec q w = Inl No_Handler"
proof -
  obtain r where r: "map_of (rpcs p) (cont_port c) = Some r" "length (rpc_endpoints r) = length w"
    using con by (auto simp: connected_def)
  obtain fn where fn: "cs_cat (Inr (func_prefix c)) (cs_of sfx) = Inr fn"
      "cs_c_str fn = Inr (visible (func_prefix c) @ sfx)"
    using connected_name [OF con sfx] .
  have "binds (w ! i) = map (\<lambda>(n, op). (visible (func_prefix c) @ n, op)) tbl"
    using con i by (auto simp: connected_def)
  then have "map_of (binds (w ! i)) (visible (func_prefix c) @ sfx) = None"
    using op by (simp add: map_of_prefix)
  then have "thl i (visible (func_prefix c) @ sfx) q w = Inl No_Handler"
    using i by (rule unbound [rotated])
  moreover have "unat (of_nat i :: u16) = i"
    using con i by (intro unat_of_nat_u16) (auto simp: connected_def)
  ultimately show ?thesis
    using con i r fn
    by (simp add: RPC_CALL_WRAPPER_def HCL_instance_def GetRPC_def RPC_call_def connected_def)
qed

end

lemma local_access_connected:
  "connected p tbl c w \<Longrightarrow> local_access c f w = at_server (unat (my_server_idx c)) f w"
  by (simp add: local_access_def connected_def Let_def)

section \<open>Key placement\<close>

text \<open>
  \<^verbatim>\<open>uint16_t key_int = key_hash % num_servers\<close>: \<^verbatim>\<open>num_servers\<close> is an \<^verbatim>\<open>int\<close> that the
  constructor fills from a \<^verbatim>\<open>uint16_t\<close>, converted to \<^verbatim>\<open>size_t\<close> for the remainder.
\<close>

definition key_to_server :: "container \<Rightarrow> u64 \<Rightarrow> u16 result" where
  "key_to_server c key_hash =
     (if num_servers c = 0 then Inl Div_By_Zero
      else Inr (of_nat (unat key_hash mod nat (num_servers c))))"

definition home :: "nat \<Rightarrow> u64 \<Rightarrow> nat" where
  "home n h = unat h mod n"

lemma key_to_server_connected:
  "connected p tbl c w \<Longrightarrow> key_to_server c h = Inr (of_nat (home (length w) h))"
  by (auto simp: key_to_server_def connected_def home_def)

lemma connected_index: "connected p tbl c w \<Longrightarrow> unat (my_server_idx c) < length w"
  by (simp add: connected_def)

lemma home_less: "connected p tbl c w \<Longrightarrow> home (length w) h < length w"
  unfolding home_def by (rule mod_less_divisor) (use connected_index in fastforce)

text \<open>The map a cluster denotes when every key is read at its home server.\<close>

definition shard_view ::
  "('d \<Rightarrow> 'k \<Rightarrow> 'v option) \<Rightarrow> ('k \<Rightarrow> nat) \<Rightarrow> ('d, 'op) cluster \<Rightarrow> 'k \<Rightarrow> 'v option" where
  "shard_view look hm w k = look (obj (seg (w ! hm k))) k"

lemma shard_view_put_seg:
  assumes "hm k < length w" "look (obj s) = (look (obj (seg (w ! hm k))))(k := x)"
  shows "shard_view look hm (put_seg w (hm k) s) = (shard_view look hm w)(k := x)"
  using assms by (auto simp: shard_view_def nth_put_seg fun_eq_iff)

text \<open>
  A call by host name and port reaches the address that the server list gives for them, and a call with a timeout is
  the plain call.
\<close>

lemma call_host_address:
  assumes "wf_cs u" "rpc_uris r = first # rest" "URI_ctor i u h0 p0 = Inr first" "URI_ctor j u h prt = Inr v"
    "wf_cs (uri_client_uri v)" "cs_c_str func_name = Inr fn"
  shows "RPC_call_host thl_at r h prt func_name q w = thl_at (visible (uri_client_uri v)) fn q w"
  using assms URI_ctor_again [OF assms(1,3), of h prt j] by (simp add: RPC_call_host_def cs_c_str_def)

lemma call_ignores_timeout: "RPC_callWithTimeout thl r i timeout_ms func_name q w = RPC_call thl r i func_name q w"
  by (simp add: RPC_callWithTimeout_def RPC_call_def)

section \<open>Constructing and opening the shared object\<close>

text \<open>
  The constructors of the containers share their body: the base constructor, then on a server
  \<^verbatim>\<open>construct_shared_memory\<close> and \<^verbatim>\<open>bind_functions\<close>, on a client of the same node
  \<^verbatim>\<open>open_shared_memory\<close>. The result is the container, the object its pointer designates
  (\<open>None\<close> for a null pointer) and the procedures it has bound.
\<close>

definition ctor_with ::
  "hcl_process \<Rightarrow> (container \<Rightarrow> 'f \<Rightarrow> ('d option \<times> 'f) result) \<Rightarrow> (container \<Rightarrow> 'f \<Rightarrow> 'd option) \<Rightarrow> (string \<times> 'op) list
     \<Rightarrow> (container \<times> 'f) result \<Rightarrow> (container \<times> 'd option \<times> (string \<times> 'op) list \<times> 'f) result" where
  "ctor_with p construct opn tbl base =
     rbind base (\<lambda>(c, fs).
       if is_server c
       then rbind (construct c fs) (\<lambda>(ptr, fs). rmap (\<lambda>b. (c, ptr, b, fs)) (bind_functions p c tbl))
       else if \<not> is_server c \<and> server_on_node c
       then Inr (c, opn c fs, [], fs)
       else Inr (c, None, [], fs))"

text \<open>\<^verbatim>\<open>construct_shared_memory\<close> and \<^verbatim>\<open>open_shared_memory\<close>: an object of a given name in the segment.\<close>

definition construct_object ::
  "('f, 'd) segment_ops \<Rightarrow> (container \<Rightarrow> string) \<Rightarrow> 'd \<Rightarrow> container \<Rightarrow> 'f \<Rightarrow> ('d option \<times> 'f) result" where
  "construct_object bip object_name new c fs =
     rmap (\<lambda>fs. (Some new, fs)) (bip_construct bip (visible (backed_file c)) (object_name c) new fs)"

definition open_object :: "('f, 'd) segment_ops \<Rightarrow> (container \<Rightarrow> string) \<Rightarrow> container \<Rightarrow> 'f \<Rightarrow> 'd option" where
  "open_object bip object_name c fs = bip_find bip (visible (backed_file c)) (object_name c) fs"

definition derived_ctor ::
  "('f, 'd) segment_ops \<Rightarrow> hcl_process \<Rightarrow> (container \<Rightarrow> string) \<Rightarrow> 'd \<Rightarrow> (string \<times> 'op) list \<Rightarrow> charstruct
     \<Rightarrow> u16 \<Rightarrow> u16 \<Rightarrow> u16 \<Rightarrow> u64 \<Rightarrow> bool \<Rightarrow> bool \<Rightarrow> charstruct \<Rightarrow> 'f
     \<Rightarrow> (container \<times> 'd option \<times> (string \<times> 'op) list \<times> 'f) result" where
  "derived_ctor bip p object_name new tbl nm prt n idx mem srv on_node dir fs =
     ctor_with p (construct_object bip object_name new) (open_object bip object_name) tbl
       (container_ctor bip p nm prt n idx mem srv on_node dir fs)"

text \<open>
  The destructors of the containers call the destructor of the base class, which runs once more after them. \<^verbatim>\<open>data\<close>
  has no \<^verbatim>\<open>return\<close> for a client of another node.
\<close>

definition derived_dtor :: "('f, 'd) segment_ops \<Rightarrow> container \<Rightarrow> 'f \<Rightarrow> 'f" where
  "derived_dtor bip c fs = container_dtor bip c (container_dtor bip c fs)"

definition shared_data :: "container \<Rightarrow> 'd option \<Rightarrow> 'd option result" where
  "shared_data c ptr = (if server_on_node c \<or> is_server c then Inr ptr else Inl No_Return)"

lemmas derived_ctor_steps = derived_ctor_def ctor_with_def construct_object_def open_object_def

locale segments =
  fixes bip :: "('f, 'd) segment_ops"
  assumes open_constructed:
    "bip_construct bip f ob d fs = Inr fs' \<Longrightarrow> bip_open_only bip f fs' = Inr ()"
    and find_constructed: "bip_construct bip f ob d fs = Inr fs' \<Longrightarrow> bip_find bip f ob fs' = Some d"

text \<open>Segments as a table of files, each with the objects constructed in it.\<close>

record 'd seg_file =
  sf_mutex :: bool
  sf_objects :: "(string \<times> 'd) list"

definition file_table :: "((string \<times> 'd seg_file) list, 'd) segment_ops" where
  "file_table =
     \<lparr>bip_remove = (\<lambda>f fs. filter (\<lambda>e. fst e \<noteq> f) fs),
      bip_create_only = (\<lambda>f sz fs. if map_of fs f = None
         then Inr ((f, \<lparr>sf_mutex = False, sf_objects = []\<rparr>) # fs) else Inl File_Error),
      bip_open_only = (\<lambda>f fs. if map_of fs f = None then Inl File_Error else Inr ()),
      bip_construct_mutex = (\<lambda>f fs. case map_of fs f of None \<Rightarrow> Inl File_Error
         | Some s \<Rightarrow> Inr ((f, s\<lparr>sf_mutex := True\<rparr>) # fs)),
      bip_find_mutex = (\<lambda>f fs. case map_of fs f of None \<Rightarrow> False | Some s \<Rightarrow> sf_mutex s),
      bip_construct = (\<lambda>f ob d fs. case map_of fs f of None \<Rightarrow> Inl File_Error
         | Some s \<Rightarrow> if map_of (sf_objects s) ob = None
                    then Inr ((f, s\<lparr>sf_objects := (ob, d) # sf_objects s\<rparr>) # fs) else Inl File_Error),
      bip_find = (\<lambda>f ob fs. case map_of fs f of None \<Rightarrow> None | Some s \<Rightarrow> map_of (sf_objects s) ob)\<rparr>"

text \<open>A segment whose file was removed cannot be opened.\<close>

locale removable_segments = segments +
  assumes open_removed: "bip_open_only bip f (bip_remove bip f fs) = Inl File_Error"
begin

lemma open_destroyed: "is_server c \<Longrightarrow> bip_open_only bip (visible (backed_file c)) (derived_dtor bip c fs) = Inl File_Error"
  using open_removed by (simp add: derived_dtor_def container_dtor_def)

end

interpretation files: removable_segments file_table
  by unfold_locales (auto simp: file_table_def map_of_eq_None_iff split: option.splits if_splits)

lemma container_ctor_fields:
  assumes "container_ctor bip p nm prt n idx mem srv on_node dir fs = Inr (c, fs')"
  shows "num_servers c = int (unat n)" "my_server_idx c = idx" "is_server c = srv"
    "server_on_node c = on_node" "cont_port c = prt"
  using assms by (auto simp: container_ctor_def Let_def split: if_splits)

text \<open>The names the constructor derives, when they fit in a \<^verbatim>\<open>CharStruct\<close>.\<close>

lemma container_ctor_names:
  assumes ctor: "container_ctor bip p nm prt n idx mem srv on_node dir fs = Inr (c, fs')"
    and wf: "wf_cs nm" "wf_cs dir" and len: "length (visible nm) + length (visible dir) \<le> 240"
  shows "wf_cs (func_prefix c)" "visible (func_prefix c) = visible nm"
    "visible (cont_name c) = visible nm @ ''_'' @ to_string (unat idx)"
    "visible (backed_file c) =
       visible dir @ ''/'' @ visible nm @ ''_'' @ to_string (unat idx)"
proof -
  let ?t = "to_string (unat idx)"
  have t: "length ?t \<le> 5" by (rule length_to_string_u16)
  have nc: "NUL \<noteq> CHR ''/''" "NUL \<noteq> CHR ''_''" by (simp_all add: NUL_def)
  obtain nm1 where nm1: "CharStruct_copy fresh_mem nm = Inr nm1" "wf_cs nm1" "visible nm1 = visible nm"
    using CharStruct_copyE [OF wf(1)] .
  have "denotes (cs_cat (cs_cat (cs_cat (cs_cat (Inr dir) (cs_of ''/'')) (Inr nm)) (cs_of ''_'')) (cs_of ?t))
      ((((visible dir @ ''/'') @ visible nm) @ ''_'') @ ?t)"
    by (intro denotes_intros) (use wf len t nc in auto)
  moreover have "denotes (cs_app (Inr nm1) (cs_of (''_'' @ ?t))) (visible nm1 @ ''_'' @ ?t)"
    by (intro denotes_intros) (use nm1 len t nc in auto)
  ultimately show "wf_cs (func_prefix c)" "visible (func_prefix c) = visible nm"
    "visible (cont_name c) = visible nm @ ''_'' @ ?t"
    "visible (backed_file c) = visible dir @ ''/'' @ visible nm @ ''_'' @ ?t"
    using ctor nm1
    by (auto simp: container_ctor_def Let_def denotes_def split: if_splits)
qed

text \<open>The paths and names depend only on what a server and its clients share.\<close>

lemma container_ctor_same_names:
  assumes "container_ctor bip p nm prt n idx mem srv on_node dir fs = Inr (c, fs1)"
    and "container_ctor bip p' nm prt' n' idx mem' srv' on_node' dir fs' = Inr (c', fs2)"
  shows "backed_file c' = backed_file c" "cont_name c' = cont_name c"
    "func_prefix c' = func_prefix c"
  using assms by (auto simp: container_ctor_def Let_def split: if_splits)

context segments
begin

lemma client_finds_server_object:
  assumes srv: "derived_ctor bip p object_name new tbl nm prt n idx mem True on_node dir fs =
      Inr (c, ptr, b, fs')"
    and cli: "derived_ctor bip p' object_name new' tbl nm prt' n' idx mem' False True dir fs' =
      Inr (c', ptr', b', fs'')"
    and names: "\<And>c c'. cont_name c' = cont_name c \<Longrightarrow> object_name c' = object_name c"
  shows "ptr = Some new \<and> ptr' = ptr \<and> fs'' = fs'"
proof -
  obtain fs1 where s: "container_ctor bip p nm prt n idx mem True on_node dir fs = Inr (c, fs1)"
      "bip_construct bip (visible (backed_file c)) (object_name c) new fs1 = Inr fs'" "ptr = Some new"
    using srv container_ctor_fields(3) by (fastforce simp: derived_ctor_steps split: if_splits)
  obtain fs2 where k: "container_ctor bip p' nm prt' n' idx mem' False True dir fs' = Inr (c', fs2)"
      "ptr' = bip_find bip (visible (backed_file c')) (object_name c') fs2" "fs'' = fs2"
    using cli container_ctor_fields(3,4) by (fastforce simp: derived_ctor_steps split: if_splits)
  have "fs2 = fs'"
    using k(1) by (auto simp: container_ctor_def Let_def)
  moreover have "backed_file c' = backed_file c" "object_name c' = object_name c"
    using container_ctor_same_names [OF s(1) k(1)] names by blast+
  ultimately show ?thesis
    using s k find_constructed [OF s(2)] by simp
qed

end

end
