(* ===== verification/Hcl_Boost.thy ===== *)
theory Hcl_Boost
  imports Hcl_Prelude
begin

text \<open>
  The container types of Boost that the library distributes. They are outside the sources, so
  each is a record of operations that the model takes as a parameter, and a locale states what
  their documentation promises. An iterator is the position of its element in iteration order
  and \<^verbatim>\<open>end()\<close> the number of elements. Each locale is interpreted on a list realisation, which
  the witnesses run.
\<close>

section \<open>Removing one position of a list\<close>

definition remove_at :: "nat \<Rightarrow> 'a list \<Rightarrow> 'a list" where
  "remove_at i xs = take i xs @ drop (Suc i) xs"

lemma set_remove_at: "set (remove_at i xs) \<subseteq> set xs"
  by (auto simp: remove_at_def dest: in_set_takeD in_set_dropD)

lemma remove_at_Cons [simp]:
  "remove_at 0 (x # xs) = xs" "remove_at (Suc i) (x # xs) = x # remove_at i xs"
  by (simp_all add: remove_at_def)

lemma sorted_remove_at: "sorted (map f xs) \<Longrightarrow> sorted (map f (remove_at i xs))"
proof (induction xs arbitrary: i)
  case (Cons x xs)
  then show ?case using set_remove_at by (cases i) fastforce+
qed (simp add: remove_at_def)

lemma distinct_remove_at: "distinct (map f xs) \<Longrightarrow> distinct (map f (remove_at i xs))"
proof (induction xs arbitrary: i)
  case (Cons x xs)
  then show ?case using set_remove_at by (cases i) fastforce+
qed (simp add: remove_at_def)

lemma mset_remove_at: "i < length xs \<Longrightarrow> add_mset (xs ! i) (mset (remove_at i xs)) = mset xs"
  by (simp add: remove_at_def)
     (metis add_mset_add_single append_take_drop_id id_take_nth_drop mset.simps(2) mset_append
        union_mset_add_mset_right)

section \<open>Associative containers: \<^verbatim>\<open>boost::unordered_map\<close>, \<^verbatim>\<open>boost::interprocess::map\<close>\<close>

record ('k, 'v, 'm) assoc_ops =
  ao_empty :: 'm
  ao_insert_or_assign :: "'k \<Rightarrow> 'v \<Rightarrow> 'm \<Rightarrow> bool \<times> 'm"
  ao_find :: "'m \<Rightarrow> 'k \<Rightarrow> 'v option"
  ao_erase :: "'k \<Rightarrow> 'm \<Rightarrow> nat \<times> 'm"
  ao_items :: "'m \<Rightarrow> ('k \<times> 'v) list"

locale assoc_container =
  fixes ops :: "('k, 'v, 'm) assoc_ops" and invar :: "'m \<Rightarrow> bool"
  assumes invar_empty: "invar (ao_empty ops)"
    and find_empty: "ao_find ops (ao_empty ops) k = None"
    and invar_insert: "invar m \<Longrightarrow> invar (snd (ao_insert_or_assign ops k v m))"
    and insert_new: "invar m \<Longrightarrow> fst (ao_insert_or_assign ops k v m) \<longleftrightarrow> ao_find ops m k = None"
    and find_insert: "invar m \<Longrightarrow> ao_find ops (snd (ao_insert_or_assign ops k v m)) = (ao_find ops m)(k \<mapsto> v)"
    and invar_erase: "invar m \<Longrightarrow> invar (snd (ao_erase ops k m))"
    and erase_count: "invar m \<Longrightarrow> fst (ao_erase ops k m) = (if ao_find ops m k = None then 0 else 1)"
    and find_erase: "invar m \<Longrightarrow> ao_find ops (snd (ao_erase ops k m)) = (ao_find ops m)(k := None)"
    and distinct_items: "invar m \<Longrightarrow> distinct (map fst (ao_items ops m))"
    and find_items: "invar m \<Longrightarrow> map_of (ao_items ops m) = ao_find ops m"
begin

lemma items_iff: "invar m \<Longrightarrow> (k, v) \<in> set (ao_items ops m) \<longleftrightarrow> ao_find ops m k = Some v"
  using distinct_items find_items by (metis map_of_eq_Some_iff)

lemma items_empty: "ao_items ops (ao_empty ops) = []"
proof -
  have "map_of (ao_items ops (ao_empty ops)) = Map.empty"
    using find_items [OF invar_empty] find_empty by auto
  then show ?thesis by simp
qed

end

text \<open>With keys in ascending order and \<^verbatim>\<open>lower_bound\<close>.\<close>

record ('k, 'v, 'm) ordered_ops = "('k, 'v, 'm) assoc_ops" +
  oo_lower_bound :: "'m \<Rightarrow> 'k \<Rightarrow> nat"

abbreviation base_ops :: "('k, 'v, 'm) ordered_ops \<Rightarrow> ('k, 'v, 'm) assoc_ops" where
  "base_ops ops \<equiv> assoc_ops.truncate ops"

lemma base_ops_simps [simp]:
  "ao_empty (base_ops ops) = ao_empty ops" "ao_find (base_ops ops) = ao_find ops"
  "ao_insert_or_assign (base_ops ops) = ao_insert_or_assign ops"
  "ao_erase (base_ops ops) = ao_erase ops" "ao_items (base_ops ops) = ao_items ops"
  by (simp_all add: assoc_ops.defs)

locale ordered_container = assoc_container "base_ops ops" invar
  for ops :: "('k::linorder, 'v, 'm) ordered_ops" and invar :: "'m \<Rightarrow> bool" +
  assumes sorted_items: "invar m \<Longrightarrow> sorted (map fst (ao_items ops m))"
    and lower_bound: "invar m \<Longrightarrow>
      oo_lower_bound ops m k = length (takeWhile (\<lambda>e. fst e < k) (ao_items ops m))"

section \<open>\<^verbatim>\<open>boost::interprocess::set\<close>\<close>

record ('k, 's) set_ops =
  so_empty :: 's
  so_insert :: "'k \<Rightarrow> 's \<Rightarrow> 's"
  so_find :: "'s \<Rightarrow> 'k \<Rightarrow> bool"
  so_erase :: "'k \<Rightarrow> 's \<Rightarrow> nat \<times> 's"
  so_erase_at :: "nat \<Rightarrow> 's \<Rightarrow> 's"
  so_items :: "'s \<Rightarrow> 'k list"
  so_lower_bound :: "'s \<Rightarrow> 'k \<Rightarrow> nat"

locale set_container =
  fixes ops :: "('k::linorder, 's) set_ops" and invar :: "'s \<Rightarrow> bool"
  assumes invar_empty: "invar (so_empty ops)"
    and items_empty: "so_items ops (so_empty ops) = []"
    and sorted_items: "invar s \<Longrightarrow> sorted (so_items ops s) \<and> distinct (so_items ops s)"
    and invar_insert: "invar s \<Longrightarrow> invar (so_insert ops k s)"
    and items_insert: "invar s \<Longrightarrow> set (so_items ops (so_insert ops k s)) = insert k (set (so_items ops s))"
    and find: "invar s \<Longrightarrow> so_find ops s k \<longleftrightarrow> k \<in> set (so_items ops s)"
    and invar_erase: "invar s \<Longrightarrow> invar (snd (so_erase ops k s))"
    and items_erase: "invar s \<Longrightarrow> so_items ops (snd (so_erase ops k s)) = filter (\<lambda>x. x \<noteq> k) (so_items ops s)"
    and erase_count: "invar s \<Longrightarrow> fst (so_erase ops k s) = (if k \<in> set (so_items ops s) then 1 else 0)"
    and invar_erase_at: "invar s \<Longrightarrow> i < length (so_items ops s) \<Longrightarrow> invar (so_erase_at ops i s)"
    and items_erase_at: "invar s \<Longrightarrow> i < length (so_items ops s) \<Longrightarrow>
      so_items ops (so_erase_at ops i s) = remove_at i (so_items ops s)"
    and lower_bound: "invar s \<Longrightarrow>
      so_lower_bound ops s k = length (takeWhile (\<lambda>x. x < k) (so_items ops s))"

section \<open>\<^verbatim>\<open>boost::interprocess::multimap\<close>\<close>

text \<open>Which of several elements with the key \<^verbatim>\<open>find\<close> designates is not specified.\<close>

record ('k, 'v, 'm) multi_ops =
  mo_empty :: 'm
  mo_insert :: "'k \<times> 'v \<Rightarrow> 'm \<Rightarrow> 'm"
  mo_find :: "'m \<Rightarrow> 'k \<Rightarrow> nat option"
  mo_erase :: "'k \<Rightarrow> 'm \<Rightarrow> nat \<times> 'm"
  mo_erase_at :: "nat \<Rightarrow> 'm \<Rightarrow> 'm"
  mo_items :: "'m \<Rightarrow> ('k \<times> 'v) list"
  mo_lower_bound :: "'m \<Rightarrow> 'k \<Rightarrow> nat"

locale multi_container =
  fixes ops :: "('k::linorder, 'v, 'm) multi_ops" and invar :: "'m \<Rightarrow> bool"
  assumes invar_empty: "invar (mo_empty ops)"
    and items_empty: "mo_items ops (mo_empty ops) = []"
    and sorted_items: "invar m \<Longrightarrow> sorted (map fst (mo_items ops m))"
    and invar_insert: "invar m \<Longrightarrow> invar (mo_insert ops e m)"
    and items_insert: "invar m \<Longrightarrow> mset (mo_items ops (mo_insert ops e m)) = add_mset e (mset (mo_items ops m))"
    and find_None: "invar m \<Longrightarrow> mo_find ops m k = None \<longleftrightarrow> k \<notin> fst ` set (mo_items ops m)"
    and find_Some: "invar m \<Longrightarrow> mo_find ops m k = Some i \<Longrightarrow>
      i < length (mo_items ops m) \<and> fst (mo_items ops m ! i) = k"
    and invar_erase: "invar m \<Longrightarrow> invar (snd (mo_erase ops k m))"
    and items_erase: "invar m \<Longrightarrow> mo_items ops (snd (mo_erase ops k m)) = filter (\<lambda>e. fst e \<noteq> k) (mo_items ops m)"
    and erase_count: "invar m \<Longrightarrow> fst (mo_erase ops k m) = length (filter (\<lambda>e. fst e = k) (mo_items ops m))"
    and invar_erase_at: "invar m \<Longrightarrow> i < length (mo_items ops m) \<Longrightarrow> invar (mo_erase_at ops i m)"
    and items_erase_at: "invar m \<Longrightarrow> i < length (mo_items ops m) \<Longrightarrow>
      mo_items ops (mo_erase_at ops i m) = remove_at i (mo_items ops m)"
    and lower_bound: "invar m \<Longrightarrow>
      mo_lower_bound ops m k = length (takeWhile (\<lambda>e. fst e < k) (mo_items ops m))"

section \<open>Sequences: \<^verbatim>\<open>boost::interprocess::deque\<close>, \<^verbatim>\<open>vector\<close>, \<^verbatim>\<open>boost::lockfree::queue\<close>\<close>

record ('a, 'q) deque_ops =
  dq_empty :: 'q
  dq_push_back :: "'a \<Rightarrow> 'q \<Rightarrow> 'q"
  dq_front :: "'q \<Rightarrow> 'a"
  dq_pop_front :: "'q \<Rightarrow> 'q"
  dq_size :: "'q \<Rightarrow> nat"

locale deque_container =
  fixes ops :: "('a, 'q) deque_ops" and elems :: "'q \<Rightarrow> 'a list"
  assumes elems_empty: "elems (dq_empty ops) = []"
    and elems_push: "elems (dq_push_back ops x q) = elems q @ [x]"
    and front: "elems q = x # xs \<Longrightarrow> dq_front ops q = x"
    and elems_pop: "elems q = x # xs \<Longrightarrow> elems (dq_pop_front ops q) = xs"
    and size: "dq_size ops q = length (elems q)"

record ('a, 'q) vector_ops =
  vo_empty :: 'q
  vo_push_back :: "'a \<Rightarrow> 'q \<Rightarrow> 'q"
  vo_at :: "'q \<Rightarrow> nat \<Rightarrow> 'a result"
  vo_size :: "'q \<Rightarrow> nat"

locale vector_container =
  fixes ops :: "('a, 'q) vector_ops" and elems :: "'q \<Rightarrow> 'a list"
  assumes elems_empty: "elems (vo_empty ops) = []"
    and elems_push: "elems (vo_push_back ops x q) = elems q @ [x]"
    and at: "i < length (elems q) \<Longrightarrow> vo_at ops q i = Inr (elems q ! i)"
    and size: "vo_size ops q = length (elems q)"

text \<open>
  \<^verbatim>\<open>boost::lockfree::queue\<close>, used by one thread at a time: \<^verbatim>\<open>push\<close> fails only when no memory
  is left for a node, and then leaves the queue as it was.
\<close>

record ('a, 'q) lfq_ops =
  lf_new :: "nat \<Rightarrow> 'q"
  lf_push :: "'a \<Rightarrow> 'q \<Rightarrow> bool \<times> 'q"
  lf_pop :: "'q \<Rightarrow> 'a option \<times> 'q"
  lf_empty :: "'q \<Rightarrow> bool"

locale lockfree_queue =
  fixes ops :: "('a, 'q) lfq_ops" and elems :: "'q \<Rightarrow> 'a list"
  assumes elems_new: "elems (lf_new ops n) = []"
    and elems_push: "lf_push ops x q = (True, q') \<Longrightarrow> elems q' = elems q @ [x]"
    and elems_full: "lf_push ops x q = (False, q') \<Longrightarrow> elems q' = elems q"
    and pop_empty: "elems q = [] \<Longrightarrow> fst (lf_pop ops q) = None \<and> elems (snd (lf_pop ops q)) = []"
    and pop_front: "elems q = x # xs \<Longrightarrow> fst (lf_pop ops q) = Some x \<and> elems (snd (lf_pop ops q)) = xs"
    and empty: "lf_empty ops q \<longleftrightarrow> elems q = []"

text \<open>A lock-free queue that is never short of memory for its nodes.\<close>

locale reliable_queue = lockfree_queue +
  assumes push_True: "fst (lf_push ops x q)"
begin

lemma elems_push_True [simp]: "elems (snd (lf_push ops x q)) = elems q @ [x]"
  using elems_push [of x q] push_True [of x q] by (cases "lf_push ops x q") auto

lemma popE:
  obtains q' where "elems q = []" "lf_pop ops q = (None, q')" "elems q' = []"
  | x q' where "elems q = x # elems q'" "lf_pop ops q = (Some x, q')"
  using pop_empty [of q] pop_front [of q]
  by (cases "elems q"; cases "lf_pop ops q") auto

end

section \<open>List realisations\<close>

fun al_insert :: "'k::linorder \<Rightarrow> 'v \<Rightarrow> ('k \<times> 'v) list \<Rightarrow> ('k \<times> 'v) list" where
  "al_insert k v [] = [(k, v)]"
| "al_insert k v (e # es) =
     (if k < fst e then (k, v) # e # es else if k = fst e then (k, v) # es else e # al_insert k v es)"

definition al_invar :: "('k::linorder \<times> 'v) list \<Rightarrow> bool" where
  "al_invar es \<longleftrightarrow> sorted (map fst es) \<and> distinct (map fst es)"

definition alist_ops :: "('k::linorder, 'v, ('k \<times> 'v) list) ordered_ops" where
  "alist_ops =
     \<lparr>ao_empty = [], ao_insert_or_assign = (\<lambda>k v m. (map_of m k = None, al_insert k v m)),
      ao_find = map_of,
      ao_erase = (\<lambda>k m. (length (filter (\<lambda>e. fst e = k) m), filter (\<lambda>e. fst e \<noteq> k) m)),
      ao_items = (\<lambda>m. m), oo_lower_bound = (\<lambda>m k. length (takeWhile (\<lambda>e. fst e < k) m))\<rparr>"

lemma keys_al_insert: "fst ` set (al_insert k v es) = insert k (fst ` set es)"
  by (induction es) auto

lemma al_invar_insert: "al_invar es \<Longrightarrow> al_invar (al_insert k v es)"
proof (induction es)
  case (Cons e es)
  then have es: "al_invar es" "\<forall>x \<in> set es. fst e < fst x"
    by (auto simp: al_invar_def order_le_less)
  show ?case
  proof (cases "fst e < k")
    case True
    with es Cons.IH have "al_invar (al_insert k v es)" "\<forall>x \<in> fst ` set (al_insert k v es). fst e < x"
      by (auto simp: keys_al_insert)
    with True show ?thesis by (force simp: al_invar_def)
  next
    case False
    with es Cons.prems show ?thesis by (force simp: al_invar_def)
  qed
qed (simp add: al_invar_def)

lemma map_of_al_insert: "al_invar es \<Longrightarrow> map_of (al_insert k v es) = (map_of es)(k \<mapsto> v)"
proof (induction es)
  case (Cons e es)
  then have "al_invar es" by (simp add: al_invar_def)
  with Cons.IH show ?case by (cases e) (auto simp: fun_eq_iff)
qed simp

lemma al_invar_filter: "al_invar es \<Longrightarrow> al_invar (filter P es)"
  by (auto simp: al_invar_def distinct_map_filter sorted_filter)

lemma map_of_filter_key: "map_of (filter (\<lambda>e. fst e \<noteq> k) es) = (map_of es)(k := None)"
  by (induction es) (auto simp: fun_eq_iff)

lemma length_filter_key:
  "distinct (map fst es) \<Longrightarrow>
     length (filter (\<lambda>e. fst e = k) es) = (if map_of es k = None then 0 else 1)"
  by (induction es) (auto simp: map_of_eq_None_iff filter_empty_conv image_iff)

lemma filter_key_empty: "map_of es k = None \<Longrightarrow> filter (\<lambda>e. fst e = k) es = []"
  by (auto simp: map_of_eq_None_iff filter_empty_conv image_iff)

interpretation alist: ordered_container alist_ops al_invar
  by unfold_locales
     (simp_all add: alist_ops_def assoc_ops.defs al_invar_insert map_of_al_insert al_invar_filter
        map_of_filter_key, auto simp: al_invar_def length_filter_key filter_key_empty)

definition slist_ops :: "('k::linorder, 'k list) set_ops" where
  "slist_ops =
     \<lparr>so_empty = [], so_insert = (\<lambda>k s. if k \<in> set s then s else insort k s),
      so_find = (\<lambda>s k. k \<in> set s),
      so_erase = (\<lambda>k s. (if k \<in> set s then 1 else 0, filter (\<lambda>x. x \<noteq> k) s)),
      so_erase_at = remove_at, so_items = (\<lambda>s. s),
      so_lower_bound = (\<lambda>s k. length (takeWhile (\<lambda>x. x < k) s))\<rparr>"

interpretation slist: set_container slist_ops "\<lambda>s. sorted s \<and> distinct s"
  by unfold_locales
     (use sorted_remove_at [where f = "\<lambda>x. x"] distinct_remove_at [where f = "\<lambda>x. x"]
          sorted_filter [where f = "\<lambda>x. x"] in
        \<open>auto simp: slist_ops_def set_insort_key sorted_insort distinct_insort\<close>)

fun ml_insert :: "'k::linorder \<times> 'v \<Rightarrow> ('k \<times> 'v) list \<Rightarrow> ('k \<times> 'v) list" where
  "ml_insert e [] = [e]"
| "ml_insert e (x # xs) = (if fst e < fst x then e # x # xs else x # ml_insert e xs)"

fun ml_find :: "('k \<times> 'v) list \<Rightarrow> 'k \<Rightarrow> nat option" where
  "ml_find [] k = None"
| "ml_find (x # xs) k = (if fst x = k then Some 0 else map_option Suc (ml_find xs k))"

definition mlist_ops :: "('k::linorder, 'v, ('k \<times> 'v) list) multi_ops" where
  "mlist_ops =
     \<lparr>mo_empty = [], mo_insert = ml_insert, mo_find = ml_find,
      mo_erase = (\<lambda>k m. (length (filter (\<lambda>e. fst e = k) m), filter (\<lambda>e. fst e \<noteq> k) m)),
      mo_erase_at = remove_at, mo_items = (\<lambda>m. m),
      mo_lower_bound = (\<lambda>m k. length (takeWhile (\<lambda>e. fst e < k) m))\<rparr>"

lemma mset_ml_insert: "mset (ml_insert e xs) = add_mset e (mset xs)"
  by (induction xs) auto

lemma set_ml_insert: "set (ml_insert e xs) = insert e (set xs)"
  by (induction xs) auto

lemma sorted_ml_insert: "sorted (map fst xs) \<Longrightarrow> sorted (map fst (ml_insert e xs))"
  by (induction xs) (auto simp: set_ml_insert)

lemma ml_find_None: "ml_find xs k = None \<longleftrightarrow> k \<notin> fst ` set xs"
  by (induction xs) auto

lemma ml_find_Some: "ml_find xs k = Some i \<Longrightarrow> i < length xs \<and> fst (xs ! i) = k"
  by (induction xs arbitrary: i) (auto split: if_splits)

interpretation mlist: multi_container mlist_ops "\<lambda>m. sorted (map fst m)"
  by unfold_locales
     (simp_all add: mlist_ops_def mset_ml_insert sorted_ml_insert ml_find_None ml_find_Some
        sorted_filter sorted_remove_at)

definition list_deque_ops :: "('a, 'a list) deque_ops" where
  "list_deque_ops = \<lparr>dq_empty = [], dq_push_back = (\<lambda>x q. q @ [x]), dq_front = hd,
     dq_pop_front = tl, dq_size = length\<rparr>"

interpretation ldeque: deque_container list_deque_ops "\<lambda>q. q"
  by unfold_locales (simp_all add: list_deque_ops_def)

definition list_vector_ops :: "('a, 'a list) vector_ops" where
  "list_vector_ops = \<lparr>vo_empty = [], vo_push_back = (\<lambda>x q. q @ [x]),
     vo_at = (\<lambda>q i. if i < length q then Inr (q ! i) else Inl Out_Of_Range), vo_size = length\<rparr>"

interpretation lvector: vector_container list_vector_ops "\<lambda>q. q"
  by unfold_locales (simp_all add: list_vector_ops_def)

definition list_lfq_ops :: "('a, 'a list) lfq_ops" where
  "list_lfq_ops = \<lparr>lf_new = (\<lambda>n. []), lf_push = (\<lambda>x q. (True, q @ [x])),
     lf_pop = (\<lambda>q. case q of [] \<Rightarrow> (None, []) | x # xs \<Rightarrow> (Some x, xs)), lf_empty = (\<lambda>q. q = [])\<rparr>"

interpretation llfq: reliable_queue list_lfq_ops "\<lambda>q. q"
  by unfold_locales (auto simp: list_lfq_ops_def)

end
