(* ===== verification/Hcl_Service.thy ===== *)
theory Hcl_Service
  imports Hcl_Container Hcl_Boost
begin

text \<open>
  What the keyed containers promise their clients: a single map. Clients of any number of
  processes issue commands one after the other; the locale \<open>kv_service\<close> states what each
  command does to the map a cluster denotes, and shows that every sequence of commands gives
  the outputs that one map in one memory would give.
\<close>

datatype ('c, 'k, 'v) kv_cmd = Put_Cmd 'c 'k 'v | Get_Cmd 'c 'k | Erase_Cmd 'c 'k

datatype 'v kv_out = Out_Bool bool | Out_Val "bool \<times> 'v"

primrec cmd_client :: "('c, 'k, 'v) kv_cmd \<Rightarrow> 'c" where
  "cmd_client (Put_Cmd c k v) = c" | "cmd_client (Get_Cmd c k) = c" | "cmd_client (Erase_Cmd c k) = c"

text \<open>A sequence of commands run on the implementation.\<close>

fun run_kv ::
  "('c \<Rightarrow> 'k \<Rightarrow> 'v \<Rightarrow> 's \<Rightarrow> (bool \<times> 's) result) \<Rightarrow> ('c \<Rightarrow> 'k \<Rightarrow> 's \<Rightarrow> ((bool \<times> 'v) \<times> 's) result)
     \<Rightarrow> ('c \<Rightarrow> 'k \<Rightarrow> 's \<Rightarrow> ((bool \<times> 'v) \<times> 's) result)
     \<Rightarrow> ('c, 'k, 'v) kv_cmd list \<Rightarrow> 's \<Rightarrow> ('v kv_out list \<times> 's) result" where
  "run_kv put get del [] s = Inr ([], s)"
| "run_kv put get del (x # xs) s =
     rbind (case x of
        Put_Cmd c k v \<Rightarrow> rmap (\<lambda>(b, s). (Out_Bool b, s)) (put c k v s)
      | Get_Cmd c k \<Rightarrow> rmap (\<lambda>(r, s). (Out_Val r, s)) (get c k s)
      | Erase_Cmd c k \<Rightarrow> rmap (\<lambda>(r, s). (Out_Val r, s)) (del c k s))
     (\<lambda>(out, s). rmap (\<lambda>(outs, s). (out # outs, s)) (run_kv put get del xs s))"

text \<open>The same sequence on a map; \<open>stored\<close> is what a stored value becomes.\<close>

fun spec_kv ::
  "('v \<Rightarrow> 'v) \<Rightarrow> 'v \<Rightarrow> ('c, 'k, 'v) kv_cmd list \<Rightarrow> ('k \<Rightarrow> 'v option) \<Rightarrow> 'v kv_out list \<times> ('k \<Rightarrow> 'v option)" where
  "spec_kv stored dflt [] m = ([], m)"
| "spec_kv stored dflt (x # xs) m =
     (let (out, m) = (case x of
        Put_Cmd c k v \<Rightarrow> (Out_Bool True, m(k \<mapsto> stored v))
      | Get_Cmd c k \<Rightarrow> (Out_Val (case m k of None \<Rightarrow> (False, dflt) | Some v \<Rightarrow> (True, v)), m)
      | Erase_Cmd c k \<Rightarrow> (Out_Val (m k \<noteq> None, dflt), m(k := None)))
      in case spec_kv stored dflt xs m of (outs, m) \<Rightarrow> (out # outs, m))"

locale kv_service =
  fixes put :: "'c \<Rightarrow> 'k \<Rightarrow> 'v \<Rightarrow> 's \<Rightarrow> (bool \<times> 's) result"
    and get :: "'c \<Rightarrow> 'k \<Rightarrow> 's \<Rightarrow> ((bool \<times> 'v) \<times> 's) result"
    and del :: "'c \<Rightarrow> 'k \<Rightarrow> 's \<Rightarrow> ((bool \<times> 'v) \<times> 's) result"
    and inv :: "'c set \<Rightarrow> 's \<Rightarrow> bool"
    and view :: "'s \<Rightarrow> 'k \<Rightarrow> 'v option"
    and stored :: "'v \<Rightarrow> 'v" and dflt :: 'v
  assumes put_ok: "inv C s \<Longrightarrow> c \<in> C \<Longrightarrow>
      \<exists>s'. put c k v s = Inr (True, s') \<and> inv C s' \<and> view s' = (view s)(k \<mapsto> stored v)"
    and get_ok: "inv C s \<Longrightarrow> c \<in> C \<Longrightarrow>
      \<exists>s'. get c k s = Inr (case view s k of None \<Rightarrow> (False, dflt) | Some v \<Rightarrow> (True, v), s')
         \<and> inv C s' \<and> view s' = view s"
    and del_ok: "inv C s \<Longrightarrow> c \<in> C \<Longrightarrow>
      \<exists>s'. del c k s = Inr ((view s k \<noteq> None, dflt), s') \<and> inv C s' \<and> view s' = (view s)(k := None)"
begin

theorem run_refines:
  assumes "inv C s" "cmd_client ` set xs \<subseteq> C"
  shows "\<exists>s'. run_kv put get del xs s = Inr (fst (spec_kv stored dflt xs (view s)), s')
    \<and> inv C s' \<and> view s' = snd (spec_kv stored dflt xs (view s))"
  using assms
proof (induction xs arbitrary: s)
  case Nil
  then show ?case by simp
next
  case (Cons x xs)
  have step: ?case
    if h1: "(case x of
        Put_Cmd c k v \<Rightarrow> rmap (\<lambda>(b, s). (Out_Bool b, s)) (put c k v s)
      | Get_Cmd c k \<Rightarrow> rmap (\<lambda>(r, s). (Out_Val r, s)) (get c k s)
      | Erase_Cmd c k \<Rightarrow> rmap (\<lambda>(r, s). (Out_Val r, s)) (del c k s)) = Inr (out, s1)"
      and h2: "inv C s1" and h3: "spec_kv stored dflt (x # xs) (view s) =
        (case spec_kv stored dflt xs (view s1) of (outs, m) \<Rightarrow> (out # outs, m))" for out s1
  proof -
    obtain s2 where "run_kv put get del xs s1 = Inr (fst (spec_kv stored dflt xs (view s1)), s2)"
        "inv C s2" "view s2 = snd (spec_kv stored dflt xs (view s1))"
      using Cons.IH [OF h2] Cons.prems by auto
    with h1 h3 show ?thesis by (auto split: prod.splits)
  qed
  show ?case
  proof (cases x)
    case (Put_Cmd c k v)
    then obtain s1 where "put c k v s = Inr (True, s1)" "inv C s1" "view s1 = (view s)(k \<mapsto> stored v)"
      using put_ok [of C s c k v] Cons.prems by auto
    with Put_Cmd show ?thesis by (intro step [of "Out_Bool True" s1]) simp_all
  next
    case (Get_Cmd c k)
    then obtain s1 where "get c k s =
        Inr (case view s k of None \<Rightarrow> (False, dflt) | Some v \<Rightarrow> (True, v), s1)" "inv C s1" "view s1 = view s"
      using get_ok [of C s c k] Cons.prems by auto
    with Get_Cmd show ?thesis
      by (intro step [of "Out_Val (case view s k of None \<Rightarrow> (False, dflt) | Some v \<Rightarrow> (True, v))" s1])
         simp_all
  next
    case (Erase_Cmd c k)
    then obtain s1 where "del c k s = Inr ((view s k \<noteq> None, dflt), s1)" "inv C s1"
        "view s1 = (view s)(k := None)"
      using del_ok [of C s c k] Cons.prems by auto
    with Erase_Cmd show ?thesis by (intro step [of "Out_Val (view s k \<noteq> None, dflt)" s1]) simp_all
  qed
qed

lemma read_your_write:
  assumes "inv C s" "c \<in> C" "c' \<in> C"
  shows "\<exists>s1 s2. put c k v s = Inr (True, s1) \<and> get c' k s1 = Inr ((True, stored v), s2)"
proof -
  obtain s1 where s1: "put c k v s = Inr (True, s1)" "inv C s1" "view s1 = (view s)(k \<mapsto> stored v)"
    using put_ok [OF assms(1,2)] by blast
  then show ?thesis using get_ok [OF s1(2) assms(3), of k] by auto
qed

end

section \<open>Gathering from every server\<close>

text \<open>
  The loops of \<^verbatim>\<open>GetAllData\<close> and \<^verbatim>\<open>Contains\<close>: the own server first, then every other index by
  a remote call, the results appended.
\<close>

fun collect ::
  "(nat \<Rightarrow> 'w \<Rightarrow> ('a list \<times> 'w) result) \<Rightarrow> nat list \<Rightarrow> 'a list \<Rightarrow> 'w \<Rightarrow> ('a list \<times> 'w) result" where
  "collect call [] final_values w = Inr (final_values, w)"
| "collect call (i # is) final_values w =
     rbind (call i w) (\<lambda>(server, w). collect call is (final_values @ server) w)"

definition other_servers :: "container \<Rightarrow> nat list" where
  "other_servers c = filter (\<lambda>i. i \<noteq> unat (my_server_idx c)) [0..<nat (num_servers c)]"

lemma collect_pure:
  assumes "\<And>i. i \<in> set is \<Longrightarrow> call i w = Inr (f i, w)"
  shows "collect call is acc w = Inr (acc @ concat (map f is), w)"
  using assms by (induction "is" arbitrary: acc) auto

lemma mset_gather:
  assumes "unat (my_server_idx c) < nat (num_servers c)"
  shows "mset (f (unat (my_server_idx c)) @ concat (map f (other_servers c))) =
    (\<Sum>i<nat (num_servers c). mset (f i))"
  using mset_concat_map_upd [OF assms, of f]
  by (simp add: other_servers_def mset_concat image_mset.compositionality comp_def sum_mset_sum_list)

section \<open>Steps that leave a cluster as it was\<close>

lemma put_seg_same [simp]: "i < length w \<Longrightarrow> put_seg w i (seg (w ! i)) = w"
  by (simp add: put_seg_def)

lemma at_server_read:
  assumes "\<not> mtx (seg (w ! i))" "i < length w"
  shows "at_server i (scoped_lock (\<lambda>m. (f m, m))) w = Inr (f (obj (seg (w ! i))), w)"
    "at_server i (plain_access (\<lambda>m. (f m, m))) w = Inr (f (obj (seg (w ! i))), w)"
  using assms by (simp_all add: at_server_def scoped_lock_free plain_access_eq)

lemma at_server_write:
  assumes "\<not> mtx (seg (w ! i))"
  shows "at_server i (scoped_lock f) w =
      Inr (fst (f (obj (seg (w ! i)))), put_seg w i ((seg (w ! i))\<lparr>obj := snd (f (obj (seg (w ! i))))\<rparr>))"
    "at_server i (plain_access f) w =
      Inr (fst (f (obj (seg (w ! i)))), put_seg w i ((seg (w ! i))\<lparr>obj := snd (f (obj (seg (w ! i))))\<rparr>))"
  using assms by (simp_all add: at_server_def scoped_lock_free plain_access_eq)

lemma serve_define:
  "handler op q (self (w ! i)) = (\<lambda>s. THALLIUM_DEFINE enc (f s)) \<Longrightarrow> (\<And>x. dec (enc x) = Inr x) \<Longrightarrow>
     rbind (serve handler i op q w) (\<lambda>(resp, w). rmap (\<lambda>x. (x, w)) (dec resp)) = at_server i f w"
  by (cases "f (seg (w ! i))") (auto simp: serve_def at_server_def THALLIUM_DEFINE_def)

lemma at_server_map:
  "rmap (\<lambda>(b, w). (h b, w)) (at_server i (scoped_lock f) w) =
     at_server i (scoped_lock (\<lambda>m. (h (fst (f m)), snd (f m)))) w"
  by (cases "mtx (seg (w ! i))") (simp_all add: at_server_def scoped_lock_free scoped_lock_held)

section \<open>Where an operation runs\<close>

text \<open>
  The shapes of a client operation: addressed by server index, by key, to the client's own
  server, gathered from all. Wherever the client runs, each is the local operation at the
  addressed server.
\<close>

context transport
begin

lemma remote_call:
  assumes "connected p tbl c w" "i < length w" "map_of tbl sfx = Some op"
    and "\<And>s. handler op q (self (w ! i)) s = THALLIUM_DEFINE enc (f s)" "\<And>x. dec (enc x) = Inr x"
  shows "RPC_CALL_WRAPPER p thl c sfx (of_nat i) dec q w = at_server i f w"
  unfolding wrapper_serves [OF assms(1-3)] using assms(4,5) by (intro serve_define) auto

lemma indexed_call:
  assumes "connected p tbl c w" "unat key_int < length w" "map_of tbl sfx = Some op"
    and "\<And>cc s. handler op q cc s = THALLIUM_DEFINE enc (f s)" "\<And>x. dec (enc x) = Inr x"
  shows "(if is_local c key_int then local_access c f w
      else RPC_CALL_WRAPPER p thl c sfx key_int dec q w) = at_server (unat key_int) f w"
  using local_access_connected [OF assms(1), of f]
    remote_call [where dec = dec, OF assms]
  by (auto simp: is_local_def)

lemma keyed_call:
  assumes "connected p tbl c w" "map_of tbl sfx = Some op"
    and "\<And>cc s. handler op q cc s = THALLIUM_DEFINE enc (f s)" "\<And>x. dec (enc x) = Inr x"
  shows "rbind (key_to_server c h) (\<lambda>key_int.
      if is_local c key_int then local_access c f w
      else RPC_CALL_WRAPPER p thl c sfx key_int dec q w) = at_server (home (length w) h) f w"
proof -
  have "home (length w) h < 2 ^ 16"
    using home_less [OF assms(1), of h] assms(1) by (auto simp: connected_def)
  then have "unat (of_nat (home (length w) h) :: u16) = home (length w) h"
    by (rule unat_of_nat_u16)
  then show ?thesis
    using indexed_call [where dec = dec, OF assms(1) _ assms(2-4), of "of_nat (home (length w) h)"]
      key_to_server_connected [OF assms(1)] home_less [OF assms(1), of h] by simp
qed

lemma node_call:
  assumes "connected p tbl c w" "map_of tbl sfx = Some op"
    and "\<And>cc s. handler op q cc s = THALLIUM_DEFINE enc (f s)" "\<And>x. dec (enc x) = Inr x"
  shows "(if is_local_node c then local_access c f w
      else RPC_CALL_WRAPPER p thl c sfx (my_server_idx c) dec q w) =
    at_server (unat (my_server_idx c)) f w"
  using local_access_connected [OF assms(1), of f]
    remote_call [where dec = dec, OF assms(1) connected_index [OF assms(1)] assms(2-4)]
  by simp

lemma gather_call:
  assumes "connected p tbl c w" "map_of tbl sfx = Some op"
    and "\<And>cc s. handler op q cc s = THALLIUM_DEFINE enc (f s)" "\<And>x. dec (enc x) = Inr x"
    and f: "\<And>i. i < length w \<Longrightarrow> at_server i f w = Inr (g i, w)"
  shows "rbind (if is_local_node c then local_access c f w
        else RPC_CALL_WRAPPER p thl c sfx (my_server_idx c) dec q w) (\<lambda>(current_server, w).
      collect (\<lambda>i. RPC_CALL_WRAPPER p thl c sfx (of_nat i) dec q) (other_servers c) current_server w) =
    Inr (g (unat (my_server_idx c)) @ concat (map g (other_servers c)), w)"
proof -
  have "i < length w" if "i \<in> set (other_servers c)" for i
    using that assms(1) by (auto simp: other_servers_def connected_def)
  then have "RPC_CALL_WRAPPER p thl c sfx (of_nat i) dec q w = Inr (g i, w)"
    if "i \<in> set (other_servers c)" for i
    using that remote_call [where dec = dec, OF assms(1) _ assms(2-4), of i] f by simp
  then show ?thesis
    unfolding node_call [where dec = dec, OF assms(1-4)] f [OF connected_index [OF assms(1)]]
    by (simp add: collect_pure)
qed

end

section \<open>Sharded objects\<close>

text \<open>No mutex held, every shared object well-formed, every key on its home server only.\<close>

definition sharded ::
  "('d \<Rightarrow> 'k \<Rightarrow> 'v option) \<Rightarrow> ('d \<Rightarrow> bool) \<Rightarrow> ('k \<Rightarrow> nat) \<Rightarrow> ('d, 'op) cluster \<Rightarrow> bool" where
  "sharded look ok hm w \<longleftrightarrow>
     quiescent w \<and> (\<forall>s \<in> set w. ok (obj (seg s)))
     \<and> (\<forall>i < length w. \<forall>k. look (obj (seg (w ! i))) k \<noteq> None \<longrightarrow> hm k = i)"

lemma shardedD:
  assumes "sharded look ok hm w"
  shows "quiescent w" "i < length w \<Longrightarrow> ok (obj (seg (w ! i)))"
    "i < length w \<Longrightarrow> look (obj (seg (w ! i))) k = Some v \<Longrightarrow> hm k = i"
  using assms by (auto simp: sharded_def)

lemma sharded_put_seg:
  assumes "sharded look ok hm w" "hm k < length w" "\<not> mtx s" "ok (obj s)"
    and "look (obj s) = (look (obj (seg (w ! hm k))))(k := x)"
  shows "sharded look ok hm (put_seg w (hm k) s)"
  using assms unfolding sharded_def
  by (auto simp: nth_put_seg intro!: quiescent_put_seg dest!: set_put_segD split: if_splits)

lemma sharded_graph:
  assumes "sharded look ok hm w" "\<And>k. hm k < length w"
  shows "(\<Union>i < length w. {(k, v). look (obj (seg (w ! i))) k = Some v}) =
    {(k, v). shard_view look hm w k = Some v}"
  using assms(2) shardedD(3) [OF assms(1)] by (fastforce simp: shard_view_def)

text \<open>What a gathering loop returns is the map the cluster denotes, each key once.\<close>

lemma gather_map_of:
  assumes sh: "sharded look ok hm w" and hm: "\<And>k. hm k < length w"
    and g: "\<And>i. i < length w \<Longrightarrow> distinct (map fst (g i)) \<and> map_of (g i) = look (obj (seg (w ! i))) |` S"
    and js: "distinct js" "set js = {..<length w}"
  shows "distinct (map fst (concat (map g js)))"
    and "map_of (concat (map g js)) = shard_view look hm w |` S"
proof -
  have mem: "(k, v) \<in> set (g i) \<longleftrightarrow> look (obj (seg (w ! i))) k = Some v \<and> k \<in> S"
    if "i < length w" for i k v
    using g [OF that] map_of_eq_Some_iff [of "g i" k v] by (auto simp: restrict_map_def split: if_splits)
  have key: "hm k = i" if "i < length w" "(k, v) \<in> set (g i)" for i k v
    using that mem shardedD(3) [OF sh] by blast
  have dist: "distinct (map fst (concat (map g l)))" if "distinct l" "set l \<subseteq> {..<length w}" for l
    using that
  proof (induction l)
    case (Cons i l)
    have "(k, v') \<notin> set (g j)" if "(k, v) \<in> set (g i)" "j \<in> set l" for k v v' j
      using that Cons.prems key [of i k v] key [of j k v'] by auto
    then have "fst ` set (g i) \<inter> (\<Union>j \<in> set l. fst ` set (g j)) = {}"
      by fastforce
    then show ?case using Cons g [of i] by (simp add: image_UN)
  qed simp
  then show d: "distinct (map fst (concat (map g js)))" using js by simp
  show "map_of (concat (map g js)) = shard_view look hm w |` S"
  proof
    fix k
    have "(\<exists>i < length w. (k, v) \<in> set (g i)) \<longleftrightarrow> (shard_view look hm w |` S) k = Some v" for v
    proof
      assume "\<exists>i < length w. (k, v) \<in> set (g i)"
      then obtain i where i: "i < length w" "(k, v) \<in> set (g i)" by blast
      then show "(shard_view look hm w |` S) k = Some v"
        using mem [OF i(1)] key [OF i] by (simp add: shard_view_def)
    next
      assume "(shard_view look hm w |` S) k = Some v"
      then have "look (obj (seg (w ! hm k))) k = Some v \<and> k \<in> S"
        by (simp add: shard_view_def restrict_map_def split: if_splits)
      then show "\<exists>i < length w. (k, v) \<in> set (g i)"
        using mem [OF hm [of k]] hm [of k] by blast
    qed
    then have "map_of (concat (map g js)) k = Some v \<longleftrightarrow> (shard_view look hm w |` S) k = Some v" for v
      unfolding map_of_eq_Some_iff [OF d] using js by auto
    then show "map_of (concat (map g js)) k = (shard_view look hm w |` S) k"
      by (metis not_Some_eq)
  qed
qed

lemma set_own_and_others:
  "connected p tbl c w \<Longrightarrow> set (unat (my_server_idx c) # other_servers c) = {..<length w}"
  "distinct (unat (my_server_idx c) # other_servers c)"
  by (auto simp: connected_def other_servers_def)

section \<open>Keyed stores\<close>

text \<open>
  A container whose clients send every operation on a key to the home server of the key, where
  it runs under the mutex, is a single map as soon as the bodies of its operations behave so on
  one object. The locale takes the routing and the laws of the bodies; it gives the contract of
  \<open>kv_service\<close> and what a gathering loop returns.
\<close>

definition store_home :: "('k \<Rightarrow> u64) \<Rightarrow> ('d, 'op) cluster \<Rightarrow> 'k \<Rightarrow> nat" where
  "store_home hash w k = home (length w) (hash k)"

definition store_view :: "('d \<Rightarrow> 'k \<Rightarrow> 'v option) \<Rightarrow> ('k \<Rightarrow> u64) \<Rightarrow> ('d, 'op) cluster \<Rightarrow> 'k \<Rightarrow> 'v option" where
  "store_view look hash w = shard_view look (store_home hash w) w"

definition store_inv ::
  "(string \<times> 'op) list \<Rightarrow> hcl_process \<Rightarrow> ('d \<Rightarrow> 'k \<Rightarrow> 'v option) \<Rightarrow> ('d \<Rightarrow> bool) \<Rightarrow> ('k \<Rightarrow> u64)
     \<Rightarrow> container set \<Rightarrow> ('d, 'op) cluster \<Rightarrow> bool" where
  "store_inv tbl p look ok hash C w \<longleftrightarrow>
     (\<forall>c \<in> C. connected p tbl c w) \<and> sharded look ok (store_home hash w) w"

lemma store_home_put_seg [simp]: "store_home hash (put_seg w i s) = store_home hash w"
  by (simp add: store_home_def fun_eq_iff)

lemma store_invD:
  assumes "store_inv tbl p look ok hash C w"
  shows "c \<in> C \<Longrightarrow> connected p tbl c w" "sharded look ok (store_home hash w) w"
  using assms by (auto simp: store_inv_def)

lemma store_inv_server:
  assumes "store_inv tbl p look ok hash C w" "i < length w"
  shows "ok (obj (seg (w ! i)))" "\<not> mtx (seg (w ! i))"
  using shardedD(2) [OF store_invD(2) [OF assms(1)] assms(2)]
    quiescentD [OF shardedD(1) [OF store_invD(2) [OF assms(1)]] assms(2)] by auto

lemma store_home_less:
  "store_inv tbl p look ok hash C w \<Longrightarrow> c \<in> C \<Longrightarrow> store_home hash w k < length w"
  using home_less [OF store_invD(1)] by (simp add: store_home_def)

lemma store_write:
  assumes inv: "store_inv tbl p look ok hash C w" "c \<in> C" and s: "\<not> mtx s" "ok (obj s)"
    and look: "look (obj s) = (look (obj (seg (w ! store_home hash w k))))(k := x)"
  shows "store_inv tbl p look ok hash C (put_seg w (store_home hash w k) s)"
    and "store_view look hash (put_seg w (store_home hash w k) s) = (store_view look hash w)(k := x)"
proof -
  note less = store_home_less [OF inv, of k]
  show "store_inv tbl p look ok hash C (put_seg w (store_home hash w k) s)"
    using inv(1) less sharded_put_seg [of look ok "store_home hash w" w k s x] s look
    by (auto simp: store_inv_def intro: hcl_wf)
  show "store_view look hash (put_seg w (store_home hash w k) s) = (store_view look hash w)(k := x)"
    unfolding store_view_def store_home_put_seg using less look by (rule shard_view_put_seg)
qed

text \<open>Gathering: every key once, restricted to what each server selects.\<close>

lemma store_gather:
  assumes inv: "store_inv tbl p look ok hash C w" "c \<in> C"
    and g: "\<And>i. i < length w \<Longrightarrow> distinct (map fst (g i)) \<and> map_of (g i) = look (obj (seg (w ! i))) |` S"
  shows "distinct (map fst (g (unat (my_server_idx c)) @ concat (map g (other_servers c))))"
    and "map_of (g (unat (my_server_idx c)) @ concat (map g (other_servers c))) = store_view look hash w |` S"
proof -
  let ?js = "unat (my_server_idx c) # other_servers c"
  have "distinct (map fst (concat (map g ?js)))" "map_of (concat (map g ?js)) = store_view look hash w |` S"
    unfolding store_view_def
    by (rule gather_map_of [OF store_invD(2) [OF inv(1)] store_home_less [OF inv] g set_own_and_others(2)
          set_own_and_others(1) [OF store_invD(1) [OF inv]]], assumption)+
  then show "distinct (map fst (g (unat (my_server_idx c)) @ concat (map g (other_servers c))))"
    "map_of (g (unat (my_server_idx c)) @ concat (map g (other_servers c))) = store_view look hash w |` S"
    by simp_all
qed

locale keyed_store =
  fixes tbl :: "(string \<times> 'op) list" and p :: hcl_process
    and put :: "container \<Rightarrow> 'k \<Rightarrow> 'v \<Rightarrow> ('d, 'op) cluster \<Rightarrow> (bool \<times> ('d, 'op) cluster) result"
    and get :: "container \<Rightarrow> 'k \<Rightarrow> ('d, 'op) cluster \<Rightarrow> ((bool \<times> 'v) \<times> ('d, 'op) cluster) result"
    and del :: "container \<Rightarrow> 'k \<Rightarrow> ('d, 'op) cluster \<Rightarrow> ((bool \<times> 'v) \<times> ('d, 'op) cluster) result"
    and hash :: "'k \<Rightarrow> u64" and look :: "'d \<Rightarrow> 'k \<Rightarrow> 'v option" and ok :: "'d \<Rightarrow> bool"
    and stored :: "'v \<Rightarrow> 'v" and dflt :: 'v
    and put_body :: "'k \<Rightarrow> 'v \<Rightarrow> 'd \<Rightarrow> bool \<times> 'd"
    and get_body del_body :: "'k \<Rightarrow> 'd \<Rightarrow> (bool \<times> 'v) \<times> 'd"
  assumes put_home: "connected p tbl c w \<Longrightarrow>
      put c k v w = at_server (home (length w) (hash k)) (scoped_lock (put_body k v)) w"
    and get_home: "connected p tbl c w \<Longrightarrow>
      get c k w = at_server (home (length w) (hash k)) (scoped_lock (get_body k)) w"
    and del_home: "connected p tbl c w \<Longrightarrow>
      del c k w = at_server (home (length w) (hash k)) (scoped_lock (del_body k)) w"
    and put_law: "ok m \<Longrightarrow> fst (put_body k v m) \<and> ok (snd (put_body k v m))
      \<and> look (snd (put_body k v m)) = (look m)(k \<mapsto> stored v)"
    and get_law: "ok m \<Longrightarrow> get_body k m =
      (case look m k of None \<Rightarrow> (False, dflt) | Some v \<Rightarrow> (True, v), m)"
    and del_law: "ok m \<Longrightarrow> fst (del_body k m) = (look m k \<noteq> None, dflt) \<and> ok (snd (del_body k m))
      \<and> look (snd (del_body k m)) = (look m)(k := None)"
begin

lemma at_home_write:
  assumes inv: "store_inv tbl p look ok hash C w" "c \<in> C"
    and law: "\<And>m. ok m \<Longrightarrow> ok (snd (body m)) \<and> look (snd (body m)) = (look m)(k := x m)"
  shows "\<exists>w'. at_server (home (length w) (hash k)) (scoped_lock body) w =
      Inr (fst (body (obj (seg (w ! store_home hash w k)))), w')
    \<and> store_inv tbl p look ok hash C w'
    \<and> store_view look hash w' = (store_view look hash w)(k := x (obj (seg (w ! store_home hash w k))))"
proof -
  let ?i = "store_home hash w k"
  let ?s = "(seg (w ! ?i))\<lparr>obj := snd (body (obj (seg (w ! ?i))))\<rparr>"
  note i = store_home_less [OF inv, of k] and srv = store_inv_server [OF inv(1) store_home_less [OF inv]]
  have "at_server ?i (scoped_lock body) w = Inr (fst (body (obj (seg (w ! ?i)))), put_seg w ?i ?s)"
    using srv(2) by (simp add: at_server_write)
  moreover have "ok (obj ?s)" "look (obj ?s) = (look (obj (seg (w ! ?i))))(k := x (obj (seg (w ! ?i))))"
    using law [OF srv(1)] by simp_all
  ultimately show ?thesis
    using store_write [OF inv, of ?s k] srv(2) unfolding store_home_def by auto
qed

end

sublocale keyed_store \<subseteq> kv_service put get del "store_inv tbl p look ok hash" "store_view look hash" stored dflt
proof
  fix C s c k v
  assume inv: "store_inv tbl p look ok hash C s" and c: "c \<in> C"
  note con = store_invD(1) [OF inv c] and here = store_inv_server(1) [OF inv store_home_less [OF inv c]]
  have look_here: "store_view look hash s k = look (obj (seg (s ! store_home hash s k))) k"
    by (simp add: store_view_def shard_view_def)
  show "\<exists>s'. put c k v s = Inr (True, s') \<and> store_inv tbl p look ok hash C s'
      \<and> store_view look hash s' = (store_view look hash s)(k \<mapsto> stored v)"
    using at_home_write [OF inv c, of "put_body k v" k "\<lambda>_. Some (stored v)"] put_law put_home [OF con]
      put_law [OF here, of k v] by auto
  show "\<exists>s'. get c k s = Inr (case store_view look hash s k of None \<Rightarrow> (False, dflt) | Some v \<Rightarrow> (True, v), s')
      \<and> store_inv tbl p look ok hash C s' \<and> store_view look hash s' = store_view look hash s"
    using at_home_write [OF inv c, of "get_body k" k "\<lambda>m. look m k"] get_law get_home [OF con]
      get_law [OF here, of k] look_here by (auto simp: fun_upd_idem)
  show "\<exists>s'. del c k s = Inr ((store_view look hash s k \<noteq> None, dflt), s')
      \<and> store_inv tbl p look ok hash C s' \<and> store_view look hash s' = (store_view look hash s)(k := None)"
    using at_home_write [OF inv c, of "del_body k" k "\<lambda>_. None"] del_law del_home [OF con]
      del_law [OF here, of k] look_here by auto
qed

section \<open>Containers addressed by server index\<close>

text \<open>
  A sequence of commands run on an implementation, and on a specification: if every command is
  simulated, every sequence is.
\<close>

fun run_cmds :: "('x \<Rightarrow> 'w \<Rightarrow> ('o \<times> 'w) result) \<Rightarrow> 'x list \<Rightarrow> 'w \<Rightarrow> ('o list \<times> 'w) result" where
  "run_cmds exec [] w = Inr ([], w)"
| "run_cmds exec (x # xs) w =
     rbind (exec x w) (\<lambda>(out, w). rmap (\<lambda>(outs, w). (out # outs, w)) (run_cmds exec xs w))"

fun run_spec :: "('x \<Rightarrow> 'a \<Rightarrow> 'o \<times> 'a) \<Rightarrow> 'x list \<Rightarrow> 'a \<Rightarrow> 'o list \<times> 'a" where
  "run_spec step [] a = ([], a)"
| "run_spec step (x # xs) a =
     (let (out, a) = step x a; (outs, a) = run_spec step xs a in (out # outs, a))"

locale simulation =
  fixes exec :: "'x \<Rightarrow> 'w \<Rightarrow> ('o \<times> 'w) result" and step :: "'x \<Rightarrow> 'a \<Rightarrow> 'o \<times> 'a"
    and inv :: "'w \<Rightarrow> bool" and view :: "'w \<Rightarrow> 'a" and valid :: "'w \<Rightarrow> 'x \<Rightarrow> bool"
  assumes simulates: "inv w \<Longrightarrow> valid w x \<Longrightarrow>
      \<exists>w'. exec x w = Inr (fst (step x (view w)), w') \<and> inv w' \<and> view w' = snd (step x (view w))
        \<and> valid w' = valid w"
begin

theorem run_simulates:
  assumes "inv w" "\<forall>x \<in> set xs. valid w x"
  shows "\<exists>w'. run_cmds exec xs w = Inr (fst (run_spec step xs (view w)), w') \<and> inv w'
    \<and> view w' = snd (run_spec step xs (view w))"
  using assms
proof (induction xs arbitrary: w)
  case (Cons x xs)
  then obtain w1 where w1: "exec x w = Inr (fst (step x (view w)), w1)" "inv w1"
      "view w1 = snd (step x (view w))" "valid w1 = valid w"
    using simulates [of w x] by auto
  moreover obtain w2 where "run_cmds exec xs w1 = Inr (fst (run_spec step xs (view w1)), w2)" "inv w2"
      "view w2 = snd (run_spec step xs (view w1))"
    using Cons.IH [OF w1(2)] Cons.prems w1(4) by auto
  ultimately show ?case by (auto simp: Let_def case_prod_beta)
qed simp

end

text \<open>The state such a container denotes: what each server holds.\<close>

definition servers_view :: "('d \<Rightarrow> 'a) \<Rightarrow> ('d, 'op) cluster \<Rightarrow> 'a list" where
  "servers_view av w = map (\<lambda>s. av (obj (seg s))) w"

definition servers_inv ::
  "(string \<times> 'op) list \<Rightarrow> hcl_process \<Rightarrow> ('d \<Rightarrow> bool) \<Rightarrow> container set \<Rightarrow> ('d, 'op) cluster \<Rightarrow> bool" where
  "servers_inv tbl p ok C w \<longleftrightarrow>
     (\<forall>c \<in> C. connected p tbl c w) \<and> quiescent w \<and> (\<forall>s \<in> set w. ok (obj (seg s)))"

lemma length_servers_view [simp]: "length (servers_view av w) = length w"
  by (simp add: servers_view_def)

lemma nth_servers_view [simp]: "i < length w \<Longrightarrow> servers_view av w ! i = av (obj (seg (w ! i)))"
  by (simp add: servers_view_def)

lemma servers_invD:
  assumes "servers_inv tbl p ok C w"
  shows "c \<in> C \<Longrightarrow> connected p tbl c w" "i < length w \<Longrightarrow> \<not> mtx (seg (w ! i))"
    "i < length w \<Longrightarrow> ok (obj (seg (w ! i)))"
  using assms by (auto simp: servers_inv_def quiescent_def)

lemma servers_write:
  assumes inv: "servers_inv tbl p ok C w" and i: "i < length w"
    and body: "ok (snd (body (obj (seg (w ! i)))))"
  shows "\<exists>w'. at_server i (scoped_lock body) w = Inr (fst (body (obj (seg (w ! i)))), w')
    \<and> servers_inv tbl p ok C w' \<and> length w' = length w
    \<and> servers_view av w' = (servers_view av w)[i := av (snd (body (obj (seg (w ! i)))))]"
proof -
  let ?s = "(seg (w ! i))\<lparr>obj := snd (body (obj (seg (w ! i))))\<rparr>"
  have "at_server i (scoped_lock body) w = Inr (fst (body (obj (seg (w ! i)))), put_seg w i ?s)"
    using servers_invD(2) [OF inv i] by (simp add: at_server_write)
  moreover have "servers_inv tbl p ok C (put_seg w i ?s)"
    using inv i body servers_invD(2) [OF inv i] unfolding servers_inv_def
    by (auto intro!: hcl_wf dest!: set_put_segD)
  moreover have "servers_view av (put_seg w i ?s) =
      (servers_view av w)[i := av (snd (body (obj (seg (w ! i)))))]"
    using i by (simp add: servers_view_def put_seg_def map_update)
  ultimately show ?thesis by auto
qed

text \<open>
  Every command names its client and a server; from a free mutex its body has the effect of a
  critical section of that server and does to the abstract state of that server what \<open>astep\<close> says.
\<close>

definition at_index :: "('x \<Rightarrow> container \<times> u16) \<Rightarrow> ('x \<Rightarrow> 'a \<Rightarrow> 'o \<times> 'a) \<Rightarrow> 'x \<Rightarrow> 'a list \<Rightarrow> 'o \<times> 'a list" where
  "at_index addr astep x as =
     (let i = unat (snd (addr x)); (out, a) = astep x (as ! i) in (out, as[i := a]))"

definition addressed :: "('x \<Rightarrow> container \<times> u16) \<Rightarrow> container set \<Rightarrow> ('d, 'op) cluster \<Rightarrow> 'x \<Rightarrow> bool" where
  "addressed addr C w x \<longleftrightarrow> fst (addr x) \<in> C \<and> unat (snd (addr x)) < length w"

definition returning :: "('r \<Rightarrow> 'o) \<Rightarrow> ('d \<Rightarrow> 'r \<times> 'd) \<Rightarrow> 'd \<Rightarrow> 'o \<times> 'd" where
  "returning h f d = (h (fst (f d)), snd (f d))"

lemma returning_sel [simp]: "fst (returning h f d) = h (fst (f d))" "snd (returning h f d) = snd (f d)"
  by (simp_all add: returning_def)

lemma at_server_returning:
  "rmap (\<lambda>(b, w). (h b, w)) (at_server i (scoped_lock f) w) = at_server i (scoped_lock (returning h f)) w"
  unfolding at_server_map returning_def [abs_def] ..

locale indexed_service =
  fixes tbl :: "(string \<times> 'op) list" and p :: hcl_process
    and exec :: "'x \<Rightarrow> ('d, 'op) cluster \<Rightarrow> ('o \<times> ('d, 'op) cluster) result"
    and addr :: "'x \<Rightarrow> container \<times> u16" and body :: "'x \<Rightarrow> 'd \<Rightarrow> 'o \<times> 'd"
    and ok :: "'d \<Rightarrow> bool" and av :: "'d \<Rightarrow> 'a" and astep :: "'x \<Rightarrow> 'a \<Rightarrow> 'o \<times> 'a"
  assumes exec_at: "connected p tbl (fst (addr x)) w \<Longrightarrow> unat (snd (addr x)) < length w \<Longrightarrow>
      \<not> mtx (seg (w ! unat (snd (addr x)))) \<Longrightarrow> ok (obj (seg (w ! unat (snd (addr x))))) \<Longrightarrow>
      exec x w = at_server (unat (snd (addr x))) (scoped_lock (body x)) w"
    and body_ok: "ok d \<Longrightarrow> ok (snd (body x d))"
    and body_step: "ok d \<Longrightarrow> astep x (av d) = (fst (body x d), av (snd (body x d)))"

sublocale indexed_service \<subseteq> simulation exec "at_index addr astep" "servers_inv tbl p ok C"
  "servers_view av" "addressed addr C" for C
proof
  fix w x
  assume inv: "servers_inv tbl p ok C w" and v: "addressed addr C w x"
  let ?i = "unat (snd (addr x))"
  have i: "fst (addr x) \<in> C" "?i < length w" using v by (simp_all add: addressed_def)
  note d = servers_invD(3) [OF inv i(2)]
  have "exec x w = at_server ?i (scoped_lock (body x)) w"
    using exec_at [OF servers_invD(1) [OF inv i(1)] i(2) servers_invD(2) [OF inv i(2)] d] .
  moreover obtain w' where "at_server ?i (scoped_lock (body x)) w = Inr (fst (body x (obj (seg (w ! ?i)))), w')"
      "servers_inv tbl p ok C w'" "length w' = length w"
      "servers_view av w' = (servers_view av w)[?i := av (snd (body x (obj (seg (w ! ?i)))))]"
    using servers_write [where av = av and body = "body x", OF inv i(2)] body_ok [OF d, of x] by blast
  ultimately show "\<exists>w'. exec x w = Inr (fst (at_index addr astep x (servers_view av w)), w')
      \<and> servers_inv tbl p ok C w' \<and> servers_view av w' = snd (at_index addr astep x (servers_view av w))
      \<and> addressed addr C w' = addressed addr C w"
    using i body_step [OF d, of x] by (auto simp: at_index_def addressed_def fun_eq_iff Let_def)
qed

end
