(* ===== verification/Hcl_Launch.thy ===== *)
theory Hcl_Launch
  imports Hcl_Service
begin

text \<open>
  From constructors to clusters: servers built by the constructors of one container class and
  a client built with the same name, directory and port form a connected cluster. The example
  deployment at the end is the one the witnesses of the containers run on.
\<close>

section \<open>What the constructors establish\<close>

definition table_ok :: "(string \<times> 'op) list \<Rightarrow> bool" where
  "table_ok tbl \<longleftrightarrow> (\<forall>e \<in> set tbl. NUL \<notin> set (fst e) \<and> length (fst e) \<le> 50)"

lemma bind_all_names:
  assumes "bind_all r prefix tbl b = Inr b'" "wf_cs prefix" "length (visible prefix) \<le> 200" "table_ok tbl"
  shows "b' = b @ map (\<lambda>(n, op). (visible prefix @ n, op)) tbl"
  using assms(1,4)
proof (induction tbl arbitrary: b)
  case Nil
  then show ?case by simp
next
  case (Cons e tbl)
  obtain sfx f where e: "e = (sfx, f)" by fastforce
  have "denotes (cs_cat (Inr prefix) (cs_of sfx)) (visible prefix @ sfx)"
    by (intro denotes_intros) (use assms(2,3) Cons.prems(2) e in \<open>auto simp: table_ok_def\<close>)
  then show ?case
    using Cons.prems Cons.IH [of "b @ [(visible prefix @ sfx, f)]"] e
    by (auto simp: RPC_bind_def cs_string_def denotes_def table_ok_def split: if_splits)
qed

lemma bind_functions_names:
  assumes "bind_functions p c tbl = Inr b" "wf_cs (func_prefix c)" "length (visible (func_prefix c)) \<le> 200"
    "table_ok tbl"
  shows "b = map (\<lambda>(n, op). (visible (func_prefix c) @ n, op)) tbl"
  using assms bind_all_names by (fastforce simp: bind_functions_def)

lemma container_ctor_ready:
  assumes "container_ctor bip p nm prt n idx mem srv on_node dir fs = Inr (c, fs')"
  shows "hcl_created p \<and> (\<exists>r. map_of (rpcs p) prt = Some r)"
  using assms
  by (auto simp: container_ctor_def Let_def HCL_instance_def GetRPC_def split: if_splits option.splits)

lemma derived_ctor_base:
  assumes "derived_ctor bip p ob new tbl nm prt n idx mem srv on_node dir fs = Inr (c, ptr, b, fs')"
  shows "\<exists>fs1. container_ctor bip p nm prt n idx mem srv on_node dir fs = Inr (c, fs1)"
  using assms by (auto simp: derived_ctor_steps split: if_splits)

lemma derived_ctor_server:
  assumes ctor: "derived_ctor bip p ob new tbl nm prt n idx mem True on_node dir fs = Inr (c, ptr, b, fs')"
    and fit: "wf_cs nm" "wf_cs dir" "length (visible nm) + length (visible dir) \<le> 200" "table_ok tbl"
  shows "ptr = Some new" "b = map (\<lambda>(s, op). (visible nm @ s, op)) tbl"
proof -
  obtain fs1 where c: "container_ctor bip p nm prt n idx mem True on_node dir fs = Inr (c, fs1)"
    using derived_ctor_base [OF ctor] by blast
  then have bound: "ptr = Some new" "bind_functions p c tbl = Inr b"
    using ctor container_ctor_fields(3) [OF c] by (auto simp: derived_ctor_steps)
  have "wf_cs (func_prefix c)" "visible (func_prefix c) = visible nm"
    using container_ctor_names [OF c] fit by auto
  with bound fit show "ptr = Some new" "b = map (\<lambda>(s, op). (visible nm @ s, op)) tbl"
    using bind_functions_names [of p c tbl b] by auto
qed

text \<open>
  What the constructor of a server leaves in its process: the bindings, the object its pointer refers to and the mutex
  of the base class, which Boost constructs free. \<open>launch\<close> runs the constructors of the servers \<open>is\<close>, one process each.
\<close>

fun launch_server ::
  "container \<times> 'd option \<times> (string \<times> 'op) list \<times> 'f \<Rightarrow> ('d, 'op) server_proc result" where
  "launch_server (c, Some d, b, fs) = Inr \<lparr>self = c, seg = \<lparr>mtx = False, obj = d\<rparr>, binds = b\<rparr>"
| "launch_server (c, None, b, fs) = Inl Null_Deref"

fun launch ::
  "(nat \<Rightarrow> (container \<times> 'd option \<times> (string \<times> 'op) list \<times> 'f) result) \<Rightarrow> nat list \<Rightarrow> ('d, 'op) cluster result" where
  "launch ctor [] = Inr []"
| "launch ctor (i # is) = rbind (rbind (ctor i) launch_server) (\<lambda>s. rmap ((#) s) (launch ctor is))"

lemma launch_nth:
  assumes "launch ctor is = Inr w"
  shows "length w = length is" and "\<And>j. j < length is \<Longrightarrow> \<exists>c d b fs. ctor (is ! j) = Inr (c, Some d, b, fs)
    \<and> w ! j = \<lparr>self = c, seg = \<lparr>mtx = False, obj = d\<rparr>, binds = b\<rparr>"
proof -
  have "length w = length is \<and> (\<forall>j < length is. \<exists>c d b fs. ctor (is ! j) = Inr (c, Some d, b, fs)
      \<and> w ! j = \<lparr>self = c, seg = \<lparr>mtx = False, obj = d\<rparr>, binds = b\<rparr>)"
    using assms
  proof (induction ctor "is" arbitrary: w rule: launch.induct)
    case (2 ctor i "is")
    obtain s w' where w: "rbind (ctor i) launch_server = Inr s" "launch ctor is = Inr w'" "w = s # w'"
      using 2(2) by (auto simp: rbind_eq_Inr rmap_eq_Inr)
    then obtain r where r: "ctor i = Inr r" "launch_server r = Inr s" by (auto simp: rbind_eq_Inr)
    then have "\<exists>c d b fs. ctor i = Inr (c, Some d, b, fs) \<and> s = \<lparr>self = c, seg = \<lparr>mtx = False, obj = d\<rparr>, binds = b\<rparr>"
      by (cases r rule: launch_server.cases) auto
    then show ?case using 2(1) [OF w(2)] w(3) by (auto simp: nth_Cons' less_Suc_eq_0_disj)
  qed simp
  then show "length w = length is" "\<And>j. j < length is \<Longrightarrow> \<exists>c d b fs. ctor (is ! j) = Inr (c, Some d, b, fs)
    \<and> w ! j = \<lparr>self = c, seg = \<lparr>mtx = False, obj = d\<rparr>, binds = b\<rparr>" by auto
qed

lemma launch_connected:
  assumes w: "launch (\<lambda>i. derived_ctor bip (procs i) ob new tbl nm prt n (of_nat i) mem True sn dir (fss i)) [0..<unat n] = Inr w"
    and c: "derived_ctor bip p ob new' tbl nm prt n idx mem' srv on_node dir fs = Inr (c, ptr, b, fs')"
    and idx: "idx < n"
    and eps: "\<And>r. map_of (rpcs p) prt = Some r \<Longrightarrow> length (rpc_endpoints r) = unat n"
    and fit: "wf_cs nm" "wf_cs dir" "length (visible nm) + length (visible dir) \<le> 200" "table_ok tbl"
  shows "connected p tbl c w" "quiescent w" "\<forall>s \<in> set w. obj (seg s) = new"
proof -
  have n: "length w = unat n" using launch_nth(1) [OF w] by simp
  obtain fs1 where ctor: "container_ctor bip p nm prt n idx mem' srv on_node dir fs = Inr (c, fs1)"
    using derived_ctor_base [OF c] by blast
  have names: "wf_cs (func_prefix c)" "visible (func_prefix c) = visible nm"
    using container_ctor_names [OF ctor] fit by auto
  have built: "binds (w ! i) = map (\<lambda>(s, op). (visible nm @ s, op)) tbl \<and> seg (w ! i) = \<lparr>mtx = False, obj = new\<rparr>"
    if i: "i < length w" for i
  proof -
    obtain c d b fs' where s: "derived_ctor bip (procs i) ob new tbl nm prt n (of_nat i) mem True sn dir (fss i) = Inr (c, Some d, b, fs')"
      and wi: "w ! i = \<lparr>self = c, seg = \<lparr>mtx = False, obj = d\<rparr>, binds = b\<rparr>"
      using launch_nth(2) [OF w, of i] i n by auto
    show ?thesis using derived_ctor_server [OF s fit] wi by simp
  qed
  then have "\<forall>s \<in> set w. binds s = map (\<lambda>(s, op). (visible nm @ s, op)) tbl"
    by (auto simp: in_set_conv_nth)
  moreover have "unat n < 2 ^ 16" "unat idx < unat n"
    using unsigned_less [of n] idx by (simp_all add: word_less_nat_alt)
  ultimately show "connected p tbl c w"
    using container_ctor_ready [OF ctor] container_ctor_fields [OF ctor] names n eps fit
    by (auto simp: connected_def table_ok_def)
  show "quiescent w" "\<forall>s \<in> set w. obj (seg s) = new"
    using built by (auto simp: quiescent_def in_set_conv_nth)
qed

lemma store_fresh:
  assumes "connected p tbl c w" "quiescent w" "\<forall>s \<in> set w. obj (seg s) = new" "ok new"
    "\<And>k. look new k = None"
  shows "store_inv tbl p look ok hash {c} w \<and> store_view look hash w = Map.empty"
proof -
  have "store_home hash w k < length w" for k
    using home_less [OF assms(1)] by (simp add: store_home_def)
  then show ?thesis
    using assms by (auto simp: store_inv_def sharded_def store_view_def shard_view_def fun_eq_iff)
qed

text \<open>The constructors succeed when the names fit and the library is initialised on the port.\<close>

lemma ctor_names_exist:
  assumes wf: "wf_cs nm" "wf_cs dir" and len: "length (visible nm) + length (visible dir) \<le> 240"
  shows "\<exists>n0 f n1. CharStruct_copy fresh_mem nm = Inr n0
    \<and> cs_cat (cs_cat (cs_cat (cs_cat (Inr dir) (cs_of ''/'')) (Inr nm)) (cs_of ''_''))
        (cs_of (to_string (unat (idx :: u16)))) = Inr f
    \<and> cs_app (Inr n0) (cs_of (''_'' @ to_string (unat idx))) = Inr n1"
proof -
  let ?t = "to_string (unat idx)"
  have t: "length ?t \<le> 5" by (rule length_to_string_u16)
  have nc: "NUL \<noteq> CHR ''/''" "NUL \<noteq> CHR ''_''" by (simp_all add: NUL_def)
  obtain nm1 where nm1: "CharStruct_copy fresh_mem nm = Inr nm1" "wf_cs nm1" "visible nm1 = visible nm"
    using CharStruct_copyE [OF wf(1)] .
  have "denotes (cs_cat (cs_cat (cs_cat (cs_cat (Inr dir) (cs_of ''/'')) (Inr nm)) (cs_of ''_'')) (cs_of ?t))
      ((((visible dir @ ''/'') @ visible nm) @ ''_'') @ ?t)"
    by (intro denotes_intros) (use wf len t nc in auto)
  moreover have "denotes (cs_app (Inr nm1) (cs_of (''_'' @ ?t))) (visible nm1 @ ''_'' @ ?t)"
    by (intro denotes_intros) (use nm1 len t nc in auto)
  ultimately show ?thesis using nm1(1) by (auto simp: denotes_def)
qed

lemma container_ctor_remote_client:
  assumes "wf_cs nm" "wf_cs dir" "length (visible nm) + length (visible dir) \<le> 240"
    and "hcl_created p" "map_of (rpcs p) prt = Some r"
  shows "\<exists>c. container_ctor bip p nm prt n idx mem False False dir fs = Inr (c, fs)"
  using ctor_names_exist [OF assms(1-3), of idx] assms(4,5)
  by (auto simp: container_ctor_def Let_def HCL_instance_def GetRPC_def)

lemma container_ctor_file_server:
  assumes "wf_cs nm" "wf_cs dir" "length (visible nm) + length (visible dir) \<le> 240"
    and "hcl_created p" "map_of (rpcs p) prt = Some r"
  shows "\<exists>c fs'. container_ctor file_table p nm prt n idx mem True on_node dir fs = Inr (c, fs')
    \<and> map_of fs' (visible (backed_file c)) = Some \<lparr>sf_mutex = True, sf_objects = []\<rparr>"
proof -
  obtain n0 f n1 where names: "CharStruct_copy fresh_mem nm = Inr n0"
      "cs_cat (cs_cat (cs_cat (cs_cat (Inr dir) (cs_of ''/'')) (Inr nm)) (cs_of ''_''))
        (cs_of (to_string (unat idx))) = Inr f"
      "cs_app (Inr n0) (cs_of (''_'' @ to_string (unat idx))) = Inr n1"
    using ctor_names_exist [OF assms(1-3), of idx] by blast
  have "map_of (filter (\<lambda>e. fst e \<noteq> visible f) fs) (visible f) = None"
    by (induction fs) auto
  then show ?thesis
    using names assms(4,5)
    by (simp add: container_ctor_def Let_def HCL_instance_def GetRPC_def file_table_def)
qed

lemma bind_all_succeeds:
  assumes "rpc_has_server_engine r" "wf_cs prefix" "length (visible prefix) \<le> 200" "table_ok tbl"
  shows "\<exists>b'. bind_all r prefix tbl b = Inr b'"
  using assms(4)
proof (induction tbl arbitrary: b)
  case (Cons e tbl)
  obtain sfx f where e: "e = (sfx, f)" by fastforce
  have "denotes (cs_cat (Inr prefix) (cs_of sfx)) (visible prefix @ sfx)"
    by (intro denotes_intros) (use assms(2,3) Cons.prems e in \<open>auto simp: table_ok_def\<close>)
  then show ?case
    using Cons e assms(1) by (auto simp: RPC_bind_def cs_string_def denotes_def table_ok_def)
qed simp

lemma derived_ctor_file_server:
  assumes fit: "wf_cs nm" "wf_cs dir" "length (visible nm) + length (visible dir) \<le> 200" "table_ok tbl"
    and p: "hcl_created p" "map_of (rpcs p) prt = Some r" "rpc_has_server_engine r"
  shows "\<exists>c b fs'. derived_ctor file_table p ob new tbl nm prt n idx mem True on_node dir fs =
    Inr (c, Some new, b, fs')"
proof -
  obtain c fs1 where c: "container_ctor file_table p nm prt n idx mem True on_node dir fs = Inr (c, fs1)"
      "map_of fs1 (visible (backed_file c)) = Some \<lparr>sf_mutex = True, sf_objects = []\<rparr>"
    using container_ctor_file_server [OF fit(1,2) _ p(1,2)] fit(3) by fastforce
  have "wf_cs (func_prefix c)" "visible (func_prefix c) = visible nm"
    using container_ctor_names [OF c(1)] fit by auto
  then obtain b where "bind_functions p c tbl = Inr b"
    using bind_all_succeeds [OF p(3), of "func_prefix c" tbl "[]"] fit p container_ctor_fields(5) [OF c(1)]
    by (auto simp: bind_functions_def HCL_instance_def GetRPC_def)
  moreover have "\<exists>fs2. bip_construct file_table (visible (backed_file c)) (ob c) new fs1 = Inr fs2"
    using c(2) by (simp add: file_table_def)
  ultimately show ?thesis
    using c(1) container_ctor_fields(3) [OF c(1)] by (auto simp: derived_ctor_steps)
qed

section \<open>An example deployment\<close>

text \<open>
  \<open>n\<close> servers of a container called \<^verbatim>\<open>c\<close> on port 9000, and clients of the same process
  configuration, on the node of server \<open>idx\<close> or on a node without a server.
\<close>

definition ex_name :: "string \<Rightarrow> charstruct" where
  "ex_name s = \<lparr>cs_value = s @ replicate (256 - length s) NUL\<rparr>"

definition ex_process :: "nat \<Rightarrow> hcl_process" where
  "ex_process n =
     \<lparr>conf = \<lparr>RPC_PORT = 9000, RPC_THREADS = 1, RPC_IMPLEMENTATION = THALLIUM,
              conf_URI = ex_name ''ofi+tcp://'', MEMORY_ALLOCATED = 1048576, IS_SERVER = False,
              MY_SERVER = 0, NUM_SERVERS = of_nat n, SERVER_ON_NODE = True,
              SERVER_LIST_PATH = ex_name '''', SERVER_LIST = [], BACKED_FILE_DIR = ex_name ''/dev/shm'',
              DYN_CONFIG = False\<rparr>,
      engine_instance = None,
      rpcs = [(9000, \<lparr>rpc_is_server = False, rpc_my_server_index = 0, rpc_threads = 1, rpc_uris = [],
                      rpc_engine_init_str = None, rpc_has_server_engine = True,
                      rpc_endpoints = replicate n ''server''\<rparr>)],
      hcl_created = True\<rparr>"

definition ex_client :: "nat \<Rightarrow> u16 \<Rightarrow> bool \<Rightarrow> container" where
  "ex_client n idx on_node =
     \<lparr>num_servers = int n, my_server_idx = idx, memory_allocated = 1048576, is_server = False,
      cont_name = ex_name ''c_0'', func_prefix = ex_name ''c'', backed_file = ex_name ''/dev/shm/c_0'',
      cont_port = 9000, server_on_node = on_node\<rparr>"

definition ex_clients :: "nat \<Rightarrow> container set" where
  "ex_clients n = {ex_client n idx on_node | idx on_node. unat idx < n}"

lemma ex_client_in [simp]: "ex_client n idx on_node \<in> ex_clients n \<longleftrightarrow> unat idx < n"
  by (auto simp: ex_clients_def ex_client_def)

definition ex_cluster :: "(string \<times> 'op) list \<Rightarrow> 'd list \<Rightarrow> ('d, 'op) cluster" where
  "ex_cluster tbl objs =
     map (\<lambda>d. \<lparr>self = (ex_client (length objs) 0 True)\<lparr>is_server := True\<rparr>,
               seg = \<lparr>mtx = False, obj = d\<rparr>, binds = map (\<lambda>(s, op). (''c'' @ s, op)) tbl\<rparr>) objs"

lemma length_ex_cluster [simp]: "length (ex_cluster tbl objs) = length objs"
  by (simp add: ex_cluster_def)

lemma seg_ex_cluster [simp]:
  "i < length objs \<Longrightarrow> seg (ex_cluster tbl objs ! i) = \<lparr>mtx = False, obj = objs ! i\<rparr>"
  by (simp add: ex_cluster_def)

lemma ex_name_wf: "length s < 256 \<Longrightarrow> NUL \<notin> set s \<Longrightarrow> wf_cs (ex_name s) \<and> visible (ex_name s) = s"
  by (cases "256 - length s") (auto simp: ex_name_def wf_cs_def visible_def)

lemma ex_connected:
  assumes "table_ok tbl" "c \<in> ex_clients n" "n < 2 ^ 16" "length objs = n"
  shows "connected (ex_process n) tbl c (ex_cluster tbl objs)"
proof -
  have "wf_cs (ex_name ''c'') \<and> visible (ex_name ''c'') = ''c''"
    by (rule ex_name_wf) (simp_all add: NUL_def)
  then show ?thesis
    using assms
    by (auto simp: connected_def ex_process_def ex_client_def ex_clients_def ex_cluster_def table_ok_def)
qed

text \<open>The example servers can also be built by the constructors.\<close>

lemma launch_succeeds:
  "(\<And>i. i \<in> set is \<Longrightarrow> \<exists>c d b fs. ctor i = Inr (c, Some d, b, fs)) \<Longrightarrow> \<exists>w. launch ctor is = Inr w"
  by (induction "is") fastforce+

lemma ex_launch:
  assumes "table_ok tbl"
  shows "\<exists>w. launch (\<lambda>i. derived_ctor file_table (ex_process n) ob new tbl (ex_name ''c'') 9000 k (of_nat i) 1048576
    True True (ex_name ''/dev/shm'') []) is = Inr w"
proof -
  have "wf_cs (ex_name ''c'') \<and> visible (ex_name ''c'') = ''c''"
    "wf_cs (ex_name ''/dev/shm'') \<and> visible (ex_name ''/dev/shm'') = ''/dev/shm''"
    by (rule ex_name_wf; simp add: NUL_def)+
  then have "\<exists>c b fs'. derived_ctor file_table (ex_process n) ob new tbl (ex_name ''c'') 9000 k
      (of_nat i) 1048576 True True (ex_name ''/dev/shm'') [] = Inr (c, Some new, b, fs')" for i
    using assms by (intro derived_ctor_file_server) (auto simp: ex_process_def)
  then show ?thesis by (intro launch_succeeds) blast
qed

lemma ex_remote_client_ctor:
  "\<exists>c b fs'. derived_ctor bip (ex_process n) ob new tbl (ex_name ''c'') 9000 k idx 1048576 False False
     (ex_name ''/dev/shm'') fs = Inr (c, None, b, fs')"
proof -
  have "wf_cs (ex_name ''c'') \<and> visible (ex_name ''c'') = ''c''"
    "wf_cs (ex_name ''/dev/shm'') \<and> visible (ex_name ''/dev/shm'') = ''/dev/shm''"
    by (rule ex_name_wf; simp add: NUL_def)+
  then obtain c where "container_ctor bip (ex_process n) (ex_name ''c'') 9000 k idx 1048576 False False
      (ex_name ''/dev/shm'') fs = Inr (c, fs)"
    using container_ctor_remote_client [of "ex_name ''c''" "ex_name ''/dev/shm''" "ex_process n" 9000]
    by (fastforce simp: ex_process_def)
  then show ?thesis
    using container_ctor_fields(3,4) by (fastforce simp: derived_ctor_steps)
qed

lemma ex_quiescent: "quiescent (ex_cluster tbl objs)"
  by (auto simp: quiescent_def ex_cluster_def)

lemma ex_servers_inv:
  assumes "table_ok tbl" "length objs = n" "n < 2 ^ 16" "\<forall>d \<in> set objs. ok d"
  shows "servers_inv tbl (ex_process n) ok (ex_clients n) (ex_cluster tbl objs)"
proof -
  have "\<forall>s \<in> set (ex_cluster tbl objs). ok (obj (seg s))"
    using assms(4) by (auto simp: ex_cluster_def)
  then show ?thesis
    using ex_connected [OF assms(1) _ assms(3,2)] by (auto simp: servers_inv_def ex_quiescent)
qed

lemma ex_servers_view [simp]: "servers_view av (ex_cluster tbl objs) = map av objs"
  by (simp add: servers_view_def ex_cluster_def)

section \<open>Properties\<close>

text \<open>
  C28. A client process on the node of a server, constructed with the same name, directory and server index
  after the server, opens the segment of that server and finds the object the server constructed, whatever the
  other arguments of the two constructors are. After the destructor of the server, such a constructor fails.
\<close>

theorem client_opens_server_object:
  assumes rem: "removable_segments bip"
    and srv: "derived_ctor bip p (\<lambda>c. g (cont_name c)) new tbl nm prt n idx mem True on_node dir fs = Inr (c, ptr, b, fs')"
    and p': "hcl_created p'" "map_of (rpcs p') prt' = Some r"
  shows "(\<exists>c'. derived_ctor bip p' (\<lambda>c. g (cont_name c)) new' tbl nm prt' n' idx mem' False True dir fs' =
      Inr (c', Some new, [], fs') \<and> backed_file c' = backed_file c)
    \<and> derived_ctor bip p' (\<lambda>c. g (cont_name c)) new' tbl nm prt' n' idx mem' False True dir (derived_dtor bip c fs') = Inl File_Error"
proof -
  have seg: "segments bip" using rem by (rule removable_segments.axioms(1))
  obtain fs1 where c: "container_ctor bip p nm prt n idx mem True on_node dir fs = Inr (c, fs1)"
      "bip_construct bip (visible (backed_file c)) (g (cont_name c)) new fs1 = Inr fs'"
    using srv container_ctor_fields(3) by (fastforce simp: derived_ctor_steps split: if_splits)
  then have "bip_open_only bip (visible (backed_file c)) fs' = Inr ()"
    using segments.open_constructed [OF seg] by blast
  then obtain c' where c': "container_ctor bip p' nm prt' n' idx mem' False True dir fs' = Inr (c', fs')"
    using c(1) p' by (fastforce simp: container_ctor_def Let_def HCL_instance_def GetRPC_def)
  then have "\<exists>ptr'. derived_ctor bip p' (\<lambda>c. g (cont_name c)) new' tbl nm prt' n' idx mem' False True dir fs' =
      Inr (c', ptr', [], fs')"
    using container_ctor_fields(3,4) [OF c'] by (simp add: derived_ctor_steps)
  then have found: "\<exists>c'. derived_ctor bip p' (\<lambda>c. g (cont_name c)) new' tbl nm prt' n' idx mem' False True dir fs' =
      Inr (c', Some new, [], fs') \<and> backed_file c' = backed_file c"
    using segments.client_finds_server_object [OF seg srv] container_ctor_same_names(1) [OF c(1) c'] by fastforce
  have "bip_open_only bip (visible (backed_file c)) (derived_dtor bip c fs') = Inl File_Error"
    using removable_segments.open_destroyed [OF rem] container_ctor_fields(3) [OF c(1)] by simp
  then have "container_ctor bip p' nm prt' n' idx mem' False True dir (derived_dtor bip c fs') = Inl File_Error"
    using c(1) p' by (fastforce simp: container_ctor_def Let_def HCL_instance_def GetRPC_def)
  then show ?thesis using found by (simp add: derived_ctor_steps)
qed

theorem client_opens_server_object_witness:
  "\<exists>c b fs' c'. derived_ctor file_table (ex_process 2) (\<lambda>c. visible (cont_name c)) [7 :: nat] [(''_Put'', ())] (ex_name ''c'') 9000 2 1 64 True
      True (ex_name ''/dev/shm'') [] = Inr (c, Some [7], b, fs')
    \<and> derived_ctor file_table (ex_process 2) (\<lambda>c. visible (cont_name c)) [] [(''_Put'', ())] (ex_name ''c'') 9000 2 1 32 False
      True (ex_name ''/dev/shm'') fs' = Inr (c', Some [7], [], fs')
    \<and> derived_ctor file_table (ex_process 2) (\<lambda>c. visible (cont_name c)) [] [(''_Put'', ())] (ex_name ''c'') 9000 2 1 32 False
      True (ex_name ''/dev/shm'') (derived_dtor file_table c fs') = Inl File_Error"
proof -
  have n: "wf_cs (ex_name ''c'') \<and> visible (ex_name ''c'') = ''c''"
    "wf_cs (ex_name ''/dev/shm'') \<and> visible (ex_name ''/dev/shm'') = ''/dev/shm''"
    by (rule ex_name_wf; simp add: NUL_def)+
  have t: "table_ok [(''_Put'', ())]" by (simp add: table_ok_def NUL_def)
  obtain c b fs' where s: "derived_ctor file_table (ex_process 2) (\<lambda>c. visible (cont_name c)) [7 :: nat] [(''_Put'', ())]
      (ex_name ''c'') 9000 2 1 64 True True (ex_name ''/dev/shm'') [] = Inr (c, Some [7], b, fs')"
    using derived_ctor_file_server [of "ex_name ''c''" "ex_name ''/dev/shm''" "[(''_Put'', ())]" "ex_process 2" 9000] n t
    by (fastforce simp: ex_process_def)
  obtain c' where "derived_ctor file_table (ex_process 2) (\<lambda>c. visible (cont_name c)) [] [(''_Put'', ())] (ex_name ''c'') 9000 2 1 32
      False True (ex_name ''/dev/shm'') fs' = Inr (c', Some [7], [], fs')"
    "derived_ctor file_table (ex_process 2) (\<lambda>c. visible (cont_name c)) [] [(''_Put'', ())] (ex_name ''c'') 9000 2 1 32
      False True (ex_name ''/dev/shm'') (derived_dtor file_table c fs') = Inl File_Error"
    using client_opens_server_object [where p' = "ex_process 2" and prt' = 9000, OF files.removable_segments_axioms s] by (fastforce simp: ex_process_def)
  with s show ?thesis by blast
qed

end
