(* ===== verification/Hcl_Map.thy ===== *)
theory Hcl_Map
  imports Hcl_Launch
begin

text \<open>
  \<^verbatim>\<open>hcl::map\<close> (\<^verbatim>\<open>include/hcl/map/map.h\<close>, \<^verbatim>\<open>map.cpp\<close>): an ordered map sharded over the
  servers by the hash of the key. The template arguments of the class are the record
  \<open>map_inst\<close>; \<open>mi_default\<close> is \<^verbatim>\<open>MappedType()\<close>.
\<close>

section \<open>The class\<close>

record ('k, 'v, 'm) map_inst =
  mi_ops :: "('k, 'v, 'm) ordered_ops"
  mi_hash :: "'k \<Rightarrow> u64"
  mi_assign :: "('v \<Rightarrow> 'v) option"
  mi_default :: 'v

datatype map_op = MapPut | MapGet | MapErase | MapGetAllData | MapContains

definition map_bind_table :: "(string \<times> map_op) list" where
  "map_bind_table = [(''_Put'', MapPut), (''_Get'', MapGet), (''_Erase'', MapErase),
     (''_GetAllData'', MapGetAllData), (''_Contains'', MapContains)]"

definition map_dtor where
  "map_dtor bip c = derived_dtor bip c"

definition map_data where
  "map_data c ptr = shared_data c ptr"

definition map_ctor where
  "map_ctor bip p I = derived_ctor bip p (\<lambda>c. visible (cont_name c)) (ao_empty (mi_ops I)) map_bind_table"

section \<open>Operations on one server\<close>

definition map_put_body :: "('k, 'v, 'm) map_inst \<Rightarrow> 'k \<Rightarrow> 'v \<Rightarrow> 'm \<Rightarrow> bool \<times> 'm" where
  "map_put_body I key dat m =
     (let value = GetData (mi_assign I) dat
      in (True, snd (ao_insert_or_assign (mi_ops I) key value m)))"

definition map_LocalPut :: "('k, 'v, 'm) map_inst \<Rightarrow> 'k \<Rightarrow> 'v \<Rightarrow> 'm shm \<Rightarrow> (bool \<times> 'm shm) result" where
  "map_LocalPut I key dat = scoped_lock (map_put_body I key dat)"

definition map_get_body :: "('k, 'v, 'm) map_inst \<Rightarrow> 'k \<Rightarrow> 'm \<Rightarrow> (bool \<times> 'v) \<times> 'm" where
  "map_get_body I key m =
     (case ao_find (mi_ops I) m key of Some v \<Rightarrow> (True, v) | None \<Rightarrow> (False, mi_default I), m)"

definition map_LocalGet :: "('k, 'v, 'm) map_inst \<Rightarrow> 'k \<Rightarrow> 'm shm \<Rightarrow> ((bool \<times> 'v) \<times> 'm shm) result" where
  "map_LocalGet I key = scoped_lock (map_get_body I key)"

definition map_erase_body :: "('k, 'v, 'm) map_inst \<Rightarrow> 'k \<Rightarrow> 'm \<Rightarrow> (bool \<times> 'v) \<times> 'm" where
  "map_erase_body I key m = (case ao_erase (mi_ops I) key m of (s, m) \<Rightarrow> ((s > 0, mi_default I), m))"

definition map_LocalErase :: "('k, 'v, 'm) map_inst \<Rightarrow> 'k \<Rightarrow> 'm shm \<Rightarrow> ((bool \<times> 'v) \<times> 'm shm) result" where
  "map_LocalErase I key = scoped_lock (map_erase_body I key)"

text \<open>The scan of \<^verbatim>\<open>LocalContainsInServer\<close> from an iterator on.\<close>

primrec map_contains_scan :: "'k::linorder \<Rightarrow> ('k \<times> 'v) list \<Rightarrow> ('k \<times> 'v) list" where
  "map_contains_scan key_end [] = []"
| "map_contains_scan key_end (e # es) =
     (if fst e > key_end then [] else e # map_contains_scan key_end es)"

definition map_LocalContainsInServer ::
  "('k::linorder, 'v, 'm) map_inst \<Rightarrow> 'k \<Rightarrow> 'k \<Rightarrow> 'm shm \<Rightarrow> (('k \<times> 'v) list \<times> 'm shm) result" where
  "map_LocalContainsInServer I key_start key_end = scoped_lock (\<lambda>m.
     (let items = ao_items (mi_ops I) m; sz = length items
      in if sz = 0 then []
         else if sz = 1 then (if fst (items ! 0) > key_start then [items ! 0] else [])
         else let lb = oo_lower_bound (mi_ops I) m key_start
              in if lb = sz then []
                 else let lb = (if lb \<noteq> 0
                                then if key_start > fst (items ! (lb - 1)) then lb - 1 + 1 else lb - 1
                                else lb)
                      in map_contains_scan key_end (drop lb items), m))"

definition map_LocalGetAllDataInServer ::
  "('k, 'v, 'm) map_inst \<Rightarrow> 'm shm \<Rightarrow> (('k \<times> 'v) list \<times> 'm shm) result" where
  "map_LocalGetAllDataInServer I = scoped_lock (\<lambda>m. (ao_items (mi_ops I) m, m))"

text \<open>The remote procedures of the class.\<close>

fun map_handler ::
  "('k::linorder, 'v, 'm) map_inst \<Rightarrow> map_op \<Rightarrow> ('k, 'v) request \<Rightarrow> container \<Rightarrow> 'm shm
     \<Rightarrow> (('k, 'v) response \<times> 'm shm) result" where
  "map_handler I MapPut (QKeyVal k v) c s = THALLIUM_DEFINE RBool (map_LocalPut I k v s)"
| "map_handler I MapGet (QKey k) c s = THALLIUM_DEFINE RVal (map_LocalGet I k s)"
| "map_handler I MapErase (QKey k) c s = THALLIUM_DEFINE RVal (map_LocalErase I k s)"
| "map_handler I MapGetAllData QNone c s = THALLIUM_DEFINE RPairs (map_LocalGetAllDataInServer I s)"
| "map_handler I MapContains (QRange a b) c s =
     THALLIUM_DEFINE RPairs (map_LocalContainsInServer I a b s)"
| "map_handler I op q c s = Inl Bad_Message"

type_synonym ('k, 'v, 'm) map_thallium = "('m, map_op, ('k, 'v) request, ('k, 'v) response) thallium"

section \<open>Operations on the cluster\<close>

definition map_Put ::
  "('k, 'v, 'm) map_inst \<Rightarrow> hcl_process \<Rightarrow> ('k, 'v, 'm) map_thallium \<Rightarrow> container \<Rightarrow> 'k \<Rightarrow> 'v
     \<Rightarrow> ('m, map_op) cluster \<Rightarrow> (bool \<times> ('m, map_op) cluster) result" where
  "map_Put I p thl c key dat w =
     rbind (key_to_server c (mi_hash I key)) (\<lambda>key_int.
       if is_local c key_int then local_access c (map_LocalPut I key dat) w
       else RPC_CALL_WRAPPER p thl c ''_Put'' key_int as_bool (QKeyVal key dat) w)"

definition map_Get ::
  "('k, 'v, 'm) map_inst \<Rightarrow> hcl_process \<Rightarrow> ('k, 'v, 'm) map_thallium \<Rightarrow> container \<Rightarrow> 'k
     \<Rightarrow> ('m, map_op) cluster \<Rightarrow> ((bool \<times> 'v) \<times> ('m, map_op) cluster) result" where
  "map_Get I p thl c key w =
     rbind (key_to_server c (mi_hash I key)) (\<lambda>key_int.
       if is_local c key_int then local_access c (map_LocalGet I key) w
       else RPC_CALL_WRAPPER p thl c ''_Get'' key_int as_val (QKey key) w)"

definition map_Erase ::
  "('k, 'v, 'm) map_inst \<Rightarrow> hcl_process \<Rightarrow> ('k, 'v, 'm) map_thallium \<Rightarrow> container \<Rightarrow> 'k
     \<Rightarrow> ('m, map_op) cluster \<Rightarrow> ((bool \<times> 'v) \<times> ('m, map_op) cluster) result" where
  "map_Erase I p thl c key w =
     rbind (key_to_server c (mi_hash I key)) (\<lambda>key_int.
       if is_local c key_int then local_access c (map_LocalErase I key) w
       else RPC_CALL_WRAPPER p thl c ''_Erase'' key_int as_val (QKey key) w)"

definition map_ContainsInServer ::
  "('k::linorder, 'v, 'm) map_inst \<Rightarrow> hcl_process \<Rightarrow> ('k, 'v, 'm) map_thallium \<Rightarrow> container \<Rightarrow> 'k \<Rightarrow> 'k
     \<Rightarrow> ('m, map_op) cluster \<Rightarrow> (('k \<times> 'v) list \<times> ('m, map_op) cluster) result" where
  "map_ContainsInServer I p thl c key_start key_end w =
     (if is_local_node c then local_access c (map_LocalContainsInServer I key_start key_end) w
      else RPC_CALL_WRAPPER p thl c ''_Contains'' (my_server_idx c) as_pairs (QRange key_start key_end) w)"

definition map_Contains ::
  "('k::linorder, 'v, 'm) map_inst \<Rightarrow> hcl_process \<Rightarrow> ('k, 'v, 'm) map_thallium \<Rightarrow> container \<Rightarrow> 'k \<Rightarrow> 'k
     \<Rightarrow> ('m, map_op) cluster \<Rightarrow> (('k \<times> 'v) list \<times> ('m, map_op) cluster) result" where
  "map_Contains I p thl c key_start key_end w =
     rbind (map_ContainsInServer I p thl c key_start key_end w) (\<lambda>(current_server, w).
       collect (\<lambda>i. RPC_CALL_WRAPPER p thl c ''_Contains'' (of_nat i) as_pairs (QRange key_start key_end))
         (other_servers c) current_server w)"

definition map_GetAllDataInServer ::
  "('k, 'v, 'm) map_inst \<Rightarrow> hcl_process \<Rightarrow> ('k, 'v, 'm) map_thallium \<Rightarrow> container
     \<Rightarrow> ('m, map_op) cluster \<Rightarrow> (('k \<times> 'v) list \<times> ('m, map_op) cluster) result" where
  "map_GetAllDataInServer I p thl c w =
     (if is_local_node c then local_access c (map_LocalGetAllDataInServer I) w
      else RPC_CALL_WRAPPER p thl c ''_GetAllData'' (my_server_idx c) as_pairs QNone w)"

definition map_GetAllData ::
  "('k, 'v, 'm) map_inst \<Rightarrow> hcl_process \<Rightarrow> ('k, 'v, 'm) map_thallium \<Rightarrow> container
     \<Rightarrow> ('m, map_op) cluster \<Rightarrow> (('k \<times> 'v) list \<times> ('m, map_op) cluster) result" where
  "map_GetAllData I p thl c w =
     rbind (map_GetAllDataInServer I p thl c w) (\<lambda>(current_server, w).
       collect (\<lambda>i. RPC_CALL_WRAPPER p thl c ''_GetAllData'' (of_nat i) as_pairs QNone)
         (other_servers c) current_server w)"

section \<open>The contract\<close>

definition map_view :: "('k, 'v, 'm) map_inst \<Rightarrow> ('m, map_op) cluster \<Rightarrow> 'k \<Rightarrow> 'v option" where
  "map_view I = store_view (ao_find (mi_ops I)) (mi_hash I)"

definition map_inv ::
  "('k, 'v, 'm) map_inst \<Rightarrow> ('m \<Rightarrow> bool) \<Rightarrow> hcl_process \<Rightarrow> container set \<Rightarrow> ('m, map_op) cluster \<Rightarrow> bool" where
  "map_inv I ok p = store_inv map_bind_table p (ao_find (mi_ops I)) ok (mi_hash I)"

lemma map_table_simps [simp]:
  "map_of map_bind_table ''_Put'' = Some MapPut" "map_of map_bind_table ''_Get'' = Some MapGet"
  "map_of map_bind_table ''_Erase'' = Some MapErase"
  "map_of map_bind_table ''_GetAllData'' = Some MapGetAllData"
  "map_of map_bind_table ''_Contains'' = Some MapContains"
  by (simp_all add: map_bind_table_def)

locale map_deployment = transport thl "map_handler I" + ordered_container "mi_ops I" ok
  for I :: "('k::linorder, 'v, 'm) map_inst" and ok :: "'m \<Rightarrow> bool"
    and thl :: "('k, 'v, 'm) map_thallium"
begin

text \<open>Wherever the client runs, an operation is the local operation at the addressed server.\<close>

lemma op_at_home:
  assumes "connected p map_bind_table c w"
  shows "map_Put I p thl c k v w = at_server (home (length w) (mi_hash I k)) (map_LocalPut I k v) w"
    and "map_Get I p thl c k w = at_server (home (length w) (mi_hash I k)) (map_LocalGet I k) w"
    and "map_Erase I p thl c k w = at_server (home (length w) (mi_hash I k)) (map_LocalErase I k) w"
  unfolding map_Put_def map_Get_def map_Erase_def
  by - (rule keyed_call [OF assms], simp, simp, simp)+

lemma body_laws:
  assumes "ok m"
  shows "fst (map_put_body I k v m) \<and> ok (snd (map_put_body I k v m))
      \<and> ao_find (mi_ops I) (snd (map_put_body I k v m)) = (ao_find (mi_ops I) m)(k \<mapsto> GetData (mi_assign I) v)"
    and "map_get_body I k m =
      (case ao_find (mi_ops I) m k of None \<Rightarrow> (False, mi_default I) | Some v \<Rightarrow> (True, v), m)"
    and "fst (map_erase_body I k m) = (ao_find (mi_ops I) m k \<noteq> None, mi_default I)
      \<and> ok (snd (map_erase_body I k m))
      \<and> ao_find (mi_ops I) (snd (map_erase_body I k m)) = (ao_find (mi_ops I) m)(k := None)"
  using assms invar_insert find_insert invar_erase find_erase erase_count
  by (auto simp: map_put_body_def map_get_body_def map_erase_body_def case_prod_beta split: option.splits)

end

text \<open>A distributed map is one map.\<close>

sublocale map_deployment \<subseteq> keyed_store map_bind_table p
  "\<lambda>c. map_Put I p thl c" "\<lambda>c. map_Get I p thl c" "\<lambda>c. map_Erase I p thl c"
  "mi_hash I" "ao_find (mi_ops I)" ok "GetData (mi_assign I)" "mi_default I"
  "map_put_body I" "map_get_body I" "map_erase_body I" for p
  by unfold_locales
     (simp_all only: op_at_home map_LocalPut_def map_LocalGet_def map_LocalErase_def body_laws)

context map_deployment
begin

lemmas map_runs = run_refines [folded map_inv_def map_view_def]

lemma empty_facts: "ok (ao_empty (mi_ops I)) \<and> ao_find (mi_ops I) (ao_empty (mi_ops I)) k = None"
  using invar_empty find_empty by simp

end

section \<open>Gathering operations\<close>

text \<open>
  What \<^verbatim>\<open>LocalContainsInServer\<close> selects on one server: the closed range, except when the
  server holds a single element, which is returned when its key exceeds \<^verbatim>\<open>key_start\<close>.
\<close>

definition map_range :: "'k::linorder \<Rightarrow> 'k \<Rightarrow> ('k \<times> 'v) list \<Rightarrow> ('k \<times> 'v) list" where
  "map_range a b items =
     (if length items = 1 then filter (\<lambda>e. a < fst e) items
      else filter (\<lambda>e. a \<le> fst e \<and> fst e \<le> b) items)"

lemma map_contains_scan_takeWhile: "map_contains_scan b es = takeWhile (\<lambda>e. fst e \<le> b) es"
  by (induction es) auto

lemma map_scan_range:
  "sorted (map fst es) \<Longrightarrow> map_contains_scan b (drop (length (takeWhile (\<lambda>e. fst e < a) es)) es) =
    filter (\<lambda>e. a \<le> fst e \<and> fst e \<le> (b :: 'k::linorder)) es"
  unfolding map_contains_scan_takeWhile by (rule sorted_range)

context map_deployment
begin

lemma contains_local:
  assumes "ok (obj s)" "\<not> mtx s"
  shows "map_LocalContainsInServer I a b s = Inr (map_range a b (ao_items (mi_ops I) (obj s)), s)"
proof -
  let ?es = "ao_items (mi_ops I) (obj s)"
  let ?lb = "length (takeWhile (\<lambda>e. fst e < a) ?es)"
  have sorted: "sorted (map fst ?es)" using sorted_items assms(1) by simp
  have lb: "oo_lower_bound (mi_ops I) (obj s) a = ?lb" using lower_bound assms(1) by simp
  have prev: "?lb \<noteq> 0 \<Longrightarrow> fst (?es ! (?lb - 1)) < a"
    using nth_before_takeWhile [of "\<lambda>e. fst e < a" ?es] by simp
  have "?lb = length ?es \<Longrightarrow> filter (\<lambda>e. a \<le> fst e \<and> fst e \<le> b) ?es = []"
    using map_scan_range [OF sorted, of b a] by simp
  moreover have "length ?es = 1 \<Longrightarrow> filter (\<lambda>e. a < fst e) ?es = (if a < fst (?es ! 0) then [?es ! 0] else [])"
    by (auto simp: length_Suc_conv)
  ultimately show ?thesis
    using assms(2) prev map_scan_range [OF sorted, of b a]
    by (auto simp: map_LocalContainsInServer_def scoped_lock_free lb Let_def map_range_def)
qed

lemma items_local:
  "\<not> mtx s \<Longrightarrow> map_LocalGetAllDataInServer I s = Inr (ao_items (mi_ops I) (obj s), s)"
  by (simp add: map_LocalGetAllDataInServer_def scoped_lock_free)

text \<open>Both loops return what each server selects, own server first.\<close>

lemma gather_eq:
  assumes "map_inv I ok p C w" "c \<in> C"
  shows "map_GetAllData I p thl c w = Inr (ao_items (mi_ops I) (obj (seg (w ! unat (my_server_idx c))))
        @ concat (map (\<lambda>i. ao_items (mi_ops I) (obj (seg (w ! i)))) (other_servers c)), w)"
    and "map_Contains I p thl c a b w =
      Inr (map_range a b (ao_items (mi_ops I) (obj (seg (w ! unat (my_server_idx c)))))
        @ concat (map (\<lambda>i. map_range a b (ao_items (mi_ops I) (obj (seg (w ! i))))) (other_servers c)), w)"
proof -
  note con = store_invD(1) [OF assms [unfolded map_inv_def]]
  note srv = store_inv_server [OF assms(1) [unfolded map_inv_def]]
  have l: "at_server i (map_LocalGetAllDataInServer I) w = Inr (ao_items (mi_ops I) (obj (seg (w ! i))), w)"
    "at_server i (map_LocalContainsInServer I a b) w =
       Inr (map_range a b (ao_items (mi_ops I) (obj (seg (w ! i)))), w)"
    if "i < length w" for i
    using srv [OF that] that by (simp_all add: at_server_def items_local contains_local)
  show "map_GetAllData I p thl c w = Inr (ao_items (mi_ops I) (obj (seg (w ! unat (my_server_idx c))))
        @ concat (map (\<lambda>i. ao_items (mi_ops I) (obj (seg (w ! i)))) (other_servers c)), w)"
    unfolding map_GetAllData_def map_GetAllDataInServer_def
    by (rule gather_call [OF con]) (simp, simp, simp, rule l(1))
  show "map_Contains I p thl c a b w =
      Inr (map_range a b (ao_items (mi_ops I) (obj (seg (w ! unat (my_server_idx c)))))
        @ concat (map (\<lambda>i. map_range a b (ao_items (mi_ops I) (obj (seg (w ! i))))) (other_servers c)), w)"
    unfolding map_Contains_def map_ContainsInServer_def
    by (rule gather_call [OF con]) (simp, simp, simp, rule l(2))
qed

lemma get_all_correct:
  assumes "map_inv I ok p C w" "c \<in> C"
  shows "\<exists>l. map_GetAllData I p thl c w = Inr (l, w) \<and> distinct (map fst l) \<and> map_of l = map_view I w"
proof -
  note inv = assms(1) [unfolded map_inv_def]
  have g: "distinct (map fst (ao_items (mi_ops I) (obj (seg (w ! i)))))
      \<and> map_of (ao_items (mi_ops I) (obj (seg (w ! i)))) = ao_find (mi_ops I) (obj (seg (w ! i))) |` UNIV"
    if "i < length w" for i
    using store_inv_server(1) [OF inv that] distinct_items find_items by (simp add: restrict_map_def)
  show ?thesis
    using gather_eq(1) [OF assms] store_gather [OF inv assms(2) g]
    by (simp add: map_view_def restrict_map_def)
qed

lemma range_restrict:
  assumes "ok m" "length (ao_items (mi_ops I) m) \<noteq> 1"
  shows "distinct (map fst (map_range a b (ao_items (mi_ops I) m)))
    \<and> map_of (map_range a b (ao_items (mi_ops I) m)) = ao_find (mi_ops I) m |` {a..b}"
proof -
  let ?es = "ao_items (mi_ops I) m"
  have "distinct (map fst ?es)" and f: "map_of ?es = ao_find (mi_ops I) m"
    using distinct_items find_items assms(1) by simp_all
  then have "distinct (map fst (map_range a b ?es))"
    by (auto simp: map_range_def intro: distinct_map_filter)
  then show ?thesis
    using assms(2) map_of_filter_fst [of "{a..b}" ?es] by (simp add: map_range_def f)
qed

lemma contains_correct:
  assumes "map_inv I ok p C w" "c \<in> C"
    and many: "\<And>i. i < length w \<Longrightarrow> length (ao_items (mi_ops I) (obj (seg (w ! i)))) \<noteq> 1"
  shows "\<exists>l. map_Contains I p thl c a b w = Inr (l, w) \<and> distinct (map fst l)
    \<and> map_of l = map_view I w |` {a..b}"
proof -
  note inv = assms(1) [unfolded map_inv_def]
  have g: "distinct (map fst (map_range a b (ao_items (mi_ops I) (obj (seg (w ! i))))))
      \<and> map_of (map_range a b (ao_items (mi_ops I) (obj (seg (w ! i))))) =
        ao_find (mi_ops I) (obj (seg (w ! i))) |` {a..b}" if "i < length w" for i
    by (rule range_restrict [OF store_inv_server(1) [OF inv that] many [OF that]])
  show ?thesis
    using gather_eq(2) [OF assms(1,2)] store_gather [OF inv assms(2) g] by (simp add: map_view_def)
qed

text \<open>With servers of any size: the only entry of a server is judged by the start of the range alone.\<close>

lemma contains_exact:
  assumes "map_inv I ok p C w" "c \<in> C"
  shows "\<exists>l. map_Contains I p thl c a b w = Inr (l, w) \<and> distinct (map fst l)
    \<and> map_of l = map_view I w |` {k. if length (ao_items (mi_ops I) (obj (seg (w ! home (length w) (mi_hash I k))))) = 1
        then a < k else a \<le> k \<and> k \<le> b}" (is "\<exists>l. _ \<and> _ \<and> _ = _ |` ?S")
proof -
  note inv = assms(1) [unfolded map_inv_def]
  let ?es = "\<lambda>i. ao_items (mi_ops I) (obj (seg (w ! i)))"
  have g: "distinct (map fst (map_range a b (?es i))) \<and> map_of (map_range a b (?es i)) = ao_find (mi_ops I) (obj (seg (w ! i))) |` ?S"
    if i: "i < length w" for i
  proof -
    have ok: "ok (obj (seg (w ! i)))" by (rule store_inv_server(1) [OF inv i])
    have es: "distinct (map fst (?es i))" "map_of (?es i) = ao_find (mi_ops I) (obj (seg (w ! i)))"
      using distinct_items find_items ok by simp_all
    have here: "home (length w) (mi_hash I k) = i" if "ao_find (mi_ops I) (obj (seg (w ! i))) k \<noteq> None" for k
      using shardedD(3) [OF store_invD(2) [OF inv] i] that by (auto simp: store_home_def)
    let ?T = "if length (?es i) = 1 then {k. a < k} else {a..b}"
    have "map_range a b (?es i) = filter (\<lambda>e. fst e \<in> ?T) (?es i)" by (auto simp: map_range_def)
    then have "distinct (map fst (map_range a b (?es i)))" "map_of (map_range a b (?es i)) = ao_find (mi_ops I) (obj (seg (w ! i))) |` ?T"
      using distinct_map_filter [OF es(1)] map_of_filter_fst [of ?T "?es i"] by (simp_all only: es(2))
    moreover have "ao_find (mi_ops I) (obj (seg (w ! i))) |` ?T = ao_find (mi_ops I) (obj (seg (w ! i))) |` ?S"
    proof
      fix k
      show "(ao_find (mi_ops I) (obj (seg (w ! i))) |` ?T) k = (ao_find (mi_ops I) (obj (seg (w ! i))) |` ?S) k"
        using here [of k] by (cases "ao_find (mi_ops I) (obj (seg (w ! i))) k") (simp_all add: restrict_map_def)
    qed
    ultimately show ?thesis by simp
  qed
  show ?thesis
    using gather_eq(2) [OF assms] store_gather [OF inv assms(2) g] by (simp add: map_view_def)
qed

end

section \<open>An instance\<close>

definition list_map :: "('k \<Rightarrow> u64) \<Rightarrow> ('v \<Rightarrow> 'v) option \<Rightarrow> 'v \<Rightarrow> ('k::linorder, 'v, ('k \<times> 'v) list) map_inst" where
  "list_map hash assign dflt = \<lparr>mi_ops = alist_ops, mi_hash = hash, mi_assign = assign, mi_default = dflt\<rparr>"

lemma list_map_sel [simp]:
  "mi_ops (list_map hash assign dflt) = alist_ops" "mi_hash (list_map hash assign dflt) = hash"
  "mi_assign (list_map hash assign dflt) = assign" "mi_default (list_map hash assign dflt) = dflt"
  by (simp_all add: list_map_def)

interpretation lmap: map_deployment "list_map hash assign dflt" al_invar
    "direct_engine (map_handler (list_map hash assign dflt))"
  for hash :: "'k::linorder \<Rightarrow> u64" and assign and dflt :: 'v
  unfolding map_deployment_def list_map_sel
  by (rule conjI, rule direct.transport_axioms, rule alist.ordered_container_axioms)

abbreviation ex_map :: "(u64, nat, (u64 \<times> nat) list) map_inst" where
  "ex_map \<equiv> list_map (\<lambda>k. k) None 0"

lemma map_table_ok: "table_ok map_bind_table"
  by (simp add: table_ok_def map_bind_table_def NUL_def)

lemma ex_map_inv:
  assumes "n < 2 ^ 16" "length objs = n" "\<forall>d \<in> set objs. al_invar d"
    and "\<forall>i < n. \<forall>e \<in> set (objs ! i). home n (fst e) = i"
  shows "map_inv ex_map al_invar (ex_process n) (ex_clients n) (ex_cluster map_bind_table objs)"
proof -
  let ?w = "ex_cluster map_bind_table objs"
  have "\<forall>c \<in> ex_clients n. connected (ex_process n) map_bind_table c ?w"
    using assms(1,2) ex_connected [OF map_table_ok] by blast
  moreover have "\<forall>s \<in> set ?w. al_invar (obj (seg s))"
    using assms(3) by (auto simp: ex_cluster_def)
  moreover have "home n k = i" if "i < n" "map_of (objs ! i) k \<noteq> None" for i k
    using that assms(4) by (fastforce dest: map_of_SomeD)
  ultimately show ?thesis
    using assms(2) by (auto simp: map_inv_def store_inv_def sharded_def ex_quiescent store_home_def alist_ops_def)
qed

lemma ex_map_view:
  "objs \<noteq> [] \<Longrightarrow>
    map_view ex_map (ex_cluster map_bind_table objs) k = map_of (objs ! (unat k mod length objs)) k"
  by (simp add: map_view_def store_view_def shard_view_def store_home_def home_def alist_ops_def)

section \<open>Properties\<close>

text \<open>
  C1. Clients anywhere issue any sequence of \<^verbatim>\<open>Put\<close>, \<^verbatim>\<open>Get\<close> and \<^verbatim>\<open>Erase\<close> on a
  \<^verbatim>\<open>hcl::map\<close>: no call fails, every result is the one that a single map in one memory would give,
  and the cluster denotes that map afterwards. The hypotheses are the documented behaviour of
  Thallium and of \<^verbatim>\<open>boost::interprocess::map\<close>, and the invariant of the cluster.
\<close>

theorem map_refines_one_map:
  assumes "map_deployment I ok thl" "map_inv I ok p C w" "cmd_client ` set xs \<subseteq> C"
  shows "\<exists>w'. run_kv (\<lambda>c. map_Put I p thl c) (\<lambda>c. map_Get I p thl c) (\<lambda>c. map_Erase I p thl c) xs w =
      Inr (fst (spec_kv (GetData (mi_assign I)) (mi_default I) xs (map_view I w)), w')
    \<and> map_inv I ok p C w'
    \<and> map_view I w' = snd (spec_kv (GetData (mi_assign I)) (mi_default I) xs (map_view I w))"
  using map_deployment.map_runs [OF assms] .

theorem map_refines_one_map_witness:
  "\<exists>w'. run_kv (\<lambda>c. map_Put ex_map (ex_process 3) (direct_engine (map_handler ex_map)) c)
      (\<lambda>c. map_Get ex_map (ex_process 3) (direct_engine (map_handler ex_map)) c)
      (\<lambda>c. map_Erase ex_map (ex_process 3) (direct_engine (map_handler ex_map)) c)
      [Put_Cmd (ex_client 3 2 True) 5 10, Put_Cmd (ex_client 3 0 False) 5 11, Get_Cmd (ex_client 3 2 True) 5,
       Erase_Cmd (ex_client 3 0 False) 5, Get_Cmd (ex_client 3 0 False) 5]
      (ex_cluster map_bind_table [[], [], []]) =
    Inr ([Out_Bool True, Out_Bool True, Out_Val (True, 11), Out_Val (True, 0), Out_Val (False, 0)], w')"
proof -
  have h: "map_inv ex_map al_invar (ex_process 3) (ex_clients 3) (ex_cluster map_bind_table [[], [], []])"
    by (rule ex_map_inv) (auto simp: al_invar_def less_Suc_eq numeral_3_eq_3)
  show ?thesis
    using map_refines_one_map [OF lmap.map_deployment_axioms h, of "[Put_Cmd (ex_client 3 2 True) 5 10,
         Put_Cmd (ex_client 3 0 False) 5 11, Get_Cmd (ex_client 3 2 True) 5,
         Erase_Cmd (ex_client 3 0 False) 5, Get_Cmd (ex_client 3 0 False) 5]"]
    by (auto simp: GetData_def simp del: run_kv.simps)
qed

text \<open>
  C32. \<^verbatim>\<open>GetAllData\<close> returns the whole map: every key once, with the value it is mapped to, and
  nothing else, whichever client asks.
\<close>

theorem map_GetAllData_complete:
  assumes "map_deployment I ok thl" "map_inv I ok p C w" "c \<in> C"
  shows "\<exists>l. map_GetAllData I p thl c w = Inr (l, w) \<and> distinct (map fst l) \<and> map_of l = map_view I w"
  using map_deployment.get_all_correct [OF assms] .

abbreviation ex_map_objs :: "(u64 \<times> nat) list list" where
  "ex_map_objs \<equiv> [[(2, 20), (4, 40)], [(1, 10), (5, 50), (7, 70)]]"

lemma ex_map_objs_inv:
  "map_inv ex_map al_invar (ex_process 2) (ex_clients 2) (ex_cluster map_bind_table ex_map_objs)"
  by (rule ex_map_inv) (auto simp: al_invar_def less_2_cases_iff home_def)

lemma ex_map_objs_view:
  "map_view ex_map (ex_cluster map_bind_table ex_map_objs) 5 = Some 50"
  "map_view ex_map (ex_cluster map_bind_table ex_map_objs) 2 = Some 20"
  "map_view ex_map (ex_cluster map_bind_table ex_map_objs) 3 = None"
  by (simp_all add: ex_map_view numeral_2_eq_2 [symmetric])

theorem map_GetAllData_complete_witness:
  "\<exists>l. map_GetAllData ex_map (ex_process 2) (direct_engine (map_handler ex_map)) (ex_client 2 1 False)
         (ex_cluster map_bind_table ex_map_objs) = Inr (l, ex_cluster map_bind_table ex_map_objs)
     \<and> distinct (map fst l) \<and> map_of l 5 = Some 50 \<and> map_of l 3 = None"
  using map_GetAllData_complete [OF lmap.map_deployment_axioms ex_map_objs_inv, of "ex_client 2 1 False"]
  by (auto simp: ex_map_objs_view)

text \<open>
  C33. \<^verbatim>\<open>Contains(key_start, key_end)\<close> returns exactly the entries with a key in the closed range,
  each once, provided that no server holds exactly one entry.
\<close>

theorem map_Contains_range:
  assumes "map_deployment I ok thl" "map_inv I ok p C w" "c \<in> C"
    and "\<And>i. i < length w \<Longrightarrow> length (ao_items (mi_ops I) (obj (seg (w ! i)))) \<noteq> 1"
  shows "\<exists>l. map_Contains I p thl c a b w = Inr (l, w) \<and> distinct (map fst l)
    \<and> map_of l = map_view I w |` {a..b}"
  using map_deployment.contains_correct [OF assms] .

theorem map_Contains_range_witness:
  "\<exists>l. map_Contains ex_map (ex_process 2) (direct_engine (map_handler ex_map)) (ex_client 2 0 True) 2 5
         (ex_cluster map_bind_table ex_map_objs) = Inr (l, ex_cluster map_bind_table ex_map_objs)
     \<and> distinct (map fst l) \<and> map_of l 5 = Some 50 \<and> map_of l 2 = Some 20 \<and> map_of l 7 = None"
proof -
  have many: "i < length (ex_cluster map_bind_table ex_map_objs) \<Longrightarrow>
      length (ao_items (mi_ops ex_map) (obj (seg (ex_cluster map_bind_table ex_map_objs ! i)))) \<noteq> 1" for i
    by (auto simp: alist_ops_def less_Suc_eq)
  show ?thesis
    using map_Contains_range [OF lmap.map_deployment_axioms ex_map_objs_inv _ many, of "ex_client 2 0 True" 2 5]
    by (auto simp: ex_map_objs_view restrict_map_def)
qed

text \<open>
  C34. What \<^verbatim>\<open>Contains\<close> returns on any cluster: of the servers that hold several entries those of the closed range, but
  the only entry of a server whenever its key exceeds \<^verbatim>\<open>key_start\<close>. So an entry beyond \<^verbatim>\<open>key_end\<close> is returned, and one
  equal to \<^verbatim>\<open>key_start\<close> is not, when its server holds nothing else.
\<close>

theorem map_Contains_single_entry:
  assumes "map_deployment I ok thl" "map_inv I ok p C w" "c \<in> C"
  shows "\<exists>l. map_Contains I p thl c a b w = Inr (l, w) \<and> distinct (map fst l)
    \<and> map_of l = map_view I w |` {k. if length (ao_items (mi_ops I) (obj (seg (w ! home (length w) (mi_hash I k))))) = 1
        then a < k else a \<le> k \<and> k \<le> b}"
  using map_deployment.contains_exact [OF assms] .

abbreviation ex_map_single :: "(u64 \<times> nat) list list" where
  "ex_map_single \<equiv> [[(2, 20), (4, 40)], [(9, 90)]]"

text \<open>Of a range from 2 to 3 the entry 9 is returned, and of the range from 9 to 12 it is not.\<close>

theorem map_Contains_single_entry_witness:
  "\<exists>l l'. map_Contains ex_map (ex_process 2) (direct_engine (map_handler ex_map)) (ex_client 2 0 False) 2 3
       (ex_cluster map_bind_table ex_map_single) = Inr (l, ex_cluster map_bind_table ex_map_single)
     \<and> map_of l 2 = Some 20 \<and> map_of l 4 = None \<and> map_of l 9 = Some 90
     \<and> map_Contains ex_map (ex_process 2) (direct_engine (map_handler ex_map)) (ex_client 2 0 False) 9 12
       (ex_cluster map_bind_table ex_map_single) = Inr (l', ex_cluster map_bind_table ex_map_single)
     \<and> map_of l' 9 = None"
proof -
  have h: "map_inv ex_map al_invar (ex_process 2) (ex_clients 2) (ex_cluster map_bind_table ex_map_single)"
    by (rule ex_map_inv) (auto simp: al_invar_def less_2_cases_iff home_def)
  have c: "ex_client 2 0 False \<in> ex_clients 2" by (auto simp: ex_clients_def)
  have len: "length ex_map_single = 2" by simp
  have v: "map_view ex_map (ex_cluster map_bind_table ex_map_single) k = map_of (ex_map_single ! (unat k mod 2)) k" for k
    using ex_map_view [of ex_map_single k] by (simp add: numeral_2_eq_2 [symmetric])
  have n: "length (ao_items alist_ops (obj (seg (ex_cluster map_bind_table ex_map_single ! home 2 k)))) =
      length (ex_map_single ! (unat k mod 2))" for k :: u64
    by (simp add: home_def alist_ops_def)
  note any = map_Contains_single_entry [OF lmap.map_deployment_axioms h c]
  show ?thesis using any [of 2 3] any [of 9 12]
    by (auto simp: v n restrict_map_def numeral_2_eq_2 [symmetric])
qed

text \<open>
  C35. Servers and a client built by the constructors of \<^verbatim>\<open>hcl::map\<close> with the same name, directory
  and port satisfy the invariant of the map, and the map they denote is empty.
\<close>

theorem map_ctor_establishes_inv:
  assumes "map_deployment I ok thl"
    and "launch (\<lambda>i. map_ctor bip (procs i) I nm prt n (of_nat i) mem True sn dir (fss i)) [0..<unat n] = Inr w"
    and "map_ctor bip p I nm prt n idx mem' srv on_node dir fs = Inr (c, ptr, b, fs')"
    and "idx < n" "\<And>r. map_of (rpcs p) prt = Some r \<Longrightarrow> length (rpc_endpoints r) = unat n"
    and "wf_cs nm" "wf_cs dir" "length (visible nm) + length (visible dir) \<le> 200"
  shows "map_inv I ok p {c} w \<and> map_view I w = Map.empty"
proof -
  note fresh = launch_connected [OF assms(2) [unfolded map_ctor_def] assms(3) [unfolded map_ctor_def] assms(4-8) map_table_ok]
  have emp: "ok (ao_empty (mi_ops I))" "\<And>k. ao_find (mi_ops I) (ao_empty (mi_ops I)) k = None"
    using map_deployment.empty_facts [OF assms(1)] by auto
  show ?thesis unfolding map_inv_def map_view_def by (rule store_fresh [OF fresh]) (use emp in simp_all)
qed

theorem map_ctor_establishes_inv_witness:
  "\<exists>c w ptr b fs. launch (\<lambda>i. map_ctor file_table (ex_process 2) ex_map (ex_name ''c'') 9000 2 (of_nat i) 1048576 True True
       (ex_name ''/dev/shm'') []) [0, 1] = Inr w \<and> length w = 2
     \<and> map_ctor file_table (ex_process 2) ex_map (ex_name ''c'') 9000 2 1 1048576 False False
       (ex_name ''/dev/shm'') [] = Inr (c, ptr, b, fs)
     \<and> map_inv ex_map al_invar (ex_process 2) {c} w \<and> map_view ex_map w = Map.empty"
proof -
  have two: "[0..<unat (2 :: u16)] = [0, 1]" by (simp add: upt_rec)
  obtain w where w: "launch (\<lambda>i. map_ctor file_table (ex_process 2) ex_map (ex_name ''c'') 9000 2 (of_nat i) 1048576 True True
       (ex_name ''/dev/shm'') []) [0, 1] = Inr w"
    using ex_launch [OF map_table_ok, of 2 "\<lambda>c. visible (cont_name c)" "ao_empty (mi_ops ex_map)" 2 "[0, 1]"]
    unfolding map_ctor_def by blast
  obtain c b fs where c: "map_ctor file_table (ex_process 2) ex_map (ex_name ''c'') 9000 2 1 1048576 False False
      (ex_name ''/dev/shm'') [] = Inr (c, None, b, fs)"
    unfolding map_ctor_def
    using ex_remote_client_ctor [of file_table 2 "\<lambda>c. visible (cont_name c)" "ao_empty (mi_ops ex_map)"
        map_bind_table 2 1 "[]"] by blast
  have "wf_cs (ex_name ''c'') \<and> visible (ex_name ''c'') = ''c''"
    "wf_cs (ex_name ''/dev/shm'') \<and> visible (ex_name ''/dev/shm'') = ''/dev/shm''"
    by (rule ex_name_wf; simp add: NUL_def)+
  then have "map_inv ex_map al_invar (ex_process 2) {c} w \<and> map_view ex_map w = Map.empty"
    using w [folded two] by (intro map_ctor_establishes_inv [OF lmap.map_deployment_axioms _ c])
      (auto simp: ex_process_def)
  moreover have "length w = 2" using launch_nth(1) [OF w] by simp
  ultimately show ?thesis using w c by blast
qed

end
