(* ===== verification/Hcl_Unordered_Map.thy ===== *)
theory Hcl_Unordered_Map
  imports Hcl_Launch
begin

text \<open>
  \<^verbatim>\<open>hcl::unordered_map\<close> (\<^verbatim>\<open>include/hcl/unordered_map/unordered_map.h\<close>, \<^verbatim>\<open>.cpp\<close>). Beside the
  shared hash map each container object has a private counter \<^verbatim>\<open>size_occupied\<close>: remote
  procedures update the one of the server, local accesses of a client the client's own. The
  slot of a server holds the shared map and the server's counter; the client's counter is
  passed to and returned by its operations.
\<close>

section \<open>The class\<close>

record ('k, 'v, 'm) um_inst =
  um_ops :: "('k, 'v, 'm) assoc_ops"
  um_hash :: "'k \<Rightarrow> u64"
  um_assign :: "('v \<Rightarrow> 'v) option"
  um_moved :: "'v \<Rightarrow> 'v"
  um_default :: 'v
  um_key_size :: "'k \<Rightarrow> u64"
  um_val_size :: "'v \<Rightarrow> u64"

record 'm um_server =
  um_map :: 'm
  um_size :: u64

datatype um_op = UmPut | UmGet | UmErase | UmGetAllData

definition um_bind_table :: "(string \<times> um_op) list" where
  "um_bind_table = [(''_Put'', UmPut), (''_Get'', UmGet), (''_Erase'', UmErase),
     (''_GetAllData'', UmGetAllData)]"

definition um_construct_shared_memory where
  "um_construct_shared_memory bip I =
     construct_object bip (\<lambda>c. visible (cont_name c)) \<lparr>um_map = ao_empty (um_ops I), um_size = 0\<rparr>"

definition um_open_shared_memory where
  "um_open_shared_memory bip = open_object bip (\<lambda>c. visible (cont_name c))"

definition um_ctor where
  "um_ctor bip p I nm prt n idx mem srv on_node dir fs =
     ctor_with p (um_construct_shared_memory bip I) (um_open_shared_memory bip) um_bind_table
       (container_ctor bip p nm prt n idx mem srv on_node dir fs)"

definition um_dtor where
  "um_dtor bip c = derived_dtor bip c"

definition um_data where
  "um_data c ptr = shared_data c ptr"

lemma um_ctor_derived: "um_ctor bip p I = derived_ctor bip p (\<lambda>c. visible (cont_name c)) \<lparr>um_map = ao_empty (um_ops I), um_size = 0\<rparr> um_bind_table"
  by (simp add: fun_eq_iff um_ctor_def derived_ctor_def um_construct_shared_memory_def um_open_shared_memory_def)

section \<open>Operations on one server\<close>

text \<open>
  The mutex is taken when the object is the server and \<^verbatim>\<open>server_on_node\<close> is not set; the body is
  the same in both branches.
\<close>

definition um_access ::
  "container \<Rightarrow> (u64 \<Rightarrow> 'm \<Rightarrow> ('r \<times> u64) \<times> 'm) \<Rightarrow> u64 \<Rightarrow> 'm shm \<Rightarrow> (('r \<times> u64) \<times> 'm shm) result" where
  "um_access c body sz s =
     (if is_server c \<and> \<not> server_on_node c then scoped_lock (body sz) s else plain_access (body sz) s)"

definition um_put_body :: "('k, 'v, 'm) um_inst \<Rightarrow> 'k \<Rightarrow> 'v \<Rightarrow> u64 \<Rightarrow> 'm \<Rightarrow> (bool \<times> u64) \<times> 'm" where
  "um_put_body I key dat size_occupied m =
     (let value = GetData (um_assign I) dat;
          (inserted, m) = ao_insert_or_assign (um_ops I) key value m;
          dat = GetData_leaves (um_assign I) (um_moved I) dat;
          size_occupied = (if inserted then size_occupied + (um_key_size I key + um_val_size I dat)
                           else size_occupied)
      in ((True, size_occupied), m))"

definition um_LocalPut where
  "um_LocalPut I c key dat = um_access c (um_put_body I key dat)"

definition um_get_body :: "('k, 'v, 'm) um_inst \<Rightarrow> 'k \<Rightarrow> u64 \<Rightarrow> 'm \<Rightarrow> ((bool \<times> 'v) \<times> u64) \<times> 'm" where
  "um_get_body I key size_occupied m =
     ((case ao_find (um_ops I) m key of Some v \<Rightarrow> (True, v) | None \<Rightarrow> (False, um_default I),
       size_occupied), m)"

definition um_LocalGet where
  "um_LocalGet I c key = um_access c (um_get_body I key)"

definition um_erase_body :: "('k, 'v, 'm) um_inst \<Rightarrow> 'k \<Rightarrow> u64 \<Rightarrow> 'm \<Rightarrow> ((bool \<times> 'v) \<times> u64) \<times> 'm" where
  "um_erase_body I key size_occupied m =
     (case ao_find (um_ops I) m key of
        Some v \<Rightarrow> (((True, um_default I), size_occupied - (um_key_size I key + um_val_size I v)),
                   snd (ao_erase (um_ops I) key m))
      | None \<Rightarrow> (((False, um_default I), size_occupied), m))"

definition um_LocalErase where
  "um_LocalErase I c key = um_access c (um_erase_body I key)"

definition um_LocalGetAllDataInServer ::
  "('k, 'v, 'm) um_inst \<Rightarrow> u64 \<Rightarrow> 'm shm \<Rightarrow> ((('k \<times> 'v) list \<times> u64) \<times> 'm shm) result" where
  "um_LocalGetAllDataInServer I size_occupied = scoped_lock (\<lambda>m.
     ((if length (ao_items (um_ops I) m) > 0 then ao_items (um_ops I) m else [], size_occupied), m))"

text \<open>The same operation run by the server, with its counter, and by a client on the node.\<close>

definition um_as_server ::
  "(u64 \<Rightarrow> 'm shm \<Rightarrow> (('r \<times> u64) \<times> 'm shm) result) \<Rightarrow> 'm um_server shm \<Rightarrow> ('r \<times> 'm um_server shm) result" where
  "um_as_server f s =
     rmap (\<lambda>((r, sz), t). (r, \<lparr>mtx = mtx t, obj = \<lparr>um_map = obj t, um_size = sz\<rparr>\<rparr>))
       (f (um_size (obj s)) \<lparr>mtx = mtx s, obj = um_map (obj s)\<rparr>)"

definition um_as_client ::
  "(u64 \<Rightarrow> 'm shm \<Rightarrow> (('r \<times> u64) \<times> 'm shm) result) \<Rightarrow> u64 \<Rightarrow> 'm um_server shm
     \<Rightarrow> (('r \<times> u64) \<times> 'm um_server shm) result" where
  "um_as_client f size_occupied s =
     rmap (\<lambda>(r, t). (r, \<lparr>mtx = mtx t, obj = \<lparr>um_map = obj t, um_size = um_size (obj s)\<rparr>\<rparr>))
       (f size_occupied \<lparr>mtx = mtx s, obj = um_map (obj s)\<rparr>)"

fun um_handler ::
  "('k, 'v, 'm) um_inst \<Rightarrow> um_op \<Rightarrow> ('k, 'v) request \<Rightarrow> container \<Rightarrow> 'm um_server shm
     \<Rightarrow> (('k, 'v) response \<times> 'm um_server shm) result" where
  "um_handler I UmPut (QKeyVal k v) c s = THALLIUM_DEFINE RBool (um_as_server (um_LocalPut I c k v) s)"
| "um_handler I UmGet (QKey k) c s = THALLIUM_DEFINE RVal (um_as_server (um_LocalGet I c k) s)"
| "um_handler I UmErase (QKey k) c s = THALLIUM_DEFINE RVal (um_as_server (um_LocalErase I c k) s)"
| "um_handler I UmGetAllData QNone c s =
     THALLIUM_DEFINE RPairs (um_as_server (um_LocalGetAllDataInServer I) s)"
| "um_handler I op q c s = Inl Bad_Message"

type_synonym 'm um_cluster = "('m um_server, um_op) cluster"
type_synonym ('k, 'v, 'm) um_thallium =
  "('m um_server, um_op, ('k, 'v) request, ('k, 'v) response) thallium"

section \<open>Operations on the cluster\<close>

text \<open>
  \<^verbatim>\<open>Put\<close> narrows the hash to 16 bits before the remainder; \<^verbatim>\<open>Get\<close> and \<^verbatim>\<open>Erase\<close> do not.
\<close>

definition um_put_server :: "container \<Rightarrow> u64 \<Rightarrow> u16 result" where
  "um_put_server c key_hash =
     (if num_servers c = 0 then Inl Div_By_Zero
      else Inr (of_nat (unat (ucast key_hash :: u16) mod nat (num_servers c))))"

definition um_Put ::
  "('k, 'v, 'm) um_inst \<Rightarrow> hcl_process \<Rightarrow> ('k, 'v, 'm) um_thallium \<Rightarrow> container \<Rightarrow> 'k \<Rightarrow> 'v
     \<Rightarrow> u64 \<Rightarrow> 'm um_cluster \<Rightarrow> ((bool \<times> u64) \<times> 'm um_cluster) result" where
  "um_Put I p thl c key dat sz w =
     rbind (um_put_server c (um_hash I key)) (\<lambda>key_int.
       if is_local c key_int then local_access c (um_as_client (um_LocalPut I c key dat) sz) w
       else rmap (\<lambda>(b, w). ((b, sz), w))
              (RPC_CALL_WRAPPER p thl c ''_Put'' key_int as_bool (QKeyVal key dat) w))"

definition um_Get ::
  "('k, 'v, 'm) um_inst \<Rightarrow> hcl_process \<Rightarrow> ('k, 'v, 'm) um_thallium \<Rightarrow> container \<Rightarrow> 'k
     \<Rightarrow> u64 \<Rightarrow> 'm um_cluster \<Rightarrow> (((bool \<times> 'v) \<times> u64) \<times> 'm um_cluster) result" where
  "um_Get I p thl c key sz w =
     rbind (key_to_server c (um_hash I key)) (\<lambda>key_int.
       if is_local c key_int then local_access c (um_as_client (um_LocalGet I c key) sz) w
       else rmap (\<lambda>(r, w). ((r, sz), w))
              (RPC_CALL_WRAPPER p thl c ''_Get'' key_int as_val (QKey key) w))"

definition um_Erase ::
  "('k, 'v, 'm) um_inst \<Rightarrow> hcl_process \<Rightarrow> ('k, 'v, 'm) um_thallium \<Rightarrow> container \<Rightarrow> 'k
     \<Rightarrow> u64 \<Rightarrow> 'm um_cluster \<Rightarrow> (((bool \<times> 'v) \<times> u64) \<times> 'm um_cluster) result" where
  "um_Erase I p thl c key sz w =
     rbind (key_to_server c (um_hash I key)) (\<lambda>key_int.
       if is_local c key_int then local_access c (um_as_client (um_LocalErase I c key) sz) w
       else rmap (\<lambda>(r, w). ((r, sz), w))
              (RPC_CALL_WRAPPER p thl c ''_Erase'' key_int as_val (QKey key) w))"

definition um_GetAllDataInServer ::
  "('k, 'v, 'm) um_inst \<Rightarrow> hcl_process \<Rightarrow> ('k, 'v, 'm) um_thallium \<Rightarrow> container
     \<Rightarrow> u64 \<Rightarrow> 'm um_cluster \<Rightarrow> (('k \<times> 'v) list \<times> 'm um_cluster) result" where
  "um_GetAllDataInServer I p thl c sz w =
     (if is_local_node c
      then rmap (\<lambda>((l, _), w). (l, w)) (local_access c (um_as_client (um_LocalGetAllDataInServer I) sz) w)
      else RPC_CALL_WRAPPER p thl c ''_GetAllData'' (my_server_idx c) as_pairs QNone w)"

definition um_GetAllData ::
  "('k, 'v, 'm) um_inst \<Rightarrow> hcl_process \<Rightarrow> ('k, 'v, 'm) um_thallium \<Rightarrow> container
     \<Rightarrow> u64 \<Rightarrow> 'm um_cluster \<Rightarrow> (('k \<times> 'v) list \<times> 'm um_cluster) result" where
  "um_GetAllData I p thl c sz w =
     rbind (um_GetAllDataInServer I p thl c sz w) (\<lambda>(current_server, w).
       collect (\<lambda>i. RPC_CALL_WRAPPER p thl c ''_GetAllData'' (of_nat i) as_pairs QNone)
         (other_servers c) current_server w)"

section \<open>Where an operation runs\<close>

definition um_home :: "('k, 'v, 'm) um_inst \<Rightarrow> 'm um_cluster \<Rightarrow> 'k \<Rightarrow> nat" where
  "um_home I w k = home (length w) (um_hash I k)"

abbreviation um_look :: "('k, 'v, 'm) um_inst \<Rightarrow> 'm um_server \<Rightarrow> 'k \<Rightarrow> 'v option" where
  "um_look I d \<equiv> ao_find (um_ops I) (um_map d)"

definition um_view :: "('k, 'v, 'm) um_inst \<Rightarrow> 'm um_cluster \<Rightarrow> 'k \<Rightarrow> 'v option" where
  "um_view I w = shard_view (um_look I) (um_home I w) w"

definition um_inv ::
  "('k, 'v, 'm) um_inst \<Rightarrow> ('m \<Rightarrow> bool) \<Rightarrow> hcl_process \<Rightarrow> container set \<Rightarrow> 'm um_cluster \<Rightarrow> bool" where
  "um_inv I ok p C w \<longleftrightarrow>
     (\<forall>c \<in> C. connected p um_bind_table c w)
     \<and> sharded (um_look I) (\<lambda>d. ok (um_map d)) (um_home I w) w"

text \<open>A command of a client: it reads and leaves its own counter.\<close>

definition um_step ::
  "(u64 \<Rightarrow> 'w \<Rightarrow> (('r \<times> u64) \<times> 'w) result) \<Rightarrow> container \<Rightarrow> (container \<Rightarrow> u64) \<times> 'w
     \<Rightarrow> ('r \<times> (container \<Rightarrow> u64) \<times> 'w) result" where
  "um_step f c st = rmap (\<lambda>((r, sz), w). (r, (fst st)(c := sz), w)) (f (fst st c) (snd st))"

lemma um_table_simps [simp]:
  "map_of um_bind_table ''_Put'' = Some UmPut" "map_of um_bind_table ''_Get'' = Some UmGet"
  "map_of um_bind_table ''_Erase'' = Some UmErase"
  "map_of um_bind_table ''_GetAllData'' = Some UmGetAllData"
  by (simp_all add: um_bind_table_def)

lemma um_home_put_seg [simp]: "um_home I (put_seg w i s) = um_home I w"
  by (simp add: um_home_def fun_eq_iff)

lemma um_access_free:
  "\<not> mtx s \<Longrightarrow> um_access c body sz s = Inr (fst (body sz (obj s)), s\<lparr>obj := snd (body sz (obj s))\<rparr>)"
  by (simp add: um_access_def scoped_lock_free plain_access_eq)

text \<open>The 16-bit narrowing is harmless when the number of servers divides \<open>2 ^ 16\<close>.\<close>

lemma um_put_server_home:
  assumes "connected p tbl c w" "length w dvd 2 ^ 16"
  shows "um_put_server c h = Inr (of_nat (home (length w) h))"
proof -
  have "unat (ucast h :: u16) = unat h mod 2 ^ 16"
    by (simp add: unsigned_ucast_eq take_bit_eq_mod)
  moreover have "unat h mod 2 ^ 16 mod length w = unat h mod length w"
    using assms(2) by (rule mod_mod_cancel)
  ultimately show ?thesis
    using assms(1) by (auto simp: um_put_server_def connected_def home_def)
qed

lemma um_put_body_form:
  "\<exists>sz'. um_put_body I k v sz m =
     ((True, sz'), snd (ao_insert_or_assign (um_ops I) k (GetData (um_assign I) v) m))"
  by (simp add: um_put_body_def Let_def split: prod.splits)

lemma um_get_body_form:
  "\<exists>sz'. um_get_body I k sz m =
     ((case ao_find (um_ops I) m k of Some v \<Rightarrow> (True, v) | None \<Rightarrow> (False, um_default I), sz'), m)"
  by (simp add: um_get_body_def)

lemma um_erase_body_form:
  "\<exists>sz'. um_erase_body I k sz m =
     (((ao_find (um_ops I) m k \<noteq> None, um_default I), sz'),
      if ao_find (um_ops I) m k = None then m else snd (ao_erase (um_ops I) k m))"
  by (simp add: um_erase_body_def split: option.splits)

locale um_deployment = transport thl "um_handler I" + assoc_container "um_ops I" ok
  for I :: "('k, 'v, 'm) um_inst" and ok :: "'m \<Rightarrow> bool" and thl :: "('k, 'v, 'm) um_thallium"
begin

lemma routed:
  assumes con: "connected p um_bind_table c w" and i: "i < length w" and free: "\<not> mtx (seg (w ! i))"
    and op: "map_of um_bind_table sfx = Some op"
    and h: "\<And>cc s. um_handler I op q cc s = THALLIUM_DEFINE enc (um_as_server (um_access cc body) s)"
    and dec: "\<And>x. dec (enc x) = Inr x"
    and body: "\<And>sz m. \<exists>sz'. body sz m = ((r m, sz'), nxt m)"
  shows "\<exists>sz' us. (if is_local c (of_nat i) then local_access c (um_as_client (um_access c body) sz) w
      else rmap (\<lambda>(b, w). ((b, sz), w)) (RPC_CALL_WRAPPER p thl c sfx (of_nat i) dec q w)) =
    Inr ((r (um_map (obj (seg (w ! i)))), sz'),
      put_seg w i \<lparr>mtx = False, obj = \<lparr>um_map = nxt (um_map (obj (seg (w ! i)))), um_size = us\<rparr>\<rparr>)"
proof -
  let ?d = "obj (seg (w ! i))"
  obtain sz1 where b1: "body sz (um_map ?d) = ((r (um_map ?d), sz1), nxt (um_map ?d))"
    using body by blast
  obtain sz2 where b2: "body (um_size ?d) (um_map ?d) = ((r (um_map ?d), sz2), nxt (um_map ?d))"
    using body by blast
  have "i < 2 ^ 16" using con i by (auto simp: connected_def)
  then have idx: "of_nat i = my_server_idx c \<Longrightarrow> i = unat (my_server_idx c)"
    using unat_of_nat_u16 by metis
  have "RPC_CALL_WRAPPER p thl c sfx (of_nat i) dec q w =
      at_server i (um_as_server (um_access (self (w ! i)) body)) w"
    by (rule remote_call [where dec = dec, OF con i op h dec])
  then show ?thesis
    using b1 b2 free idx local_access_connected [OF con, of "um_as_client (um_access c body) sz"]
    by (auto simp: is_local_def at_server_def um_as_client_def um_as_server_def um_access_free)
qed

lemma invD:
  assumes "um_inv I ok p C w"
  shows "c \<in> C \<Longrightarrow> connected p um_bind_table c w"
    "sharded (um_look I) (\<lambda>d. ok (um_map d)) (um_home I w) w"
  using assms by (auto simp: um_inv_def)

lemma homeD:
  assumes "um_inv I ok p C w" "c \<in> C"
  shows "um_home I w k < length w" "\<not> mtx (seg (w ! um_home I w k))"
    "ok (um_map (obj (seg (w ! um_home I w k))))"
proof -
  show less: "um_home I w k < length w"
    using home_less [OF invD(1) [OF assms]] by (simp add: um_home_def)
  show "\<not> mtx (seg (w ! um_home I w k))" "ok (um_map (obj (seg (w ! um_home I w k))))"
    using quiescentD [OF shardedD(1) [OF invD(2)] less] shardedD(2) [OF invD(2) less] assms by auto
qed

lemma inv_write:
  assumes inv: "um_inv I ok p C w" "c \<in> C" and s: "\<not> mtx s" "ok (um_map (obj s))"
    and look: "um_look I (obj s) = (um_look I (obj (seg (w ! um_home I w k))))(k := x)"
  shows "um_inv I ok p C (put_seg w (um_home I w k) s)"
    and "um_view I (put_seg w (um_home I w k) s) = (um_view I w)(k := x)"
proof -
  note less = homeD(1) [OF inv, of k]
  show "um_inv I ok p C (put_seg w (um_home I w k) s)"
    using inv(1) less sharded_put_seg [of "um_look I" "\<lambda>d. ok (um_map d)" "um_home I w" w k s x] s look
    by (auto simp: um_inv_def intro: hcl_wf)
  show "um_view I (put_seg w (um_home I w k) s) = (um_view I w)(k := x)"
    unfolding um_view_def um_home_put_seg
    using less look by (rule shard_view_put_seg)
qed

lemma put_correct:
  assumes inv: "um_inv I ok p C w" "c \<in> C" and dvd: "length w dvd 2 ^ 16"
  shows "\<exists>sz' w'. um_Put I p thl c k v sz w = Inr ((True, sz'), w') \<and> length w' = length w
    \<and> um_inv I ok p C w' \<and> um_view I w' = (um_view I w)(k \<mapsto> GetData (um_assign I) v)"
proof -
  let ?i = "um_home I w k"
  let ?nxt = "\<lambda>m. snd (ao_insert_or_assign (um_ops I) k (GetData (um_assign I) v) m)"
  note home = homeD [OF inv, of k] and con = invD(1) [OF inv]
  have "\<exists>sz' us. um_Put I p thl c k v sz w =
      Inr ((True, sz'), put_seg w ?i \<lparr>mtx = False, obj = \<lparr>um_map = ?nxt (um_map (obj (seg (w ! ?i)))), um_size = us\<rparr>\<rparr>)"
    unfolding um_Put_def um_put_server_home [OF con dvd] rbind_simps um_home_def [symmetric] um_LocalPut_def
    by (rule routed [OF con home(1,2) um_table_simps(1) _ _ um_put_body_form, where enc = RBool])
      (simp_all add: um_LocalPut_def)
  then obtain sz' us where r: "um_Put I p thl c k v sz w =
      Inr ((True, sz'), put_seg w ?i \<lparr>mtx = False, obj = \<lparr>um_map = ?nxt (um_map (obj (seg (w ! ?i)))), um_size = us\<rparr>\<rparr>)"
    by blast
  show ?thesis
    unfolding r using inv_write [OF inv, of "\<lparr>mtx = False, obj = \<lparr>um_map = ?nxt (um_map (obj (seg (w ! ?i)))), um_size = us\<rparr>\<rparr>" k]
      invar_insert [OF home(3)] find_insert [OF home(3)] by auto
qed

lemma get_correct:
  assumes inv: "um_inv I ok p C w" "c \<in> C"
  shows "\<exists>sz' w'. um_Get I p thl c k sz w =
      Inr ((case um_view I w k of None \<Rightarrow> (False, um_default I) | Some v \<Rightarrow> (True, v), sz'), w')
    \<and> length w' = length w \<and> um_inv I ok p C w' \<and> um_view I w' = um_view I w"
proof -
  let ?i = "um_home I w k"
  let ?m = "um_map (obj (seg (w ! um_home I w k)))"
  note home = homeD [OF inv, of k] and con = invD(1) [OF inv]
  have "\<exists>sz' us. um_Get I p thl c k sz w =
      Inr ((case ao_find (um_ops I) ?m k of Some v \<Rightarrow> (True, v) | None \<Rightarrow> (False, um_default I), sz'),
        put_seg w ?i \<lparr>mtx = False, obj = \<lparr>um_map = ?m, um_size = us\<rparr>\<rparr>)"
    unfolding um_Get_def key_to_server_connected [OF con] rbind_simps um_home_def [symmetric] um_LocalGet_def
    by (rule routed [OF con home(1,2) um_table_simps(2) _ _ um_get_body_form, where enc = RVal])
      (simp_all add: um_LocalGet_def)
  then obtain sz' us where r: "um_Get I p thl c k sz w =
      Inr ((case ao_find (um_ops I) ?m k of Some v \<Rightarrow> (True, v) | None \<Rightarrow> (False, um_default I), sz'),
        put_seg w ?i \<lparr>mtx = False, obj = \<lparr>um_map = ?m, um_size = us\<rparr>\<rparr>)"
    by blast
  have v: "um_view I w k = ao_find (um_ops I) ?m k" by (simp add: um_view_def shard_view_def)
  show ?thesis
    unfolding r v
    using inv_write [OF inv, of "\<lparr>mtx = False, obj = \<lparr>um_map = ?m, um_size = us\<rparr>\<rparr>" k "um_view I w k"]
      home(3) by (auto simp: v split: option.splits)
qed

lemma erase_correct:
  assumes inv: "um_inv I ok p C w" "c \<in> C"
  shows "\<exists>sz' w'. um_Erase I p thl c k sz w = Inr (((um_view I w k \<noteq> None, um_default I), sz'), w')
    \<and> length w' = length w \<and> um_inv I ok p C w' \<and> um_view I w' = (um_view I w)(k := None)"
proof -
  let ?i = "um_home I w k"
  let ?m = "um_map (obj (seg (w ! um_home I w k)))"
  let ?n = "if ao_find (um_ops I) ?m k = None then ?m else snd (ao_erase (um_ops I) k ?m)"
  note home = homeD [OF inv, of k] and con = invD(1) [OF inv]
  have "\<exists>sz' us. um_Erase I p thl c k sz w = Inr (((ao_find (um_ops I) ?m k \<noteq> None, um_default I), sz'),
        put_seg w ?i \<lparr>mtx = False, obj = \<lparr>um_map = ?n, um_size = us\<rparr>\<rparr>)"
    unfolding um_Erase_def key_to_server_connected [OF con] rbind_simps um_home_def [symmetric]
      um_LocalErase_def
    by (rule routed [OF con home(1,2) um_table_simps(3) _ _ um_erase_body_form, where enc = RVal])
      (simp_all add: um_LocalErase_def)
  then obtain sz' us where r: "um_Erase I p thl c k sz w =
      Inr (((ao_find (um_ops I) ?m k \<noteq> None, um_default I), sz'),
        put_seg w ?i \<lparr>mtx = False, obj = \<lparr>um_map = ?n, um_size = us\<rparr>\<rparr>)"
    by blast
  have v: "um_view I w k = ao_find (um_ops I) ?m k" by (simp add: um_view_def shard_view_def)
  have "ok ?n" "ao_find (um_ops I) ?n = (ao_find (um_ops I) ?m)(k := None)"
    using home(3) invar_erase find_erase by auto
  then show ?thesis
    unfolding r v
    using inv_write [OF inv, of "\<lparr>mtx = False, obj = \<lparr>um_map = ?n, um_size = us\<rparr>\<rparr>" k None]
    by auto
qed

end

text \<open>
  With a number of servers that divides \<open>2 ^ 16\<close> the container is one map. The state of the
  service is the cluster with the counters of the clients.
\<close>

definition um_ready ::
  "('k, 'v, 'm) um_inst \<Rightarrow> ('m \<Rightarrow> bool) \<Rightarrow> hcl_process \<Rightarrow> container set
     \<Rightarrow> (container \<Rightarrow> u64) \<times> 'm um_cluster \<Rightarrow> bool" where
  "um_ready I ok p C st \<longleftrightarrow> um_inv I ok p C (snd st) \<and> length (snd st) dvd 2 ^ 16"

lemma um_step_ready:
  assumes "f (fst s c) (snd s) = Inr ((r, sz'), w')" "length w' = length (snd s)" "um_inv I ok p C w'"
    "um_view I w' = m" "length (snd s) dvd 2 ^ 16"
  shows "\<exists>s'. um_step f c s = Inr (r, s') \<and> um_ready I ok p C s' \<and> um_view I (snd s') = m"
  using assms by (intro exI [of _ "((fst s)(c := sz'), w')"]) (simp add: um_step_def um_ready_def)

sublocale um_deployment \<subseteq> kv_service
  "\<lambda>c k v. um_step (um_Put I p thl c k v) c" "\<lambda>c k. um_step (um_Get I p thl c k) c"
  "\<lambda>c k. um_step (um_Erase I p thl c k) c"
  "um_ready I ok p" "\<lambda>st. um_view I (snd st)" "GetData (um_assign I)" "um_default I" for p
proof unfold_locales
  fix C c k v and s :: "(container \<Rightarrow> u64) \<times> 'm um_cluster"
  assume r: "um_ready I ok p C s" and c: "c \<in> C"
  then have h: "um_inv I ok p C (snd s)" "length (snd s) dvd 2 ^ 16" by (auto simp: um_ready_def)
  show "\<exists>s'. um_step (um_Put I p thl c k v) c s = Inr (True, s') \<and> um_ready I ok p C s'
      \<and> um_view I (snd s') = (um_view I (snd s))(k \<mapsto> GetData (um_assign I) v)"
    using put_correct [OF h(1) c h(2), of k v "fst s c"] h(2) 
    by (elim exE conjE) (rule um_step_ready, assumption+)
  show "\<exists>s'. um_step (um_Get I p thl c k) c s =
        Inr (case um_view I (snd s) k of None \<Rightarrow> (False, um_default I) | Some v \<Rightarrow> (True, v), s')
      \<and> um_ready I ok p C s' \<and> um_view I (snd s') = um_view I (snd s)"
    using get_correct [OF h(1) c, of k "fst s c"] h(2) 
    by (elim exE conjE) (rule um_step_ready, assumption+)
  show "\<exists>s'. um_step (um_Erase I p thl c k) c s = Inr ((um_view I (snd s) k \<noteq> None, um_default I), s')
      \<and> um_ready I ok p C s' \<and> um_view I (snd s') = (um_view I (snd s))(k := None)"
    using erase_correct [OF h(1) c, of k "fst s c"] h(2) 
    by (elim exE conjE) (rule um_step_ready, assumption+)
qed

context um_deployment
begin

lemmas um_runs = run_refines

lemma items_at_server:
  assumes "i < length w" "\<not> mtx (seg (w ! i))"
  shows "at_server i (um_as_server (um_LocalGetAllDataInServer I)) w =
      Inr (ao_items (um_ops I) (um_map (obj (seg (w ! i)))), w)"
    and "at_server i (um_as_client (um_LocalGetAllDataInServer I) sz) w =
      Inr ((ao_items (um_ops I) (um_map (obj (seg (w ! i)))), sz), w)"
proof -
  have "\<lparr>mtx = False, obj = \<lparr>um_map = um_map (obj (seg (w ! i))), um_size = um_size (obj (seg (w ! i)))\<rparr>\<rparr> = seg (w ! i)"
    using assms(2) by simp
  then have "put_seg w i \<lparr>mtx = False, obj = \<lparr>um_map = um_map (obj (seg (w ! i))),
      um_size = um_size (obj (seg (w ! i)))\<rparr>\<rparr> = w"
    using put_seg_same [OF assms(1)] by (rule ssubst)
  then show "at_server i (um_as_server (um_LocalGetAllDataInServer I)) w =
      Inr (ao_items (um_ops I) (um_map (obj (seg (w ! i)))), w)"
    "at_server i (um_as_client (um_LocalGetAllDataInServer I) sz) w =
      Inr ((ao_items (um_ops I) (um_map (obj (seg (w ! i)))), sz), w)"
    using assms by (simp_all add: at_server_def um_as_server_def um_as_client_def
        um_LocalGetAllDataInServer_def scoped_lock_free)
qed

lemma get_all_correct:
  assumes inv: "um_inv I ok p C w" "c \<in> C"
  shows "\<exists>l. um_GetAllData I p thl c sz w = Inr (l, w) \<and> distinct (map fst l) \<and> map_of l = um_view I w"
proof -
  let ?js = "unat (my_server_idx c) # other_servers c"
  let ?g = "\<lambda>i. ao_items (um_ops I) (um_map (obj (seg (w ! i))))"
  note con = invD(1) [OF inv] and sh = invD(2) [OF inv(1)]
  have free: "\<not> mtx (seg (w ! i))" if "i < length w" for i
    using quiescentD [OF shardedD(1) [OF sh] that] .
  have remote: "RPC_CALL_WRAPPER p thl c ''_GetAllData'' (of_nat i) as_pairs QNone w = Inr (?g i, w)"
    if "i < length w" for i
    using remote_call [where f = "um_as_server (um_LocalGetAllDataInServer I)" and enc = RPairs and dec = as_pairs,
        OF con that um_table_simps(4)] items_at_server(1) [OF that free [OF that]] by simp
  have "um_GetAllDataInServer I p thl c sz w = Inr (?g (unat (my_server_idx c)), w)"
    using remote [OF connected_index [OF con]] items_at_server(2) [OF connected_index [OF con] free, of sz]
      connected_index [OF con]
    by (simp add: um_GetAllDataInServer_def local_access_connected [OF con])
  moreover have "collect (\<lambda>i. RPC_CALL_WRAPPER p thl c ''_GetAllData'' (of_nat i) as_pairs QNone)
      (other_servers c) (?g (unat (my_server_idx c))) w =
      Inr (?g (unat (my_server_idx c)) @ concat (map ?g (other_servers c)), w)"
    by (rule collect_pure, rule remote) (use con in \<open>auto simp: other_servers_def connected_def\<close>)
  moreover have "distinct (map fst (concat (map ?g ?js)))" "map_of (concat (map ?g ?js)) = um_view I w |` UNIV"
    unfolding um_view_def
    by (rule gather_map_of [where S = UNIV, OF sh homeD(1) [OF inv] _ set_own_and_others(2)
          set_own_and_others(1) [OF con]],
        use shardedD(2) [OF sh] distinct_items find_items in \<open>simp add: restrict_map_def\<close>)+
  ultimately show ?thesis by (simp add: um_GetAllData_def restrict_map_def)
qed

text \<open>A key whose narrowed hash leads to another server is stored where it is not looked for.\<close>

lemma put_elsewhere:
  assumes inv: "um_inv I ok p C w" "c \<in> C" "c' \<in> C" and new: "um_view I w k = None"
    and other: "unat (ucast (um_hash I k) :: u16) mod length w \<noteq> um_home I w k"
  shows "\<exists>sz1 w1 sz2 w2. um_Put I p thl c k v sz w = Inr ((True, sz1), w1)
    \<and> um_Get I p thl c' k sz' w1 = Inr (((False, um_default I), sz2), w2)"
proof -
  let ?i = "unat (ucast (um_hash I k) :: u16) mod length w"
  note con = invD(1) [OF inv(1,2)] and sh = invD(2) [OF inv(1)]
  have "length w \<noteq> 0" using connected_index [OF con] by auto
  then have i: "?i < length w" by simp
  have srv: "um_put_server c (um_hash I k) = Inr (of_nat ?i)"
    using con by (auto simp: um_put_server_def connected_def)
  have "\<exists>sz1 us. um_Put I p thl c k v sz w = Inr ((True, sz1), put_seg w ?i
      \<lparr>mtx = False, obj = \<lparr>um_map = snd (ao_insert_or_assign (um_ops I) k (GetData (um_assign I) v)
         (um_map (obj (seg (w ! ?i))))), um_size = us\<rparr>\<rparr>)"
    unfolding um_Put_def srv rbind_simps um_LocalPut_def
    by (rule routed [OF con i quiescentD [OF shardedD(1) [OF sh] i] um_table_simps(1) _ _ um_put_body_form,
          where enc = RBool]) (simp_all add: um_LocalPut_def)
  then obtain sz1 s where put: "um_Put I p thl c k v sz w = Inr ((True, sz1), put_seg w ?i s)" by blast
  let ?w = "put_seg w ?i s"
  have con': "connected p um_bind_table c' ?w"
    using invD(1) [OF inv(1,3)] i by (rule connected_put_seg)
  have same: "?w ! um_home I w k = w ! um_home I w k"
    using other i by (simp add: nth_put_seg)
  have hm: "um_home I w k < length ?w" "\<not> mtx (seg (?w ! um_home I w k))"
    using homeD [OF inv(1,2)] same by simp_all
  have srv': "key_to_server c' (um_hash I k) = Inr (of_nat (um_home I w k))"
    using key_to_server_connected [OF con'] by (simp add: um_home_def)
  have none: "ao_find (um_ops I) (um_map (obj (seg (?w ! um_home I w k)))) k = None"
    using new same by (simp add: um_view_def shard_view_def)
  have "\<exists>sz2 us. um_Get I p thl c' k sz' ?w =
      Inr ((case ao_find (um_ops I) (um_map (obj (seg (?w ! um_home I w k)))) k of
          Some v \<Rightarrow> (True, v) | None \<Rightarrow> (False, um_default I), sz2), put_seg ?w (um_home I w k)
        \<lparr>mtx = False, obj = \<lparr>um_map = um_map (obj (seg (?w ! um_home I w k))), um_size = us\<rparr>\<rparr>)"
    unfolding um_Get_def srv' rbind_simps um_LocalGet_def
    by (rule routed [OF con' hm um_table_simps(2) _ _ um_get_body_form, where enc = RVal])
      (simp_all add: um_LocalGet_def)
  then have "\<exists>sz2 w2. um_Get I p thl c' k sz' ?w = Inr (((False, um_default I), sz2), w2)"
    unfolding none by auto
  then show ?thesis using put by blast
qed

end

section \<open>The counter\<close>

context assoc_container
begin

lemma length_items: "invar m \<Longrightarrow> length (ao_items ops m) = card (dom (ao_find ops m))"
  using distinct_items find_items
  by (metis distinct_card dom_map_of_conv_image_fst length_map list.set_map)

lemma finite_dom_find: "invar m \<Longrightarrow> finite (dom (ao_find ops m))"
  using find_items finite_dom_map_of by metis

lemma length_items_insert:
  "invar m \<Longrightarrow> length (ao_items ops (snd (ao_insert_or_assign ops k v m))) =
     length (ao_items ops m) + (if ao_find ops m k = None then 1 else 0)"
  using finite_dom_find [of m]
  by (auto simp: length_items invar_insert find_insert insert_absorb domIff)

lemma length_items_erase:
  assumes "invar m" "ao_find ops m k \<noteq> None"
  shows "length (ao_items ops m) = Suc (length (ao_items ops (snd (ao_erase ops k m))))"
proof -
  have "k \<in> dom (ao_find ops m)" using assms(2) by auto
  then have "card (dom (ao_find ops m)) = Suc (card (dom (ao_find ops m) - {k}))"
    using finite_dom_find [OF assms(1)] by (metis card_Suc_Diff1)
  then show ?thesis using assms(1) by (simp add: length_items invar_erase find_erase)
qed

end

text \<open>
  For types of fixed size the counter of the only object that updates a map is the number of its
  entries times the size of an entry.
\<close>

definition um_counted :: "('k, 'v, 'm) um_inst \<Rightarrow> u64 \<Rightarrow> u64 \<Rightarrow> 'm \<Rightarrow> bool" where
  "um_counted I entry sz m \<longleftrightarrow> sz = of_nat (length (ao_items (um_ops I) m)) * entry"

context assoc_container
begin

lemma counted_put:
  assumes "um_ops I = ops" "invar m" "um_counted I (a + b) sz m"
    and "um_key_size I = (\<lambda>_. a)" "um_val_size I = (\<lambda>_. b)"
  shows "um_counted I (a + b) (snd (fst (um_put_body I k v sz m))) (snd (um_put_body I k v sz m))"
  using assms length_items_insert [OF assms(2), of k "GetData (um_assign I) v"]
    insert_new [OF assms(2), of k "GetData (um_assign I) v"]
  by (auto simp: um_counted_def um_put_body_def Let_def algebra_simps split: prod.splits)

lemma counted_erase:
  assumes "um_ops I = ops" "invar m" "um_counted I (a + b) sz m"
    and "um_key_size I = (\<lambda>_. a)" "um_val_size I = (\<lambda>_. b)"
  shows "um_counted I (a + b) (snd (fst (um_erase_body I k sz m))) (snd (um_erase_body I k sz m))"
  using assms length_items_erase [OF assms(2), of k]
  by (auto simp: um_counted_def um_erase_body_def algebra_simps split: option.splits)

end

section \<open>An instance\<close>

definition list_um :: "('k::linorder \<Rightarrow> u64) \<Rightarrow> ('v \<Rightarrow> 'v) option \<Rightarrow> 'v \<Rightarrow> ('k, 'v, ('k \<times> 'v) list) um_inst" where
  "list_um hash assign dflt =
     \<lparr>um_ops = base_ops alist_ops, um_hash = hash, um_assign = assign, um_moved = (\<lambda>v. v), um_default = dflt,
      um_key_size = (\<lambda>_. 8), um_val_size = (\<lambda>_. 4)\<rparr>"

lemma list_um_sel [simp]:
  "um_ops (list_um hash assign dflt) = base_ops alist_ops" "um_hash (list_um hash assign dflt) = hash"
  "um_assign (list_um hash assign dflt) = assign" "um_default (list_um hash assign dflt) = dflt"
  "um_key_size (list_um hash assign dflt) = (\<lambda>_. 8)" "um_val_size (list_um hash assign dflt) = (\<lambda>_. 4)"
  by (simp_all add: list_um_def)

interpretation lum: um_deployment "list_um hash assign dflt" al_invar
    "direct_engine (um_handler (list_um hash assign dflt))"
  for hash :: "'k::linorder \<Rightarrow> u64" and assign and dflt :: 'v
  unfolding um_deployment_def list_um_sel
  by (rule conjI, rule direct.transport_axioms, rule alist.assoc_container_axioms)

abbreviation ex_um :: "(u64, nat, (u64 \<times> nat) list) um_inst" where
  "ex_um \<equiv> list_um (\<lambda>k. k) None 0"

lemma um_table_ok: "table_ok um_bind_table"
  by (simp add: table_ok_def um_bind_table_def NUL_def)

abbreviation ex_um_cluster :: "(u64 \<times> nat) list list \<Rightarrow> (u64 \<times> nat) list um_cluster" where
  "ex_um_cluster objs \<equiv> ex_cluster um_bind_table (map (\<lambda>m. \<lparr>um_map = m, um_size = 0\<rparr>) objs)"

lemma ex_um_inv:
  assumes "n < 2 ^ 16" "length objs = n" "\<forall>d \<in> set objs. al_invar d"
    and "\<forall>i < n. \<forall>e \<in> set (objs ! i). home n (fst e) = i"
  shows "um_inv ex_um al_invar (ex_process n) (ex_clients n) (ex_um_cluster objs)"
proof -
  have "\<forall>c \<in> ex_clients n. connected (ex_process n) um_bind_table c (ex_um_cluster objs)"
    by (intro ballI ex_connected [OF um_table_ok]) (use assms(1,2) in simp_all)
  moreover have "\<forall>s \<in> set (ex_um_cluster objs). al_invar (um_map (obj (seg s)))"
    using assms(3) by (auto simp: ex_cluster_def)
  moreover have "home n k = i" if "i < n" "map_of (objs ! i) k \<noteq> None" for i k
    using that assms(4) by (fastforce dest: map_of_SomeD)
  ultimately show ?thesis
    using assms(2) by (auto simp: um_inv_def sharded_def ex_quiescent um_home_def alist_ops_def)
qed

lemma ex_um_view:
  "objs \<noteq> [] \<Longrightarrow> um_view ex_um (ex_um_cluster objs) k = map_of (objs ! (unat k mod length objs)) k"
  by (simp add: um_view_def shard_view_def um_home_def home_def alist_ops_def)

section \<open>Properties\<close>

text \<open>
  C4. When the number of servers divides \<open>2 ^ 16\<close>, any sequence of \<^verbatim>\<open>Put\<close>, \<^verbatim>\<open>Get\<close> and \<^verbatim>\<open>Erase\<close> of
  any clients on an \<^verbatim>\<open>hcl::unordered_map\<close> succeeds and gives the results of a single map.
\<close>

theorem um_refines_one_map:
  assumes "um_deployment I ok thl" "um_ready I ok p C st" "cmd_client ` set xs \<subseteq> C"
  shows "\<exists>st'. run_kv (\<lambda>c k v. um_step (um_Put I p thl c k v) c) (\<lambda>c k. um_step (um_Get I p thl c k) c)
        (\<lambda>c k. um_step (um_Erase I p thl c k) c) xs st =
      Inr (fst (spec_kv (GetData (um_assign I)) (um_default I) xs (um_view I (snd st))), st')
    \<and> um_ready I ok p C st'
    \<and> um_view I (snd st') = snd (spec_kv (GetData (um_assign I)) (um_default I) xs (um_view I (snd st)))"
  using um_deployment.um_runs [OF assms] .

theorem um_refines_one_map_witness:
  "\<exists>st'. run_kv (\<lambda>c k v. um_step (um_Put ex_um (ex_process 2) (direct_engine (um_handler ex_um)) c k v) c)
      (\<lambda>c k. um_step (um_Get ex_um (ex_process 2) (direct_engine (um_handler ex_um)) c k) c)
      (\<lambda>c k. um_step (um_Erase ex_um (ex_process 2) (direct_engine (um_handler ex_um)) c k) c)
      [Put_Cmd (ex_client 2 1 True) 7 10, Get_Cmd (ex_client 2 0 False) 7,
       Erase_Cmd (ex_client 2 1 True) 7, Get_Cmd (ex_client 2 0 False) 7]
      ((\<lambda>_. 0), ex_um_cluster [[], []]) =
    Inr ([Out_Bool True, Out_Val (True, 10), Out_Val (True, 0), Out_Val (False, 0)], st')"
proof -
  have "um_inv ex_um al_invar (ex_process 2) (ex_clients 2) (ex_um_cluster [[], []])"
    by (rule ex_um_inv) (auto simp: al_invar_def less_2_cases_iff)
  then have h: "um_ready ex_um al_invar (ex_process 2) (ex_clients 2) ((\<lambda>_. 0), ex_um_cluster [[], []])"
    by (simp add: um_ready_def numeral_2_eq_2 [symmetric])
  show ?thesis
    using um_refines_one_map [OF lum.um_deployment_axioms h, of "[Put_Cmd (ex_client 2 1 True) 7 10,
        Get_Cmd (ex_client 2 0 False) 7, Erase_Cmd (ex_client 2 1 True) 7, Get_Cmd (ex_client 2 0 False) 7]"]
    by (auto simp: GetData_def simp del: run_kv.simps)
qed

text \<open>
  C5. \<^verbatim>\<open>Put\<close> and \<^verbatim>\<open>Get\<close> disagree on the server of a key when narrowing its hash to 16 bits changes
  the remainder: the value is stored and the following \<^verbatim>\<open>Get\<close>, by any client, does not find it.
\<close>

theorem um_put_then_get_loses_key:
  assumes "um_deployment I ok thl" "um_inv I ok p C w" "c \<in> C" "c' \<in> C" "um_view I w k = None"
    and "unat (ucast (um_hash I k) :: u16) mod length w \<noteq> um_home I w k"
  shows "\<exists>sz1 w1 sz2 w2. um_Put I p thl c k v sz w = Inr ((True, sz1), w1)
    \<and> um_Get I p thl c' k sz' w1 = Inr (((False, um_default I), sz2), w2)"
  using um_deployment.put_elsewhere [OF assms] .

theorem um_put_then_get_loses_key_witness:
  "\<exists>sz1 w1 sz2 w2. um_Put ex_um (ex_process 3) (direct_engine (um_handler ex_um)) (ex_client 3 0 True) 65536 7 0
        (ex_um_cluster [[], [], []]) = Inr ((True, sz1), w1)
    \<and> um_Get ex_um (ex_process 3) (direct_engine (um_handler ex_um)) (ex_client 3 0 True) 65536 0 w1 =
        Inr (((False, 0), sz2), w2)"
proof -
  have h: "um_inv ex_um al_invar (ex_process 3) (ex_clients 3) (ex_um_cluster [[], [], []])"
    by (rule ex_um_inv) (auto simp: al_invar_def less_Suc_eq numeral_3_eq_3)
  have len: "length (ex_um_cluster [[], [], []]) = 3" by simp
  have none: "um_view ex_um (ex_um_cluster [[], [], []]) 65536 = None"
    by (simp add: ex_um_view numeral_3_eq_3 [symmetric] del: list.map)
  have diff: "unat (ucast (um_hash ex_um 65536) :: u16) mod length (ex_um_cluster [[], [], []]) \<noteq>
      um_home ex_um (ex_um_cluster [[], [], []]) 65536"
    unfolding um_home_def len by (simp add: home_def unsigned_ucast_eq take_bit_eq_mod)
  show ?thesis
    using um_put_then_get_loses_key [OF lum.um_deployment_axioms h _ _ none diff, of "ex_client 3 0 True"
        "ex_client 3 0 True" 7 0 0] by (simp del: list.map)
qed

text \<open>
  \<^verbatim>\<open>GetAllData\<close> of an \<^verbatim>\<open>hcl::unordered_map\<close> returns every entry exactly once.
\<close>

theorem um_GetAllData_complete:
  assumes "um_deployment I ok thl" "um_inv I ok p C w" "c \<in> C"
  shows "\<exists>l. um_GetAllData I p thl c sz w = Inr (l, w) \<and> distinct (map fst l) \<and> map_of l = um_view I w"
  using um_deployment.get_all_correct [OF assms] .

theorem um_GetAllData_complete_witness:
  "\<exists>l. um_GetAllData ex_um (ex_process 2) (direct_engine (um_handler ex_um)) (ex_client 2 0 False) 0
      (ex_um_cluster [[(2, 20)], [(3, 30)]]) = Inr (l, ex_um_cluster [[(2, 20)], [(3, 30)]])
    \<and> distinct (map fst l) \<and> map_of l 2 = Some 20 \<and> map_of l 3 = Some 30"
proof -
  have h: "um_inv ex_um al_invar (ex_process 2) (ex_clients 2) (ex_um_cluster [[(2, 20)], [(3, 30)]])"
    by (rule ex_um_inv) (auto simp: al_invar_def less_2_cases_iff home_def)
  have "um_view ex_um (ex_um_cluster [[(2, 20)], [(3, 30)]]) 2 = Some 20"
    "um_view ex_um (ex_um_cluster [[(2, 20)], [(3, 30)]]) 3 = Some 30"
    by (simp_all add: ex_um_view numeral_2_eq_2 [symmetric] del: list.map)
  then show ?thesis
    using um_GetAllData_complete [OF lum.um_deployment_axioms h, of "ex_client 2 0 False" 0]
    by (auto simp del: list.map)
qed

text \<open>
  C40. \<^verbatim>\<open>size_occupied\<close> drifts. \<^verbatim>\<open>LocalPut\<close> of a new key adds the size of what \<^verbatim>\<open>GetData\<close> has left in its argument, which
  without an allocator has been moved from, and \<^verbatim>\<open>LocalErase\<close> subtracts the size of the value stored: the pair restores
  the map, but leaves the counter off by the difference of the two, modulo \<open>2 ^ 64\<close>.
\<close>

theorem um_size_occupied_drifts:
  assumes "assoc_container (um_ops I) ok" "ok (obj s)" "\<not> mtx s" "ao_find (um_ops I) (obj s) k = None"
  shows "\<exists>sz' s' s''. um_LocalPut I c k v sz s = Inr ((True, sz'), s')
    \<and> um_LocalErase I c k sz' s' = Inr (((True, um_default I),
        sz + um_val_size I (GetData_leaves (um_assign I) (um_moved I) v) - um_val_size I (GetData (um_assign I) v)), s'')
    \<and> ao_find (um_ops I) (obj s'') = ao_find (um_ops I) (obj s)"
proof -
  let ?v = "GetData (um_assign I) v"
  let ?m = "snd (ao_insert_or_assign (um_ops I) k ?v (obj s))"
  let ?sz = "sz + (um_key_size I k + um_val_size I (GetData_leaves (um_assign I) (um_moved I) v))"
  note laws = assoc_container.insert_new [OF assms(1,2)] assoc_container.find_insert [OF assms(1,2)] assoc_container.invar_insert [OF assms(1,2)]
  have "fst (ao_insert_or_assign (um_ops I) k ?v (obj s))" using laws(1) assms(4) by simp
  then have put: "um_LocalPut I c k v sz s = Inr ((True, ?sz), s\<lparr>obj := ?m\<rparr>)"
    using assms(3) by (simp add: um_LocalPut_def um_access_free um_put_body_def Let_def case_prod_beta)
  have m: "ok ?m" "ao_find (um_ops I) ?m = (ao_find (um_ops I) (obj s))(k \<mapsto> ?v)" using laws(2,3) by auto
  let ?n = "snd (ao_erase (um_ops I) k ?m)"
  have er: "um_LocalErase I c k ?sz (s\<lparr>obj := ?m\<rparr>) =
      Inr (((True, um_default I), ?sz - (um_key_size I k + um_val_size I ?v)), s\<lparr>obj := ?n\<rparr>)"
    using assms(3) m(2) by (simp add: um_LocalErase_def um_access_free um_erase_body_def)
  have "ao_find (um_ops I) ?n = (ao_find (um_ops I) ?m)(k := None)" using assoc_container.find_erase [OF assms(1) m(1)] by blast
  then have "ao_find (um_ops I) ?n = ao_find (um_ops I) (obj s)" using m(2) assms(4) by (auto simp: fun_eq_iff)
  then show ?thesis using put er by (intro exI [of _ ?sz] exI [of _ "s\<lparr>obj := ?m\<rparr>"] exI [of _ "s\<lparr>obj := ?n\<rparr>"]) simp
qed

text \<open>With strings, whose size is their length plus one and which a move leaves empty, the counter wraps below 0.\<close>

theorem um_size_occupied_drifts_witness:
  "\<exists>sz' s' s''. um_LocalPut (list_um (\<lambda>k. k) None []\<lparr>um_moved := \<lambda>_. [], um_val_size := \<lambda>v. of_nat (length v) + 1\<rparr>)
      (ex_client 1 0 True) 5 ''hello'' 0 \<lparr>mtx = False, obj = []\<rparr> = Inr ((True, sz'), s')
    \<and> um_LocalErase (list_um (\<lambda>k. k) None []\<lparr>um_moved := \<lambda>_. [], um_val_size := \<lambda>v. of_nat (length v) + 1\<rparr>)
      (ex_client 1 0 True) 5 sz' s' = Inr (((True, []), - 5), s'')"
  using um_size_occupied_drifts [of "list_um (\<lambda>k. k) None []\<lparr>um_moved := \<lambda>_. [], um_val_size := \<lambda>v. of_nat (length v) + 1\<rparr>" al_invar
      "\<lparr>mtx = False, obj = []\<rparr>" 5 "ex_client 1 0 True" "''hello''" 0] alist.assoc_container_axioms
  by (auto simp: al_invar_def alist_ops_def GetData_def GetData_leaves_def)

text \<open>
  With key and value types of fixed sizes \<open>a\<close> and \<open>b\<close>, \<^verbatim>\<open>LocalPut\<close> and \<^verbatim>\<open>LocalErase\<close> keep
  \<^verbatim>\<open>size_occupied\<close> equal to the number of entries times \<open>a + b\<close>.
\<close>

theorem um_size_occupied_counts:
  assumes "assoc_container (um_ops I) ok" "ok (obj s)" "\<not> mtx s" "um_counted I (a + b) sz (obj s)"
    and "um_key_size I = (\<lambda>_. a)" "um_val_size I = (\<lambda>_. b)"
  shows "(\<exists>r sz' s'. um_LocalPut I c k v sz s = Inr ((r, sz'), s') \<and> um_counted I (a + b) sz' (obj s'))
    \<and> (\<exists>r sz' s'. um_LocalErase I c k sz s = Inr ((r, sz'), s') \<and> um_counted I (a + b) sz' (obj s'))"
proof -
  have "um_LocalPut I c k v sz s = Inr ((fst (fst (um_put_body I k v sz (obj s))),
      snd (fst (um_put_body I k v sz (obj s)))), s\<lparr>obj := snd (um_put_body I k v sz (obj s))\<rparr>)"
    "um_LocalErase I c k sz s = Inr ((fst (fst (um_erase_body I k sz (obj s))),
      snd (fst (um_erase_body I k sz (obj s)))), s\<lparr>obj := snd (um_erase_body I k sz (obj s))\<rparr>)"
    using assms(3) by (simp_all add: um_LocalPut_def um_LocalErase_def um_access_free)
  moreover have "um_counted I (a + b) (snd (fst (um_put_body I k v sz (obj s))))
      (obj (s\<lparr>obj := snd (um_put_body I k v sz (obj s))\<rparr>))"
    "um_counted I (a + b) (snd (fst (um_erase_body I k sz (obj s))))
      (obj (s\<lparr>obj := snd (um_erase_body I k sz (obj s))\<rparr>))"
    using assoc_container.counted_put [OF assms(1) refl assms(2,4-6), of k v]
      assoc_container.counted_erase [OF assms(1) refl assms(2,4-6), of k] by simp_all
  ultimately show ?thesis by blast
qed

theorem um_size_occupied_counts_witness:
  "\<exists>r sz' s'. um_LocalPut ex_um (ex_client 1 0 True) 5 50 12 \<lparr>mtx = False, obj = [(1, 10)]\<rparr> = Inr ((r, sz'), s')
     \<and> um_counted ex_um 12 sz' (obj s')"
  using um_size_occupied_counts [of ex_um al_invar "\<lparr>mtx = False, obj = [(1, 10)]\<rparr>" 8 4 12
      "ex_client 1 0 True" 5 50] alist.assoc_container_axioms
  by (auto simp: al_invar_def um_counted_def alist_ops_def)

end
