(* ===== verification/Hcl_Multimap.thy ===== *)
theory Hcl_Multimap
  imports Hcl_Launch
begin

text \<open>
  \<^verbatim>\<open>hcl::multimap\<close> (\<^verbatim>\<open>include/hcl/multimap/multimap.h\<close>, \<^verbatim>\<open>multimap.cpp\<close>): a
  \<^verbatim>\<open>boost::interprocess::multimap\<close> sharded by the hash of the key. The method \<^verbatim>\<open>Contains\<close> of the
  key type, on which the range query rests, is a parameter of the class.
\<close>

section \<open>The class\<close>

record ('k, 'v, 'm) mm_inst =
  mm_ops :: "('k, 'v, 'm) multi_ops"
  mm_hash :: "'k \<Rightarrow> u64"
  mm_assign :: "('v \<Rightarrow> 'v) option"
  mm_default :: 'v
  mm_key_contains :: "'k \<Rightarrow> 'k \<Rightarrow> bool"

datatype mm_op = MmPut | MmGet | MmErase | MmGetAllData | MmContains

definition mm_bind_table :: "(string \<times> mm_op) list" where
  "mm_bind_table = [(''_Put'', MmPut), (''_Get'', MmGet), (''_Erase'', MmErase),
     (''_GetAllData'', MmGetAllData), (''_Contains'', MmContains)]"

definition mm_construct_shared_memory where
  "mm_construct_shared_memory bip I = construct_object bip (\<lambda>c. visible (cont_name c)) (mo_empty (mm_ops I))"

definition mm_open_shared_memory where
  "mm_open_shared_memory bip = open_object bip (\<lambda>c. visible (cont_name c))"

definition mm_ctor where
  "mm_ctor bip p I nm prt n idx mem srv on_node dir fs =
     ctor_with p (mm_construct_shared_memory bip I) (mm_open_shared_memory bip) mm_bind_table
       (container_ctor bip p nm prt n idx mem srv on_node dir fs)"

definition mm_dtor where
  "mm_dtor bip c = derived_dtor bip c"

definition mm_data where
  "mm_data c ptr = shared_data c ptr"

lemma mm_ctor_derived: "mm_ctor bip p I = derived_ctor bip p (\<lambda>c. visible (cont_name c)) (mo_empty (mm_ops I)) mm_bind_table"
  by (simp add: fun_eq_iff mm_ctor_def derived_ctor_def mm_construct_shared_memory_def mm_open_shared_memory_def)

section \<open>Operations on one server\<close>

definition mm_put_body :: "('k, 'v, 'm) mm_inst \<Rightarrow> 'k \<Rightarrow> 'v \<Rightarrow> 'm \<Rightarrow> bool \<times> 'm" where
  "mm_put_body I key dat m =
     (let m = (case mo_find (mm_ops I) m key of Some i \<Rightarrow> mo_erase_at (mm_ops I) i m | None \<Rightarrow> m);
          value = GetData (mm_assign I) dat
      in (True, mo_insert (mm_ops I) (key, value) m))"

definition mm_LocalPut where
  "mm_LocalPut I key dat = scoped_lock (mm_put_body I key dat)"

definition mm_get_body :: "('k, 'v, 'm) mm_inst \<Rightarrow> 'k \<Rightarrow> 'm \<Rightarrow> (bool \<times> 'v) \<times> 'm" where
  "mm_get_body I key m =
     (case mo_find (mm_ops I) m key of
        Some i \<Rightarrow> (True, snd (mo_items (mm_ops I) m ! i)) | None \<Rightarrow> (False, mm_default I), m)"

definition mm_LocalGet where
  "mm_LocalGet I key = scoped_lock (mm_get_body I key)"

definition mm_erase_body :: "('k, 'v, 'm) mm_inst \<Rightarrow> 'k \<Rightarrow> 'm \<Rightarrow> (bool \<times> 'v) \<times> 'm" where
  "mm_erase_body I key m = (case mo_erase (mm_ops I) key m of (s, m) \<Rightarrow> ((s > 0, mm_default I), m))"

definition mm_LocalErase where
  "mm_LocalErase I key = scoped_lock (mm_erase_body I key)"

primrec mm_contains_scan :: "('k \<Rightarrow> 'k \<Rightarrow> bool) \<Rightarrow> 'k \<Rightarrow> ('k \<times> 'v) list \<Rightarrow> ('k \<times> 'v) list" where
  "mm_contains_scan con key [] = []"
| "mm_contains_scan con key (e # es) =
     (if \<not> (con key (fst e) \<or> con (fst e) key) then [] else e # mm_contains_scan con key es)"

definition mm_LocalContainsInServer ::
  "('k, 'v, 'm) mm_inst \<Rightarrow> 'k \<Rightarrow> 'm shm \<Rightarrow> (('k \<times> 'v) list \<times> 'm shm) result" where
  "mm_LocalContainsInServer I key = scoped_lock (\<lambda>m.
     (let items = mo_items (mm_ops I) m; sz = length items
      in if sz = 0 then []
         else if sz = 1 then [items ! 0]
         else let lb = mo_lower_bound (mm_ops I) m key
              in if lb = sz then []
                 else let lb = (if lb \<noteq> 0
                                then if \<not> mm_key_contains I key (fst (items ! (lb - 1)))
                                     then lb - 1 + 1 else lb - 1
                                else lb)
                      in mm_contains_scan (mm_key_contains I) key (drop lb items), m))"

definition mm_LocalGetAllDataInServer ::
  "('k, 'v, 'm) mm_inst \<Rightarrow> 'm shm \<Rightarrow> (('k \<times> 'v) list \<times> 'm shm) result" where
  "mm_LocalGetAllDataInServer I = scoped_lock (\<lambda>m. (mo_items (mm_ops I) m, m))"

fun mm_handler ::
  "('k, 'v, 'm) mm_inst \<Rightarrow> mm_op \<Rightarrow> ('k, 'v) request \<Rightarrow> container \<Rightarrow> 'm shm
     \<Rightarrow> (('k, 'v) response \<times> 'm shm) result" where
  "mm_handler I MmPut (QKeyVal k v) c s = THALLIUM_DEFINE RBool (mm_LocalPut I k v s)"
| "mm_handler I MmGet (QKey k) c s = THALLIUM_DEFINE RVal (mm_LocalGet I k s)"
| "mm_handler I MmErase (QKey k) c s = THALLIUM_DEFINE RVal (mm_LocalErase I k s)"
| "mm_handler I MmGetAllData QNone c s = THALLIUM_DEFINE RPairs (mm_LocalGetAllDataInServer I s)"
| "mm_handler I MmContains (QKey k) c s = THALLIUM_DEFINE RPairs (mm_LocalContainsInServer I k s)"
| "mm_handler I op q c s = Inl Bad_Message"

type_synonym ('k, 'v, 'm) mm_thallium = "('m, mm_op, ('k, 'v) request, ('k, 'v) response) thallium"

section \<open>Operations on the cluster\<close>

definition mm_Put ::
  "('k, 'v, 'm) mm_inst \<Rightarrow> hcl_process \<Rightarrow> ('k, 'v, 'm) mm_thallium \<Rightarrow> container \<Rightarrow> 'k \<Rightarrow> 'v
     \<Rightarrow> ('m, mm_op) cluster \<Rightarrow> (bool \<times> ('m, mm_op) cluster) result" where
  "mm_Put I p thl c key dat w =
     rbind (key_to_server c (mm_hash I key)) (\<lambda>key_int.
       if is_local c key_int then local_access c (mm_LocalPut I key dat) w
       else RPC_CALL_WRAPPER p thl c ''_Put'' key_int as_bool (QKeyVal key dat) w)"

definition mm_Get ::
  "('k, 'v, 'm) mm_inst \<Rightarrow> hcl_process \<Rightarrow> ('k, 'v, 'm) mm_thallium \<Rightarrow> container \<Rightarrow> 'k
     \<Rightarrow> ('m, mm_op) cluster \<Rightarrow> ((bool \<times> 'v) \<times> ('m, mm_op) cluster) result" where
  "mm_Get I p thl c key w =
     rbind (key_to_server c (mm_hash I key)) (\<lambda>key_int.
       if is_local c key_int then local_access c (mm_LocalGet I key) w
       else RPC_CALL_WRAPPER p thl c ''_Get'' key_int as_val (QKey key) w)"

definition mm_Erase ::
  "('k, 'v, 'm) mm_inst \<Rightarrow> hcl_process \<Rightarrow> ('k, 'v, 'm) mm_thallium \<Rightarrow> container \<Rightarrow> 'k
     \<Rightarrow> ('m, mm_op) cluster \<Rightarrow> ((bool \<times> 'v) \<times> ('m, mm_op) cluster) result" where
  "mm_Erase I p thl c key w =
     rbind (key_to_server c (mm_hash I key)) (\<lambda>key_int.
       if is_local c key_int then local_access c (mm_LocalErase I key) w
       else RPC_CALL_WRAPPER p thl c ''_Erase'' key_int as_val (QKey key) w)"

definition mm_ContainsInServer ::
  "('k, 'v, 'm) mm_inst \<Rightarrow> hcl_process \<Rightarrow> ('k, 'v, 'm) mm_thallium \<Rightarrow> container \<Rightarrow> 'k
     \<Rightarrow> ('m, mm_op) cluster \<Rightarrow> (('k \<times> 'v) list \<times> ('m, mm_op) cluster) result" where
  "mm_ContainsInServer I p thl c key w =
     (if is_local_node c then local_access c (mm_LocalContainsInServer I key) w
      else RPC_CALL_WRAPPER p thl c ''_Contains'' (my_server_idx c) as_pairs (QKey key) w)"

definition mm_Contains ::
  "('k, 'v, 'm) mm_inst \<Rightarrow> hcl_process \<Rightarrow> ('k, 'v, 'm) mm_thallium \<Rightarrow> container \<Rightarrow> 'k
     \<Rightarrow> ('m, mm_op) cluster \<Rightarrow> (('k \<times> 'v) list \<times> ('m, mm_op) cluster) result" where
  "mm_Contains I p thl c key w =
     rbind (mm_ContainsInServer I p thl c key w) (\<lambda>(current_server, w).
       collect (\<lambda>i. RPC_CALL_WRAPPER p thl c ''_Contains'' (of_nat i) as_pairs (QKey key))
         (other_servers c) current_server w)"

definition mm_GetAllDataInServer ::
  "('k, 'v, 'm) mm_inst \<Rightarrow> hcl_process \<Rightarrow> ('k, 'v, 'm) mm_thallium \<Rightarrow> container
     \<Rightarrow> ('m, mm_op) cluster \<Rightarrow> (('k \<times> 'v) list \<times> ('m, mm_op) cluster) result" where
  "mm_GetAllDataInServer I p thl c w =
     (if is_local_node c then local_access c (mm_LocalGetAllDataInServer I) w
      else RPC_CALL_WRAPPER p thl c ''_GetAllData'' (my_server_idx c) as_pairs QNone w)"

definition mm_GetAllData ::
  "('k, 'v, 'm) mm_inst \<Rightarrow> hcl_process \<Rightarrow> ('k, 'v, 'm) mm_thallium \<Rightarrow> container
     \<Rightarrow> ('m, mm_op) cluster \<Rightarrow> (('k \<times> 'v) list \<times> ('m, mm_op) cluster) result" where
  "mm_GetAllData I p thl c w =
     rbind (mm_GetAllDataInServer I p thl c w) (\<lambda>(current_server, w).
       collect (\<lambda>i. RPC_CALL_WRAPPER p thl c ''_GetAllData'' (of_nat i) as_pairs QNone)
         (other_servers c) current_server w)"

section \<open>The contract\<close>

text \<open>
  \<^verbatim>\<open>LocalPut\<close> first erases an element with the key, so that a server never has two elements with
  one key: the invariant of the shared object.
\<close>

definition mm_look :: "('k, 'v, 'm) mm_inst \<Rightarrow> 'm \<Rightarrow> 'k \<Rightarrow> 'v option" where
  "mm_look I m = map_of (mo_items (mm_ops I) m)"

definition mm_ok :: "('k, 'v, 'm) mm_inst \<Rightarrow> ('m \<Rightarrow> bool) \<Rightarrow> 'm \<Rightarrow> bool" where
  "mm_ok I ok m \<longleftrightarrow> ok m \<and> distinct (map fst (mo_items (mm_ops I) m))"

definition mm_view :: "('k, 'v, 'm) mm_inst \<Rightarrow> ('m, mm_op) cluster \<Rightarrow> 'k \<Rightarrow> 'v option" where
  "mm_view I = store_view (mm_look I) (mm_hash I)"

definition mm_inv ::
  "('k, 'v, 'm) mm_inst \<Rightarrow> ('m \<Rightarrow> bool) \<Rightarrow> hcl_process \<Rightarrow> container set \<Rightarrow> ('m, mm_op) cluster \<Rightarrow> bool" where
  "mm_inv I ok p = store_inv mm_bind_table p (mm_look I) (mm_ok I ok) (mm_hash I)"

lemma mm_table_simps [simp]:
  "map_of mm_bind_table ''_Put'' = Some MmPut" "map_of mm_bind_table ''_Get'' = Some MmGet"
  "map_of mm_bind_table ''_Erase'' = Some MmErase"
  "map_of mm_bind_table ''_GetAllData'' = Some MmGetAllData"
  "map_of mm_bind_table ''_Contains'' = Some MmContains"
  by (simp_all add: mm_bind_table_def)

lemma set_remove_at_key:
  assumes "distinct (map fst es)" "i < length es" "fst (es ! i) = k"
  shows "set (remove_at i es) = {e \<in> set es. fst e \<noteq> k}"
  using assms
proof (induction es arbitrary: i)
  case (Cons e es)
  show ?case
  proof (cases i)
    case 0
    then have "k = fst e" using Cons.prems by simp
    moreover have "fst e \<notin> fst ` set es" using Cons.prems(1) by simp
    ultimately have "\<forall>x \<in> set es. fst x \<noteq> k" by (metis image_eqI)
    with 0 \<open>k = fst e\<close> show ?thesis by auto
  next
    case (Suc j)
    then have "k \<in> fst ` set es" using Cons.prems by auto
    then have "fst e \<noteq> k" using Cons.prems(1) by auto
    with Suc Cons show ?thesis by auto
  qed
qed simp

lemma map_of_mset_insert:
  assumes "mset es' = add_mset (k, v) (mset es)" "distinct (map fst es)" "k \<notin> fst ` set es"
  shows "distinct (map fst es')" "map_of es' = (map_of es)(k \<mapsto> v)"
proof -
  have "mset (map fst es') = mset (map fst ((k, v) # es))"
    using arg_cong [OF assms(1), of "image_mset fst"] by simp
  then have "distinct (map fst es') \<longleftrightarrow> distinct (map fst ((k, v) # es))"
    by (rule mset_eq_imp_distinct_iff)
  then show d: "distinct (map fst es')" using assms(2,3) by simp
  have "set es' = set ((k, v) # es)"
    using arg_cong [OF assms(1), of set_mset] by simp
  then have "map_of es' = map_of ((k, v) # es)"
    using map_of_inject_set [OF d, of "(k, v) # es"] assms(2,3) by simp
  then show "map_of es' = (map_of es)(k \<mapsto> v)" by simp
qed

locale mm_deployment = transport thl "mm_handler I" + multi_container "mm_ops I" ok
  for I :: "('k::linorder, 'v, 'm) mm_inst" and ok :: "'m \<Rightarrow> bool" and thl :: "('k, 'v, 'm) mm_thallium"
begin

lemma op_at_home:
  assumes "connected p mm_bind_table c w"
  shows "mm_Put I p thl c k v w = at_server (home (length w) (mm_hash I k)) (mm_LocalPut I k v) w"
    and "mm_Get I p thl c k w = at_server (home (length w) (mm_hash I k)) (mm_LocalGet I k) w"
    and "mm_Erase I p thl c k w = at_server (home (length w) (mm_hash I k)) (mm_LocalErase I k) w"
  unfolding mm_Put_def mm_Get_def mm_Erase_def
  by - (rule keyed_call [OF assms], simp, simp, simp)+

lemma put_law_body:
  assumes "mm_ok I ok m"
  shows "fst (mm_put_body I k v m) \<and> mm_ok I ok (snd (mm_put_body I k v m))
    \<and> mm_look I (snd (mm_put_body I k v m)) = (mm_look I m)(k \<mapsto> GetData (mm_assign I) v)"
proof -
  let ?ops = "mm_ops I" and ?v = "GetData (mm_assign I) v"
  let ?m1 = "case mo_find ?ops m k of Some i \<Rightarrow> mo_erase_at ?ops i m | None \<Rightarrow> m"
  let ?es = "mo_items ?ops m" and ?es1 = "mo_items ?ops ?m1"
  have ok: "ok m" and d: "distinct (map fst ?es)" using assms by (auto simp: mm_ok_def)
  have m1: "ok ?m1" "distinct (map fst ?es1)" "set ?es1 = {e \<in> set ?es. fst e \<noteq> k}"
  proof -
    show "ok ?m1"
      using ok find_Some [OF ok] invar_erase_at [OF ok] by (auto split: option.splits)
    show "distinct (map fst ?es1)"
      using ok d find_Some [OF ok] items_erase_at [OF ok]
      by (auto split: option.splits intro: distinct_remove_at)
    show "set ?es1 = {e \<in> set ?es. fst e \<noteq> k}"
      using ok d find_Some [OF ok] items_erase_at [OF ok] find_None [OF ok, of k]
      by (cases "mo_find ?ops m k") (auto simp: set_remove_at_key)
  qed
  have ins: "mset (mo_items ?ops (mo_insert ?ops (k, ?v) ?m1)) = add_mset (k, ?v) (mset ?es1)"
    using items_insert m1(1) .
  have "k \<notin> fst ` set ?es1" using m1(3) by auto
  note new = map_of_mset_insert [OF ins m1(2) this]
  have "map_of ?es1 = (map_of ?es)(k := None)"
    using m1(2,3) d map_of_inject_set [OF m1(2), of "filter (\<lambda>e. fst e \<noteq> k) ?es"]
    by (simp add: distinct_map_filter map_of_filter_key)
  then have "map_of (mo_items ?ops (mo_insert ?ops (k, ?v) ?m1)) = (map_of ?es)(k \<mapsto> ?v)"
    using new(2) by simp
  then show ?thesis
    using new(1) invar_insert [OF m1(1)] by (simp add: mm_put_body_def mm_ok_def mm_look_def Let_def)
qed

lemma get_law_body:
  assumes "mm_ok I ok m"
  shows "mm_get_body I k m = (case mm_look I m k of None \<Rightarrow> (False, mm_default I) | Some v \<Rightarrow> (True, v), m)"
proof (cases "mo_find (mm_ops I) m k")
  case None
  then have "map_of (mo_items (mm_ops I) m) k = None"
    using assms find_None by (auto simp: mm_ok_def map_of_eq_None_iff)
  with None show ?thesis by (simp add: mm_get_body_def mm_look_def)
next
  case (Some i)
  then have "i < length (mo_items (mm_ops I) m)" "fst (mo_items (mm_ops I) m ! i) = k"
    using assms find_Some by (auto simp: mm_ok_def)
  then have "map_of (mo_items (mm_ops I) m) k = Some (snd (mo_items (mm_ops I) m ! i))"
    using assms by (metis map_of_is_SomeI mm_ok_def nth_mem prod.collapse)
  with Some show ?thesis by (simp add: mm_get_body_def mm_look_def)
qed

lemma erase_law_body:
  assumes "mm_ok I ok m"
  shows "fst (mm_erase_body I k m) = (mm_look I m k \<noteq> None, mm_default I)
    \<and> mm_ok I ok (snd (mm_erase_body I k m)) \<and> mm_look I (snd (mm_erase_body I k m)) = (mm_look I m)(k := None)"
proof -
  have ok: "ok m" "distinct (map fst (mo_items (mm_ops I) m))" using assms by (auto simp: mm_ok_def)
  have "filter (\<lambda>e. fst e = k) (mo_items (mm_ops I) m) \<noteq> [] \<longleftrightarrow> mm_look I m k \<noteq> None"
    by (force simp: mm_look_def filter_empty_conv map_of_eq_None_iff)
  then show ?thesis
    using erase_count [OF ok(1), of k] items_erase [OF ok(1), of k] invar_erase [OF ok(1), of k] ok(2)
    by (simp add: mm_erase_body_def mm_ok_def mm_look_def case_prod_beta map_of_filter_key distinct_map_filter)
qed

end

sublocale mm_deployment \<subseteq> keyed_store mm_bind_table p
  "\<lambda>c. mm_Put I p thl c" "\<lambda>c. mm_Get I p thl c" "\<lambda>c. mm_Erase I p thl c"
  "mm_hash I" "mm_look I" "mm_ok I ok" "GetData (mm_assign I)" "mm_default I"
  "mm_put_body I" "mm_get_body I" "mm_erase_body I" for p
  by unfold_locales
     (simp_all only: op_at_home mm_LocalPut_def mm_LocalGet_def mm_LocalErase_def put_law_body
        get_law_body erase_law_body)

section \<open>Gathering operations\<close>

text \<open>
  What \<^verbatim>\<open>LocalContainsInServer\<close> selects when \<^verbatim>\<open>Contains\<close> of the key type is equality: the entries
  with the key, except that a server with one entry returns it whatever its key.
\<close>

definition mm_matches :: "'k \<Rightarrow> ('k \<times> 'v) list \<Rightarrow> ('k \<times> 'v) list" where
  "mm_matches k items = (if length items = 1 then items else filter (\<lambda>e. fst e = k) items)"

lemma mm_scan_takeWhile:
  "mm_contains_scan con k es = takeWhile (\<lambda>e. con k (fst e) \<or> con (fst e) k) es"
  by (induction es) auto

lemma mm_scan_equal:
  assumes "sorted (map fst es)"
  shows "mm_contains_scan (=) k (drop (length (takeWhile (\<lambda>e. fst e < k) es)) es) =
    filter (\<lambda>e. fst e = (k :: 'k::linorder)) es"
proof -
  let ?r = "drop (length (takeWhile (\<lambda>e. fst e < k) es)) es"
  have "?r = filter (\<lambda>e. k \<le> fst e) es"
    using dropWhile_sorted_filter [OF assms, of k] by (simp add: dropWhile_eq_drop)
  then have "\<forall>e \<in> set ?r. k \<le> fst e" by auto
  then have "takeWhile (\<lambda>e. k = fst e \<or> fst e = k) ?r = takeWhile (\<lambda>e. fst e \<le> k) ?r"
    by (intro takeWhile_cong) auto
  also have "\<dots> = filter (\<lambda>e. k \<le> fst e \<and> fst e \<le> k) es" by (rule sorted_range [OF assms])
  also have "\<dots> = filter (\<lambda>e. fst e = k) es" by (intro filter_cong) auto
  finally show ?thesis by (simp add: mm_scan_takeWhile)
qed

context mm_deployment
begin

lemmas mm_runs = run_refines [folded mm_inv_def mm_view_def]

lemma contains_local:
  assumes "ok (obj s)" "\<not> mtx s" "mm_key_contains I = (=)"
  shows "mm_LocalContainsInServer I k s = Inr (mm_matches k (mo_items (mm_ops I) (obj s)), s)"
proof -
  let ?es = "mo_items (mm_ops I) (obj s)"
  let ?lb = "length (takeWhile (\<lambda>e. fst e < k) ?es)"
  have sorted: "sorted (map fst ?es)" using sorted_items assms(1) by simp
  have lb: "mo_lower_bound (mm_ops I) (obj s) k = ?lb" using lower_bound assms(1) by simp
  have prev: "?lb \<noteq> 0 \<Longrightarrow> k \<noteq> fst (?es ! (?lb - 1))"
    using nth_before_takeWhile [of "\<lambda>e. fst e < k" ?es] by auto
  have "?lb = length ?es \<Longrightarrow> filter (\<lambda>e. fst e = k) ?es = []"
    using mm_scan_equal [OF sorted, of k] by simp
  moreover have "length ?es = 1 \<Longrightarrow> [?es ! 0] = ?es" by (auto simp: length_Suc_conv)
  ultimately show ?thesis
    using assms(2,3) prev mm_scan_equal [OF sorted, of k]
    by (auto simp: mm_LocalContainsInServer_def scoped_lock_free lb Let_def mm_matches_def)
qed

lemma single_local:
  assumes "\<not> mtx s" "mo_items (mm_ops I) (obj s) = [e]"
  shows "mm_LocalContainsInServer I k s = Inr ([e], s)"
  using assms by (simp add: mm_LocalContainsInServer_def scoped_lock_free)

lemma gather_eq:
  assumes "mm_inv I ok p C w" "c \<in> C"
  shows "mm_GetAllData I p thl c w = Inr (mo_items (mm_ops I) (obj (seg (w ! unat (my_server_idx c))))
        @ concat (map (\<lambda>i. mo_items (mm_ops I) (obj (seg (w ! i)))) (other_servers c)), w)"
    and "mm_key_contains I = (=) \<Longrightarrow> mm_Contains I p thl c k w =
      Inr (mm_matches k (mo_items (mm_ops I) (obj (seg (w ! unat (my_server_idx c)))))
        @ concat (map (\<lambda>i. mm_matches k (mo_items (mm_ops I) (obj (seg (w ! i))))) (other_servers c)), w)"
proof -
  note con = store_invD(1) [OF assms [unfolded mm_inv_def]]
  note srv = store_inv_server [OF assms(1) [unfolded mm_inv_def]]
  have items: "at_server i (mm_LocalGetAllDataInServer I) w = Inr (mo_items (mm_ops I) (obj (seg (w ! i))), w)"
    if "i < length w" for i
    using srv [OF that] that by (simp add: at_server_def mm_LocalGetAllDataInServer_def scoped_lock_free)
  show "mm_GetAllData I p thl c w = Inr (mo_items (mm_ops I) (obj (seg (w ! unat (my_server_idx c))))
        @ concat (map (\<lambda>i. mo_items (mm_ops I) (obj (seg (w ! i)))) (other_servers c)), w)"
    unfolding mm_GetAllData_def mm_GetAllDataInServer_def
    by (rule gather_call [OF con]) (simp, simp, simp, rule items)
  show "mm_Contains I p thl c k w =
      Inr (mm_matches k (mo_items (mm_ops I) (obj (seg (w ! unat (my_server_idx c)))))
        @ concat (map (\<lambda>i. mm_matches k (mo_items (mm_ops I) (obj (seg (w ! i))))) (other_servers c)), w)"
    if eq: "mm_key_contains I = (=)"
  proof -
    have found: "at_server i (mm_LocalContainsInServer I k) w =
        Inr (mm_matches k (mo_items (mm_ops I) (obj (seg (w ! i)))), w)" if "i < length w" for i
      using srv [OF that] that contains_local [OF _ _ eq] by (simp add: at_server_def mm_ok_def)
    show ?thesis
      unfolding mm_Contains_def mm_ContainsInServer_def
      by (rule gather_call [OF con]) (simp, simp, simp, rule found)
  qed
qed

lemma get_all_correct:
  assumes "mm_inv I ok p C w" "c \<in> C"
  shows "\<exists>l. mm_GetAllData I p thl c w = Inr (l, w) \<and> distinct (map fst l) \<and> map_of l = mm_view I w"
proof -
  note inv = assms(1) [unfolded mm_inv_def]
  have g: "distinct (map fst (mo_items (mm_ops I) (obj (seg (w ! i)))))
      \<and> map_of (mo_items (mm_ops I) (obj (seg (w ! i)))) = mm_look I (obj (seg (w ! i))) |` UNIV"
    if "i < length w" for i
    using store_inv_server(1) [OF inv that] by (simp add: restrict_map_def mm_ok_def mm_look_def)
  show ?thesis
    using gather_eq(1) [OF assms] store_gather [OF inv assms(2) g]
    by (simp add: mm_view_def restrict_map_def)
qed

lemma contains_correct:
  assumes "mm_inv I ok p C w" "c \<in> C" and eq: "mm_key_contains I = (=)"
    and many: "\<And>i. i < length w \<Longrightarrow> length (mo_items (mm_ops I) (obj (seg (w ! i)))) \<noteq> 1"
  shows "\<exists>l. mm_Contains I p thl c k w = Inr (l, w) \<and> distinct (map fst l) \<and> map_of l = mm_view I w |` {k}"
proof -
  note inv = assms(1) [unfolded mm_inv_def]
  have g: "distinct (map fst (mm_matches k (mo_items (mm_ops I) (obj (seg (w ! i))))))
      \<and> map_of (mm_matches k (mo_items (mm_ops I) (obj (seg (w ! i))))) = mm_look I (obj (seg (w ! i))) |` {k}"
    if "i < length w" for i
    using store_inv_server(1) [OF inv that] many [OF that] map_of_filter_fst [of "{k}"]
    by (simp add: mm_matches_def mm_ok_def mm_look_def distinct_map_filter)
  show ?thesis
    using gather_eq(2) [OF assms(1,2) eq] store_gather [OF inv assms(2) g] by (simp add: mm_view_def)
qed

end

section \<open>An instance\<close>

definition list_mm :: "('k::linorder \<Rightarrow> u64) \<Rightarrow> ('v \<Rightarrow> 'v) option \<Rightarrow> 'v \<Rightarrow> ('k, 'v, ('k \<times> 'v) list) mm_inst" where
  "list_mm hash assign dflt =
     \<lparr>mm_ops = mlist_ops, mm_hash = hash, mm_assign = assign, mm_default = dflt, mm_key_contains = (=)\<rparr>"

lemma list_mm_sel [simp]:
  "mm_ops (list_mm hash assign dflt) = mlist_ops" "mm_hash (list_mm hash assign dflt) = hash"
  "mm_assign (list_mm hash assign dflt) = assign" "mm_default (list_mm hash assign dflt) = dflt"
  "mm_key_contains (list_mm hash assign dflt) = (=)"
  by (simp_all add: list_mm_def)

interpretation lmm: mm_deployment "list_mm hash assign dflt" "\<lambda>m. sorted (map fst m)"
    "direct_engine (mm_handler (list_mm hash assign dflt))"
  for hash :: "'k::linorder \<Rightarrow> u64" and assign and dflt :: 'v
  unfolding mm_deployment_def list_mm_sel
  by (rule conjI, rule direct.transport_axioms, rule mlist.multi_container_axioms)

abbreviation ex_mm :: "(u64, nat, (u64 \<times> nat) list) mm_inst" where
  "ex_mm \<equiv> list_mm (\<lambda>k. k) None 0"

lemma mm_table_ok: "table_ok mm_bind_table"
  by (simp add: table_ok_def mm_bind_table_def NUL_def)

lemma ex_mm_inv:
  assumes "n < 2 ^ 16" "length objs = n" "\<forall>d \<in> set objs. sorted (map fst d) \<and> distinct (map fst d)"
    and "\<forall>i < n. \<forall>e \<in> set (objs ! i). home n (fst e) = i"
  shows "mm_inv ex_mm (\<lambda>m. sorted (map fst m)) (ex_process n) (ex_clients n) (ex_cluster mm_bind_table objs)"
proof -
  let ?w = "ex_cluster mm_bind_table objs"
  have "\<forall>c \<in> ex_clients n. connected (ex_process n) mm_bind_table c ?w"
    by (intro ballI ex_connected [OF mm_table_ok]) (use assms(1,2) in simp_all)
  moreover have "\<forall>s \<in> set ?w. mm_ok ex_mm (\<lambda>m. sorted (map fst m)) (obj (seg s))"
    using assms(3) by (auto simp: ex_cluster_def mm_ok_def mlist_ops_def)
  moreover have "home n k = i" if "i < n" "map_of (objs ! i) k \<noteq> None" for i k
    using that assms(4) by (fastforce dest: map_of_SomeD)
  ultimately show ?thesis
    using assms(2)
    by (auto simp: mm_inv_def store_inv_def sharded_def ex_quiescent store_home_def mm_look_def mlist_ops_def)
qed

lemma ex_mm_view:
  "objs \<noteq> [] \<Longrightarrow> mm_view ex_mm (ex_cluster mm_bind_table objs) k = map_of (objs ! (unat k mod length objs)) k"
  by (simp add: mm_view_def store_view_def shard_view_def store_home_def home_def mm_look_def mlist_ops_def)

abbreviation ex_mm_objs :: "(u64 \<times> nat) list list" where
  "ex_mm_objs \<equiv> [[(2, 20), (4, 40)], [(1, 10), (5, 50)]]"

lemma ex_mm_objs_inv:
  "mm_inv ex_mm (\<lambda>m. sorted (map fst m)) (ex_process 2) (ex_clients 2) (ex_cluster mm_bind_table ex_mm_objs)"
  by (rule ex_mm_inv) (auto simp: less_2_cases_iff home_def)

lemma ex_mm_objs_view:
  "mm_view ex_mm (ex_cluster mm_bind_table ex_mm_objs) 5 = Some 50"
  "mm_view ex_mm (ex_cluster mm_bind_table ex_mm_objs) 2 = Some 20"
  by (simp_all add: ex_mm_view numeral_2_eq_2 [symmetric])

section \<open>Properties\<close>

text \<open>
  C7. \<^verbatim>\<open>hcl::multimap\<close> keeps one value per key: any sequence of \<^verbatim>\<open>Put\<close>, \<^verbatim>\<open>Get\<close> and \<^verbatim>\<open>Erase\<close> gives
  the results of a map in which \<^verbatim>\<open>Put\<close> replaces, whatever the clients.
\<close>

theorem mm_refines_one_map:
  assumes "mm_deployment I ok thl" "mm_inv I ok p C w" "cmd_client ` set xs \<subseteq> C"
  shows "\<exists>w'. run_kv (\<lambda>c. mm_Put I p thl c) (\<lambda>c. mm_Get I p thl c) (\<lambda>c. mm_Erase I p thl c) xs w =
      Inr (fst (spec_kv (GetData (mm_assign I)) (mm_default I) xs (mm_view I w)), w')
    \<and> mm_inv I ok p C w'
    \<and> mm_view I w' = snd (spec_kv (GetData (mm_assign I)) (mm_default I) xs (mm_view I w))"
  using mm_deployment.mm_runs [OF assms] .

theorem mm_refines_one_map_witness:
  "\<exists>w'. run_kv (\<lambda>c. mm_Put ex_mm (ex_process 2) (direct_engine (mm_handler ex_mm)) c)
      (\<lambda>c. mm_Get ex_mm (ex_process 2) (direct_engine (mm_handler ex_mm)) c)
      (\<lambda>c. mm_Erase ex_mm (ex_process 2) (direct_engine (mm_handler ex_mm)) c)
      [Put_Cmd (ex_client 2 1 True) 7 10, Put_Cmd (ex_client 2 0 False) 7 11, Get_Cmd (ex_client 2 1 True) 7,
       Erase_Cmd (ex_client 2 1 True) 7, Get_Cmd (ex_client 2 1 True) 7]
      (ex_cluster mm_bind_table ex_mm_objs) =
    Inr ([Out_Bool True, Out_Bool True, Out_Val (True, 11), Out_Val (True, 0), Out_Val (False, 0)], w')"
  using mm_refines_one_map [OF lmm.mm_deployment_axioms ex_mm_objs_inv, of "[Put_Cmd (ex_client 2 1 True) 7 10,
      Put_Cmd (ex_client 2 0 False) 7 11, Get_Cmd (ex_client 2 1 True) 7,
      Erase_Cmd (ex_client 2 1 True) 7, Get_Cmd (ex_client 2 1 True) 7]"]
  by (auto simp: GetData_def simp del: run_kv.simps)

text \<open>
  \<^verbatim>\<open>Contains(key)\<close> of an \<^verbatim>\<open>hcl::multimap\<close> whose keys compare by equality returns the entry with
  the key, if any, and nothing else, provided that no server holds exactly one entry.
\<close>

theorem mm_Contains_matches:
  assumes "mm_deployment I ok thl" "mm_inv I ok p C w" "c \<in> C" "mm_key_contains I = (=)"
    and "\<And>i. i < length w \<Longrightarrow> length (mo_items (mm_ops I) (obj (seg (w ! i)))) \<noteq> 1"
  shows "\<exists>l. mm_Contains I p thl c k w = Inr (l, w) \<and> distinct (map fst l) \<and> map_of l = mm_view I w |` {k}"
  using mm_deployment.contains_correct [OF assms] .

theorem mm_Contains_matches_witness:
  "\<exists>l. mm_Contains ex_mm (ex_process 2) (direct_engine (mm_handler ex_mm)) (ex_client 2 0 False) 5
         (ex_cluster mm_bind_table ex_mm_objs) = Inr (l, ex_cluster mm_bind_table ex_mm_objs)
     \<and> distinct (map fst l) \<and> map_of l 5 = Some 50 \<and> map_of l 2 = None"
proof -
  have many: "i < length (ex_cluster mm_bind_table ex_mm_objs) \<Longrightarrow>
      length (mo_items (mm_ops ex_mm) (obj (seg (ex_cluster mm_bind_table ex_mm_objs ! i)))) \<noteq> 1" for i
    by (auto simp: mlist_ops_def less_Suc_eq)
  show ?thesis
    using mm_Contains_matches [OF lmm.mm_deployment_axioms ex_mm_objs_inv _ _ many, of "ex_client 2 0 False" 5]
    by (auto simp: ex_mm_objs_view restrict_map_def)
qed

text \<open>
  A server of an \<^verbatim>\<open>hcl::multimap\<close> that holds one entry returns it for every key that is asked
  for, matching or not.
\<close>

theorem mm_Contains_single_entry:
  assumes "mm_deployment I ok thl" "\<not> mtx s" "mo_items (mm_ops I) (obj s) = [e]"
  shows "mm_LocalContainsInServer I k s = Inr ([e], s)"
  using mm_deployment.single_local [OF assms] .

theorem mm_Contains_single_entry_witness:
  "mm_LocalContainsInServer ex_mm 7 \<lparr>mtx = False, obj = [(9, 90)]\<rparr> =
     Inr ([(9, 90)], \<lparr>mtx = False, obj = [(9, 90)]\<rparr>)"
  using mm_Contains_single_entry [OF lmm.mm_deployment_axioms,
      of "\<lparr>mtx = False, obj = [(9 :: u64, 90 :: nat)]\<rparr>" "\<lambda>k. k" None 0 "(9, 90)" 7]
  by (simp add: mlist_ops_def)

text \<open>
  \<^verbatim>\<open>GetAllData\<close> of an \<^verbatim>\<open>hcl::multimap\<close> returns every entry exactly once, and no two entries
  with the same key.
\<close>

theorem mm_GetAllData_complete:
  assumes "mm_deployment I ok thl" "mm_inv I ok p C w" "c \<in> C"
  shows "\<exists>l. mm_GetAllData I p thl c w = Inr (l, w) \<and> distinct (map fst l) \<and> map_of l = mm_view I w"
  using mm_deployment.get_all_correct [OF assms] .

theorem mm_GetAllData_complete_witness:
  "\<exists>l. mm_GetAllData ex_mm (ex_process 2) (direct_engine (mm_handler ex_mm)) (ex_client 2 1 True)
         (ex_cluster mm_bind_table ex_mm_objs) = Inr (l, ex_cluster mm_bind_table ex_mm_objs)
     \<and> distinct (map fst l) \<and> map_of l 5 = Some 50 \<and> map_of l 2 = Some 20"
  using mm_GetAllData_complete [OF lmm.mm_deployment_axioms ex_mm_objs_inv, of "ex_client 2 1 True"]
  by (auto simp: ex_mm_objs_view)

end
