(* ===== verification/Hcl_Set.thy ===== *)
theory Hcl_Set
  imports Hcl_Launch
begin

text \<open>
  \<^verbatim>\<open>hcl::set\<close> (\<^verbatim>\<open>include/hcl/set/set.h\<close>, \<^verbatim>\<open>set.cpp\<close>): an ordered set sharded by the hash of the
  key, with range queries, and with operations on the smallest keys of one server that the
  caller names by its index.
\<close>

section \<open>The class\<close>

record ('k, 's) set_inst =
  se_ops :: "('k, 's) set_ops"
  se_hash :: "'k \<Rightarrow> u64"
  se_assign :: "('k \<Rightarrow> 'k) option"
  se_default :: 'k

datatype set_op = SePut | SeGet | SeErase | SeGetAllData | SeContains | SeSeekFirst | SePopFirst | SeSize

text \<open>The binding of \<^verbatim>\<open>_SeekFirstN\<close> is commented out in the source.\<close>

definition set_bind_table :: "(string \<times> set_op) list" where
  "set_bind_table = [(''_Put'', SePut), (''_Get'', SeGet), (''_Erase'', SeErase),
     (''_GetAllData'', SeGetAllData), (''_Contains'', SeContains), (''_SeekFirst'', SeSeekFirst),
     (''_PopFirst'', SePopFirst), (''_Size'', SeSize)]"

definition set_construct_shared_memory where
  "set_construct_shared_memory bip I = construct_object bip (\<lambda>c. visible (cont_name c)) (so_empty (se_ops I))"

definition set_open_shared_memory where
  "set_open_shared_memory bip = open_object bip (\<lambda>c. visible (cont_name c))"

definition set_ctor where
  "set_ctor bip p I nm prt n idx mem srv on_node dir fs =
     ctor_with p (set_construct_shared_memory bip I) (set_open_shared_memory bip) set_bind_table
       (container_ctor bip p nm prt n idx mem srv on_node dir fs)"

definition set_dtor where
  "set_dtor bip c = derived_dtor bip c"

definition set_data where
  "set_data c ptr = shared_data c ptr"

lemma set_ctor_derived: "set_ctor bip p I = derived_ctor bip p (\<lambda>c. visible (cont_name c)) (so_empty (se_ops I)) set_bind_table"
  by (simp add: fun_eq_iff set_ctor_def derived_ctor_def set_construct_shared_memory_def set_open_shared_memory_def)

section \<open>Operations on one server\<close>

definition set_put_body :: "('k, 's) set_inst \<Rightarrow> 'k \<Rightarrow> 's \<Rightarrow> bool \<times> 's" where
  "set_put_body I key s = (True, so_insert (se_ops I) (GetData (se_assign I) key) s)"

definition set_LocalPut where
  "set_LocalPut I key = scoped_lock (set_put_body I key)"

definition set_get_body :: "('k, 's) set_inst \<Rightarrow> 'k \<Rightarrow> 's \<Rightarrow> bool \<times> 's" where
  "set_get_body I key s = (so_find (se_ops I) s key, s)"

definition set_LocalGet where
  "set_LocalGet I key = scoped_lock (set_get_body I key)"

definition set_erase_body :: "('k, 's) set_inst \<Rightarrow> 'k \<Rightarrow> 's \<Rightarrow> bool \<times> 's" where
  "set_erase_body I key s = (case so_erase (se_ops I) key s of (n, s) \<Rightarrow> (n > 0, s))"

definition set_LocalErase where
  "set_LocalErase I key = scoped_lock (set_erase_body I key)"

primrec set_contains_scan :: "'k::linorder \<Rightarrow> 'k list \<Rightarrow> 'k list" where
  "set_contains_scan key_end [] = []"
| "set_contains_scan key_end (x # xs) = (if x > key_end then [] else x # set_contains_scan key_end xs)"

definition set_LocalContainsInServer ::
  "('k::linorder, 's) set_inst \<Rightarrow> 'k \<Rightarrow> 'k \<Rightarrow> 's shm \<Rightarrow> ('k list \<times> 's shm) result" where
  "set_LocalContainsInServer I key_start key_end = scoped_lock (\<lambda>s.
     (let items = so_items (se_ops I) s; sz = length items
      in if sz = 0 then []
         else if sz = 1 then (if items ! 0 \<ge> key_start then [items ! 0] else [])
         else let lb = so_lower_bound (se_ops I) s key_start
              in if lb = sz then []
                 else let lb = (if lb \<noteq> 0
                                then if key_start > items ! (lb - 1) then lb - 1 + 1 else lb - 1
                                else lb)
                      in set_contains_scan key_end (drop lb items), s))"

definition set_LocalGetAllDataInServer :: "('k, 's) set_inst \<Rightarrow> 's shm \<Rightarrow> ('k list \<times> 's shm) result" where
  "set_LocalGetAllDataInServer I = scoped_lock (\<lambda>s. (so_items (se_ops I) s, s))"

definition set_LocalSeekFirst :: "('k, 's) set_inst \<Rightarrow> 's shm \<Rightarrow> ((bool \<times> 'k) \<times> 's shm) result" where
  "set_LocalSeekFirst I = scoped_lock (\<lambda>s.
     (if length (so_items (se_ops I) s) > 0 then (True, so_items (se_ops I) s ! 0)
      else (False, se_default I), s))"

text \<open>The loop of \<^verbatim>\<open>LocalSeekFirstN\<close>: the counter is 32 bits wide.\<close>

fun seek_first_loop :: "u32 \<Rightarrow> u32 \<Rightarrow> 'k list \<Rightarrow> 'k list \<Rightarrow> u32 \<times> 'k list" where
  "seek_first_loop n i [] keys = (i, keys)"
| "seek_first_loop n i (x # xs) keys =
     (if i < n then seek_first_loop n (i + 1) xs (keys @ [x]) else (i, keys))"

definition set_LocalSeekFirstN ::
  "('k, 's) set_inst \<Rightarrow> u32 \<Rightarrow> 's shm \<Rightarrow> ((bool \<times> 'k list) \<times> 's shm) result" where
  "set_LocalSeekFirstN I n = scoped_lock (\<lambda>s.
     (case seek_first_loop n 0 (so_items (se_ops I) s) [] of (i, keys) \<Rightarrow> (i > 0, keys), s))"

definition set_LocalPopFirst :: "('k, 's) set_inst \<Rightarrow> 's shm \<Rightarrow> ((bool \<times> 'k) \<times> 's shm) result" where
  "set_LocalPopFirst I = scoped_lock (\<lambda>s.
     if length (so_items (se_ops I) s) > 0
     then ((True, so_items (se_ops I) s ! 0), so_erase_at (se_ops I) 0 s)
     else ((False, se_default I), s))"

definition set_LocalSize :: "('k, 's) set_inst \<Rightarrow> 's shm \<Rightarrow> (u64 \<times> 's shm) result" where
  "set_LocalSize I = plain_access (\<lambda>s. (of_nat (length (so_items (se_ops I) s)), s))"

fun set_handler ::
  "('k::linorder, 's) set_inst \<Rightarrow> set_op \<Rightarrow> ('k, unit) request \<Rightarrow> container \<Rightarrow> 's shm
     \<Rightarrow> (('k, unit) response \<times> 's shm) result" where
  "set_handler I SePut (QKey k) c s = THALLIUM_DEFINE RBool (set_LocalPut I k s)"
| "set_handler I SeGet (QKey k) c s = THALLIUM_DEFINE RBool (set_LocalGet I k s)"
| "set_handler I SeErase (QKey k) c s = THALLIUM_DEFINE RBool (set_LocalErase I k s)"
| "set_handler I SeGetAllData QNone c s = THALLIUM_DEFINE RKeys (set_LocalGetAllDataInServer I s)"
| "set_handler I SeContains (QRange a b) c s = THALLIUM_DEFINE RKeys (set_LocalContainsInServer I a b s)"
| "set_handler I SeSeekFirst QNone c s = THALLIUM_DEFINE RKey (set_LocalSeekFirst I s)"
| "set_handler I SePopFirst QNone c s = THALLIUM_DEFINE RKey (set_LocalPopFirst I s)"
| "set_handler I SeSize QNone c s = THALLIUM_DEFINE RSize (set_LocalSize I s)"
| "set_handler I op q c s = Inl Bad_Message"

type_synonym ('k, 's) set_thallium = "('s, set_op, ('k, unit) request, ('k, unit) response) thallium"

section \<open>Operations on the cluster\<close>

definition set_Put ::
  "('k, 's) set_inst \<Rightarrow> hcl_process \<Rightarrow> ('k, 's) set_thallium \<Rightarrow> container \<Rightarrow> 'k
     \<Rightarrow> ('s, set_op) cluster \<Rightarrow> (bool \<times> ('s, set_op) cluster) result" where
  "set_Put I p thl c key w =
     rbind (key_to_server c (se_hash I key)) (\<lambda>key_int.
       if is_local c key_int then local_access c (set_LocalPut I key) w
       else RPC_CALL_WRAPPER p thl c ''_Put'' key_int as_bool (QKey key) w)"

definition set_Get ::
  "('k, 's) set_inst \<Rightarrow> hcl_process \<Rightarrow> ('k, 's) set_thallium \<Rightarrow> container \<Rightarrow> 'k
     \<Rightarrow> ('s, set_op) cluster \<Rightarrow> (bool \<times> ('s, set_op) cluster) result" where
  "set_Get I p thl c key w =
     rbind (key_to_server c (se_hash I key)) (\<lambda>key_int.
       if is_local c key_int then local_access c (set_LocalGet I key) w
       else RPC_CALL_WRAPPER p thl c ''_Get'' key_int as_bool (QKey key) w)"

definition set_Erase ::
  "('k, 's) set_inst \<Rightarrow> hcl_process \<Rightarrow> ('k, 's) set_thallium \<Rightarrow> container \<Rightarrow> 'k
     \<Rightarrow> ('s, set_op) cluster \<Rightarrow> (bool \<times> ('s, set_op) cluster) result" where
  "set_Erase I p thl c key w =
     rbind (key_to_server c (se_hash I key)) (\<lambda>key_int.
       if is_local c key_int then local_access c (set_LocalErase I key) w
       else RPC_CALL_WRAPPER p thl c ''_Erase'' key_int as_bool (QKey key) w)"

definition set_ContainsInServer ::
  "('k::linorder, 's) set_inst \<Rightarrow> hcl_process \<Rightarrow> ('k, 's) set_thallium \<Rightarrow> container \<Rightarrow> 'k \<Rightarrow> 'k
     \<Rightarrow> ('s, set_op) cluster \<Rightarrow> ('k list \<times> ('s, set_op) cluster) result" where
  "set_ContainsInServer I p thl c key_start key_end w =
     (if is_local_node c then local_access c (set_LocalContainsInServer I key_start key_end) w
      else RPC_CALL_WRAPPER p thl c ''_Contains'' (my_server_idx c) as_keys (QRange key_start key_end) w)"

definition set_Contains ::
  "('k::linorder, 's) set_inst \<Rightarrow> hcl_process \<Rightarrow> ('k, 's) set_thallium \<Rightarrow> container \<Rightarrow> 'k \<Rightarrow> 'k
     \<Rightarrow> ('s, set_op) cluster \<Rightarrow> ('k list \<times> ('s, set_op) cluster) result" where
  "set_Contains I p thl c key_start key_end w =
     rbind (set_ContainsInServer I p thl c key_start key_end w) (\<lambda>(current_server, w).
       collect (\<lambda>i. RPC_CALL_WRAPPER p thl c ''_Contains'' (of_nat i) as_keys (QRange key_start key_end))
         (other_servers c) current_server w)"

definition set_GetAllDataInServer ::
  "('k, 's) set_inst \<Rightarrow> hcl_process \<Rightarrow> ('k, 's) set_thallium \<Rightarrow> container
     \<Rightarrow> ('s, set_op) cluster \<Rightarrow> ('k list \<times> ('s, set_op) cluster) result" where
  "set_GetAllDataInServer I p thl c w =
     (if is_local_node c then local_access c (set_LocalGetAllDataInServer I) w
      else RPC_CALL_WRAPPER p thl c ''_GetAllData'' (my_server_idx c) as_keys QNone w)"

definition set_GetAllData ::
  "('k, 's) set_inst \<Rightarrow> hcl_process \<Rightarrow> ('k, 's) set_thallium \<Rightarrow> container
     \<Rightarrow> ('s, set_op) cluster \<Rightarrow> ('k list \<times> ('s, set_op) cluster) result" where
  "set_GetAllData I p thl c w =
     rbind (set_GetAllDataInServer I p thl c w) (\<lambda>(current_server, w).
       collect (\<lambda>i. RPC_CALL_WRAPPER p thl c ''_GetAllData'' (of_nat i) as_keys QNone)
         (other_servers c) current_server w)"

definition set_SeekFirst ::
  "('k, 's) set_inst \<Rightarrow> hcl_process \<Rightarrow> ('k, 's) set_thallium \<Rightarrow> container \<Rightarrow> u16
     \<Rightarrow> ('s, set_op) cluster \<Rightarrow> ((bool \<times> 'k) \<times> ('s, set_op) cluster) result" where
  "set_SeekFirst I p thl c key_int w =
     (if is_local c key_int then local_access c (set_LocalSeekFirst I) w
      else RPC_CALL_WRAPPER p thl c ''_SeekFirst'' key_int as_key QNone w)"

text \<open>
  \<^verbatim>\<open>SeekFirstN\<close> has no definition here: its remote branch returns a \<^verbatim>\<open>std::pair<bool, KeyType>\<close> where the function
  returns a \<^verbatim>\<open>std::pair<bool, std::vector<KeyType>>\<close>, so the template does not compile for ordinary keys.
\<close>

definition set_PopFirst ::
  "('k, 's) set_inst \<Rightarrow> hcl_process \<Rightarrow> ('k, 's) set_thallium \<Rightarrow> container \<Rightarrow> u16
     \<Rightarrow> ('s, set_op) cluster \<Rightarrow> ((bool \<times> 'k) \<times> ('s, set_op) cluster) result" where
  "set_PopFirst I p thl c key_int w =
     (if is_local c key_int then local_access c (set_LocalPopFirst I) w
      else RPC_CALL_WRAPPER p thl c ''_PopFirst'' key_int as_key QNone w)"

definition set_Size ::
  "('k, 's) set_inst \<Rightarrow> hcl_process \<Rightarrow> ('k, 's) set_thallium \<Rightarrow> container \<Rightarrow> u16
     \<Rightarrow> ('s, set_op) cluster \<Rightarrow> (u64 \<times> ('s, set_op) cluster) result" where
  "set_Size I p thl c key_int w =
     (if is_local c key_int then local_access c (set_LocalSize I) w
      else RPC_CALL_WRAPPER p thl c ''_Size'' key_int as_size QNone w)"

section \<open>The contract\<close>

definition set_look :: "('k, 's) set_inst \<Rightarrow> 's \<Rightarrow> 'k \<Rightarrow> unit option" where
  "set_look I s k = (if k \<in> set (so_items (se_ops I) s) then Some () else None)"

definition set_view :: "('k, 's) set_inst \<Rightarrow> ('s, set_op) cluster \<Rightarrow> 'k set" where
  "set_view I w = dom (store_view (set_look I) (se_hash I) w)"

definition set_inv ::
  "('k, 's) set_inst \<Rightarrow> ('s \<Rightarrow> bool) \<Rightarrow> hcl_process \<Rightarrow> container set \<Rightarrow> ('s, set_op) cluster \<Rightarrow> bool" where
  "set_inv I ok p = store_inv set_bind_table p (set_look I) ok (se_hash I)"

lemma set_table_simps [simp]:
  "map_of set_bind_table ''_Put'' = Some SePut" "map_of set_bind_table ''_Get'' = Some SeGet"
  "map_of set_bind_table ''_Erase'' = Some SeErase"
  "map_of set_bind_table ''_GetAllData'' = Some SeGetAllData"
  "map_of set_bind_table ''_Contains'' = Some SeContains"
  "map_of set_bind_table ''_SeekFirst'' = Some SeSeekFirst"
  "map_of set_bind_table ''_PopFirst'' = Some SePopFirst" "map_of set_bind_table ''_Size'' = Some SeSize"
  "map_of set_bind_table ''_SeekFirstN'' = None"
  by (simp_all add: set_bind_table_def)

text \<open>
  The hypotheses of a deployment: the transport, the set type, and that the conversion of a key
  to its shared-memory form keeps its value.
\<close>

locale set_deployment = transport thl "set_handler I" + set_container "se_ops I" ok
  for I :: "('k::linorder, 's) set_inst" and ok :: "'s \<Rightarrow> bool" and thl :: "('k, 's) set_thallium" +
  assumes assign_same: "GetData (se_assign I) k = k"
begin

lemma op_at_home:
  assumes "connected p set_bind_table c w"
  shows "set_Put I p thl c k w = at_server (home (length w) (se_hash I k)) (set_LocalPut I k) w"
    and "set_Get I p thl c k w = at_server (home (length w) (se_hash I k)) (set_LocalGet I k) w"
    and "set_Erase I p thl c k w = at_server (home (length w) (se_hash I k)) (set_LocalErase I k) w"
  unfolding set_Put_def set_Get_def set_Erase_def
  by - (rule keyed_call [OF assms], simp, simp, simp)+

lemma op_at_index:
  assumes "connected p set_bind_table c w" "unat i < length w"
  shows "set_SeekFirst I p thl c i w = at_server (unat i) (set_LocalSeekFirst I) w"
    and "set_PopFirst I p thl c i w = at_server (unat i) (set_LocalPopFirst I) w"
    and "set_Size I p thl c i w = at_server (unat i) (set_LocalSize I) w"
  unfolding set_SeekFirst_def set_PopFirst_def set_Size_def
  by - (rule indexed_call [OF assms], simp, simp, simp)+

lemma body_laws:
  assumes "ok s"
  shows "fst (set_put_body I k s)" "ok (snd (set_put_body I k s))"
    "set_look I (snd (set_put_body I k s)) = (set_look I s)(k \<mapsto> ())"
    and "set_get_body I k s = (set_look I s k \<noteq> None, s)"
    and "fst (set_erase_body I k s) = (set_look I s k \<noteq> None)" "ok (snd (set_erase_body I k s))"
    "set_look I (snd (set_erase_body I k s)) = (set_look I s)(k := None)"
  using assms assign_same invar_insert items_insert find invar_erase items_erase erase_count
  by (auto simp: set_put_body_def set_get_body_def set_erase_body_def set_look_def case_prod_beta fun_eq_iff)

end

text \<open>A distributed set is one set: the keyed store with values of type \<open>unit\<close>.\<close>

definition set_put_u where "set_put_u I p thl c k (u :: unit) w = set_Put I p thl c k w"
definition set_get_u where
  "set_get_u I p thl c k w = rmap (\<lambda>(b, w). ((b, ()), w)) (set_Get I p thl c k w)"
definition set_erase_u where
  "set_erase_u I p thl c k w = rmap (\<lambda>(b, w). ((b, ()), w)) (set_Erase I p thl c k w)"

sublocale set_deployment \<subseteq> keyed_store set_bind_table p
  "set_put_u I p thl" "set_get_u I p thl" "set_erase_u I p thl"
  "se_hash I" "set_look I" ok "\<lambda>u. u" "()" "\<lambda>k u. set_put_body I k"
  "\<lambda>k s. ((fst (set_get_body I k s), ()), snd (set_get_body I k s))"
  "\<lambda>k s. ((fst (set_erase_body I k s), ()), snd (set_erase_body I k s))" for p
  by unfold_locales
     (simp_all add: set_put_u_def set_get_u_def set_erase_u_def op_at_home set_LocalPut_def
        set_LocalGet_def set_LocalErase_def at_server_map body_laws split: option.splits)

section \<open>Smallest keys\<close>

lemma seek_first_loop_take:
  "i \<le> n \<Longrightarrow> seek_first_loop n i xs keys =
     (i + of_nat (min (unat n - unat i) (length xs)), keys @ take (unat n - unat i) xs)"
proof (induction xs arbitrary: i keys)
  case (Cons x xs)
  show ?case
  proof (cases "i < n")
    case True
    then have "unat i < unat n" by (simp add: word_less_nat_alt)
    moreover have "unat n < 2 ^ 32" using unsigned_less [of n] by simp
    ultimately have s: "unat (i + 1) = Suc (unat i)"
      using unat_add_lem [of i 1] by simp
    then have "i + 1 \<le> n" using \<open>unat i < unat n\<close> by (simp add: word_le_nat_alt)
    moreover have "unat n - unat i = Suc (unat n - Suc (unat i))"
      using \<open>unat i < unat n\<close> by simp
    ultimately show ?thesis
      using True Cons.IH [of "i + 1" "keys @ [x]"] s by (simp add: algebra_simps)
  next
    case False
    then have "i = n" using Cons.prems by simp
    then show ?thesis by simp
  qed
qed simp

lemma seek_first_loop_first:
  "seek_first_loop n 0 xs [] = (of_nat (min (unat n) (length xs)), take (unat n) xs)"
  by (simp add: seek_first_loop_take)

lemma of_nat_min_pos: "0 < (of_nat (min (unat (n :: u32)) k) :: u32) \<longleftrightarrow> 0 < min (unat n) k"
proof -
  have "unat n < 2 ^ 32" using unsigned_less [of n] by simp
  then have "min (unat n) k < 2 ^ 32" by simp
  then have "unat (of_nat (min (unat n) k) :: u32) = min (unat n) k"
    by (simp add: unat_of_nat)
  then show ?thesis by (simp add: word_less_nat_alt)
qed

text \<open>
  What \<^verbatim>\<open>LocalContainsInServer\<close> selects: the closed range, except that the only key of a server is
  returned whatever \<^verbatim>\<open>key_end\<close>.
\<close>

definition set_range :: "'k::linorder \<Rightarrow> 'k \<Rightarrow> 'k list \<Rightarrow> 'k list" where
  "set_range a b xs =
     (if length xs = 1 then filter (\<lambda>x. a \<le> x) xs else filter (\<lambda>x. a \<le> x \<and> x \<le> b) xs)"

lemma set_scan_range:
  "sorted xs \<Longrightarrow> set_contains_scan b (drop (length (takeWhile (\<lambda>x. x < a) xs)) xs) =
     filter (\<lambda>x. a \<le> x \<and> x \<le> (b :: 'k::linorder)) xs"
proof -
  have "set_contains_scan b ys = takeWhile (\<lambda>x. x \<le> b) ys" for ys :: "'k list"
    by (induction ys) auto
  then show "sorted xs \<Longrightarrow> ?thesis" using sorted_range [of "\<lambda>x. x" xs b a] by simp
qed

context set_deployment
begin

lemmas set_runs = run_refines [folded set_inv_def]

lemma contains_local:
  assumes "ok (obj s)" "\<not> mtx s"
  shows "set_LocalContainsInServer I a b s = Inr (set_range a b (so_items (se_ops I) (obj s)), s)"
proof -
  let ?xs = "so_items (se_ops I) (obj s)"
  let ?lb = "length (takeWhile (\<lambda>x. x < a) ?xs)"
  have sorted: "sorted ?xs" using sorted_items assms(1) by simp
  have lb: "so_lower_bound (se_ops I) (obj s) a = ?lb" using lower_bound assms(1) by simp
  have prev: "?lb \<noteq> 0 \<Longrightarrow> ?xs ! (?lb - 1) < a"
    using nth_before_takeWhile [of "\<lambda>x. x < a" ?xs] by simp
  have "?lb = length ?xs \<Longrightarrow> filter (\<lambda>x. a \<le> x \<and> x \<le> b) ?xs = []"
    using set_scan_range [OF sorted, of b a] by simp
  moreover have "length ?xs = 1 \<Longrightarrow> filter (\<lambda>x. a \<le> x) ?xs = (if a \<le> ?xs ! 0 then [?xs ! 0] else [])"
    by (auto simp: length_Suc_conv)
  ultimately show ?thesis
    using assms(2) prev set_scan_range [OF sorted, of b a]
    by (auto simp: set_LocalContainsInServer_def scoped_lock_free lb Let_def set_range_def)
qed

lemma gather_eq:
  assumes "set_inv I ok p C w" "c \<in> C"
  shows "set_GetAllData I p thl c w = Inr (so_items (se_ops I) (obj (seg (w ! unat (my_server_idx c))))
        @ concat (map (\<lambda>i. so_items (se_ops I) (obj (seg (w ! i)))) (other_servers c)), w)"
    and "set_Contains I p thl c a b w =
      Inr (set_range a b (so_items (se_ops I) (obj (seg (w ! unat (my_server_idx c)))))
        @ concat (map (\<lambda>i. set_range a b (so_items (se_ops I) (obj (seg (w ! i))))) (other_servers c)), w)"
proof -
  note con = store_invD(1) [OF assms [unfolded set_inv_def]]
  note srv = store_inv_server [OF assms(1) [unfolded set_inv_def]]
  have l: "at_server i (set_LocalGetAllDataInServer I) w = Inr (so_items (se_ops I) (obj (seg (w ! i))), w)"
    "at_server i (set_LocalContainsInServer I a b) w =
       Inr (set_range a b (so_items (se_ops I) (obj (seg (w ! i)))), w)"
    if "i < length w" for i
    using srv [OF that] that
    by (simp_all add: at_server_def set_LocalGetAllDataInServer_def scoped_lock_free contains_local)
  show "set_GetAllData I p thl c w = Inr (so_items (se_ops I) (obj (seg (w ! unat (my_server_idx c))))
        @ concat (map (\<lambda>i. so_items (se_ops I) (obj (seg (w ! i)))) (other_servers c)), w)"
    unfolding set_GetAllData_def set_GetAllDataInServer_def
    by (rule gather_call [OF con]) (simp, simp, simp, rule l(1))
  show "set_Contains I p thl c a b w =
      Inr (set_range a b (so_items (se_ops I) (obj (seg (w ! unat (my_server_idx c)))))
        @ concat (map (\<lambda>i. set_range a b (so_items (se_ops I) (obj (seg (w ! i))))) (other_servers c)), w)"
    unfolding set_Contains_def set_ContainsInServer_def
    by (rule gather_call [OF con]) (simp, simp, simp, rule l(2))
qed

lemma gathered_keys:
  assumes inv: "set_inv I ok p C w" "c \<in> C"
    and g: "\<And>i. i < length w \<Longrightarrow> distinct (g i) \<and> set (g i) = set (so_items (se_ops I) (obj (seg (w ! i)))) \<inter> S"
  defines "l \<equiv> g (unat (my_server_idx c)) @ concat (map g (other_servers c))"
  shows "distinct l \<and> set l = set_view I w \<inter> S"
proof -
  let ?h = "\<lambda>i. map (\<lambda>k. (k, ())) (g i)"
  have unit: "map_of (map (\<lambda>k. (k, ())) xs) k = (if k \<in> set xs then Some () else None)"
    for xs :: "'k list" and k
    by (induction xs) auto
  have h: "distinct (map fst (?h i)) \<and> map_of (?h i) = set_look I (obj (seg (w ! i))) |` S"
    if "i < length w" for i
    using g [OF that] by (auto simp: comp_def unit set_look_def restrict_map_def fun_eq_iff)
  note sg = store_gather [OF inv [unfolded set_inv_def] h]
  have l: "?h (unat (my_server_idx c)) @ concat (map ?h (other_servers c)) = map (\<lambda>k. (k, ())) l"
    by (simp add: l_def map_concat comp_def)
  have "map_of (map (\<lambda>k. (k, ())) l) = store_view (set_look I) (se_hash I) w |` S"
    using sg(2) unfolding l .
  then have "set l = dom (store_view (set_look I) (se_hash I) w |` S)"
    by (metis (mono_tags, lifting) dom_map_of_conv_image_fst image_image image_ident list.set_map fst_conv image_cong)
  moreover have "distinct l" using sg(1) unfolding l by (simp add: comp_def)
  ultimately show ?thesis by (simp add: set_view_def)
qed

lemma pop_first_correct:
  assumes inv: "set_inv I ok p C w" "c \<in> C" and i: "unat i < length w"
    and ne: "so_items (se_ops I) (obj (seg (w ! unat i))) \<noteq> []"
  shows "\<exists>w'. set_PopFirst I p thl c i w =
      Inr ((True, Min {k \<in> set_view I w. store_home (se_hash I) w k = unat i}), w')
    \<and> set_inv I ok p C w'
    \<and> set_view I w' = set_view I w - {Min {k \<in> set_view I w. store_home (se_hash I) w k = unat i}}"
proof -
  let ?i = "unat i"
  let ?s = "obj (seg (w ! unat i))"
  let ?xs = "so_items (se_ops I) ?s"
  note store = inv [unfolded set_inv_def] and con = store_invD(1) [OF inv [unfolded set_inv_def]]
  note srv = store_inv_server [OF store(1) i]
  obtain k ks where xs: "?xs = k # ks" using ne by (cases ?xs) auto
  have sorted: "sorted (k # ks)" "distinct (k # ks)" using sorted_items [OF srv(1)] xs by auto
  have mem: "x \<in> set_view I w \<and> store_home (se_hash I) w x = ?i \<longleftrightarrow> x \<in> set ?xs" for x
  proof -
    have "set_look I ?s x = Some () \<Longrightarrow> store_home (se_hash I) w x = ?i"
      using shardedD(3) [OF store_invD(2) [OF store(1)] i] .
    then show ?thesis
      by (auto simp: set_view_def store_view_def shard_view_def set_look_def split: if_splits)
  qed
  have min: "Min {x \<in> set_view I w. store_home (se_hash I) w x = ?i} = k"
    unfolding mem xs using sorted by (intro Min_eqI) auto
  let ?s' = "\<lparr>mtx = False, obj = so_erase_at (se_ops I) 0 ?s\<rparr>"
  have home: "store_home (se_hash I) w k = ?i" using mem [of k] xs by simp
  have pop: "set_PopFirst I p thl c i w = Inr ((True, k), put_seg w ?i ((seg (w ! ?i))\<lparr>obj := so_erase_at (se_ops I) 0 ?s\<rparr>))"
    using srv(2) xs by (simp add: op_at_index(2) [OF con i] set_LocalPopFirst_def at_server_write)
  have items: "so_items (se_ops I) (so_erase_at (se_ops I) 0 ?s) = ks" "ok (so_erase_at (se_ops I) 0 ?s)"
    using items_erase_at [OF srv(1), of 0] invar_erase_at [OF srv(1), of 0] xs by simp_all
  then have look: "set_look I (so_erase_at (se_ops I) 0 ?s) = (set_look I ?s)(k := None)"
    using xs sorted by (auto simp: set_look_def fun_eq_iff)
  note wr = store_write [OF store, of "(seg (w ! ?i))\<lparr>obj := so_erase_at (se_ops I) 0 ?s\<rparr>" k None, unfolded home]
  show ?thesis
    unfolding min pop using wr look items(2) srv(2) by (auto simp: set_inv_def set_view_def)
qed

lemma seek_first_n_local:
  assumes "\<not> mtx s"
  shows "set_LocalSeekFirstN I n s =
    Inr ((0 < min (unat n) (length (so_items (se_ops I) (obj s))), take (unat n) (so_items (se_ops I) (obj s))), s)"
  using assms by (simp add: set_LocalSeekFirstN_def scoped_lock_free seek_first_loop_first of_nat_min_pos
      del: min_less_iff_conj)

end

section \<open>An instance\<close>

definition list_set :: "('k::linorder \<Rightarrow> u64) \<Rightarrow> 'k \<Rightarrow> ('k, 'k list) set_inst" where
  "list_set hash dflt = \<lparr>se_ops = slist_ops, se_hash = hash, se_assign = None, se_default = dflt\<rparr>"

lemma list_set_sel [simp]:
  "se_ops (list_set hash dflt) = slist_ops" "se_hash (list_set hash dflt) = hash"
  "se_assign (list_set hash dflt) = None" "se_default (list_set hash dflt) = dflt"
  by (simp_all add: list_set_def)

interpretation lset: set_deployment "list_set hash dflt" "\<lambda>s. sorted s \<and> distinct s"
    "direct_engine (set_handler (list_set hash dflt))"
  for hash :: "'k::linorder \<Rightarrow> u64" and dflt
proof -
  have "set_deployment_axioms (list_set hash dflt)"
    by unfold_locales (simp add: GetData_def)
  then show "set_deployment (list_set hash dflt) (\<lambda>s. sorted s \<and> distinct s)
      (direct_engine (set_handler (list_set hash dflt)))"
    unfolding set_deployment_def list_set_sel
    using direct.transport_axioms slist.set_container_axioms by blast
qed

abbreviation ex_set :: "(u64, u64 list) set_inst" where
  "ex_set \<equiv> list_set (\<lambda>k. k) 0"

lemma set_table_ok: "table_ok set_bind_table"
  by (simp add: table_ok_def set_bind_table_def NUL_def)

lemma ex_set_inv:
  assumes "n < 2 ^ 16" "length objs = n" "\<forall>d \<in> set objs. sorted d \<and> distinct d"
    and "\<forall>i < n. \<forall>k \<in> set (objs ! i). home n k = i"
  shows "set_inv ex_set (\<lambda>s. sorted s \<and> distinct s) (ex_process n) (ex_clients n)
    (ex_cluster set_bind_table objs)"
proof -
  let ?w = "ex_cluster set_bind_table objs"
  have "\<forall>c \<in> ex_clients n. connected (ex_process n) set_bind_table c ?w"
    by (intro ballI ex_connected [OF set_table_ok]) (use assms(1,2) in simp_all)
  moreover have "\<forall>s \<in> set ?w. sorted (obj (seg s)) \<and> distinct (obj (seg s))"
    using assms(3) by (auto simp: ex_cluster_def)
  ultimately show ?thesis
    using assms(2,4)
    by (auto simp: set_inv_def store_inv_def sharded_def ex_quiescent store_home_def set_look_def
        slist_ops_def split: if_splits)
qed

lemma ex_set_view:
  "objs \<noteq> [] \<Longrightarrow> k \<in> set_view ex_set (ex_cluster set_bind_table objs) \<longleftrightarrow>
     k \<in> set (objs ! (unat k mod length objs))"
  by (simp add: set_view_def store_view_def shard_view_def store_home_def home_def set_look_def
      slist_ops_def dom_def)

abbreviation ex_set_objs :: "u64 list list" where
  "ex_set_objs \<equiv> [[2, 4], [1, 5, 7]]"

lemma ex_set_objs_inv:
  "set_inv ex_set (\<lambda>s. sorted s \<and> distinct s) (ex_process 2) (ex_clients 2) (ex_cluster set_bind_table ex_set_objs)"
  by (rule ex_set_inv) (auto simp: less_2_cases_iff home_def)

lemma ex_set_objs_view:
  "5 \<in> set_view ex_set (ex_cluster set_bind_table ex_set_objs)"
  "2 \<in> set_view ex_set (ex_cluster set_bind_table ex_set_objs)"
  "3 \<notin> set_view ex_set (ex_cluster set_bind_table ex_set_objs)"
  by (simp_all add: ex_set_view numeral_2_eq_2 [symmetric])

section \<open>Properties\<close>

text \<open>
  C3. Any sequence of \<^verbatim>\<open>Put\<close>, \<^verbatim>\<open>Get\<close> and \<^verbatim>\<open>Erase\<close> of any clients on an \<^verbatim>\<open>hcl::set\<close> gives the
  results of a single set.
\<close>

theorem set_refines_one_set:
  assumes "set_deployment I ok thl" "set_inv I ok p C w" "cmd_client ` set xs \<subseteq> C"
  shows "\<exists>w'. run_kv (set_put_u I p thl) (set_get_u I p thl) (set_erase_u I p thl) xs w =
      Inr (fst (spec_kv (\<lambda>u. u) () xs (store_view (set_look I) (se_hash I) w)), w')
    \<and> set_inv I ok p C w'
    \<and> set_view I w' = dom (snd (spec_kv (\<lambda>u. u) () xs (store_view (set_look I) (se_hash I) w)))"
  using set_deployment.set_runs [OF assms] unfolding set_view_def by auto

theorem set_refines_one_set_witness:
  "\<exists>w'. run_kv (set_put_u ex_set (ex_process 2) (direct_engine (set_handler ex_set)))
      (set_get_u ex_set (ex_process 2) (direct_engine (set_handler ex_set)))
      (set_erase_u ex_set (ex_process 2) (direct_engine (set_handler ex_set)))
      [Put_Cmd (ex_client 2 1 True) 9 (), Get_Cmd (ex_client 2 0 False) 9,
       Erase_Cmd (ex_client 2 1 True) 9, Get_Cmd (ex_client 2 1 True) 9]
      (ex_cluster set_bind_table ex_set_objs) =
    Inr ([Out_Bool True, Out_Val (True, ()), Out_Val (True, ()), Out_Val (False, ())], w')"
  using set_refines_one_set [OF lset.set_deployment_axioms ex_set_objs_inv, of "[Put_Cmd (ex_client 2 1 True) 9 (),
      Get_Cmd (ex_client 2 0 False) 9, Erase_Cmd (ex_client 2 1 True) 9, Get_Cmd (ex_client 2 1 True) 9]"]
  by (auto simp del: run_kv.simps)

text \<open>
  C36. \<^verbatim>\<open>Contains(key_start, key_end)\<close> of an \<^verbatim>\<open>hcl::set\<close> returns, each once, the keys of the closed range, except that
  the only key of a server is returned whenever it is not below \<^verbatim>\<open>key_start\<close>, even beyond \<^verbatim>\<open>key_end\<close>. So it returns
  exactly the range when no server holds exactly one key.
\<close>

theorem set_Contains_range:
  assumes "set_deployment I ok thl" "set_inv I ok p C w" "c \<in> C"
  shows "\<exists>l. set_Contains I p thl c a b w = Inr (l, w) \<and> distinct l
    \<and> set l = {k \<in> set_view I w. a \<le> k \<and>
        (k \<le> b \<or> length (so_items (se_ops I) (obj (seg (w ! home (length w) (se_hash I k))))) = 1)}
    \<and> ((\<forall>i < length w. length (so_items (se_ops I) (obj (seg (w ! i)))) \<noteq> 1) \<longrightarrow> set l = set_view I w \<inter> {a..b})"
proof -
  let ?xs = "\<lambda>i. so_items (se_ops I) (obj (seg (w ! i)))"
  let ?S = "{k. a \<le> k \<and> (k \<le> b \<or> length (?xs (home (length w) (se_hash I k))) = 1)}"
  note inv = assms(2) [unfolded set_inv_def]
  have here: "home (length w) (se_hash I k) = i" if "i < length w" "k \<in> set (?xs i)" for i k
    using shardedD(3) [OF store_invD(2) [OF inv] that(1), of k "()"] that(2) by (simp add: set_look_def store_home_def)
  have g: "distinct (set_range a b (?xs i)) \<and> set (set_range a b (?xs i)) = set (?xs i) \<inter> ?S" if "i < length w" for i
  proof -
    have "distinct (?xs i)" using store_inv_server(1) [OF inv that] set_container.sorted_items [OF set_deployment.axioms(2) [OF assms(1)]] by simp
    then show ?thesis using here [OF that] by (auto simp: set_range_def)
  qed
  obtain l where l: "set_Contains I p thl c a b w = Inr (l, w)" "distinct l" "set l = set_view I w \<inter> ?S"
    using set_deployment.gather_eq(2) [OF assms(1-3), of a b] set_deployment.gathered_keys [OF assms(1-3) g] by auto
  have "home (length w) (se_hash I k) < length w" for k using store_home_less [OF inv assms(3)] by (simp add: store_home_def)
  then have "set l = set_view I w \<inter> {a..b}" if "\<forall>i < length w. length (?xs i) \<noteq> 1" using that l(3) by auto
  then show ?thesis using l by auto
qed

text \<open>The key 9, alone on its server, is returned for the range from 2 to 3.\<close>

theorem set_Contains_range_witness:
  "\<exists>l l'. set_Contains ex_set (ex_process 2) (direct_engine (set_handler ex_set)) (ex_client 2 0 False) 2 5
         (ex_cluster set_bind_table ex_set_objs) = Inr (l, ex_cluster set_bind_table ex_set_objs)
     \<and> distinct l \<and> 5 \<in> set l \<and> 2 \<in> set l \<and> 7 \<notin> set l
     \<and> set_Contains ex_set (ex_process 2) (direct_engine (set_handler ex_set)) (ex_client 2 0 False) 2 3
         (ex_cluster set_bind_table [[2, 4], [9]]) = Inr (l', ex_cluster set_bind_table [[2, 4], [9]]) \<and> 9 \<in> set l' \<and> 4 \<notin> set l'"
proof -
  have many: "\<forall>i < length (ex_cluster set_bind_table ex_set_objs).
      length (so_items (se_ops ex_set) (obj (seg (ex_cluster set_bind_table ex_set_objs ! i)))) \<noteq> 1"
    by (auto simp: slist_ops_def less_Suc_eq)
  let ?w = "ex_cluster set_bind_table [[2 :: u64, 4], [9]]"
  have inv: "set_inv ex_set (\<lambda>s. sorted s \<and> distinct s) (ex_process 2) (ex_clients 2) ?w"
    by (rule ex_set_inv) (auto simp: less_2_cases_iff home_def)
  have n: "length (so_items slist_ops (obj (seg (?w ! home 2 9)))) = 1" "length (so_items slist_ops (obj (seg (?w ! home 2 4)))) = 2"
    by (simp_all add: home_def slist_ops_def)
  have v: "9 \<in> set_view ex_set ?w"
    by (simp add: ex_set_view numeral_2_eq_2 [symmetric])
  have c: "ex_client 2 0 False \<in> ex_clients 2" by (auto simp: ex_clients_def)
  have len: "length ?w = 2" by simp
  obtain l where l: "set_Contains ex_set (ex_process 2) (direct_engine (set_handler ex_set)) (ex_client 2 0 False) 2 5
      (ex_cluster set_bind_table ex_set_objs) = Inr (l, ex_cluster set_bind_table ex_set_objs)" "distinct l"
      "set l = set_view ex_set (ex_cluster set_bind_table ex_set_objs) \<inter> {2..5}"
    using set_Contains_range [OF lset.set_deployment_axioms ex_set_objs_inv c, of 2 5] many by blast
  obtain l' where l': "set_Contains ex_set (ex_process 2) (direct_engine (set_handler ex_set)) (ex_client 2 0 False) 2 3 ?w = Inr (l', ?w)"
      "set l' = {k \<in> set_view ex_set ?w. 2 \<le> k \<and> (k \<le> 3 \<or> length (so_items slist_ops (obj (seg (?w ! home 2 k)))) = 1)}"
    using set_Contains_range [OF lset.set_deployment_axioms inv c, of 2 3] unfolding len list_set_sel by blast
  show ?thesis using l l' n v by (auto simp: ex_set_objs_view)
qed

text \<open>
  C37. \<^verbatim>\<open>PopFirst(server)\<close> on a server that has keys returns the smallest of them and removes exactly
  that key from the distributed set.
\<close>

theorem set_PopFirst_least:
  assumes "set_deployment I ok thl" "set_inv I ok p C w" "c \<in> C" "unat i < length w"
    and "so_items (se_ops I) (obj (seg (w ! unat i))) \<noteq> []"
  shows "\<exists>w'. set_PopFirst I p thl c i w =
      Inr ((True, Min {k \<in> set_view I w. store_home (se_hash I) w k = unat i}), w')
    \<and> set_inv I ok p C w'
    \<and> set_view I w' = set_view I w - {Min {k \<in> set_view I w. store_home (se_hash I) w k = unat i}}"
  using set_deployment.pop_first_correct [OF assms] .

theorem set_PopFirst_least_witness:
  "\<exists>w'. set_PopFirst ex_set (ex_process 2) (direct_engine (set_handler ex_set)) (ex_client 2 0 False) 1
       (ex_cluster set_bind_table ex_set_objs) = Inr ((True, 1), w')
     \<and> set_view ex_set w' = set_view ex_set (ex_cluster set_bind_table ex_set_objs) - {1}"
proof -
  let ?w = "ex_cluster set_bind_table ex_set_objs"
  have keys: "{k \<in> set_view ex_set ?w. store_home (se_hash ex_set) ?w k = 1} = {1, 5, 7}"
  proof -
    have "k \<in> set_view ex_set ?w \<and> store_home (se_hash ex_set) ?w k = 1 \<longleftrightarrow> k \<in> {1, 5, 7}" for k
      by (auto simp: ex_set_view store_home_def home_def numeral_2_eq_2 [symmetric])
    then show ?thesis by blast
  qed
  have ne: "so_items (se_ops ex_set) (obj (seg (ex_cluster set_bind_table ex_set_objs ! unat (1 :: u16)))) \<noteq> []"
    by (simp add: slist_ops_def)
  show ?thesis
    using set_PopFirst_least [OF lset.set_deployment_axioms ex_set_objs_inv _ _ ne, of "ex_client 2 0 False"] keys
    by auto
qed

text \<open>
  \<^verbatim>\<open>GetAllData\<close> of an \<^verbatim>\<open>hcl::set\<close> returns every key exactly once.
\<close>

theorem set_GetAllData_complete:
  assumes "set_deployment I ok thl" "set_inv I ok p C w" "c \<in> C"
  shows "\<exists>l. set_GetAllData I p thl c w = Inr (l, w) \<and> distinct l \<and> set l = set_view I w"
proof -
  have g: "distinct (so_items (se_ops I) (obj (seg (w ! i))))
      \<and> set (so_items (se_ops I) (obj (seg (w ! i)))) = set (so_items (se_ops I) (obj (seg (w ! i)))) \<inter> UNIV"
    if "i < length w" for i
    using store_inv_server(1) [OF assms(2) [unfolded set_inv_def] that]
      set_container.sorted_items [OF set_deployment.axioms(2) [OF assms(1)]] by auto
  show ?thesis
    using set_deployment.gather_eq(1) [OF assms] set_deployment.gathered_keys [OF assms g] by auto
qed

theorem set_GetAllData_complete_witness:
  "\<exists>l. set_GetAllData ex_set (ex_process 2) (direct_engine (set_handler ex_set)) (ex_client 2 1 True)
         (ex_cluster set_bind_table ex_set_objs) = Inr (l, ex_cluster set_bind_table ex_set_objs)
     \<and> distinct l \<and> 5 \<in> set l \<and> 3 \<notin> set l"
  using set_GetAllData_complete [OF lset.set_deployment_axioms ex_set_objs_inv, of "ex_client 2 1 True"]
  by (auto simp: ex_set_objs_view)

end
