(* ===== verification/Hcl_Queue.thy ===== *)
theory Hcl_Queue
  imports Hcl_Launch
begin

text \<open>
  \<^verbatim>\<open>hcl::queue\<close> (\<^verbatim>\<open>include/hcl/queue/queue.h\<close>, \<^verbatim>\<open>queue.cpp\<close>): one deque per server; the caller
  names the server of every operation by its index.
\<close>

section \<open>The class\<close>

text \<open>
  The parameters: the deque of Boost, the copy and the default of the element type, and what the other clients have done
  to the memory of a server in the sleep after poll number \<open>t\<close> of a waiting client.
\<close>

record ('v, 'q) queue_inst =
  qi_ops :: "('v, 'q) deque_ops"
  qi_assign :: "('v \<Rightarrow> 'v) option"
  qi_default :: 'v
  qi_others :: "nat \<Rightarrow> 'q shm \<Rightarrow> 'q shm"

datatype queue_op = QuPush | QuPop | QuWaitForElement | QuSize

definition queue_bind_table :: "(string \<times> queue_op) list" where
  "queue_bind_table = [(''_Push'', QuPush), (''_Pop'', QuPop), (''_WaitForElement'', QuWaitForElement),
     (''_Size'', QuSize)]"

definition queue_construct_shared_memory where
  "queue_construct_shared_memory bip I = construct_object bip (\<lambda>_. ''Queue'') (dq_empty (qi_ops I))"

definition queue_open_shared_memory where
  "queue_open_shared_memory bip = open_object bip (\<lambda>_. ''Queue'')"

definition queue_ctor where
  "queue_ctor bip p I nm prt n idx mem srv on_node dir fs =
     ctor_with p (queue_construct_shared_memory bip I) (queue_open_shared_memory bip) queue_bind_table
       (container_ctor bip p nm prt n idx mem srv on_node dir fs)"

definition queue_dtor where
  "queue_dtor bip c = derived_dtor bip c"

definition queue_data where
  "queue_data c ptr = shared_data c ptr"

lemma queue_ctor_derived: "queue_ctor bip p I = derived_ctor bip p (\<lambda>_. ''Queue'') (dq_empty (qi_ops I)) queue_bind_table"
  by (simp add: fun_eq_iff queue_ctor_def derived_ctor_def queue_construct_shared_memory_def queue_open_shared_memory_def)

section \<open>Operations on one server\<close>

definition queue_push_body :: "('v, 'q) queue_inst \<Rightarrow> 'v \<Rightarrow> 'q \<Rightarrow> bool \<times> 'q" where
  "queue_push_body I dat q = (True, dq_push_back (qi_ops I) (GetData (qi_assign I) dat) q)"

definition queue_LocalPush where
  "queue_LocalPush I dat = scoped_lock (queue_push_body I dat)"

definition queue_pop_body :: "('v, 'q) queue_inst \<Rightarrow> 'q \<Rightarrow> (bool \<times> 'v) \<times> 'q" where
  "queue_pop_body I q =
     (if dq_size (qi_ops I) q > 0
      then ((True, dq_front (qi_ops I) q), dq_pop_front (qi_ops I) q)
      else ((False, qi_default I), q))"

definition queue_LocalPop where
  "queue_LocalPop I = scoped_lock (queue_pop_body I)"

text \<open>
  \<^verbatim>\<open>LocalWaitForElement\<close> polls the size, without the mutex, until it is not zero; the other clients act while it
  sleeps. The code counts the polls and does not read the count. A loop that does not end is \<open>None\<close>.
\<close>

partial_function (option) wait_loop :: "('v, 'q) queue_inst \<Rightarrow> nat \<Rightarrow> 'q shm \<Rightarrow> 'q shm option" where
  "wait_loop I polls s =
     (if dq_size (qi_ops I) (obj s) = 0 then wait_loop I (Suc polls) (qi_others I polls s) else Some s)"

definition queue_LocalWaitForElement :: "('v, 'q) queue_inst \<Rightarrow> 'q shm \<Rightarrow> (bool \<times> 'q shm) result" where
  "queue_LocalWaitForElement I s = (case wait_loop I 0 s of None \<Rightarrow> Inl Diverges | Some s \<Rightarrow> Inr (True, s))"

definition queue_size_body :: "('v, 'q) queue_inst \<Rightarrow> 'q \<Rightarrow> u64 \<times> 'q" where
  "queue_size_body I q = (of_nat (dq_size (qi_ops I) q), q)"

definition queue_LocalSize where
  "queue_LocalSize I = scoped_lock (queue_size_body I)"

fun queue_handler ::
  "('v, 'q) queue_inst \<Rightarrow> queue_op \<Rightarrow> (unit, 'v) request \<Rightarrow> container \<Rightarrow> 'q shm
     \<Rightarrow> ((unit, 'v) response \<times> 'q shm) result" where
  "queue_handler I QuPush (QVal v) c s = THALLIUM_DEFINE RBool (queue_LocalPush I v s)"
| "queue_handler I QuPop QNone c s = THALLIUM_DEFINE RVal (queue_LocalPop I s)"
| "queue_handler I QuWaitForElement QNone c s = THALLIUM_DEFINE RBool (queue_LocalWaitForElement I s)"
| "queue_handler I QuSize QNone c s = THALLIUM_DEFINE RSize (queue_LocalSize I s)"
| "queue_handler I op q c s = Inl Bad_Message"

type_synonym ('v, 'q) queue_thallium = "('q, queue_op, (unit, 'v) request, (unit, 'v) response) thallium"

section \<open>Operations on the cluster\<close>

definition queue_Push ::
  "('v, 'q) queue_inst \<Rightarrow> hcl_process \<Rightarrow> ('v, 'q) queue_thallium \<Rightarrow> container \<Rightarrow> 'v \<Rightarrow> u16
     \<Rightarrow> ('q, queue_op) cluster \<Rightarrow> (bool \<times> ('q, queue_op) cluster) result" where
  "queue_Push I p thl c dat key_int w =
     (if is_local c key_int then local_access c (queue_LocalPush I dat) w
      else RPC_CALL_WRAPPER p thl c ''_Push'' key_int as_bool (QVal dat) w)"

definition queue_Pop ::
  "('v, 'q) queue_inst \<Rightarrow> hcl_process \<Rightarrow> ('v, 'q) queue_thallium \<Rightarrow> container \<Rightarrow> u16
     \<Rightarrow> ('q, queue_op) cluster \<Rightarrow> ((bool \<times> 'v) \<times> ('q, queue_op) cluster) result" where
  "queue_Pop I p thl c key_int w =
     (if is_local c key_int then local_access c (queue_LocalPop I) w
      else RPC_CALL_WRAPPER p thl c ''_Pop'' key_int as_val QNone w)"

definition queue_WaitForElement ::
  "('v, 'q) queue_inst \<Rightarrow> hcl_process \<Rightarrow> ('v, 'q) queue_thallium \<Rightarrow> container \<Rightarrow> u16
     \<Rightarrow> ('q, queue_op) cluster \<Rightarrow> (bool \<times> ('q, queue_op) cluster) result" where
  "queue_WaitForElement I p thl c key_int w =
     (if is_local c key_int then local_access c (queue_LocalWaitForElement I) w
      else RPC_CALL_WRAPPER p thl c ''_WaitForElement'' key_int as_bool QNone w)"

definition queue_Size ::
  "('v, 'q) queue_inst \<Rightarrow> hcl_process \<Rightarrow> ('v, 'q) queue_thallium \<Rightarrow> container \<Rightarrow> u16
     \<Rightarrow> ('q, queue_op) cluster \<Rightarrow> (u64 \<times> ('q, queue_op) cluster) result" where
  "queue_Size I p thl c key_int w =
     (if is_local c key_int then local_access c (queue_LocalSize I) w
      else RPC_CALL_WRAPPER p thl c ''_Size'' key_int as_size QNone w)"

section \<open>The contract\<close>

text \<open>Commands of clients and their outputs; the specification is one list per server.\<close>

datatype 'v queue_cmd = Push_At container u16 'v | Pop_At container u16 | Size_At container u16

datatype 'v queue_out = Pushed bool | Popped "bool \<times> 'v" | Sized u64

primrec queue_exec where
  "queue_exec I p thl (Push_At c i v) w = rmap (\<lambda>(b, w). (Pushed b, w)) (queue_Push I p thl c v i w)"
| "queue_exec I p thl (Pop_At c i) w = rmap (\<lambda>(r, w). (Popped r, w)) (queue_Pop I p thl c i w)"
| "queue_exec I p thl (Size_At c i) w = rmap (\<lambda>(n, w). (Sized n, w)) (queue_Size I p thl c i w)"

primrec queue_addr :: "'v queue_cmd \<Rightarrow> container \<times> u16" where
  "queue_addr (Push_At c i v) = (c, i)" | "queue_addr (Pop_At c i) = (c, i)" | "queue_addr (Size_At c i) = (c, i)"

primrec queue_body where
  "queue_body I (Push_At c i v) = returning Pushed (queue_push_body I v)"
| "queue_body I (Pop_At c i) = returning Popped (queue_pop_body I)"
| "queue_body I (Size_At c i) = returning Sized (queue_size_body I)"

primrec queue_step :: "('v \<Rightarrow> 'v) \<Rightarrow> 'v \<Rightarrow> 'v queue_cmd \<Rightarrow> 'v list \<Rightarrow> 'v queue_out \<times> 'v list" where
  "queue_step stored dflt (Push_At c i v) xs = (Pushed True, xs @ [stored v])"
| "queue_step stored dflt (Pop_At c i) xs =
     (case xs of [] \<Rightarrow> (Popped (False, dflt), []) | x # xs \<Rightarrow> (Popped (True, x), xs))"
| "queue_step stored dflt (Size_At c i) xs = (Sized (of_nat (length xs)), xs)"

lemma queue_table_simps [simp]:
  "map_of queue_bind_table ''_Push'' = Some QuPush" "map_of queue_bind_table ''_Pop'' = Some QuPop"
  "map_of queue_bind_table ''_WaitForElement'' = Some QuWaitForElement"
  "map_of queue_bind_table ''_Size'' = Some QuSize"
  by (simp_all add: queue_bind_table_def)

locale queue_deployment = transport thl "queue_handler I" + deque_container "qi_ops I" elems
  for I :: "('v, 'q) queue_inst" and elems :: "'q \<Rightarrow> 'v list" and thl :: "('v, 'q) queue_thallium"
begin

lemma op_at_index:
  assumes "connected p queue_bind_table c w" "unat i < length w"
  shows "queue_Push I p thl c v i w = at_server (unat i) (scoped_lock (queue_push_body I v)) w"
    and "queue_Pop I p thl c i w = at_server (unat i) (scoped_lock (queue_pop_body I)) w"
    and "queue_Size I p thl c i w = at_server (unat i) (scoped_lock (queue_size_body I)) w"
    and "queue_WaitForElement I p thl c i w = at_server (unat i) (queue_LocalWaitForElement I) w"
  unfolding queue_Push_def queue_Pop_def queue_Size_def queue_WaitForElement_def
    queue_LocalPush_def [symmetric] queue_LocalPop_def [symmetric] queue_LocalSize_def [symmetric]
  by - (rule indexed_call [OF assms], simp, simp, simp)+

lemma pop_body_elems:
  "queue_pop_body I q =
     (case elems q of [] \<Rightarrow> ((False, qi_default I), q) | x # xs \<Rightarrow> ((True, x), dq_pop_front (qi_ops I) q))"
  "elems (snd (queue_pop_body I q)) = tl (elems q)"
  by (cases "elems q"; simp add: queue_pop_body_def size front elems_pop)+

end

sublocale queue_deployment \<subseteq> indexed_service queue_bind_table p "queue_exec I p thl" queue_addr
  "queue_body I" "\<lambda>_. True" elems "queue_step (GetData (qi_assign I)) (qi_default I)" for p
proof
  fix x :: "'v queue_cmd" and w :: "('q, queue_op) cluster" and q
  show "queue_step (GetData (qi_assign I)) (qi_default I) x (elems q) =
      (fst (queue_body I x q), elems (snd (queue_body I x q)))"
    by (cases x; cases "elems q")
       (simp_all add: queue_push_body_def queue_size_body_def pop_body_elems elems_push elems_pop size)
  assume "connected p queue_bind_table (fst (queue_addr x)) w" "unat (snd (queue_addr x)) < length w"
  then show "queue_exec I p thl x w =
      at_server (unat (snd (queue_addr x))) (scoped_lock (queue_body I x)) w"
    using op_at_index [of p "fst (queue_addr x)" w "snd (queue_addr x)"]
    by (cases x) (simp_all add: at_server_returning)
qed simp

text \<open>The memory that the poll \<open>t\<close> reads while the wait has not ended.\<close>

primrec polled :: "('v, 'q) queue_inst \<Rightarrow> 'q shm \<Rightarrow> nat \<Rightarrow> 'q shm" where
  "polled I s 0 = s"
| "polled I s (Suc t) = qi_others I t (polled I s t)"

text \<open>The polling loop ends at the first poll that sees an element, and only then.\<close>

lemma wait_loop_first:
  assumes "dq_size (qi_ops I) (obj (polled I s n)) \<noteq> 0" "\<And>t. t < n \<Longrightarrow> dq_size (qi_ops I) (obj (polled I s t)) = 0"
  shows "wait_loop I 0 s = Some (polled I s n)"
proof -
  have "wait_loop I t (polled I s t) = Some (polled I s n)" if "t \<le> n" for t
    using that
  proof (induction "n - t" arbitrary: t)
    case 0
    then show ?case using assms(1) by (simp add: wait_loop.simps)
  next
    case (Suc d)
    then have "wait_loop I (Suc t) (polled I s (Suc t)) = Some (polled I s n)" by (intro Suc.hyps(1)) auto
    moreover have "dq_size (qi_ops I) (obj (polled I s t)) = 0" using Suc assms(2) by simp
    ultimately show ?case by (simp add: wait_loop.simps [of I t])
  qed
  from this [of 0] show ?thesis by simp
qed

lemma wait_loop_sees_element:
  assumes "wait_loop I t (polled I s t) = Some r"
  shows "\<exists>n. r = polled I s n \<and> dq_size (qi_ops I) (obj r) \<noteq> 0"
proof -
  have "s' = polled I s t \<longrightarrow> (\<exists>n. r = polled I s n \<and> dq_size (qi_ops I) (obj r) \<noteq> 0)"
    if "wait_loop I t s' = Some r" for s' t
  proof (rule wait_loop.raw_induct [OF _ that, where P = "\<lambda>I t s' r. \<forall>s. s' = polled I s t \<longrightarrow>
      (\<exists>n. r = polled I s n \<and> dq_size (qi_ops I) (obj r) \<noteq> 0)", THEN spec])
    fix f :: "('v, 'q) queue_inst \<Rightarrow> nat \<Rightarrow> 'q shm \<Rightarrow> 'q shm option" and I :: "('v, 'q) queue_inst" and t :: nat and s' r
    assume IH: "\<And>I t s' r. f I t s' = Some r \<Longrightarrow>
        \<forall>s. s' = polled I s t \<longrightarrow> (\<exists>n. r = polled I s n \<and> dq_size (qi_ops I) (obj r) \<noteq> 0)"
      and step: "(if dq_size (qi_ops I) (obj s') = 0 then f I (Suc t) (qi_others I t s') else Some s') = Some r"
    show "\<forall>s. s' = polled I s t \<longrightarrow> (\<exists>n. r = polled I s n \<and> dq_size (qi_ops I) (obj r) \<noteq> 0)"
    proof (intro allI impI)
      fix s assume s': "s' = polled I s t"
      show "\<exists>n. r = polled I s n \<and> dq_size (qi_ops I) (obj r) \<noteq> 0"
      proof (cases "dq_size (qi_ops I) (obj s') = 0")
        case True
        then have "f I (Suc t) (polled I s (Suc t)) = Some r" using step s' by simp
        then show ?thesis using IH by blast
      qed (use step s' in auto)
    qed
  qed
  then show ?thesis using assms by blast
qed

lemma wait_loop_never:
  assumes "\<And>t. dq_size (qi_ops I) (obj (polled I s t)) = 0" shows "wait_loop I 0 s = None"
  using wait_loop_sees_element [of I 0 s] assms by (cases "wait_loop I 0 s") auto

context queue_deployment
begin

lemmas queue_runs = run_simulates

lemma wait_at_server:
  assumes inv: "servers_inv queue_bind_table p (\<lambda>_. True) C w" "c \<in> C" "unat i < length w"
  shows "queue_WaitForElement I p thl c i w =
    (case wait_loop I 0 (seg (w ! unat i)) of None \<Rightarrow> Inl Diverges | Some s \<Rightarrow> Inr (True, put_seg w (unat i) s))"
  unfolding op_at_index(4) [OF servers_invD(1) [OF inv(1,2)] inv(3)]
  using inv(3) by (auto simp: at_server_def queue_LocalWaitForElement_def split: option.split)

lemma pop_at_server:
  assumes "servers_inv queue_bind_table p (\<lambda>_. True) C w" "c \<in> C" "unat i < length w"
  shows "\<exists>w'. queue_Pop I p thl c i w =
      Inr (case elems (obj (seg (w ! unat i))) of [] \<Rightarrow> (False, qi_default I) | x # _ \<Rightarrow> (True, x), w')
    \<and> servers_inv queue_bind_table p (\<lambda>_. True) C w' \<and> length w' = length w
    \<and> elems (obj (seg (w' ! unat i))) = tl (elems (obj (seg (w ! unat i))))"
proof -
  let ?q = "obj (seg (w ! unat i))"
  obtain w' where w': "queue_Pop I p thl c i w = Inr (fst (queue_pop_body I ?q), w')" "servers_inv queue_bind_table p (\<lambda>_. True) C w'"
      "length w' = length w" "servers_view elems w' = (servers_view elems w)[unat i := elems (snd (queue_pop_body I ?q))]"
    using servers_write [OF assms(1,3), of "queue_pop_body I" elems] op_at_index(2) [OF servers_invD(1) [OF assms(1,2)] assms(3)] by auto
  have "servers_view elems w' ! unat i = tl (elems ?q)" using w'(4) assms(3) by (simp add: pop_body_elems(2))
  then have "elems (obj (seg (w' ! unat i))) = tl (elems ?q)" using w'(3) assms(3) by (simp add: servers_view_def)
  then show ?thesis using w'(1-3) by (auto simp: pop_body_elems(1) split: list.splits)
qed

lemma wait_result:
  assumes inv: "servers_inv queue_bind_table p (\<lambda>_. True) C w" "c \<in> C" "unat i < length w"
    and first: "elems (obj (polled I (seg (w ! unat i)) n)) \<noteq> []" "\<forall>t < n. elems (obj (polled I (seg (w ! unat i)) t)) = []"
  defines "s \<equiv> polled I (seg (w ! unat i)) n"
  shows "queue_WaitForElement I p thl c i w = Inr (True, put_seg w (unat i) s)"
    and "\<not> mtx s \<Longrightarrow> c' \<in> C \<Longrightarrow> \<exists>w''. queue_Pop I p thl c' i (put_seg w (unat i) s) = Inr ((True, hd (elems (obj s))), w'')
      \<and> (tl (elems (obj s)) = [] \<longrightarrow> (\<exists>w3. queue_Pop I p thl c i w'' = Inr ((False, qi_default I), w3)))"
proof -
  have "wait_loop I 0 (seg (w ! unat i)) = Some s"
    unfolding s_def using first by (intro wait_loop_first) (simp_all add: size)
  then show "queue_WaitForElement I p thl c i w = Inr (True, put_seg w (unat i) s)" by (simp add: wait_at_server [OF inv])
  assume free: "\<not> mtx s" and c': "c' \<in> C"
  let ?w = "put_seg w (unat i) s"
  have inv': "servers_inv queue_bind_table p (\<lambda>_. True) C ?w"
    using inv(1,3) free unfolding servers_inv_def by (auto intro!: hcl_wf dest!: set_put_segD)
  have len: "unat i < length ?w" and s: "seg (?w ! unat i) = s" using inv(3) by (simp_all add: put_seg_def)
  obtain w'' where w'': "queue_Pop I p thl c' i ?w = Inr ((True, hd (elems (obj s))), w'')"
      "servers_inv queue_bind_table p (\<lambda>_. True) C w''" "length w'' = length ?w" "elems (obj (seg (w'' ! unat i))) = tl (elems (obj s))"
    using pop_at_server [OF inv' c' len] first(1) by (auto simp: s s_def [symmetric] split: list.splits)
  have "\<exists>w3. queue_Pop I p thl c i w'' = Inr ((False, qi_default I), w3)" if "tl (elems (obj s)) = []"
    using pop_at_server [OF w''(2) inv(2), of i] that w''(3,4) len by auto
  then show "\<exists>w''. queue_Pop I p thl c' i ?w = Inr ((True, hd (elems (obj s))), w'')
      \<and> (tl (elems (obj s)) = [] \<longrightarrow> (\<exists>w3. queue_Pop I p thl c i w'' = Inr ((False, qi_default I), w3)))"
    using w''(1) by blast
qed

lemma wait_forever:
  assumes inv: "servers_inv queue_bind_table p (\<lambda>_. True) C w" "c \<in> C" "unat i < length w"
    and "\<forall>t. elems (obj (polled I (seg (w ! unat i)) t)) = []"
  shows "queue_WaitForElement I p thl c i w = Inl Diverges"
proof -
  have "wait_loop I 0 (seg (w ! unat i)) = None" using assms(4) by (intro wait_loop_never) (simp add: size)
  then show ?thesis by (simp add: wait_at_server [OF inv])
qed

end

section \<open>An instance\<close>

definition list_queue :: "('v \<Rightarrow> 'v) option \<Rightarrow> 'v \<Rightarrow> (nat \<Rightarrow> 'v list shm \<Rightarrow> 'v list shm) \<Rightarrow> ('v, 'v list) queue_inst" where
  "list_queue assign dflt others = \<lparr>qi_ops = list_deque_ops, qi_assign = assign, qi_default = dflt, qi_others = others\<rparr>"

lemma list_queue_sel [simp]:
  "qi_ops (list_queue assign dflt others) = list_deque_ops" "qi_assign (list_queue assign dflt others) = assign"
  "qi_default (list_queue assign dflt others) = dflt" "qi_others (list_queue assign dflt others) = others"
  by (simp_all add: list_queue_def)

interpretation lqueue: queue_deployment "list_queue assign dflt others" "\<lambda>q. q"
    "direct_engine (queue_handler (list_queue assign dflt others))" for assign and dflt :: 'v and others
  unfolding queue_deployment_def list_queue_sel
  by (rule conjI, rule direct.transport_axioms, rule ldeque.deque_container_axioms)

abbreviation ex_queue :: "(nat, nat list) queue_inst" where
  "ex_queue \<equiv> list_queue None 0 (\<lambda>_ s. s)"

lemma queue_table_ok: "table_ok queue_bind_table"
  by (simp add: table_ok_def queue_bind_table_def NUL_def)

section \<open>Properties\<close>

text \<open>
  C2. Each server of an \<^verbatim>\<open>hcl::queue\<close> is a first-in first-out queue: any sequence of \<^verbatim>\<open>Push\<close>,
  \<^verbatim>\<open>Pop\<close> and \<^verbatim>\<open>Size\<close> of any clients succeeds with the results that one list per server gives; \<^verbatim>\<open>Pop\<close>
  on an empty server reports it.
\<close>

theorem queue_refines_fifo:
  assumes "queue_deployment I elems thl" "servers_inv queue_bind_table p (\<lambda>_. True) C w"
    and "\<forall>x \<in> set xs. addressed queue_addr C w x"
  shows "\<exists>w'. run_cmds (queue_exec I p thl) xs w =
      Inr (fst (run_spec (at_index queue_addr (queue_step (GetData (qi_assign I)) (qi_default I))) xs (servers_view elems w)), w')
    \<and> servers_inv queue_bind_table p (\<lambda>_. True) C w'
    \<and> servers_view elems w' =
        snd (run_spec (at_index queue_addr (queue_step (GetData (qi_assign I)) (qi_default I))) xs (servers_view elems w))"
  using queue_deployment.queue_runs [OF assms] .

theorem queue_refines_fifo_witness:
  "\<exists>w'. run_cmds (queue_exec ex_queue (ex_process 2) (direct_engine (queue_handler ex_queue)))
      [Push_At (ex_client 2 1 True) 1 7, Push_At (ex_client 2 0 False) 1 8, Size_At (ex_client 2 0 False) 1,
       Pop_At (ex_client 2 0 True) 1, Pop_At (ex_client 2 0 True) 0]
      (ex_cluster queue_bind_table [[], []]) =
    Inr ([Pushed True, Pushed True, Sized 2, Popped (True, 7), Popped (False, 0)], w')"
proof -
  have h: "servers_inv queue_bind_table (ex_process 2) (\<lambda>_. True) (ex_clients 2)
      (ex_cluster queue_bind_table [[], []] :: (nat list, queue_op) cluster)"
    by (rule ex_servers_inv [OF queue_table_ok]) simp_all
  have "servers_view (\<lambda>q. q) (ex_cluster queue_bind_table [[], []] :: (nat list, queue_op) cluster) = [[], []]"
    by (simp add: servers_view_def ex_cluster_def)
  then show ?thesis
    using queue_refines_fifo [OF lqueue.queue_deployment_axioms [where assign = None and dflt = 0 and others = "\<lambda>_ s. s"] h, of "[Push_At (ex_client 2 1 True) 1 7,
        Push_At (ex_client 2 0 False) 1 8, Size_At (ex_client 2 0 False) 1, Pop_At (ex_client 2 0 True) 1,
        Pop_At (ex_client 2 0 True) 0]"]
    by (auto simp: GetData_def addressed_def at_index_def Let_def simp del: run_cmds.simps)
qed


definition ex_waiting :: "(nat, nat list) queue_inst" where
  "ex_waiting = list_queue None 0 (\<lambda>t s. if t = 1 then s\<lparr>obj := [4]\<rparr> else s)"


end
