(* ===== verification/Hcl_Priority_Queue.thy ===== *)
theory Hcl_Priority_Queue
  imports Hcl_Launch "HOL-Library.Multiset"
begin

text \<open>
  \<^verbatim>\<open>hcl::priority_queue\<close> (\<^verbatim>\<open>include/hcl/priority_queue/priority_queue.h\<close>, \<^verbatim>\<open>.cpp\<close>): one
  \<^verbatim>\<open>std::priority_queue\<close> per server, named by the caller. The adaptor of the standard library with
  \<^verbatim>\<open>std::less\<close> is a list in descending order: \<^verbatim>\<open>top\<close> is a largest element and \<^verbatim>\<open>pop\<close> removes it.
\<close>

section \<open>\<^verbatim>\<open>std::priority_queue\<close>\<close>

fun std_push :: "'v::linorder \<Rightarrow> 'v list \<Rightarrow> 'v list" where
  "std_push x [] = [x]"
| "std_push x (y # ys) = (if y < x then x # y # ys else y # std_push x ys)"

definition std_top :: "'v list \<Rightarrow> 'v" where
  "std_top q = hd q"

definition std_pop :: "'v list \<Rightarrow> 'v list" where
  "std_pop q = tl q"

abbreviation descending :: "'v::linorder list \<Rightarrow> bool" where
  "descending q \<equiv> sorted_wrt (\<ge>) q"

lemma mset_std_push [simp]: "mset (std_push x q) = add_mset x (mset q)"
  by (induction q) auto

lemma set_std_push [simp]: "set (std_push x q) = insert x (set q)"
  by (induction q) auto

lemma descending_std_push: "descending q \<Longrightarrow> descending (std_push x q)"
  by (induction q) auto

lemma std_top_Max:
  assumes "descending q" "q \<noteq> []"
  shows "std_top q = Max_mset (mset q)" "mset (std_pop q) = mset q - {#std_top q#}" "descending (std_pop q)"
proof -
  obtain y ys where q: "q = y # ys" using assms(2) by (cases q) auto
  then have "Max (set q) = y" using assms(1) by (intro Max_eqI) auto
  then show "std_top q = Max_mset (mset q)" using q by (simp add: std_top_def)
  show "mset (std_pop q) = mset q - {#std_top q#}" "descending (std_pop q)"
    using q assms(1) by (simp_all add: std_top_def std_pop_def)
qed

section \<open>The class\<close>

record 'v pq_inst =
  pq_assign :: "('v \<Rightarrow> 'v) option"
  pq_default :: 'v

datatype pq_op = PqPush | PqPop | PqTop | PqSize

definition pq_bind_table :: "(string \<times> pq_op) list" where
  "pq_bind_table = [(''_Push'', PqPush), (''_Pop'', PqPop), (''_Top'', PqTop), (''_Size'', PqSize)]"

definition pq_construct_shared_memory where
  "pq_construct_shared_memory bip = construct_object bip (\<lambda>_. ''Queue'') []"

definition pq_open_shared_memory where
  "pq_open_shared_memory bip = open_object bip (\<lambda>_. ''Queue'')"

definition pq_ctor where
  "pq_ctor bip p nm prt n idx mem srv on_node dir fs =
     ctor_with p (pq_construct_shared_memory bip) (pq_open_shared_memory bip) pq_bind_table
       (container_ctor bip p nm prt n idx mem srv on_node dir fs)"

definition pq_dtor where
  "pq_dtor bip c = derived_dtor bip c"

definition pq_data where
  "pq_data c ptr = shared_data c ptr"

lemma pq_ctor_derived: "pq_ctor bip p = derived_ctor bip p (\<lambda>_. ''Queue'') [] pq_bind_table"
  by (simp add: fun_eq_iff pq_ctor_def derived_ctor_def pq_construct_shared_memory_def pq_open_shared_memory_def)

definition pq_push_body :: "'v::linorder pq_inst \<Rightarrow> 'v \<Rightarrow> 'v list \<Rightarrow> bool \<times> 'v list" where
  "pq_push_body I dat q = (True, std_push (GetData (pq_assign I) dat) q)"

definition pq_LocalPush where
  "pq_LocalPush I dat = scoped_lock (pq_push_body I dat)"

definition pq_pop_body :: "'v pq_inst \<Rightarrow> 'v list \<Rightarrow> (bool \<times> 'v) \<times> 'v list" where
  "pq_pop_body I q = (if length q > 0 then ((True, std_top q), std_pop q) else ((False, pq_default I), q))"

definition pq_LocalPop where
  "pq_LocalPop I = scoped_lock (pq_pop_body I)"

definition pq_top_body :: "'v pq_inst \<Rightarrow> 'v list \<Rightarrow> (bool \<times> 'v) \<times> 'v list" where
  "pq_top_body I q = (if length q > 0 then (True, std_top q) else (False, pq_default I), q)"

definition pq_LocalTop where
  "pq_LocalTop I = scoped_lock (pq_top_body I)"

definition pq_size_body :: "'v list \<Rightarrow> u64 \<times> 'v list" where
  "pq_size_body q = (of_nat (length q), q)"

definition pq_LocalSize where
  "pq_LocalSize = scoped_lock pq_size_body"

fun pq_handler ::
  "'v::linorder pq_inst \<Rightarrow> pq_op \<Rightarrow> (unit, 'v) request \<Rightarrow> container \<Rightarrow> 'v list shm
     \<Rightarrow> ((unit, 'v) response \<times> 'v list shm) result" where
  "pq_handler I PqPush (QVal v) c s = THALLIUM_DEFINE RBool (pq_LocalPush I v s)"
| "pq_handler I PqPop QNone c s = THALLIUM_DEFINE RVal (pq_LocalPop I s)"
| "pq_handler I PqTop QNone c s = THALLIUM_DEFINE RVal (pq_LocalTop I s)"
| "pq_handler I PqSize QNone c s = THALLIUM_DEFINE RSize (pq_LocalSize s)"
| "pq_handler I op q c s = Inl Bad_Message"

type_synonym 'v pq_cluster = "('v list, pq_op) cluster"
type_synonym 'v pq_thallium = "('v list, pq_op, (unit, 'v) request, (unit, 'v) response) thallium"

definition pq_Push ::
  "'v::linorder pq_inst \<Rightarrow> hcl_process \<Rightarrow> 'v pq_thallium \<Rightarrow> container \<Rightarrow> 'v \<Rightarrow> u16 \<Rightarrow> 'v pq_cluster
     \<Rightarrow> (bool \<times> 'v pq_cluster) result" where
  "pq_Push I p thl c dat key_int w =
     (if is_local c key_int then local_access c (pq_LocalPush I dat) w
      else RPC_CALL_WRAPPER p thl c ''_Push'' key_int as_bool (QVal dat) w)"

definition pq_Pop ::
  "'v pq_inst \<Rightarrow> hcl_process \<Rightarrow> 'v pq_thallium \<Rightarrow> container \<Rightarrow> u16 \<Rightarrow> 'v pq_cluster
     \<Rightarrow> ((bool \<times> 'v) \<times> 'v pq_cluster) result" where
  "pq_Pop I p thl c key_int w =
     (if is_local c key_int then local_access c (pq_LocalPop I) w
      else RPC_CALL_WRAPPER p thl c ''_Pop'' key_int as_val QNone w)"

definition pq_Top ::
  "'v pq_inst \<Rightarrow> hcl_process \<Rightarrow> 'v pq_thallium \<Rightarrow> container \<Rightarrow> u16 \<Rightarrow> 'v pq_cluster
     \<Rightarrow> ((bool \<times> 'v) \<times> 'v pq_cluster) result" where
  "pq_Top I p thl c key_int w =
     (if is_local c key_int then local_access c (pq_LocalTop I) w
      else RPC_CALL_WRAPPER p thl c ''_Top'' key_int as_val QNone w)"

definition pq_Size ::
  "hcl_process \<Rightarrow> 'v pq_thallium \<Rightarrow> container \<Rightarrow> u16 \<Rightarrow> 'v pq_cluster \<Rightarrow> (u64 \<times> 'v pq_cluster) result" where
  "pq_Size p thl c key_int w =
     (if is_local c key_int then local_access c pq_LocalSize w
      else RPC_CALL_WRAPPER p thl c ''_Size'' key_int as_size QNone w)"

section \<open>The contract\<close>

datatype 'v pq_cmd = PqPush_At container u16 'v | PqPop_At container u16 | PqTop_At container u16 | PqSize_At container u16

datatype 'v pq_out = PqPushed bool | PqValue "bool \<times> 'v" | PqSized u64

primrec pq_exec where
  "pq_exec I p thl (PqPush_At c i v) w = rmap (\<lambda>(b, w). (PqPushed b, w)) (pq_Push I p thl c v i w)"
| "pq_exec I p thl (PqPop_At c i) w = rmap (\<lambda>(r, w). (PqValue r, w)) (pq_Pop I p thl c i w)"
| "pq_exec I p thl (PqTop_At c i) w = rmap (\<lambda>(r, w). (PqValue r, w)) (pq_Top I p thl c i w)"
| "pq_exec I p thl (PqSize_At c i) w = rmap (\<lambda>(n, w). (PqSized n, w)) (pq_Size p thl c i w)"

primrec pq_addr :: "'v pq_cmd \<Rightarrow> container \<times> u16" where
  "pq_addr (PqPush_At c i v) = (c, i)" | "pq_addr (PqPop_At c i) = (c, i)"
| "pq_addr (PqTop_At c i) = (c, i)" | "pq_addr (PqSize_At c i) = (c, i)"

primrec pq_body where
  "pq_body I (PqPush_At c i v) = returning PqPushed (pq_push_body I v)"
| "pq_body I (PqPop_At c i) = returning PqValue (pq_pop_body I)"
| "pq_body I (PqTop_At c i) = returning PqValue (pq_top_body I)"
| "pq_body I (PqSize_At c i) = returning PqSized pq_size_body"

text \<open>The specification: one multiset per server, from which the largest element is taken.\<close>

primrec pq_step :: "('v::linorder \<Rightarrow> 'v) \<Rightarrow> 'v \<Rightarrow> 'v pq_cmd \<Rightarrow> 'v multiset \<Rightarrow> 'v pq_out \<times> 'v multiset" where
  "pq_step stored dflt (PqPush_At c i v) m = (PqPushed True, add_mset (stored v) m)"
| "pq_step stored dflt (PqPop_At c i) m =
     (if m = {#} then (PqValue (False, dflt), {#}) else (PqValue (True, Max_mset m), m - {#Max_mset m#}))"
| "pq_step stored dflt (PqTop_At c i) m =
     (PqValue (if m = {#} then (False, dflt) else (True, Max_mset m)), m)"
| "pq_step stored dflt (PqSize_At c i) m = (PqSized (of_nat (size m)), m)"

lemma pq_table_simps [simp]:
  "map_of pq_bind_table ''_Push'' = Some PqPush" "map_of pq_bind_table ''_Pop'' = Some PqPop"
  "map_of pq_bind_table ''_Top'' = Some PqTop" "map_of pq_bind_table ''_Size'' = Some PqSize"
  by (simp_all add: pq_bind_table_def)

locale pq_deployment = transport thl "pq_handler I"
  for I :: "'v::linorder pq_inst" and thl :: "'v pq_thallium"
begin

lemma op_at_index:
  assumes "connected p pq_bind_table c w" "unat i < length w"
  shows "pq_Push I p thl c v i w = at_server (unat i) (scoped_lock (pq_push_body I v)) w"
    and "pq_Pop I p thl c i w = at_server (unat i) (scoped_lock (pq_pop_body I)) w"
    and "pq_Top I p thl c i w = at_server (unat i) (scoped_lock (pq_top_body I)) w"
    and "pq_Size p thl c i w = at_server (unat i) (scoped_lock pq_size_body) w"
  unfolding pq_Push_def pq_Pop_def pq_Size_def pq_Top_def
    pq_LocalPush_def [symmetric] pq_LocalPop_def [symmetric] pq_LocalTop_def [symmetric]
    pq_LocalSize_def [symmetric]
  by - (rule indexed_call [OF assms], simp, simp, simp)+

end

text \<open>The body of each command, its effect on the multiset and on the order.\<close>

lemma pq_body_laws:
  assumes "descending q"
  shows "descending (snd (pq_push_body I v q))" "descending (snd (pq_pop_body I q))"
    "mset (snd (pq_push_body I v q)) = add_mset (GetData (pq_assign I) v) (mset q)"
    "fst (pq_pop_body I q) = (if mset q = {#} then (False, pq_default I) else (True, Max_mset (mset q)))"
    "mset (snd (pq_pop_body I q)) = (if mset q = {#} then {#} else mset q - {#Max_mset (mset q)#})"
    "pq_top_body I q = (if mset q = {#} then (False, pq_default I) else (True, Max_mset (mset q)), q)"
  using assms std_top_Max [OF assms]
  by (auto simp: pq_push_body_def pq_pop_body_def pq_top_body_def descending_std_push)

sublocale pq_deployment \<subseteq> indexed_service pq_bind_table p "pq_exec I p thl" pq_addr "pq_body I" descending
  mset "pq_step (GetData (pq_assign I)) (pq_default I)" for p
proof
  fix x :: "'v pq_cmd" and w :: "'v pq_cluster" and q :: "'v list"
  show "descending (snd (pq_body I x q))"
    and "pq_step (GetData (pq_assign I)) (pq_default I) x (mset q) =
      (fst (pq_body I x q), mset (snd (pq_body I x q)))" if "descending q"
    using pq_body_laws [OF that] that
    by (cases x; simp add: pq_push_body_def pq_size_body_def del: mset_zero_iff)+
  assume "connected p pq_bind_table (fst (pq_addr x)) w" "unat (snd (pq_addr x)) < length w"
  then show "pq_exec I p thl x w = at_server (unat (snd (pq_addr x))) (scoped_lock (pq_body I x)) w"
    using op_at_index [of p "fst (pq_addr x)" w "snd (pq_addr x)"]
    by (cases x) (simp_all add: at_server_returning)
qed

context pq_deployment
begin

lemmas pq_runs = run_simulates

end

section \<open>An instance\<close>

interpretation dpq: pq_deployment I "direct_engine (pq_handler I)" for I :: "'v::linorder pq_inst"
  unfolding pq_deployment_def by (rule direct.transport_axioms)

abbreviation ex_pq :: "nat pq_inst" where
  "ex_pq \<equiv> \<lparr>pq_assign = None, pq_default = 0\<rparr>"

lemma pq_table_ok: "table_ok pq_bind_table"
  by (simp add: table_ok_def pq_bind_table_def NUL_def)

section \<open>Properties\<close>

text \<open>
  C6. Each server of an \<^verbatim>\<open>hcl::priority_queue\<close> is a priority queue: for any sequence of \<^verbatim>\<open>Push\<close>,
  \<^verbatim>\<open>Pop\<close>, \<^verbatim>\<open>Top\<close> and \<^verbatim>\<open>Size\<close> of any clients, \<^verbatim>\<open>Top\<close> and \<^verbatim>\<open>Pop\<close> give the largest element of the
  addressed server, \<^verbatim>\<open>Pop\<close> removes one occurrence of it, and an empty server is reported.
\<close>

theorem pq_refines_multisets:
  assumes "pq_deployment I thl" "servers_inv pq_bind_table p descending C w"
    and "\<forall>x \<in> set xs. addressed pq_addr C w x"
  shows "\<exists>w'. run_cmds (pq_exec I p thl) xs w =
      Inr (fst (run_spec (at_index pq_addr (pq_step (GetData (pq_assign I)) (pq_default I))) xs (servers_view mset w)), w')
    \<and> servers_inv pq_bind_table p descending C w'
    \<and> servers_view mset w' = snd (run_spec (at_index pq_addr (pq_step (GetData (pq_assign I)) (pq_default I))) xs (servers_view mset w))"
  using pq_deployment.pq_runs [OF assms] .

theorem pq_refines_multisets_witness:
  "\<exists>w'. run_cmds (pq_exec ex_pq (ex_process 2) (direct_engine (pq_handler ex_pq)))
      [PqPush_At (ex_client 2 1 True) 1 7, PqPush_At (ex_client 2 0 False) 1 9, PqTop_At (ex_client 2 0 False) 1,
       PqPop_At (ex_client 2 0 True) 1, PqPop_At (ex_client 2 0 True) 1, PqPop_At (ex_client 2 0 True) 1]
      (ex_cluster pq_bind_table [[], []]) =
    Inr ([PqPushed True, PqPushed True, PqValue (True, 9), PqValue (True, 9), PqValue (True, 7),
          PqValue (False, 0)], w')"
proof -
  have h: "servers_inv pq_bind_table (ex_process 2) descending (ex_clients 2)
      (ex_cluster pq_bind_table [[], []] :: nat pq_cluster)"
    by (rule ex_servers_inv [OF pq_table_ok]) simp_all
  show ?thesis
    using pq_refines_multisets [OF dpq.pq_deployment_axioms [of ex_pq] h, of "[PqPush_At (ex_client 2 1 True) 1 7,
        PqPush_At (ex_client 2 0 False) 1 9, PqTop_At (ex_client 2 0 False) 1,
        PqPop_At (ex_client 2 0 True) 1, PqPop_At (ex_client 2 0 True) 1, PqPop_At (ex_client 2 0 True) 1]"]
    by (auto simp: GetData_def addressed_def at_index_def Let_def simp del: run_cmds.simps)
qed

end
