(* ===== verification/Hcl_Vector.thy ===== *)
theory Hcl_Vector
  imports Hcl_Launch
begin

text \<open>
  \<^verbatim>\<open>hcl::vector\<close> (\<^verbatim>\<open>include/hcl/vector/vector.h\<close>, \<^verbatim>\<open>vector.cpp\<close>): one growing vector per server;
  the caller names the server of every operation by its index.
\<close>

section \<open>The class\<close>

record ('v, 'q) vector_inst =
  vi_ops :: "('v, 'q) vector_ops"
  vi_assign :: "('v \<Rightarrow> 'v) option"
  vi_default :: 'v

datatype vector_op = VePush | VeGet | VeSize

definition vector_bind_table :: "(string \<times> vector_op) list" where
  "vector_bind_table = [(''_Push'', VePush), (''_Get'', VeGet), (''_Size'', VeSize)]"

definition vector_construct_shared_memory where
  "vector_construct_shared_memory bip I = construct_object bip (\<lambda>_. ''Vector'') (vo_empty (vi_ops I))"

definition vector_open_shared_memory where
  "vector_open_shared_memory bip = open_object bip (\<lambda>_. ''Vector'')"

definition vector_ctor where
  "vector_ctor bip p I nm prt n idx mem srv on_node dir fs =
     ctor_with p (vector_construct_shared_memory bip I) (vector_open_shared_memory bip) vector_bind_table
       (container_ctor bip p nm prt n idx mem srv on_node dir fs)"

definition vector_dtor where
  "vector_dtor bip c = derived_dtor bip c"

definition vector_data where
  "vector_data c ptr = shared_data c ptr"

lemma vector_ctor_derived: "vector_ctor bip p I = derived_ctor bip p (\<lambda>_. ''Vector'') (vo_empty (vi_ops I)) vector_bind_table"
  by (simp add: fun_eq_iff vector_ctor_def derived_ctor_def vector_construct_shared_memory_def vector_open_shared_memory_def)

section \<open>Operations on one server\<close>

definition vector_push_body :: "('v, 'q) vector_inst \<Rightarrow> 'v \<Rightarrow> 'q \<Rightarrow> bool \<times> 'q" where
  "vector_push_body I dat q = (True, vo_push_back (vi_ops I) (GetData (vi_assign I) dat) q)"

definition vector_LocalPush where
  "vector_LocalPush I dat = scoped_lock (vector_push_body I dat)"

text \<open>\<^verbatim>\<open>at\<close> throws outside the vector; the guard before it decides whether it is reached.\<close>

definition vector_LocalGet :: "('v, 'q) vector_inst \<Rightarrow> u64 \<Rightarrow> 'q shm \<Rightarrow> ((bool \<times> 'v) \<times> 'q shm) result" where
  "vector_LocalGet I index s =
     rbind (mutex_lock s) (\<lambda>s.
       if vo_size (vi_ops I) (obj s) > unat index
       then rmap (\<lambda>val. ((True, val), mutex_unlock s)) (vo_at (vi_ops I) (obj s) (unat index))
       else Inr ((False, vi_default I), mutex_unlock s))"

definition vector_size_body :: "('v, 'q) vector_inst \<Rightarrow> 'q \<Rightarrow> u64 \<times> 'q" where
  "vector_size_body I q = (of_nat (vo_size (vi_ops I) q), q)"

definition vector_LocalSize where
  "vector_LocalSize I = scoped_lock (vector_size_body I)"

fun vector_handler ::
  "('v, 'q) vector_inst \<Rightarrow> vector_op \<Rightarrow> (unit, 'v) request \<Rightarrow> container \<Rightarrow> 'q shm
     \<Rightarrow> ((unit, 'v) response \<times> 'q shm) result" where
  "vector_handler I VePush (QVal v) c s = THALLIUM_DEFINE RBool (vector_LocalPush I v s)"
| "vector_handler I VeGet (QIndex index) c s = THALLIUM_DEFINE RVal (vector_LocalGet I index s)"
| "vector_handler I VeSize QNone c s = THALLIUM_DEFINE RSize (vector_LocalSize I s)"
| "vector_handler I op q c s = Inl Bad_Message"

type_synonym ('v, 'q) vector_thallium = "('q, vector_op, (unit, 'v) request, (unit, 'v) response) thallium"

section \<open>Operations on the cluster\<close>

definition vector_Push ::
  "('v, 'q) vector_inst \<Rightarrow> hcl_process \<Rightarrow> ('v, 'q) vector_thallium \<Rightarrow> container \<Rightarrow> 'v \<Rightarrow> u16
     \<Rightarrow> ('q, vector_op) cluster \<Rightarrow> (bool \<times> ('q, vector_op) cluster) result" where
  "vector_Push I p thl c dat key_int w =
     (if is_local c key_int then local_access c (vector_LocalPush I dat) w
      else RPC_CALL_WRAPPER p thl c ''_Push'' key_int as_bool (QVal dat) w)"

definition vector_Get ::
  "('v, 'q) vector_inst \<Rightarrow> hcl_process \<Rightarrow> ('v, 'q) vector_thallium \<Rightarrow> container \<Rightarrow> u64 \<Rightarrow> u16
     \<Rightarrow> ('q, vector_op) cluster \<Rightarrow> ((bool \<times> 'v) \<times> ('q, vector_op) cluster) result" where
  "vector_Get I p thl c index key_int w =
     (if is_local c key_int then local_access c (vector_LocalGet I index) w
      else RPC_CALL_WRAPPER p thl c ''_Get'' key_int as_val (QIndex index) w)"

definition vector_Size ::
  "('v, 'q) vector_inst \<Rightarrow> hcl_process \<Rightarrow> ('v, 'q) vector_thallium \<Rightarrow> container \<Rightarrow> u16
     \<Rightarrow> ('q, vector_op) cluster \<Rightarrow> (u64 \<times> ('q, vector_op) cluster) result" where
  "vector_Size I p thl c key_int w =
     (if is_local c key_int then local_access c (vector_LocalSize I) w
      else RPC_CALL_WRAPPER p thl c ''_Size'' key_int as_size QNone w)"

section \<open>The contract\<close>

datatype 'v vector_cmd = VPush_At container u16 'v | VGet_At container u16 u64 | VSize_At container u16

datatype 'v vector_out = VPushed bool | VGot "bool \<times> 'v" | VSized u64

primrec vector_exec where
  "vector_exec I p thl (VPush_At c i v) w = rmap (\<lambda>(b, w). (VPushed b, w)) (vector_Push I p thl c v i w)"
| "vector_exec I p thl (VGet_At c i n) w = rmap (\<lambda>(r, w). (VGot r, w)) (vector_Get I p thl c n i w)"
| "vector_exec I p thl (VSize_At c i) w = rmap (\<lambda>(n, w). (VSized n, w)) (vector_Size I p thl c i w)"

primrec vector_addr :: "'v vector_cmd \<Rightarrow> container \<times> u16" where
  "vector_addr (VPush_At c i v) = (c, i)" | "vector_addr (VGet_At c i n) = (c, i)" | "vector_addr (VSize_At c i) = (c, i)"

definition vector_get_body :: "('v, 'q) vector_inst \<Rightarrow> ('q \<Rightarrow> 'v list) \<Rightarrow> u64 \<Rightarrow> 'q \<Rightarrow> (bool \<times> 'v) \<times> 'q" where
  "vector_get_body I elems n q =
     (if unat n < length (elems q) then (True, elems q ! unat n) else (False, vi_default I), q)"

primrec vector_body where
  "vector_body I elems (VPush_At c i v) = returning VPushed (vector_push_body I v)"
| "vector_body I elems (VGet_At c i n) = returning VGot (vector_get_body I elems n)"
| "vector_body I elems (VSize_At c i) = returning VSized (vector_size_body I)"

text \<open>The specification: one list per server that only grows at its end.\<close>

primrec vector_step :: "('v \<Rightarrow> 'v) \<Rightarrow> 'v \<Rightarrow> 'v vector_cmd \<Rightarrow> 'v list \<Rightarrow> 'v vector_out \<times> 'v list" where
  "vector_step stored dflt (VPush_At c i v) xs = (VPushed True, xs @ [stored v])"
| "vector_step stored dflt (VGet_At c i n) xs =
     (VGot (if unat n < length xs then (True, xs ! unat n) else (False, dflt)), xs)"
| "vector_step stored dflt (VSize_At c i) xs = (VSized (of_nat (length xs)), xs)"

lemma vector_table_simps [simp]:
  "map_of vector_bind_table ''_Push'' = Some VePush" "map_of vector_bind_table ''_Get'' = Some VeGet"
  "map_of vector_bind_table ''_Size'' = Some VeSize"
  by (simp_all add: vector_bind_table_def)

locale vector_deployment = transport thl "vector_handler I" + vector_container "vi_ops I" elems
  for I :: "('v, 'q) vector_inst" and elems :: "'q \<Rightarrow> 'v list" and thl :: "('v, 'q) vector_thallium"
begin

lemma LocalGet_never_throws: "vector_LocalGet I n = scoped_lock (vector_get_body I elems n)"
proof
  fix s :: "'q shm"
  show "vector_LocalGet I n s = scoped_lock (vector_get_body I elems n) s"
    by (cases "mtx s"; cases s)
       (simp_all add: vector_LocalGet_def scoped_lock_def mutex_lock_def mutex_unlock_def plain_access_def
          vector_get_body_def size at)
qed

lemma op_at_index:
  assumes "connected p vector_bind_table c w" "unat i < length w"
  shows "vector_Push I p thl c v i w = at_server (unat i) (scoped_lock (vector_push_body I v)) w"
    and "vector_Get I p thl c n i w = at_server (unat i) (scoped_lock (vector_get_body I elems n)) w"
    and "vector_Size I p thl c i w = at_server (unat i) (scoped_lock (vector_size_body I)) w"
  unfolding vector_Push_def vector_Get_def vector_Size_def
    vector_LocalPush_def [symmetric] LocalGet_never_throws [symmetric] vector_LocalSize_def [symmetric]
  by - (rule indexed_call [OF assms], simp, simp, simp)+

end

sublocale vector_deployment \<subseteq> indexed_service vector_bind_table p "vector_exec I p thl" vector_addr
  "vector_body I elems" "\<lambda>_. True" elems "vector_step (GetData (vi_assign I)) (vi_default I)" for p
proof
  fix x :: "'v vector_cmd" and w :: "('q, vector_op) cluster" and q
  show "vector_step (GetData (vi_assign I)) (vi_default I) x (elems q) =
      (fst (vector_body I elems x q), elems (snd (vector_body I elems x q)))"
    by (cases x) (simp_all add: vector_push_body_def vector_size_body_def vector_get_body_def elems_push size)
  assume "connected p vector_bind_table (fst (vector_addr x)) w" "unat (snd (vector_addr x)) < length w"
  then show "vector_exec I p thl x w =
      at_server (unat (snd (vector_addr x))) (scoped_lock (vector_body I elems x)) w"
    using op_at_index [of p "fst (vector_addr x)" w "snd (vector_addr x)"]
    by (cases x) (simp_all add: at_server_returning)
qed simp

context vector_deployment
begin

lemmas vector_runs = run_simulates

end

section \<open>An instance\<close>

abbreviation ex_vector :: "(nat, nat list) vector_inst" where
  "ex_vector \<equiv> \<lparr>vi_ops = list_vector_ops, vi_assign = None, vi_default = 0\<rparr>"

interpretation dvector: vector_deployment "\<lparr>vi_ops = list_vector_ops, vi_assign = assign, vi_default = dflt\<rparr>" "\<lambda>q. q"
  "direct_engine (vector_handler \<lparr>vi_ops = list_vector_ops, vi_assign = assign, vi_default = dflt\<rparr>)"
  for assign :: "('v \<Rightarrow> 'v) option" and dflt :: 'v
  unfolding vector_deployment_def
  by (simp add: direct.transport_axioms lvector.vector_container_axioms)

lemma vector_table_ok: "table_ok vector_bind_table"
  by (simp add: table_ok_def vector_bind_table_def NUL_def)

section \<open>Properties\<close>

text \<open>
  C9. Each server of an \<^verbatim>\<open>hcl::vector\<close> is a vector: for any sequence of \<^verbatim>\<open>Push\<close>, \<^verbatim>\<open>Get\<close> and
  \<^verbatim>\<open>Size\<close> of any clients, an element is found under the index it was pushed at, an index past the
  end is reported and never reaches \<^verbatim>\<open>at\<close> (which would throw), and nothing else changes.
\<close>

theorem vector_refines_lists:
  assumes "vector_deployment I elems thl" "servers_inv vector_bind_table p (\<lambda>_. True) C w"
    and "\<forall>x \<in> set xs. addressed vector_addr C w x"
  shows "\<exists>w'. run_cmds (vector_exec I p thl) xs w =
      Inr (fst (run_spec (at_index vector_addr (vector_step (GetData (vi_assign I)) (vi_default I))) xs
        (servers_view elems w)), w')
    \<and> servers_inv vector_bind_table p (\<lambda>_. True) C w'
    \<and> servers_view elems w' =
        snd (run_spec (at_index vector_addr (vector_step (GetData (vi_assign I)) (vi_default I))) xs
          (servers_view elems w))"
  using vector_deployment.vector_runs [OF assms] .

theorem vector_refines_lists_witness:
  "\<exists>w'. run_cmds (vector_exec ex_vector (ex_process 2) (direct_engine (vector_handler ex_vector)))
      [VPush_At (ex_client 2 1 True) 1 7, VPush_At (ex_client 2 0 False) 1 8, VGet_At (ex_client 2 0 False) 1 1,
       VGet_At (ex_client 2 0 True) 1 2, VSize_At (ex_client 2 0 True) 1]
      (ex_cluster vector_bind_table [[], []]) =
    Inr ([VPushed True, VPushed True, VGot (True, 8), VGot (False, 0), VSized 2], w')"
proof -
  have h: "servers_inv vector_bind_table (ex_process 2) (\<lambda>_. True) (ex_clients 2)
      (ex_cluster vector_bind_table [[], []] :: (nat list, vector_op) cluster)"
    by (rule ex_servers_inv [OF vector_table_ok]) simp_all
  show ?thesis
    using vector_refines_lists [OF dvector.vector_deployment_axioms [where assign = None and dflt = 0] h,
        of "[VPush_At (ex_client 2 1 True) 1 7, VPush_At (ex_client 2 0 False) 1 8,
             VGet_At (ex_client 2 0 False) 1 1, VGet_At (ex_client 2 0 True) 1 2, VSize_At (ex_client 2 0 True) 1]"]
    by (auto simp: GetData_def addressed_def at_index_def Let_def simp del: run_cmds.simps)
qed

end
