(* ===== verification/Hcl_Sequence.thy ===== *)
theory Hcl_Sequence
  imports Hcl_Launch
begin

text \<open>
  \<^verbatim>\<open>hcl::global_sequence\<close> (\<^verbatim>\<open>include/hcl/sequencer/global_sequence.h\<close>): one 64-bit counter per
  server, incremented under the mutex of its segment.
\<close>

datatype seq_op = SqGetNextSequence

definition seq_bind_table :: "(string \<times> seq_op) list" where
  "seq_bind_table = [(''_GetNextSequence'', SqGetNextSequence)]"

definition seq_ctor where
  "seq_ctor bip p = derived_ctor bip p (\<lambda>c. visible (cont_name c)) (0 :: u64) seq_bind_table"

text \<open>\<^verbatim>\<open>return ++*value\<close>\<close>

definition seq_next_body :: "u64 \<Rightarrow> u64 \<times> u64" where
  "seq_next_body val = (val + 1, val + 1)"

definition seq_LocalGetNextSequence :: "u64 shm \<Rightarrow> (u64 \<times> u64 shm) result" where
  "seq_LocalGetNextSequence = scoped_lock seq_next_body"

fun seq_handler ::
  "seq_op \<Rightarrow> (unit, unit) request \<Rightarrow> container \<Rightarrow> u64 shm \<Rightarrow> ((unit, unit) response \<times> u64 shm) result" where
  "seq_handler SqGetNextSequence QNone c s = THALLIUM_DEFINE RSize (seq_LocalGetNextSequence s)"
| "seq_handler SqGetNextSequence q c s = Inl Bad_Message"

type_synonym seq_cluster = "(u64, seq_op) cluster"
type_synonym seq_thallium = "(u64, seq_op, (unit, unit) request, (unit, unit) response) thallium"

definition seq_GetNextSequence ::
  "hcl_process \<Rightarrow> seq_thallium \<Rightarrow> container \<Rightarrow> seq_cluster \<Rightarrow> (u64 \<times> seq_cluster) result" where
  "seq_GetNextSequence p thl c w =
     (if is_local_node c then local_access c seq_LocalGetNextSequence w
      else let my_server_i = my_server_idx c
           in RPC_CALL_WRAPPER p thl c ''_GetNextSequence'' my_server_i as_size QNone w)"

definition seq_GetNextSequenceServer ::
  "hcl_process \<Rightarrow> seq_thallium \<Rightarrow> container \<Rightarrow> u16 \<Rightarrow> seq_cluster \<Rightarrow> (u64 \<times> seq_cluster) result" where
  "seq_GetNextSequenceServer p thl c server w =
     (if is_local c server then local_access c seq_LocalGetNextSequence w
      else RPC_CALL_WRAPPER p thl c ''_GetNextSequence'' server as_size QNone w)"

section \<open>The contract\<close>

datatype seq_cmd = Next container | Next_At container u16

primrec seq_exec where
  "seq_exec p thl (Next c) w = seq_GetNextSequence p thl c w"
| "seq_exec p thl (Next_At c i) w = seq_GetNextSequenceServer p thl c i w"

primrec seq_addr :: "seq_cmd \<Rightarrow> container \<times> u16" where
  "seq_addr (Next c) = (c, my_server_idx c)" | "seq_addr (Next_At c i) = (c, i)"

definition seq_step :: "seq_cmd \<Rightarrow> u64 \<Rightarrow> u64 \<times> u64" where
  "seq_step x v = (v + 1, v + 1)"

lemma seq_table_simps [simp]: "map_of seq_bind_table ''_GetNextSequence'' = Some SqGetNextSequence"
  by (simp add: seq_bind_table_def)

locale seq_deployment = transport thl seq_handler for thl :: seq_thallium

sublocale seq_deployment \<subseteq> indexed_service seq_bind_table p "seq_exec p thl" seq_addr "\<lambda>x. seq_next_body"
  "\<lambda>_. True" "\<lambda>v. v" seq_step for p
proof
  fix x :: seq_cmd and w :: seq_cluster and d :: u64
  show "seq_step x d = (fst (seq_next_body d), snd (seq_next_body d))"
    by (simp add: seq_step_def seq_next_body_def)
  assume con: "connected p seq_bind_table (fst (seq_addr x)) w" "unat (snd (seq_addr x)) < length w"
  show "seq_exec p thl x w = at_server (unat (snd (seq_addr x))) (scoped_lock seq_next_body) w"
  proof (cases x)
    case (Next c)
    have "connected p seq_bind_table c w" using con Next by simp
    from node_call [where dec = as_size, OF this, of "''_GetNextSequence''" SqGetNextSequence QNone RSize
        seq_LocalGetNextSequence] show ?thesis
      by (simp add: Next seq_GetNextSequence_def Let_def seq_LocalGetNextSequence_def split: if_splits)
  next
    case (Next_At c i)
    have "connected p seq_bind_table c w" "unat i < length w" using con Next_At by simp_all
    from indexed_call [where dec = as_size, OF this, of "''_GetNextSequence''" SqGetNextSequence QNone RSize
        seq_LocalGetNextSequence] show ?thesis
      by (simp add: Next_At seq_GetNextSequenceServer_def seq_LocalGetNextSequence_def split: if_splits)
  qed
qed simp

context seq_deployment
begin

lemmas seq_runs = run_simulates

end

interpretation dseq: seq_deployment "direct_engine seq_handler"
  unfolding seq_deployment_def by (rule direct.transport_axioms)

lemma seq_table_ok: "table_ok seq_bind_table"
  by (simp add: table_ok_def seq_bind_table_def NUL_def)

section \<open>Numbers handed out\<close>

text \<open>The calls among the first \<open>j + 1\<close> that reach the server of call \<open>j\<close>.\<close>

definition calls_to :: "seq_cmd list \<Rightarrow> nat \<Rightarrow> nat" where
  "calls_to xs j = length (filter (\<lambda>x. snd (seq_addr x) = snd (seq_addr (xs ! j))) (take (Suc j) xs))"

abbreviation seq_spec :: "seq_cmd list \<Rightarrow> u64 list \<Rightarrow> u64 list \<times> u64 list" where
  "seq_spec \<equiv> run_spec (at_index seq_addr seq_step)"

lemma length_run_spec [simp]: "length (fst (run_spec step xs as)) = length xs"
  by (induction xs arbitrary: "as") (simp_all add: Let_def case_prod_beta)

lemma seq_outputs:
  assumes "\<forall>x \<in> set xs. unat (snd (seq_addr x)) < length as" "j < length xs"
  shows "fst (seq_spec xs as) ! j = as ! unat (snd (seq_addr (xs ! j))) + of_nat (calls_to xs j)"
  using assms
proof (induction xs arbitrary: "as" j)
  case (Cons x xs)
  let ?i = "unat (snd (seq_addr x))"
  define as' where "as' = as[?i := as ! ?i + 1]"
  have out: "fst (seq_spec (x # xs) as) = (as ! ?i + 1) # fst (seq_spec xs as')"
    by (simp add: at_index_def seq_step_def Let_def case_prod_beta as'_def)
  show ?case
  proof (cases j)
    case 0
    then show ?thesis unfolding out by (simp add: calls_to_def)
  next
    case (Suc k)
    then have k: "k < length xs" using Cons.prems by simp
    have "fst (seq_spec xs as') ! k = as' ! unat (snd (seq_addr (xs ! k))) + of_nat (calls_to xs k)"
      using Cons.IH [of as' k] Cons.prems k by (simp add: as'_def)
    then show ?thesis
      using Suc k Cons.prems unfolding out
      by (auto simp: calls_to_def as'_def nth_list_update add.assoc dest: word_unat_eq_iff [THEN iffD2])
  qed
qed simp

lemma calls_to_less:
  assumes "i < j" "j < length xs" "snd (seq_addr (xs ! i)) = snd (seq_addr (xs ! j))"
  shows "calls_to xs i < calls_to xs j"
proof -
  let ?P = "\<lambda>x. snd (seq_addr x) = snd (seq_addr (xs ! j))"
  have "take (Suc j) xs = take (Suc i) xs @ drop (Suc i) (take j xs) @ [xs ! j]"
    using assms(1,2) by (metis Suc_leI append_assoc append_take_drop_id min.absorb1 take_Suc_conv_app_nth take_take)
  then show ?thesis using assms(3) by (simp add: calls_to_def)
qed

lemma calls_to_bound: "j < length xs \<Longrightarrow> calls_to xs j \<le> length xs"
  unfolding calls_to_def by (rule order_trans [OF length_filter_le]) simp

lemma seq_outputs_distinct:
  assumes "\<forall>x \<in> set xs. unat (snd (seq_addr x)) < length as" "length xs < 2 ^ 64"
    and "i < j" "j < length xs" "snd (seq_addr (xs ! i)) = snd (seq_addr (xs ! j))"
  shows "fst (seq_spec xs as) ! i \<noteq> fst (seq_spec xs as) ! j"
proof -
  have "calls_to xs i < calls_to xs j" "calls_to xs j < 2 ^ 64"
    using calls_to_less [OF assms(3-5)] calls_to_bound [OF assms(4)] assms(2) by simp_all
  then have "(of_nat (calls_to xs i) :: u64) \<noteq> of_nat (calls_to xs j)"
    by (simp add: unat_of_nat word_unat_eq_iff)
  then show ?thesis using seq_outputs [OF assms(1)] assms(3-5) by simp
qed

section \<open>Properties\<close>

text \<open>
  C8. Sequence numbers are consecutive: whichever clients call, locally or remotely, the call that is
  the \<open>k\<close>-th to reach a server returns the counter of that server at the start plus \<open>k\<close> (modulo
  \<open>2 ^ 64\<close>), and no call fails.
\<close>

theorem sequence_consecutive:
  assumes "seq_deployment thl" "servers_inv seq_bind_table p (\<lambda>_. True) C w"
    and "\<forall>x \<in> set xs. addressed seq_addr C w x"
  shows "\<exists>outs w'. run_cmds (seq_exec p thl) xs w = Inr (outs, w') \<and> length outs = length xs
    \<and> (\<forall>j < length xs. outs ! j = obj (seg (w ! unat (snd (seq_addr (xs ! j))))) + of_nat (calls_to xs j))"
proof -
  have v: "\<forall>x \<in> set xs. unat (snd (seq_addr x)) < length (servers_view (\<lambda>v. v) w)"
    using assms(3) by (simp add: addressed_def)
  then show ?thesis
    using seq_deployment.seq_runs [OF assms] seq_outputs [OF v] by fastforce
qed

theorem sequence_consecutive_witness:
  "\<exists>outs w'. run_cmds (seq_exec (ex_process 2) (direct_engine seq_handler))
      [Next (ex_client 2 1 True), Next_At (ex_client 2 0 False) 1, Next (ex_client 2 0 False)]
      (ex_cluster seq_bind_table [5, 0 :: u64]) = Inr (outs, w')
    \<and> outs ! 0 = 1 \<and> outs ! 1 = 2 \<and> outs ! 2 = 6"
proof -
  have h: "servers_inv seq_bind_table (ex_process 2) (\<lambda>_. True) (ex_clients 2)
      (ex_cluster seq_bind_table [5, 0 :: u64])"
    by (rule ex_servers_inv [OF seq_table_ok]) simp_all
  let ?xs = "[Next (ex_client 2 1 True), Next_At (ex_client 2 0 False) 1, Next (ex_client 2 0 False)]"
  have idx: "my_server_idx (ex_client 2 i b) = i" for i b by (simp add: ex_client_def)
  have "\<forall>x \<in> set ?xs. addressed seq_addr (ex_clients 2) (ex_cluster seq_bind_table [5, 0 :: u64]) x"
    by (simp add: addressed_def idx)
  from sequence_consecutive [OF dseq.seq_deployment_axioms h this] obtain outs w' where
    "run_cmds (seq_exec (ex_process 2) (direct_engine seq_handler)) ?xs
      (ex_cluster seq_bind_table [5, 0 :: u64]) = Inr (outs, w')"
    and o: "\<forall>j < length ?xs. outs ! j = obj (seg (ex_cluster seq_bind_table [5, 0 :: u64] !
        unat (snd (seq_addr (?xs ! j))))) + of_nat (calls_to ?xs j)"
    by blast
  moreover have "outs ! 0 = 1" "outs ! 1 = 2" "outs ! 2 = 6"
    using o [rule_format, of 0] o [rule_format, of 1] o [rule_format, of 2]
    by (simp_all add: calls_to_def idx)
  ultimately show ?thesis by blast
qed

text \<open>
  Fewer than \<open>2 ^ 64\<close> calls never obtain the same number twice from one server.
\<close>

theorem sequence_unique:
  assumes "seq_deployment thl" "servers_inv seq_bind_table p (\<lambda>_. True) C w"
    and "\<forall>x \<in> set xs. addressed seq_addr C w x" "length xs < 2 ^ 64"
    and "i < j" "j < length xs" "snd (seq_addr (xs ! i)) = snd (seq_addr (xs ! j))"
  shows "\<exists>outs w'. run_cmds (seq_exec p thl) xs w = Inr (outs, w') \<and> outs ! i \<noteq> outs ! j"
proof -
  have "\<forall>x \<in> set xs. unat (snd (seq_addr x)) < length (servers_view (\<lambda>v. v) w)"
    using assms(3) by (simp add: addressed_def)
  from seq_outputs_distinct [OF this assms(4-7)] show ?thesis
    using seq_deployment.seq_runs [OF assms(1-3)] by fastforce
qed

theorem sequence_unique_witness:
  "\<exists>outs w'. run_cmds (seq_exec (ex_process 1) (direct_engine seq_handler))
      [Next (ex_client 1 0 True), Next_At (ex_client 1 0 False) 0]
      (ex_cluster seq_bind_table [- 1 :: u64]) = Inr (outs, w') \<and> outs ! 0 \<noteq> outs ! 1"
proof -
  have h: "servers_inv seq_bind_table (ex_process 1) (\<lambda>_. True) (ex_clients 1)
      (ex_cluster seq_bind_table [- 1 :: u64])"
    by (rule ex_servers_inv [OF seq_table_ok]) simp_all
  have "my_server_idx (ex_client 1 0 b) = 0" for b by (simp add: ex_client_def)
  then show ?thesis
    by (intro sequence_unique [OF dseq.seq_deployment_axioms h]) (simp_all add: addressed_def)
qed

end
