(* ===== verification/Hcl_Clock.thy ===== *)
theory Hcl_Clock
  imports Hcl_Launch
begin

text \<open>
  \<^verbatim>\<open>hcl::global_clock\<close> (\<^verbatim>\<open>include/hcl/clock/global_clock.h\<close>, \<^verbatim>\<open>src/hcl/clock/global_clock.cpp\<close>):
  the start time of a server in a segment of its own; a query gives the microseconds since then.
  The class does not derive from \<^verbatim>\<open>container\<close>. A time point is the signed 64-bit count of nanoseconds of
  \<^verbatim>\<open>std::chrono\<close>, read by \<^const>\<open>sint\<close>; what the clock of the addressed machine shows at the query, \<open>now\<close>, is a parameter.
\<close>

section \<open>The class\<close>

type_synonym chrono_time = u64

record clock =
  clk_is_server :: bool
  clk_memory_allocated :: u64
  clk_num_servers :: int
  clk_my_server :: u16
  clk_name :: string
  clk_func_prefix :: string
  clk_port :: u16
  clk_server_on_node :: bool
  clk_backed_file :: charstruct

datatype clock_op = CkGetTime

definition global_clock_ctor ::
  "('f, chrono_time) segment_ops \<Rightarrow> hcl_process \<Rightarrow> string \<Rightarrow> u16 \<Rightarrow> chrono_time \<Rightarrow> 'f
     \<Rightarrow> (clock \<times> chrono_time option \<times> (string \<times> clock_op) list \<times> 'f) result" where
  "global_clock_ctor bip p nm prt now fs =
     rbind (cs_cat (Inr (BACKED_FILE_DIR (conf p))) (cs_of ''/'')) (\<lambda>dir.
     rbind (cs_plus_string fresh_mem dir nm) (\<lambda>bfile.
     let k = \<lparr>clk_is_server = IS_SERVER (conf p), clk_memory_allocated = 1024 * 1024 * 128,
              clk_num_servers = int (unat (NUM_SERVERS (conf p))), clk_my_server = MY_SERVER (conf p),
              clk_name = nm @ ''_'' @ to_string (unat (MY_SERVER (conf p))), clk_func_prefix = nm,
              clk_port = prt, clk_server_on_node = SERVER_ON_NODE (conf p), clk_backed_file = bfile\<rparr>;
         file = visible bfile
     in rbind (HCL_instance p) (\<lambda>p. rbind (GetRPC p prt) (\<lambda>r.
        if clk_is_server k
        then rbind (cs_of (nm @ ''_GetTime'')) (\<lambda>str.
             rbind (RPC_bind r str CkGetTime []) (\<lambda>b.
             rbind (bip_create_only bip file 65536 (bip_remove bip file fs)) (\<lambda>fs.
             rbind (bip_construct bip file ''Time'' now fs) (\<lambda>fs.
             rmap (\<lambda>fs. (k, Some now, b, fs)) (bip_construct_mutex bip file fs)))))
        else if \<not> clk_is_server k \<and> clk_server_on_node k
        then rmap (\<lambda>_. (k, bip_find bip file ''Time'' fs, [], fs)) (bip_open_only bip file fs)
        else Inr (k, None, [], fs)))))"

definition global_clock_dtor :: "('f, chrono_time) segment_ops \<Rightarrow> clock \<Rightarrow> 'f \<Rightarrow> 'f" where
  "global_clock_dtor bip k fs =
     (if clk_is_server k then bip_remove bip (visible (clk_backed_file k)) fs else fs)"

definition clock_data :: "clock \<Rightarrow> 'd shm \<Rightarrow> 'd option" where
  "clock_data k s = (if clk_server_on_node k \<or> clk_is_server k then Some (obj s) else None)"

definition clock_lock :: "clock \<Rightarrow> 'd shm \<Rightarrow> 'd shm result" where
  "clock_lock k s = (if clk_server_on_node k \<or> clk_is_server k then mutex_lock s else Inr s)"

definition clock_unlock :: "clock \<Rightarrow> 'd shm \<Rightarrow> 'd shm" where
  "clock_unlock k s = (if clk_server_on_node k \<or> clk_is_server k then mutex_unlock s else s)"

section \<open>Operations\<close>

text \<open>
  The difference of two time points, which C++ leaves undefined when it does not fit in 64 bits; \<^verbatim>\<open>duration_cast\<close> to
  microseconds truncates it towards zero, and the count becomes the unsigned \<^verbatim>\<open>HTime\<close>.
\<close>

definition microseconds :: "chrono_time \<Rightarrow> u64" where
  "microseconds d = word_of_int (if sint d < 0 then - (- sint d div 1000) else sint d div 1000)"

definition get_time_body :: "chrono_time \<Rightarrow> chrono_time \<Rightarrow> u64 \<times> chrono_time" where
  "get_time_body t2 start = (microseconds (t2 - start), start)"

definition LocalGetTime :: "chrono_time \<Rightarrow> chrono_time shm \<Rightarrow> (u64 \<times> chrono_time shm) result" where
  "LocalGetTime now = scoped_lock (get_time_body now)"

fun clock_handler ::
  "chrono_time \<Rightarrow> clock_op \<Rightarrow> (unit, unit) request \<Rightarrow> container \<Rightarrow> chrono_time shm
     \<Rightarrow> ((unit, unit) response \<times> chrono_time shm) result" where
  "clock_handler now CkGetTime QNone c s = THALLIUM_DEFINE RSize (LocalGetTime now s)"
| "clock_handler now CkGetTime q c s = Inl Bad_Message"

type_synonym clock_cluster = "(chrono_time, clock_op) cluster"
type_synonym clock_thallium = "(chrono_time, clock_op, (unit, unit) request, (unit, unit) response) thallium"

text \<open>\<^verbatim>\<open>RPC_CALL_WRAPPER1\<close> with the \<^verbatim>\<open>std::string\<close> prefix of this class.\<close>

definition clock_call ::
  "hcl_process \<Rightarrow> clock_thallium \<Rightarrow> clock \<Rightarrow> u16 \<Rightarrow> clock_cluster \<Rightarrow> (u64 \<times> clock_cluster) result" where
  "clock_call p thl k server w =
     rbind (HCL_instance p) (\<lambda>p. rbind (GetRPC p (clk_port k)) (\<lambda>r.
       rbind (cs_of (clk_func_prefix k @ ''_GetTime'')) (\<lambda>fn.
       rbind (RPC_call thl r server fn QNone w) (\<lambda>(resp, w). rmap (\<lambda>x. (x, w)) (as_size resp)))))"

definition clock_local ::
  "clock \<Rightarrow> (chrono_time shm \<Rightarrow> (u64 \<times> chrono_time shm) result) \<Rightarrow> clock_cluster \<Rightarrow> (u64 \<times> clock_cluster) result" where
  "clock_local k f w =
     (let i = unat (clk_my_server k) in if i < length w then at_server i f w else Inl Null_Deref)"

definition GetTime ::
  "hcl_process \<Rightarrow> (chrono_time \<Rightarrow> clock_thallium) \<Rightarrow> clock \<Rightarrow> chrono_time \<Rightarrow> clock_cluster \<Rightarrow> (u64 \<times> clock_cluster) result" where
  "GetTime p thl k now w =
     (if clk_server_on_node k then clock_local k (LocalGetTime now) w
      else clock_call p (thl now) k (clk_my_server k) w)"

definition GetTimeServer ::
  "hcl_process \<Rightarrow> (chrono_time \<Rightarrow> clock_thallium) \<Rightarrow> clock \<Rightarrow> u16 \<Rightarrow> chrono_time \<Rightarrow> clock_cluster
     \<Rightarrow> (u64 \<times> clock_cluster) result" where
  "GetTimeServer p thl k server now w =
     (if clk_my_server k = server \<and> clk_server_on_node k then clock_local k (LocalGetTime now) w
      else clock_call p (thl now) k server w)"

section \<open>What a query returns\<close>

definition clock_connected :: "hcl_process \<Rightarrow> clock \<Rightarrow> clock_cluster \<Rightarrow> bool" where
  "clock_connected p k w \<longleftrightarrow>
     hcl_created p
     \<and> (\<exists>r. map_of (rpcs p) (clk_port k) = Some r \<and> length (rpc_endpoints r) = length w)
     \<and> NUL \<notin> set (clk_func_prefix k) \<and> length (clk_func_prefix k) \<le> 200
     \<and> unat (clk_my_server k) < length w
     \<and> (\<forall>s \<in> set w. binds s = [(clk_func_prefix k @ ''_GetTime'', CkGetTime)])
     \<and> quiescent w"

locale clock_deployment =
  fixes thl :: "chrono_time \<Rightarrow> clock_thallium"
  assumes carries: "transport (thl now) (clock_handler now)"
begin

lemma local_time:
  assumes "clock_connected p k w" "i < length w"
  shows "at_server i (LocalGetTime now) w =
    Inr (microseconds (now - obj (seg (w ! i))), w)"
  using at_server_read(1) [of w i "\<lambda>start. microseconds (now - start)"] assms
  by (simp add: clock_connected_def LocalGetTime_def get_time_body_def [abs_def] quiescentD)

lemma call_serves:
  assumes con: "clock_connected p k w" and i: "unat server < length w"
  shows "clock_call p (thl now) k server w = at_server (unat server) (LocalGetTime now) w"
proof -
  let ?name = "clk_func_prefix k @ ''_GetTime''"
  obtain r where r: "map_of (rpcs p) (clk_port k) = Some r" "length (rpc_endpoints r) = length w"
    using con by (auto simp: clock_connected_def)
  have "denotes (cs_of ?name) ?name"
    by (intro denotes_intros) (use con in \<open>auto simp: clock_connected_def NUL_def\<close>)
  then obtain fn where fn: "cs_of ?name = Inr fn" "cs_c_str fn = Inr ?name"
    by (auto simp: denotes_def cs_c_str_def)
  have "map_of (binds (w ! unat server)) ?name = Some CkGetTime"
    using con i by (auto simp: clock_connected_def)
  then have "thl now (unat server) ?name QNone w = serve (clock_handler now) (unat server) CkGetTime QNone w"
    using transport.delivers [OF carries i] by blast
  moreover have "rbind (serve (clock_handler now) (unat server) CkGetTime QNone w)
      (\<lambda>(resp, w). rmap (\<lambda>x. (x, w)) (as_size resp)) = at_server (unat server) (LocalGetTime now) w"
    by (rule serve_define) (auto simp: fun_eq_iff)
  ultimately show ?thesis
    using con i r fn by (simp add: clock_call_def HCL_instance_def GetRPC_def RPC_call_def clock_connected_def)
qed

lemma queries:
  assumes con: "clock_connected p k w"
  shows "GetTime p thl k now w = Inr (microseconds (now - obj (seg (w ! unat (clk_my_server k)))), w)"
    and "unat server < length w \<Longrightarrow>
      GetTimeServer p thl k server now w = Inr (microseconds (now - obj (seg (w ! unat server))), w)"
proof -
  have "unat (clk_my_server k) < length w" using con by (simp add: clock_connected_def)
  then show "GetTime p thl k now w = Inr (microseconds (now - obj (seg (w ! unat (clk_my_server k)))), w)"
    "unat server < length w \<Longrightarrow>
      GetTimeServer p thl k server now w = Inr (microseconds (now - obj (seg (w ! unat server))), w)"
    using call_serves [OF con] local_time [OF con]
    by (auto simp: GetTime_def GetTimeServer_def clock_local_def)
qed

end

interpretation dclock: clock_deployment "\<lambda>now. direct_engine (clock_handler now)"
  by unfold_locales (simp_all add: direct_engine_def)

text \<open>The count for any difference that fits: exact forwards, 0 within a microsecond backwards, and wrapped below that.\<close>

lemma unat_microseconds:
  assumes "- (2 ^ 63) \<le> sint t2 - sint start" "sint t2 - sint start < 2 ^ 63"
  shows "unat (microseconds (t2 - start)) =
    (if sint start - 1000 < sint t2 then nat ((sint t2 - sint start) div 1000) else 2 ^ 64 - nat ((sint start - sint t2) div 1000))"
proof -
  define d where "d = sint t2 - sint start"
  have d: "sint (t2 - start) = d" using assms signed_take_bit_int_eq_self [of 63 d] by (simp add: sint_word_ariths d_def)
  show ?thesis
  proof (cases "0 \<le> d")
    case True
    then have "d div 1000 < 2 ^ 64" "0 \<le> d div 1000" using assms(2) by (simp_all add: d_def)
    then show ?thesis using True d by (simp add: microseconds_def unat_eq_nat_uint uint_word_of_int d_def)
  next
    case False
    define m where "m = - d div 1000"
    have m: "0 \<le> m" "m \<le> 2 ^ 63" using False assms(1) by (simp_all add: m_def d_def)
    have "microseconds (t2 - start) = word_of_int (- m)" using False by (simp only: microseconds_def d m_def not_le if_True)
    moreover have "uint (word_of_int (- m) :: u64) = - m mod 2 ^ 64" by (subst uint_word_of_int) simp
    ultimately have "unat (microseconds (t2 - start)) = nat (- m mod 2 ^ 64)" by (simp only: unat_eq_nat_uint)
    also have "\<dots> = (if m = 0 then 0 else 2 ^ 64 - nat m)"
    proof (cases "m = 0")
      case m0: False
      have "- m mod 2 ^ 64 = (2 ^ 64 - m) mod 2 ^ 64" using mod_add_self1 [of "2 ^ 64 :: int" "- m"] by (simp only: diff_conv_add_uminus)
      also have "\<dots> = 2 ^ 64 - m" using m m0 by (intro mod_pos_pos_trivial) simp_all
      finally show ?thesis using m m0 by (simp add: nat_diff_distrib)
    qed simp
    finally have u: "unat (microseconds (t2 - start)) = (if m = 0 then 0 else 2 ^ 64 - nat m)" .
    have diff: "sint start - sint t2 = - d" "sint t2 - sint start = d" by (simp_all add: d_def)
    show ?thesis
    proof (cases "- 1000 < d")
      case True
      then have "m = 0" unfolding m_def using False by (intro div_pos_pos_trivial) simp_all
      moreover have "d div 1000 < 0" using False by (simp add: not_le)
      ultimately show ?thesis using u True by (simp add: diff d_def [symmetric]) (simp add: d_def)
    next
      case far: False
      then have "1 \<le> m" unfolding m_def using zdiv_mono1 [of 1000 "- d" 1000] by simp
      then show ?thesis using u far by (simp only: diff m_def [symmetric]) (simp add: d_def)
    qed
  qed
qed

section \<open>An instance\<close>

definition ex_clock :: "u16 \<Rightarrow> bool \<Rightarrow> clock" where
  "ex_clock idx on_node =
     \<lparr>clk_is_server = False, clk_memory_allocated = 134217728, clk_num_servers = 2, clk_my_server = idx,
      clk_name = ''c_0'', clk_func_prefix = ''c'', clk_port = 9000, clk_server_on_node = on_node,
      clk_backed_file = ex_name ''/dev/shm/c''\<rparr>"

lemma ex_clock_connected:
  assumes "unat idx < 2"
  shows "clock_connected (ex_process 2) (ex_clock idx on_node) (ex_cluster [(''_GetTime'', CkGetTime)] [s0, s1])"
proof -
  let ?w = "ex_cluster [(''_GetTime'', CkGetTime)] [s0, s1]"
  have "\<forall>s \<in> set ?w. binds s = [(''c_GetTime'', CkGetTime)]"
    by (auto simp: ex_cluster_def)
  then show ?thesis
    using assms ex_quiescent [of "[(''_GetTime'', CkGetTime)]" "[s0, s1]"]
    by (simp add: clock_connected_def ex_clock_def ex_process_def NUL_def)
qed

section \<open>Properties\<close>

text \<open>
  Two queries of one server, by any two clients and in this order, give times in this order, when
  the clock of the server does not run backwards between them and has not run for \<open>2 ^ 63\<close>
  nanoseconds; each is the elapsed time in whole microseconds.
\<close>

theorem clock_monotone:
  assumes "clock_deployment thl" "clock_connected p k w" "clock_connected p' k' w" "unat server < length w"
    and "sint (obj (seg (w ! unat server))) \<le> sint now" "sint now \<le> sint now'" "sint now' - sint (obj (seg (w ! unat server))) < 2 ^ 63"
  shows "\<exists>t t'. GetTimeServer p thl k server now w = Inr (t, w) \<and> GetTimeServer p' thl k' server now' w = Inr (t', w)
    \<and> t \<le> t' \<and> unat t = nat ((sint now - sint (obj (seg (w ! unat server)))) div 1000)"
proof -
  let ?s = "obj (seg (w ! unat server))"
  have "unat (microseconds (now - ?s)) = nat ((sint now - sint ?s) div 1000)"
    "unat (microseconds (now' - ?s)) = nat ((sint now' - sint ?s) div 1000)"
    using assms(5-7) by (simp_all add: unat_microseconds)
  moreover have "nat ((sint now - sint ?s) div 1000) \<le> nat ((sint now' - sint ?s) div 1000)"
    using assms(6) by (intro nat_mono zdiv_mono1) simp_all
  ultimately show ?thesis
    using clock_deployment.queries(2) [OF assms(1)] assms(2-4) by (auto simp: word_le_nat_alt)
qed

theorem clock_monotone_witness:
  "\<exists>t t'. GetTimeServer (ex_process 2) (\<lambda>now. direct_engine (clock_handler now)) (ex_clock 0 True) 1 7000
        (ex_cluster [(''_GetTime'', CkGetTime)] [0, 5000]) = Inr (t, ex_cluster [(''_GetTime'', CkGetTime)] [0, 5000])
    \<and> GetTimeServer (ex_process 2) (\<lambda>now. direct_engine (clock_handler now)) (ex_clock 1 True) 1 9500
        (ex_cluster [(''_GetTime'', CkGetTime)] [0, 5000]) = Inr (t', ex_cluster [(''_GetTime'', CkGetTime)] [0, 5000])
    \<and> t \<le> t' \<and> unat t = 2"
proof -
  have c: "clock_connected (ex_process 2) (ex_clock 0 True) (ex_cluster [(''_GetTime'', CkGetTime)] [0, 5000])"
    "clock_connected (ex_process 2) (ex_clock 1 True) (ex_cluster [(''_GetTime'', CkGetTime)] [0, 5000])"
    by (rule ex_clock_connected; simp)+
  show ?thesis
    using clock_monotone [OF dclock.clock_deployment_axioms c, of 1 7000 9500] by simp
qed



end
