(* ===== verification/Hcl_Memory_Pool.thy ===== *)
theory Hcl_Memory_Pool
  imports Hcl_Boost
begin

text \<open>
  The node allocator of the concurrent map
  (\<^verbatim>\<open>include/hcl/base/containers/concurrent_unordered_map/memory_allocation.h\<close>): nodes are cut from
  chunks, handed out from an active queue and collected in a free queue. The nodes live in an
  explicit heap. The lock-free queues are the operations \<open>ops\<close>; \<^verbatim>\<open>std::malloc\<close> hands out the cells
  from \<open>brk\<close> on.
\<close>

section \<open>Nodes and pool\<close>

type_synonym ptr = nat

record ('k, 'v) node =
  n_key :: 'k
  n_value :: 'v
  n_next :: "ptr option"

type_synonym ('k, 'v) heap = "ptr \<Rightarrow> ('k, 'v) node"

record 'q memory_pool =
  chunk_size :: u32
  free_nodes :: u64
  num_chunks :: u64
  memory_chunks :: 'q
  active_queue :: 'q
  free_queue :: 'q
  brk :: ptr

text \<open>The loop over a new chunk: default key and value, no successor, into the active queue.\<close>

primrec fill_chunk ::
  "(ptr, 'q) lfq_ops \<Rightarrow> 'k \<Rightarrow> 'v \<Rightarrow> ptr list \<Rightarrow> ('k, 'v) heap \<Rightarrow> 'q \<Rightarrow> ('k, 'v) heap \<times> 'q" where
  "fill_chunk ops k0 v0 [] h aq = (h, aq)"
| "fill_chunk ops k0 v0 (a # as) h aq =
     fill_chunk ops k0 v0 as (h(a := \<lparr>n_key = k0, n_value = v0, n_next = None\<rparr>)) (snd (lf_push ops a aq))"

definition memory_pool_ctor ::
  "(ptr, 'q) lfq_ops \<Rightarrow> 'k \<Rightarrow> 'v \<Rightarrow> u32 \<Rightarrow> ('k, 'v) heap \<Rightarrow> ptr \<Rightarrow> ('k, 'v) heap \<times> 'q memory_pool" where
  "memory_pool_ctor ops k0 v0 csize h base =
     (let chunk = [base..<base + unat csize];
          (h, aq) = fill_chunk ops k0 v0 chunk h (lf_new ops 1024)
      in (h, \<lparr>chunk_size = csize, free_nodes = 0, num_chunks = 1,
              memory_chunks = snd (lf_push ops base (lf_new ops 1024)), active_queue = aq,
              free_queue = lf_new ops 1024, brk = base + unat csize\<rparr>))"

text \<open>The inner loop of \<^verbatim>\<open>memory_pool_pop\<close>, which moves the free nodes to the active queue.\<close>

partial_function (option) drain_free ::
  "(ptr, 'q) lfq_ops \<Rightarrow> ('k, 'v) heap \<Rightarrow> 'q \<Rightarrow> 'q \<Rightarrow> (('k, 'v) heap \<times> 'q \<times> 'q) option" where
  "drain_free ops h fq aq =
     (case lf_pop ops fq of
        (None, fq) \<Rightarrow> Some (h, fq, aq)
      | (Some t, fq) \<Rightarrow> drain_free ops (h(t := (h t)\<lparr>n_next := None\<rparr>)) fq (snd (lf_push ops t aq)))"

partial_function (option) memory_pool_pop ::
  "(ptr, 'q) lfq_ops \<Rightarrow> 'k \<Rightarrow> 'v \<Rightarrow> ('k, 'v) heap \<Rightarrow> 'q memory_pool
     \<Rightarrow> (ptr \<times> ('k, 'v) heap \<times> 'q memory_pool) option" where
  "memory_pool_pop ops k0 v0 h pl =
     (case lf_pop ops (active_queue pl) of
        (Some n, aq) \<Rightarrow> Some (n, h, pl\<lparr>active_queue := aq\<rparr>)
      | (None, aq) \<Rightarrow>
          (case drain_free ops h (free_queue pl) aq of
             None \<Rightarrow> None
           | Some (h, fq, aq) \<Rightarrow>
               (case lf_pop ops aq of
                  (Some n, aq) \<Rightarrow> Some (n, h, pl\<lparr>free_nodes := 0, free_queue := fq, active_queue := aq\<rparr>)
                | (None, aq) \<Rightarrow>
                    (case fill_chunk ops k0 v0 [brk pl..<brk pl + unat (chunk_size pl)] h aq of (h, aq) \<Rightarrow>
                       memory_pool_pop ops k0 v0 h
                         (pl\<lparr>free_nodes := 0, num_chunks := num_chunks pl + 1,
                             memory_chunks := snd (lf_push ops (brk pl) (memory_chunks pl)),
                             active_queue := aq, free_queue := fq,
                             brk := brk pl + unat (chunk_size pl)\<rparr>)))))"

definition memory_pool_push :: "(ptr, 'q) lfq_ops \<Rightarrow> ptr \<Rightarrow> 'q memory_pool \<Rightarrow> 'q memory_pool" where
  "memory_pool_push ops n pl =
     pl\<lparr>free_queue := snd (lf_push ops n (free_queue pl)), free_nodes := free_nodes pl + 1\<rparr>"

text \<open>The destructor frees the chunks, in the order they were allocated; the answer lists them.\<close>

partial_function (option) free_chunks :: "(ptr, 'q) lfq_ops \<Rightarrow> 'q \<Rightarrow> ptr list option" where
  "free_chunks ops q =
     (case lf_pop ops q of
        (None, q) \<Rightarrow> Some []
      | (Some chunk, q) \<Rightarrow> Option.bind (free_chunks ops q) (\<lambda>cs. Some (chunk # cs)))"

definition memory_pool_dtor :: "(ptr, 'q) lfq_ops \<Rightarrow> 'q memory_pool \<Rightarrow> ptr list option" where
  "memory_pool_dtor ops pl = free_chunks ops (memory_chunks pl)"

section \<open>The pool never hands out a node that is in use\<close>

text \<open>The nodes the pool holds are distinct cells of its chunks.\<close>

definition pooled :: "('q \<Rightarrow> ptr list) \<Rightarrow> 'q memory_pool \<Rightarrow> ptr list" where
  "pooled elems pl = elems (active_queue pl) @ elems (free_queue pl)"

definition pool_inv :: "('q \<Rightarrow> ptr list) \<Rightarrow> 'q memory_pool \<Rightarrow> bool" where
  "pool_inv elems pl \<longleftrightarrow>
     distinct (pooled elems pl) \<and> (\<forall>a \<in> set (pooled elems pl). a < brk pl) \<and> chunk_size pl \<noteq> 0"

text \<open>The chunks follow one another from \<open>base\<close> to the end of the memory in use.\<close>

definition chunks_ok :: "('q \<Rightarrow> ptr list) \<Rightarrow> ptr \<Rightarrow> 'q memory_pool \<Rightarrow> bool" where
  "chunks_ok elems base pl \<longleftrightarrow>
     (\<exists>n. elems (memory_chunks pl) = map (\<lambda>i. base + i * unat (chunk_size pl)) [0..<n]
        \<and> brk pl = base + n * unat (chunk_size pl))"

locale pool_queue = reliable_queue ops elems for ops :: "(ptr, 'q) lfq_ops" and elems :: "'q \<Rightarrow> ptr list"
begin

lemma fill_chunk_eq:
  "elems (snd (fill_chunk ops k0 v0 as h aq)) = elems aq @ as"
  "a \<notin> set as \<Longrightarrow> fst (fill_chunk ops k0 v0 as h aq) a = h a"
  by (induction "as" arbitrary: h aq) simp_all

lemma drain_free_eq:
  "\<exists>h' fq' aq'. drain_free ops h fq aq = Some (h', fq', aq') \<and> elems fq' = [] \<and> elems aq' = elems aq @ elems fq
    \<and> (\<forall>a. a \<notin> set (elems fq) \<longrightarrow> h' a = h a)"
proof (induction "elems fq" arbitrary: h fq aq)
  case Nil
  then show ?case by (cases fq rule: popE) (simp_all add: drain_free.simps)
next
  case (Cons x xs)
  then obtain fq1 where fq1: "xs = elems fq1" "lf_pop ops fq = (Some x, fq1)" "elems fq = x # elems fq1"
    by (cases fq rule: popE) auto
  from Cons.hyps(1) [OF fq1(1), of "h(x := (h x)\<lparr>n_next := None\<rparr>)" "snd (lf_push ops x aq)"]
  show ?case using fq1 by (subst drain_free.simps) auto
qed

text \<open>
  \<open>memory_pool_pop\<close> returns, with a node the pool held or cut anew, and touches no other cell
  below the old end of memory.
\<close>

lemma memory_pool_pop_eq:
  assumes "pool_inv elems pl"
  shows "\<exists>n h' pl'. memory_pool_pop ops k0 v0 h pl = Some (n, h', pl') \<and> pool_inv elems pl'
    \<and> n \<notin> set (pooled elems pl') \<and> n < brk pl' \<and> brk pl \<le> brk pl' \<and> chunk_size pl' = chunk_size pl
    \<and> insert n (set (pooled elems pl')) \<subseteq> set (pooled elems pl) \<union> {brk pl..<brk pl'}
    \<and> (\<forall>a. a < brk pl \<longrightarrow> a \<notin> set (pooled elems pl) \<longrightarrow> h' a = h a)"
proof (cases "active_queue pl" rule: popE)
  case (2 n aq)
  then show ?thesis
    using assms by (subst memory_pool_pop.simps) (auto simp: pool_inv_def pooled_def)
next
  case (1 aq)
  obtain h1 fq1 aq1 where d: "drain_free ops h (free_queue pl) aq = Some (h1, fq1, aq1)" "elems fq1 = []"
      "elems aq1 = elems (free_queue pl)" "\<forall>a. a \<notin> set (elems (free_queue pl)) \<longrightarrow> h1 a = h a"
    using drain_free_eq [of h "free_queue pl" aq] 1 by auto
  show ?thesis
  proof (cases aq1 rule: popE)
    case (2 n aq2)
    then show ?thesis
      using assms 1 d by (subst memory_pool_pop.simps) (auto simp: pool_inv_def pooled_def)
  next
    case inner: (1 aq2)
    let ?m = "unat (chunk_size pl)" and ?e = "brk pl"
    obtain h2 aq3 where f: "fill_chunk ops k0 v0 [?e..<?e + ?m] h1 aq2 = (h2, aq3)"
      by fastforce
    then have f': "elems aq3 = [?e..<?e + ?m]" "\<forall>a. a < ?e \<longrightarrow> h2 a = h1 a"
      using fill_chunk_eq(1) [of k0 v0 "[?e..<?e + ?m]" h1 aq2]
        fill_chunk_eq(2) [of _ "[?e..<?e + ?m]" k0 v0 h1 aq2] inner by auto
    have m: "0 < ?m" using assms by (simp add: pool_inv_def unat_gt_0)
    then obtain aq4 where p: "lf_pop ops aq3 = (Some ?e, aq4)" "elems aq4 = [Suc ?e..<?e + ?m]"
      using f'(1) by (cases aq3 rule: popE) (auto simp: upt_rec)
    have "elems (free_queue pl) = []" using inner d by simp
    then show ?thesis
      using assms 1 d inner f f' p m
      by (subst memory_pool_pop.simps, simp, subst memory_pool_pop.simps)
         (auto simp: pool_inv_def pooled_def)
  qed
qed

text \<open>The destructor frees every chunk once.\<close>

lemma free_chunks_eq: "free_chunks ops q = Some (elems q)"
proof (induction "elems q" arbitrary: q)
  case Nil
  then show ?case by (cases q rule: popE) (simp_all add: free_chunks.simps)
next
  case (Cons x xs)
  then obtain q1 where "xs = elems q1" "lf_pop ops q = (Some x, q1)" "elems q = x # elems q1"
    by (cases q rule: popE) auto
  then show ?case using Cons.hyps(1) [of q1] by (simp add: free_chunks.simps)
qed

lemma chunks_ok_fill:
  assumes "chunks_ok elems base pl" "chunk_size pl' = chunk_size pl" "brk pl' = brk pl + unat (chunk_size pl)"
    "elems (memory_chunks pl') = elems (memory_chunks pl) @ [brk pl]"
  shows "chunks_ok elems base pl'"
proof -
  obtain n where "elems (memory_chunks pl) = map (\<lambda>i. base + i * unat (chunk_size pl)) [0..<n]"
      "brk pl = base + n * unat (chunk_size pl)"
    using assms(1) by (auto simp: chunks_ok_def)
  then show ?thesis using assms(2-4) by (auto simp: chunks_ok_def intro!: exI [of _ "Suc n"])
qed

lemma memory_pool_pop_chunks:
  assumes inv: "pool_inv elems pl" and ok: "chunks_ok elems base pl" and pop: "memory_pool_pop ops k0 v0 h pl = Some (n, h', pl')"
  shows "chunks_ok elems base pl'"
proof (cases "active_queue pl" rule: popE)
  case (2 a aq)
  then show ?thesis using ok pop by (subst (asm) memory_pool_pop.simps) (auto simp: chunks_ok_def)
next
  case (1 aq)
  obtain h1 fq1 aq1 where d: "drain_free ops h (free_queue pl) aq = Some (h1, fq1, aq1)"
    using drain_free_eq [of h "free_queue pl" aq] by auto
  show ?thesis
  proof (cases aq1 rule: popE)
    case (2 a aq2)
    then show ?thesis using ok pop 1 d by (subst (asm) memory_pool_pop.simps) (auto simp: chunks_ok_def)
  next
    case inner: (1 aq2)
    let ?m = "unat (chunk_size pl)" and ?e = "brk pl"
    obtain h2 aq3 where f: "fill_chunk ops k0 v0 [?e..<?e + ?m] h1 aq2 = (h2, aq3)" by fastforce
    have "elems aq3 \<noteq> []"
      using fill_chunk_eq(1) [of k0 v0 "[?e..<?e + ?m]" h1 aq2] f inner inv by (auto simp: pool_inv_def unat_eq_zero)
    then obtain a aq4 where p: "lf_pop ops aq3 = (Some a, aq4)" by (cases aq3 rule: popE) auto
    have "chunk_size pl' = chunk_size pl" "brk pl' = ?e + ?m"
      "memory_chunks pl' = snd (lf_push ops ?e (memory_chunks pl))"
      using pop 1 d inner f p by (subst (asm) memory_pool_pop.simps, simp, subst (asm) memory_pool_pop.simps, auto)+
    then show ?thesis using chunks_ok_fill [OF ok] by simp
  qed
qed

lemma memory_pool_ctor_chunks: "memory_pool_ctor ops k0 v0 csize h base = (h', pl) \<Longrightarrow> chunks_ok elems base pl"
  by (auto simp: memory_pool_ctor_def chunks_ok_def elems_new Let_def split: prod.splits intro!: exI [of _ 1])

lemma memory_pool_push_chunks: "chunks_ok elems base pl \<Longrightarrow> chunks_ok elems base (memory_pool_push ops n pl)"
  by (simp add: chunks_ok_def memory_pool_push_def)

lemma memory_pool_dtor_ok:
  assumes "pool_inv elems pl" "chunks_ok elems base pl"
  shows "\<exists>cs. memory_pool_dtor ops pl = Some cs \<and> distinct cs \<and> (\<Union>c \<in> set cs. {c..<c + unat (chunk_size pl)}) = {base..<brk pl}"
proof -
  let ?m = "unat (chunk_size pl)"
  obtain n where n: "elems (memory_chunks pl) = map (\<lambda>i. base + i * ?m) [0..<n]" "brk pl = base + n * ?m"
    using assms(2) by (auto simp: chunks_ok_def)
  have m: "0 < ?m" using assms(1) by (simp add: pool_inv_def unat_gt_0)
  have "(\<Union>i \<in> {0..<k}. {base + i * ?m..<base + i * ?m + ?m}) = {base..<base + k * ?m}" for k
  proof (induction k)
    case (Suc k)
    have "{base..<base + Suc k * ?m} = {base..<base + k * ?m} \<union> {base + k * ?m..<base + k * ?m + ?m}"
      by (auto simp: algebra_simps)
    then show ?case using Suc by (simp add: atLeast0_lessThan_Suc Un_commute)
  qed simp
  moreover have "inj_on (\<lambda>i. base + i * ?m) {0..<n}" using m by (auto intro!: inj_onI)
  ultimately show ?thesis
    using n free_chunks_eq [of "memory_chunks pl"] by (simp add: memory_pool_dtor_def distinct_map)
qed

lemma memory_pool_ctor_inv:
  assumes "csize \<noteq> 0" "memory_pool_ctor ops k0 v0 csize h base = (h', pl)"
  shows "pool_inv elems pl \<and> pooled elems pl = [base..<brk pl] \<and> base \<le> brk pl"
  using assms fill_chunk_eq(1) [of k0 v0 "[base..<base + unat csize]" h "lf_new ops 1024"]
  by (auto simp: memory_pool_ctor_def pool_inv_def pooled_def elems_new Let_def split: prod.splits)

lemma memory_pool_push_inv:
  assumes "pool_inv elems pl" "n \<notin> set (pooled elems pl)" "n < brk pl"
  shows "pool_inv elems (memory_pool_push ops n pl)"
    and "set (pooled elems (memory_pool_push ops n pl)) = insert n (set (pooled elems pl))"
    and "brk (memory_pool_push ops n pl) = brk pl"
  using assms by (auto simp: memory_pool_push_def pool_inv_def pooled_def)

end

interpretation lpool: pool_queue list_lfq_ops "\<lambda>q. q"
  unfolding pool_queue_def by (rule llfq.reliable_queue_axioms)

section \<open>Threads that share the pool\<close>

text \<open>
  The lock-free queues are shared by all threads of a server, and \<open>memory_pool_pop\<close> takes no lock.
  A step is one operation of one thread on a queue. \<open>ps_used\<close> are the nodes handed out and not yet
  given back.
\<close>

datatype pool_pc = Idle | Trying | Draining | Moving ptr | Second_Try | Filling ptr "ptr list"

record ('t, 'q) pool_state =
  ps_pool :: "'q memory_pool"
  ps_pc :: "'t \<Rightarrow> pool_pc"
  ps_used :: "ptr set"

inductive pool_step :: "(ptr, 'q) lfq_ops \<Rightarrow> ('t, 'q) pool_state \<Rightarrow> ('t, 'q) pool_state \<Rightarrow> bool"
  for ops :: "(ptr, 'q) lfq_ops" where
  call: "ps_pc s t = Idle \<Longrightarrow> pool_step ops s (s\<lparr>ps_pc := (ps_pc s)(t := Trying)\<rparr>)"
| take: "ps_pc s t = Trying \<Longrightarrow> lf_pop ops (active_queue (ps_pool s)) = (Some n, aq) \<Longrightarrow>
    pool_step ops s (s\<lparr>ps_pool := (ps_pool s)\<lparr>active_queue := aq\<rparr>, ps_pc := (ps_pc s)(t := Idle),
      ps_used := insert n (ps_used s)\<rparr>)"
| miss: "ps_pc s t = Trying \<Longrightarrow> lf_pop ops (active_queue (ps_pool s)) = (None, aq) \<Longrightarrow>
    pool_step ops s (s\<lparr>ps_pool := (ps_pool s)\<lparr>active_queue := aq\<rparr>, ps_pc := (ps_pc s)(t := Draining)\<rparr>)"
| collect: "ps_pc s t = Draining \<Longrightarrow> lf_pop ops (free_queue (ps_pool s)) = (Some x, fq) \<Longrightarrow>
    pool_step ops s (s\<lparr>ps_pool := (ps_pool s)\<lparr>free_queue := fq\<rparr>, ps_pc := (ps_pc s)(t := Moving x)\<rparr>)"
| move: "ps_pc s t = Moving x \<Longrightarrow>
    pool_step ops s (s\<lparr>ps_pool := (ps_pool s)\<lparr>active_queue := snd (lf_push ops x (active_queue (ps_pool s)))\<rparr>,
      ps_pc := (ps_pc s)(t := Draining)\<rparr>)"
| drained: "ps_pc s t = Draining \<Longrightarrow> lf_pop ops (free_queue (ps_pool s)) = (None, fq) \<Longrightarrow>
    pool_step ops s (s\<lparr>ps_pool := (ps_pool s)\<lparr>free_queue := fq, free_nodes := 0\<rparr>,
      ps_pc := (ps_pc s)(t := Second_Try)\<rparr>)"
| take_second: "ps_pc s t = Second_Try \<Longrightarrow> lf_pop ops (active_queue (ps_pool s)) = (Some n, aq) \<Longrightarrow>
    pool_step ops s (s\<lparr>ps_pool := (ps_pool s)\<lparr>active_queue := aq\<rparr>, ps_pc := (ps_pc s)(t := Idle),
      ps_used := insert n (ps_used s)\<rparr>)"
| chunk: "ps_pc s t = Second_Try \<Longrightarrow> lf_pop ops (active_queue (ps_pool s)) = (None, aq) \<Longrightarrow>
    base = brk (ps_pool s) \<Longrightarrow> m = unat (chunk_size (ps_pool s)) \<Longrightarrow>
    pool_step ops s (s\<lparr>ps_pool := (ps_pool s)\<lparr>active_queue := aq, num_chunks := num_chunks (ps_pool s) + 1,
      brk := base + m\<rparr>, ps_pc := (ps_pc s)(t := Filling base [base..<base + m])\<rparr>)"
| fill: "ps_pc s t = Filling base (a # as) \<Longrightarrow>
    pool_step ops s (s\<lparr>ps_pool := (ps_pool s)\<lparr>active_queue := snd (lf_push ops a (active_queue (ps_pool s)))\<rparr>,
      ps_pc := (ps_pc s)(t := Filling base as)\<rparr>)"
| filled: "ps_pc s t = Filling base [] \<Longrightarrow>
    pool_step ops s (s\<lparr>ps_pool := (ps_pool s)\<lparr>memory_chunks := snd (lf_push ops base (memory_chunks (ps_pool s)))\<rparr>,
      ps_pc := (ps_pc s)(t := Trying)\<rparr>)"
| give_back: "ps_pc s t = Idle \<Longrightarrow> n \<in> ps_used s \<Longrightarrow>
    pool_step ops s (s\<lparr>ps_pool := memory_pool_push ops n (ps_pool s), ps_used := ps_used s - {n}\<rparr>)"

definition pool_start :: "('q \<Rightarrow> ptr list) \<Rightarrow> ('t, 'q) pool_state \<Rightarrow> bool" where
  "pool_start elems s \<longleftrightarrow> pool_inv elems (ps_pool s) \<and> ps_pc s = (\<lambda>_. Idle) \<and> ps_used s = {}"

text \<open>The nodes a thread holds between two steps.\<close>

fun held :: "pool_pc \<Rightarrow> ptr list" where
  "held (Moving x) = [x]"
| "held (Filling base as) = as"
| "held _ = []"

text \<open>
  \<open>owned P H U b\<close>: the pool holds \<open>P\<close>, thread \<open>t\<close> holds \<open>H t\<close>, the users hold \<open>U\<close>, no node is held
  twice and all lie below \<open>b\<close>. A step moves one node from one holder to another.
\<close>

definition owned :: "ptr list \<Rightarrow> ('t \<Rightarrow> ptr list) \<Rightarrow> ptr set \<Rightarrow> ptr \<Rightarrow> bool" where
  "owned P H U b \<longleftrightarrow>
     distinct P \<and> (\<forall>a \<in> set P. a < b) \<and> U \<inter> set P = {} \<and> (\<forall>a \<in> U. a < b)
     \<and> (\<forall>t. distinct (H t) \<and> set (H t) \<inter> (set P \<union> U) = {} \<and> (\<forall>a \<in> set (H t). a < b))
     \<and> (\<forall>t u. t \<noteq> u \<longrightarrow> set (H t) \<inter> set (H u) = {})"

lemma owned_pool_cong: "mset P' = mset P \<Longrightarrow> owned P' H U b = owned P H U b"
  using mset_eq_setD [of P' P] mset_eq_imp_distinct_iff [of P' P] by (simp add: owned_def)

lemma owned_rotate:
  "owned (as @ x # bs) H U b = owned (x # as @ bs) H U b" "owned (as @ bs @ [x]) H U b = owned (x # as @ bs) H U b"
  by (rule owned_pool_cong; simp)+

lemma owned_pool_to_thread: "owned (x # P) H U b \<Longrightarrow> H t = [] \<Longrightarrow> owned P (H(t := [x])) U b"
  by (auto simp: owned_def)
lemma owned_pool_to_user: "owned (x # P) H U b \<Longrightarrow> owned P H (insert x U) b"
  by (auto simp: owned_def)

lemma owned_user_to_pool: "owned P H U b \<Longrightarrow> x \<in> U \<Longrightarrow> owned (x # P) H (U - {x}) b"
  by (auto simp: owned_def)
lemma owned_thread_to_pool:
  assumes "owned P H U b" "H t = x # xs"
  shows "owned (x # P) (H(t := xs)) U b"
proof -
  have "distinct (H t) \<and> set (H t) \<inter> (set P \<union> U) = {} \<and> (\<forall>a \<in> set (H t). a < b)"
    "\<And>u. u \<noteq> t \<Longrightarrow> set (H t) \<inter> set (H u) = {}"
    using assms(1) by (simp_all add: owned_def)
  then have x: "x \<notin> set xs" "x \<notin> set P" "x \<notin> U" "x < b" "\<And>u. u \<noteq> t \<Longrightarrow> x \<notin> set (H u) \<and> set xs \<inter> set (H u) = {}"
    "distinct xs" "set xs \<inter> (set P \<union> U) = {}" "\<forall>a \<in> set xs. a < b"
    using assms(2) by auto
  with assms(1) show ?thesis by (simp add: owned_def Int_commute)
qed

lemma owned_new_cells:
  assumes "owned P H U b" "H t = []"
  shows "owned P (H(t := [b..<b + m])) U (b + m)"
proof -
  have "\<And>u. set (H u) \<inter> {b..<b + m} = {}" "(set P \<union> U) \<inter> {b..<b + m} = {}"
    using assms(1) by (fastforce simp: owned_def)+
  moreover have "\<And>u. \<forall>a \<in> set (H u). a < b + m"
    using assms(1) by (auto simp: owned_def intro: trans_less_add1)
  ultimately show ?thesis using assms by (auto simp: owned_def)
qed

definition shared_pool_inv :: "('q \<Rightarrow> ptr list) \<Rightarrow> ('t, 'q) pool_state \<Rightarrow> bool" where
  "shared_pool_inv elems s \<longleftrightarrow>
     owned (pooled elems (ps_pool s)) (\<lambda>t. held (ps_pc s t)) (ps_used s) (brk (ps_pool s))"

context pool_queue
begin

lemma pop_elems:
  "lf_pop ops q = (Some x, q') \<Longrightarrow> elems q = x # elems q'" "lf_pop ops q = (None, q') \<Longrightarrow> elems q' = elems q"
  by (cases q rule: popE; simp)+

lemma held_upd: "(\<lambda>u. held (if u = t then pc else f u)) = (\<lambda>u. held (f u))(t := held pc)"
  by auto

lemma shared_pool_inv_step:
  assumes "pool_step ops s s'" "shared_pool_inv elems s"
  shows "shared_pool_inv elems s'"
proof -
  let ?P = "pooled elems (ps_pool s)" and ?H = "\<lambda>t. held (ps_pc s t)" and ?U = "ps_used s"
  have inv: "owned ?P ?H ?U (brk (ps_pool s))"
    using assms(2) by (simp add: shared_pool_inv_def)
  have pool: "owned P ?H ?U (brk (ps_pool s))" if "mset P = mset ?P" for P
    using that inv owned_pool_cong by blast
  have idle: "?H(t := []) = ?H" if "held (ps_pc s t) = []" for t
    using that by (simp add: fun_upd_idem)
  show ?thesis
    using assms(1)
  proof (cases rule: pool_step.cases)
    case (take t n aq)
    from pop_elems(1) [OF this(3)] have "owned (n # elems aq @ elems (free_queue (ps_pool s))) ?H ?U (brk (ps_pool s))"
      by (intro pool) (simp add: pooled_def)
    from owned_pool_to_user [OF this] take idle [of t] show ?thesis
      by (simp add: shared_pool_inv_def held_upd pooled_def)
  next
    case (take_second t n aq)
    from pop_elems(1) [OF this(3)] have "owned (n # elems aq @ elems (free_queue (ps_pool s))) ?H ?U (brk (ps_pool s))"
      by (intro pool) (simp add: pooled_def)
    from owned_pool_to_user [OF this] take_second idle [of t] show ?thesis
      by (simp add: shared_pool_inv_def held_upd pooled_def)
  next
    case (collect t x fq)
    then have "owned (x # elems (active_queue (ps_pool s)) @ elems fq) ?H ?U (brk (ps_pool s))"
      by (intro pool) (auto simp: pooled_def dest: pop_elems)
    from owned_pool_to_thread [OF this, of t] collect show ?thesis
      by (simp add: shared_pool_inv_def held_upd pooled_def)
  next
    case (move t x)
    from owned_thread_to_pool [OF inv, of t x "[]"] move show ?thesis
      by (simp add: shared_pool_inv_def held_upd pooled_def owned_rotate)
  next
    case (fill t base a as)
    from owned_thread_to_pool [OF inv, of t a "as"] fill show ?thesis
      by (simp add: shared_pool_inv_def held_upd pooled_def owned_rotate)
  next
    case (chunk t aq base m)
    from owned_new_cells [OF inv, of t m] chunk show ?thesis
      by (simp add: shared_pool_inv_def held_upd pooled_def pop_elems(2))
  next
    case (give_back t n)
    from owned_user_to_pool [OF inv give_back(3)] give_back show ?thesis
      by (simp add: shared_pool_inv_def memory_pool_push_def pooled_def owned_rotate)
  qed (use inv idle in \<open>auto simp: shared_pool_inv_def held_upd pooled_def dest: pop_elems(2)\<close>)
qed


lemma shared_pool_inv_reach:
  assumes "(pool_step ops)\<^sup>*\<^sup>* s0 s" "pool_start elems s0"
  shows "shared_pool_inv elems s"
  using assms
proof (induction rule: rtranclp_induct)
  case base
  then show ?case by (simp add: pool_start_def shared_pool_inv_def owned_def pool_inv_def)
next
  case (step s s')
  then show ?case using shared_pool_inv_step by blast
qed

end

section \<open>Properties\<close>

text \<open>
  C22. Whatever the interleaving of the threads of a server, a node that \<^verbatim>\<open>memory_pool_pop\<close> is about to
  hand out is in use by nobody: not handed out before without being given back, not waiting in the
  free queue, and not held by another thread that is refilling the pool.
\<close>

theorem pool_never_shares_node:
  assumes "pool_queue ops elems" "pool_start elems s0" "(pool_step ops)\<^sup>*\<^sup>* s0 s"
    and "lf_pop ops (active_queue (ps_pool s)) = (Some n, aq)"
  shows "n \<notin> ps_used s \<and> n \<notin> set (elems (free_queue (ps_pool s))) \<and> (\<forall>t. n \<notin> set (held (ps_pc s t)))"
proof -
  have "shared_pool_inv elems s"
    using pool_queue.shared_pool_inv_reach [OF assms(1,3,2)] .
  moreover have "n \<in> set (elems (active_queue (ps_pool s)))"
    using pool_queue.pop_elems(1) [OF assms(1,4)] by simp
  ultimately show ?thesis by (auto simp: shared_pool_inv_def owned_def pooled_def)
qed

definition ex_pool :: "ptr list \<Rightarrow> ptr list memory_pool" where
  "ex_pool active = \<lparr>chunk_size = 2, free_nodes = 0, num_chunks = 1, memory_chunks = [0], active_queue = active,
     free_queue = [], brk = 2\<rparr>"

theorem pool_never_shares_node_witness:
  "\<exists>s0 s :: (bool, ptr list) pool_state. (pool_step list_lfq_ops)\<^sup>*\<^sup>* s0 s \<and> ps_used s = {0}
    \<and> fst (lf_pop list_lfq_ops (active_queue (ps_pool s))) = Some 1 \<and> 1 \<notin> ps_used s"
proof -
  define s0 s1 s2 :: "(bool, ptr list) pool_state"
    where "s0 = \<lparr>ps_pool = ex_pool [0, 1], ps_pc = \<lambda>_. Idle, ps_used = {}\<rparr>"
      and "s1 = s0\<lparr>ps_pc := (ps_pc s0)(True := Trying)\<rparr>"
      and "s2 = s1\<lparr>ps_pool := (ps_pool s1)\<lparr>active_queue := [1]\<rparr>, ps_pc := (ps_pc s1)(True := Idle),
                   ps_used := insert 0 (ps_used s1)\<rparr>"
  have "pool_step list_lfq_ops s0 s1" unfolding s1_def by (rule pool_step.call) (simp add: s0_def)
  moreover have "pool_step list_lfq_ops s1 s2"
    unfolding s2_def by (rule pool_step.take) (simp_all add: s1_def s0_def ex_pool_def list_lfq_ops_def)
  ultimately have reach: "(pool_step list_lfq_ops)\<^sup>*\<^sup>* s0 s2" by auto
  have start: "pool_start (\<lambda>q. q) s0"
    by (simp add: pool_start_def s0_def pool_inv_def pooled_def ex_pool_def)
  have pop: "lf_pop list_lfq_ops (active_queue (ps_pool s2)) = (Some 1, [])"
    by (simp add: s2_def list_lfq_ops_def)
  have "ps_used s2 = {0}" by (simp add: s2_def s1_def s0_def)
  then show ?thesis
    using pool_never_shares_node [OF lpool.pool_queue_axioms start reach pop] reach pop
    by (intro exI [of _ s0] exI [of _ s2]) simp
qed

text \<open>
  C23. \<^verbatim>\<open>memory_pool_pop\<close> always returns when the chunk size is not zero; it returns a node that the pool
  held or cut from a new chunk, keeps the rest, and leaves every node in use untouched.
\<close>

theorem memory_pool_pop_returns_free_node:
  assumes "pool_queue ops elems" "pool_inv elems pl"
  shows "\<exists>n h' pl'. memory_pool_pop ops k0 v0 h pl = Some (n, h', pl') \<and> pool_inv elems pl'
    \<and> n \<notin> set (pooled elems pl') \<and> insert n (set (pooled elems pl')) \<subseteq> set (pooled elems pl) \<union> {brk pl..<brk pl'}
    \<and> (\<forall>a. a < brk pl \<longrightarrow> a \<notin> set (pooled elems pl) \<longrightarrow> h' a = h a)"
proof -
  obtain n h' pl' where "memory_pool_pop ops k0 v0 h pl = Some (n, h', pl')" "pool_inv elems pl'"
      "n \<notin> set (pooled elems pl')" "insert n (set (pooled elems pl')) \<subseteq> set (pooled elems pl) \<union> {brk pl..<brk pl'}"
      "\<forall>a. a < brk pl \<longrightarrow> a \<notin> set (pooled elems pl) \<longrightarrow> h' a = h a"
    using pool_queue.memory_pool_pop_eq [OF assms, of k0 v0 h] by clarify
  then show ?thesis by (intro exI conjI)
qed

theorem memory_pool_pop_returns_free_node_witness:
  "\<exists>n h' pl'. memory_pool_pop list_lfq_ops (0 :: nat) ''v''
      (\<lambda>_. \<lparr>n_key = 7, n_value = ''w'', n_next = None\<rparr>) (ex_pool []) = Some (n, h', pl')
    \<and> n \<in> {2..<brk pl'} \<and> h' 1 = \<lparr>n_key = 7, n_value = ''w'', n_next = None\<rparr>"
proof -
  have "pool_inv (\<lambda>q. q) (ex_pool [])" "pooled (\<lambda>q. q) (ex_pool []) = []" "brk (ex_pool []) = 2"
    by (simp_all add: pool_inv_def pooled_def ex_pool_def)
  then show ?thesis
    using memory_pool_pop_returns_free_node [OF lpool.pool_queue_axioms, of "ex_pool []" 0 "''v''"
        "\<lambda>_. \<lparr>n_key = 7, n_value = ''w'', n_next = None\<rparr>"] by force
qed

end
