(* ===== verification/Hcl_Block_Map.thy ===== *)
theory Hcl_Block_Map
  imports Hcl_Memory_Pool
begin

text \<open>
  \<^verbatim>\<open>BlockMap\<close> (\<^verbatim>\<open>include/hcl/base/containers/concurrent_unordered_map/block_map.h\<close>): a hash table of
  fixed size. Each bucket has a mutex, a count and a chain of heap nodes that begins with a sentinel
  and is ordered by hash value. \<^verbatim>\<open>EqualFcn\<close> is \<^verbatim>\<open>std::equal_to\<close>.
\<close>

section \<open>The table\<close>

record fnode =
  num_nodes :: u64
  fn_mutex :: bool
  fn_head :: ptr

record ('k, 'v, 'q) block_map =
  bm_table :: "fnode list"
  bm_maxSize :: u64
  bm_allocated :: u64
  bm_removed :: u64
  bm_pool :: "'q memory_pool"
  bm_emptyKey :: 'k
  bm_heap :: "('k, 'v) heap"

record ('k, 'v, 'q) bm_inst =
  bi_hash :: "'k \<Rightarrow> u64"
  bi_queue :: "(ptr, 'q) lfq_ops"
  bi_key0 :: 'k
  bi_val0 :: 'v

definition bm_KeyToIndex :: "('k, 'v, 'q) bm_inst \<Rightarrow> ('k, 'v, 'q) block_map \<Rightarrow> 'k \<Rightarrow> u64 result" where
  "bm_KeyToIndex I B k = (if bm_maxSize B = 0 then Inl Div_By_Zero else Inr (bi_hash I k mod bm_maxSize B))"

text \<open>The loop of the constructor: one sentinel per bucket.\<close>

primrec bm_init_table ::
  "('k, 'v, 'q) bm_inst \<Rightarrow> 'k \<Rightarrow> nat \<Rightarrow> ('k, 'v) heap \<Rightarrow> 'q memory_pool
     \<Rightarrow> (fnode list \<times> ('k, 'v) heap \<times> 'q memory_pool) result" where
  "bm_init_table I ek 0 h pl = Inr ([], h, pl)"
| "bm_init_table I ek (Suc m) h pl =
     rbind (bm_init_table I ek m h pl) (\<lambda>(table, h, pl).
       case memory_pool_pop (bi_queue I) (bi_key0 I) (bi_val0 I) h pl of
         None \<Rightarrow> Inl Diverges
       | Some (a, h, pl) \<Rightarrow>
           Inr (table @ [\<lparr>num_nodes = 0, fn_mutex = False, fn_head = a\<rparr>],
                h(a := (h a)\<lparr>n_key := ek, n_next := None\<rparr>), pl))"

definition BlockMap_ctor ::
  "('k, 'v, 'q) bm_inst \<Rightarrow> u64 \<Rightarrow> ('k, 'v) heap \<Rightarrow> 'q memory_pool \<Rightarrow> 'k \<Rightarrow> ('k, 'v, 'q) block_map result" where
  "BlockMap_ctor I n h pl maxKey =
     rguard (n > 0) Assert_Failed
       (rbind (bm_init_table I maxKey (unat n) h pl) (\<lambda>(table, h, pl).
        rguard (n < - 1) Assert_Failed
          (Inr \<lparr>bm_table = table, bm_maxSize = n, bm_allocated = 0, bm_removed = 0, bm_pool = pl,
                bm_emptyKey = maxKey, bm_heap = h\<rparr>)))"

text \<open>An operation runs on one bucket under its mutex.\<close>

definition set_mutex :: "bool \<Rightarrow> nat \<Rightarrow> ('k, 'v, 'q) block_map \<Rightarrow> ('k, 'v, 'q) block_map" where
  "set_mutex b i B = B\<lparr>bm_table := (bm_table B)[i := (bm_table B ! i)\<lparr>fn_mutex := b\<rparr>]\<rparr>"

definition in_bucket ::
  "('k, 'v, 'q) bm_inst \<Rightarrow> 'k \<Rightarrow> (nat \<Rightarrow> ('k, 'v, 'q) block_map \<Rightarrow> ('r \<times> ('k, 'v, 'q) block_map) result)
     \<Rightarrow> ('k, 'v, 'q) block_map \<Rightarrow> ('r \<times> ('k, 'v, 'q) block_map) result" where
  "in_bucket I k body B =
     rbind (bm_KeyToIndex I B k) (\<lambda>pos. let i = unat pos in
       if length (bm_table B) \<le> i then Inl Out_Of_Range
       else if fn_mutex (bm_table B ! i) then Inl Would_Block
       else rmap (\<lambda>(r, B). (r, set_mutex False i B)) (body i (set_mutex True i B)))"

section \<open>Operations\<close>

text \<open>\<^verbatim>\<open>insert\<close>: the loop keeps the predecessor \<open>p\<close> of the node \<open>n\<close> it looks at.\<close>

partial_function (option) insert_scan ::
  "('k \<Rightarrow> u64) \<Rightarrow> 'k \<Rightarrow> ('k, 'v) heap \<Rightarrow> ptr \<Rightarrow> ptr option \<Rightarrow> bool \<Rightarrow> (ptr \<times> ptr option \<times> bool) option" where
  "insert_scan hash k h p n found =
     (case n of
        None \<Rightarrow> Some (p, None, found)
      | Some a \<Rightarrow>
          (if hash (n_key (h a)) > hash k then Some (p, n, found \<or> n_key (h a) = k)
           else insert_scan hash k h a (n_next (h a)) (found \<or> n_key (h a) = k)))"

definition bm_insert_body ::
  "('k, 'v, 'q) bm_inst \<Rightarrow> 'k \<Rightarrow> 'v \<Rightarrow> nat \<Rightarrow> ('k, 'v, 'q) block_map \<Rightarrow> (u32 \<times> ('k, 'v, 'q) block_map) result" where
  "bm_insert_body I k v i B =
     (let h = bm_heap B; hd_i = fn_head (bm_table B ! i) in
      case insert_scan (bi_hash I) k h hd_i (n_next (h hd_i)) False of
        None \<Rightarrow> Inl Diverges
      | Some (p, n, found) \<Rightarrow>
          if found then Inr (1, B)
          else (case memory_pool_pop (bi_queue I) (bi_key0 I) (bi_val0 I) h (bm_pool B) of
                  None \<Rightarrow> Inl Diverges
                | Some (a, h, pl) \<Rightarrow>
                    let h = h(a := \<lparr>n_key = k, n_value = v, n_next = n\<rparr>);
                        h = h(p := (h p)\<lparr>n_next := Some a\<rparr>)
                    in Inr (0, B\<lparr>bm_allocated := bm_allocated B + 1, bm_pool := pl, bm_heap := h,
                                bm_table := (bm_table B)[i := (bm_table B ! i)
                                  \<lparr>num_nodes := num_nodes (bm_table B ! i) + 1\<rparr>]\<rparr>)))"

definition bm_insert where
  "bm_insert I k v = in_bucket I k (bm_insert_body I k v)"

text \<open>
  The loop of \<^verbatim>\<open>find\<close>, \<^verbatim>\<open>update\<close>, \<^verbatim>\<open>get\<close> and \<^verbatim>\<open>update_field\<close>: \<open>act\<close> is what is done at a node with
  the key; the search stops after the first node with a larger hash.
\<close>

partial_function (option) chain_scan ::
  "('k \<Rightarrow> u64) \<Rightarrow> 'k \<Rightarrow> (ptr \<Rightarrow> ('k, 'v) heap \<times> 'a \<Rightarrow> ('k, 'v) heap \<times> 'a) \<Rightarrow> ptr option
     \<Rightarrow> ('k, 'v) heap \<times> 'a \<Rightarrow> (('k, 'v) heap \<times> 'a) option" where
  "chain_scan hash k act n s =
     (case n of
        None \<Rightarrow> Some s
      | Some a \<Rightarrow>
          (let s = (if n_key (fst s a) = k then act a s else s)
           in if hash (n_key (fst s a)) > hash k then Some s
              else chain_scan hash k act (n_next (fst s a)) s))"

definition scan_body where
  "scan_body I k act from_sentinel x0 i B =
     (let h = bm_heap B; hd_i = fn_head (bm_table B ! i) in
      case chain_scan (bi_hash I) k act (if from_sentinel then Some hd_i else n_next (h hd_i)) (h, x0) of
        None \<Rightarrow> Inl Diverges
      | Some (h, x) \<Rightarrow> Inr (x, B\<lparr>bm_heap := h\<rparr>))"

definition bm_find :: "('k, 'v, 'q) bm_inst \<Rightarrow> 'k \<Rightarrow> ('k, 'v, 'q) block_map \<Rightarrow> (u64 \<times> ('k, 'v, 'q) block_map) result" where
  "bm_find I k = in_bucket I k (\<lambda>i B.
     rmap (\<lambda>(found, B). (if found then of_nat i else - 1, B))
       (scan_body I k (\<lambda>a (h, found). (h, True)) False False i B))"

definition bm_update ::
  "('k, 'v, 'q) bm_inst \<Rightarrow> 'k \<Rightarrow> 'v \<Rightarrow> ('k, 'v, 'q) block_map \<Rightarrow> (bool \<times> ('k, 'v, 'q) block_map) result" where
  "bm_update I k v = in_bucket I k
     (scan_body I k (\<lambda>a (h, found). (h(a := (h a)\<lparr>n_value := v\<rparr>), True)) False False)"

text \<open>\<^verbatim>\<open>get\<close> starts at the sentinel itself; \<open>v0\<close> is what \<^verbatim>\<open>*v\<close> holds before.\<close>

definition bm_get ::
  "('k, 'v, 'q) bm_inst \<Rightarrow> 'k \<Rightarrow> 'v \<Rightarrow> ('k, 'v, 'q) block_map \<Rightarrow> ((bool \<times> 'v) \<times> ('k, 'v, 'q) block_map) result" where
  "bm_get I k v0 = in_bucket I k (scan_body I k (\<lambda>a (h, x). (h, (True, n_value (h a)))) True (False, v0))"

definition bm_update_field ::
  "('k, 'v, 'q) bm_inst \<Rightarrow> 'k \<Rightarrow> ('v \<Rightarrow> 'v) \<Rightarrow> ('k, 'v, 'q) block_map \<Rightarrow> (bool \<times> ('k, 'v, 'q) block_map) result" where
  "bm_update_field I k fn = in_bucket I k
     (scan_body I k (\<lambda>a (h, found). (h(a := (h a)\<lparr>n_value := fn (n_value (h a))\<rparr>), True)) False False)"

partial_function (option) erase_scan ::
  "('k \<Rightarrow> u64) \<Rightarrow> 'k \<Rightarrow> ('k, 'v) heap \<Rightarrow> ptr \<Rightarrow> ptr option \<Rightarrow> (ptr \<times> ptr option) option" where
  "erase_scan hash k h p n =
     (case n of
        None \<Rightarrow> Some (p, None)
      | Some a \<Rightarrow>
          (if n_key (h a) = k then Some (p, n)
           else if hash (n_key (h a)) > hash k then Some (p, n)
           else erase_scan hash k h a (n_next (h a))))"

definition bm_erase_body ::
  "('k, 'v, 'q) bm_inst \<Rightarrow> 'k \<Rightarrow> nat \<Rightarrow> ('k, 'v, 'q) block_map \<Rightarrow> (bool \<times> ('k, 'v, 'q) block_map) result" where
  "bm_erase_body I k i B =
     (let h = bm_heap B; hd_i = fn_head (bm_table B ! i) in
      case erase_scan (bi_hash I) k h hd_i (n_next (h hd_i)) of
        None \<Rightarrow> Inl Diverges
      | Some (p, None) \<Rightarrow> Inr (False, B)
      | Some (p, Some a) \<Rightarrow>
          if n_key (h a) = k
          then Inr (True, B\<lparr>bm_heap := h(p := (h p)\<lparr>n_next := n_next (h a)\<rparr>),
                           bm_pool := memory_pool_push (bi_queue I) a (bm_pool B),
                           bm_table := (bm_table B)[i := (bm_table B ! i)
                             \<lparr>num_nodes := num_nodes (bm_table B ! i) - 1\<rparr>],
                           bm_removed := bm_removed B + 1\<rparr>)
          else Inr (False, B))"

definition bm_erase where
  "bm_erase I k = in_bucket I k (bm_erase_body I k)"

definition bm_allocated_nodes :: "('k, 'v, 'q) block_map \<Rightarrow> u64" where
  "bm_allocated_nodes B = bm_allocated B"

definition bm_removed_nodes :: "('k, 'v, 'q) block_map \<Rightarrow> u64" where
  "bm_removed_nodes B = bm_removed B"

definition bm_count_block_entries :: "('k, 'v, 'q) block_map \<Rightarrow> u64" where
  "bm_count_block_entries B = sum_list (map (\<lambda>i. num_nodes (bm_table B ! i)) [0..<unat (bm_maxSize B)])"

section \<open>Chains in the heap\<close>

primrec path :: "('k, 'v) heap \<Rightarrow> ptr option \<Rightarrow> ptr list \<Rightarrow> bool" where
  "path h n [] \<longleftrightarrow> n = None"
| "path h n (a # as) \<longleftrightarrow> n = Some a \<and> path h (n_next (h a)) as"

definition first_of :: "ptr list \<Rightarrow> ptr option" where
  "first_of as = (case as of [] \<Rightarrow> None | a # _ \<Rightarrow> Some a)"

lemma first_of_simps [simp]: "first_of [] = None" "first_of (a # as) = Some a"
  by (simp_all add: first_of_def)

lemma path_first: "path h n as \<Longrightarrow> n = first_of as"
  by (cases "as") simp_all

lemma path_cong: "(\<And>a. a \<in> set as \<Longrightarrow> n_next (h' a) = n_next (h a)) \<Longrightarrow> path h' n as = path h n as"
  by (induction "as" arbitrary: n) simp_all

lemma path_append: "path h n (as @ bs) \<Longrightarrow> path h (first_of bs) bs"
  by (induction "as" arbitrary: n) (auto dest: path_first)

lemma last_in_chain: "last (p # pre) \<in> set (p # pre)"
  by (rule last_in_set) simp

text \<open>Linking a node behind the last node of \<open>p # pre\<close>, and unlinking the one behind it.\<close>

lemma path_link:
  assumes "path h (n_next (h p)) (pre @ post)" "distinct (p # pre @ post)" "n_next (h a) = first_of post"
    "a \<notin> set (p # pre @ post)"
  shows "path (h(last (p # pre) := (h (last (p # pre)))\<lparr>n_next := Some a\<rparr>))
    (n_next ((h(last (p # pre) := (h (last (p # pre)))\<lparr>n_next := Some a\<rparr>)) p)) (pre @ a # post)"
  using assms
proof (induction pre arbitrary: p)
  case Nil
  then have "path h (first_of post) post" using path_append [of h _ "[]" post] by auto
  moreover have "path (h(p := (h p)\<lparr>n_next := Some a\<rparr>)) n post = path h n post" for n
    by (rule path_cong) (use Nil in auto)
  ultimately show ?case using Nil by (simp add: fun_upd_def)
next
  case (Cons b pre)
  let ?h = "h(last (b # pre) := (h (last (b # pre)))\<lparr>n_next := Some a\<rparr>)"
  have "p \<noteq> last (b # pre)" using Cons.prems(2) last_in_chain [of b pre] by auto
  then show ?case using Cons.IH [of b] Cons.prems by (simp add: fun_upd_def)
qed

lemma path_unlink:
  assumes "path h (n_next (h p)) (pre @ a # post)" "distinct (p # pre @ a # post)"
  shows "path (h(last (p # pre) := (h (last (p # pre)))\<lparr>n_next := n_next (h a)\<rparr>))
    (n_next ((h(last (p # pre) := (h (last (p # pre)))\<lparr>n_next := n_next (h a)\<rparr>)) p)) (pre @ post)"
  using assms
proof (induction pre arbitrary: p)
  case Nil
  have "path (h(p := (h p)\<lparr>n_next := n_next (h a)\<rparr>)) n post = path h n post" for n
    by (rule path_cong) (use Nil in auto)
  then show ?case using Nil by (simp add: fun_upd_def)
next
  case (Cons b pre)
  have "p \<noteq> last (b # pre)" using Cons.prems(2) last_in_chain [of b pre] by auto
  then show ?case using Cons.IH [of b] Cons.prems by (simp add: fun_upd_def)
qed

section \<open>What the loops compute on a chain\<close>

lemma hash_dropWhile:
  "sorted (map f as) \<Longrightarrow> x \<in> set (dropWhile (\<lambda>a. f a \<le> (c :: 'c::linorder)) as) \<Longrightarrow> c \<le> f x"
  by (induction "as") (auto split: if_splits)

abbreviation keys_of :: "('k, 'v) heap \<Rightarrow> ptr list \<Rightarrow> 'k list" where
  "keys_of h as \<equiv> map (\<lambda>a. n_key (h a)) as"

abbreviation hash_sorted :: "('k \<Rightarrow> u64) \<Rightarrow> ('k, 'v) heap \<Rightarrow> ptr list \<Rightarrow> bool" where
  "hash_sorted hash h as \<equiv> sorted (map (\<lambda>a. hash (n_key (h a))) as)"

definition entries :: "('k, 'v) heap \<Rightarrow> ptr list \<Rightarrow> ('k \<times> 'v) list" where
  "entries h as = map (\<lambda>a. (n_key (h a), n_value (h a))) as"

lemma insert_scan_eq:
  assumes "path h n as" "hash_sorted hash h as"
  shows "insert_scan hash k h p n found =
    Some (last (p # takeWhile (\<lambda>a. hash (n_key (h a)) \<le> hash k) as),
          first_of (dropWhile (\<lambda>a. hash (n_key (h a)) \<le> hash k) as), found \<or> k \<in> set (keys_of h as))"
  using assms
proof (induction "as" arbitrary: p n found)
  case Nil
  then show ?case by (simp add: insert_scan.simps)
next
  case (Cons a as)
  show ?case
  proof (cases "hash (n_key (h a)) \<le> hash k")
    case True
    then show ?thesis using Cons by (subst insert_scan.simps) (auto simp: not_less)
  next
    case False
    then have "\<forall>b \<in> set (a # as). n_key (h b) \<noteq> k" using Cons.prems(2) by auto
    then show ?thesis using False Cons.prems by (subst insert_scan.simps) (auto simp: not_le)
  qed
qed

definition same_links :: "('k, 'v) heap \<Rightarrow> ('k, 'v) heap \<Rightarrow> bool" where
  "same_links h h' \<longleftrightarrow> (\<forall>a. n_key (h' a) = n_key (h a) \<and> n_next (h' a) = n_next (h a))"

lemma same_links_simps:
  assumes "same_links h h'"
  shows "path h' n as = path h n as" "keys_of h' as = keys_of h as"
    "map (\<lambda>a. hash (n_key (h' a))) as = map (\<lambda>a. hash (n_key (h a))) as" "n_key (h' a) = n_key (h a)"
    "n_next (h' a) = n_next (h a)"
  using assms path_cong [of "as" h' h n] by (simp_all add: same_links_def)

lemma chain_scan_none:
  assumes "path (fst s) n as" "k \<notin> set (keys_of (fst s) as)"
  shows "chain_scan hash k act n s = Some s"
  using assms
proof (induction "as" arbitrary: n)
  case Nil
  then show ?case by (simp add: chain_scan.simps)
next
  case (Cons a as)
  then show ?case by (subst chain_scan.simps) (auto simp: Let_def)
qed

lemma chain_scan_hit:
  assumes "path (fst s) n (pre @ a # post)" "n_key (fst s a) = k" "distinct (keys_of (fst s) (pre @ a # post))"
    and "\<forall>b \<in> set pre. hash (n_key (fst s b)) \<le> hash k" "same_links (fst s) (fst (act a s))"
  shows "chain_scan hash k act n s = Some (act a s)"
  using assms
proof (induction pre arbitrary: n)
  case Nil
  have "chain_scan hash k act (n_next (fst (act a s) a)) (act a s) = Some (act a s)"
    by (rule chain_scan_none [of _ _ post]) (use Nil in \<open>auto simp: same_links_simps\<close>)
  with Nil show ?case by (subst chain_scan.simps) (auto simp: Let_def same_links_simps)
next
  case (Cons b pre)
  then have "n_key (fst s b) \<noteq> k" by auto
  with Cons show ?case by (subst chain_scan.simps) (auto simp: Let_def)
qed

lemma erase_scan_hit:
  assumes "path h n (pre @ a # post)" "n_key (h a) = k"
    and "\<forall>b \<in> set pre. n_key (h b) \<noteq> k \<and> hash (n_key (h b)) \<le> hash k"
  shows "erase_scan hash k h p n = Some (last (p # pre), Some a)"
  using assms
proof (induction pre arbitrary: p n)
  case Nil
  then show ?case by (simp add: erase_scan.simps)
next
  case (Cons b pre)
  then show ?case by (subst erase_scan.simps) auto
qed

lemma erase_scan_none:
  assumes "path h n as" "k \<notin> set (keys_of h as)"
  shows "\<exists>p' n'. erase_scan hash k h p n = Some (p', n') \<and> (\<forall>a. n' = Some a \<longrightarrow> n_key (h a) \<noteq> k)"
  using assms
proof (induction "as" arbitrary: p n)
  case Nil
  then show ?case by (simp add: erase_scan.simps)
next
  case (Cons a as)
  then have "n_key (h a) \<noteq> k" "n = Some a" by auto
  moreover have "\<exists>p' n'. erase_scan hash k h a (n_next (h a)) = Some (p', n') \<and> (\<forall>a. n' = Some a \<longrightarrow> n_key (h a) \<noteq> k)"
    using Cons by simp
  ultimately show ?case by (subst erase_scan.simps) (auto split: if_splits)
qed

text \<open>Where a key is in a chain.\<close>

lemma key_split:
  assumes "k \<in> set (keys_of h as)" "distinct (keys_of h as)" "hash_sorted hash h as"
  obtains pre a post where "as = pre @ a # post" "n_key (h a) = k"
    "\<forall>b \<in> set pre. n_key (h b) \<noteq> k \<and> hash (n_key (h b)) \<le> hash k"
    "map_of (entries h as) k = Some (n_value (h a))"
proof -
  from assms(1) obtain a where "a \<in> set as" "n_key (h a) = k" by auto
  then obtain pre post where s: "as = pre @ a # post" "n_key (h a) = k" by (auto simp: in_set_conv_decomp)
  then have "k \<notin> (\<lambda>b. n_key (h b)) ` set pre" "\<forall>b \<in> set pre. hash (n_key (h b)) \<le> hash k"
    using assms(2,3) by (auto simp: sorted_append)
  then have "\<forall>b \<in> set pre. n_key (h b) \<noteq> k \<and> hash (n_key (h b)) \<le> hash k" by auto
  moreover have "map_of (entries h as) k = Some (n_value (h a))"
    using s assms(2) by (intro map_of_is_SomeI) (auto simp: entries_def comp_def)
  ultimately show ?thesis using s that by blast
qed

lemma map_of_entries_None: "map_of (entries h as) k = None \<longleftrightarrow> k \<notin> set (keys_of h as)"
  by (auto simp: entries_def map_of_eq_None_iff image_iff)

section \<open>The invariant\<close>

definition bucket_ok ::
  "('k \<Rightarrow> u64) \<Rightarrow> 'k \<Rightarrow> nat \<Rightarrow> nat \<Rightarrow> ('k, 'v) heap \<Rightarrow> fnode \<Rightarrow> ptr list \<Rightarrow> bool" where
  "bucket_ok hash ek m i h b as \<longleftrightarrow>
     \<not> fn_mutex b \<and> path h (n_next (h (fn_head b))) as \<and> distinct (fn_head b # as)
     \<and> hash_sorted hash h as \<and> distinct (keys_of h as)
     \<and> (\<forall>a \<in> set as. unat (hash (n_key (h a))) mod m = i)
     \<and> num_nodes b = of_nat (length as) \<and> n_key (h (fn_head b)) = ek"

definition cells :: "fnode \<Rightarrow> ptr list \<Rightarrow> ptr set" where
  "cells b as = insert (fn_head b) (set as)"

definition bm_rel ::
  "('k, 'v, 'q) bm_inst \<Rightarrow> ('q \<Rightarrow> ptr list) \<Rightarrow> ('k, 'v, 'q) block_map \<Rightarrow> ptr list list \<Rightarrow> bool" where
  "bm_rel I elems B cs \<longleftrightarrow>
     (let t = bm_table B; m = length t; h = bm_heap B in
      length cs = m \<and> 0 < m \<and> unat (bm_maxSize B) = m \<and> pool_inv elems (bm_pool B)
      \<and> (\<forall>i < m. bucket_ok (bi_hash I) (bm_emptyKey B) m i h (t ! i) (cs ! i)
            \<and> cells (t ! i) (cs ! i) \<inter> set (pooled elems (bm_pool B)) = {}
            \<and> (\<forall>a \<in> cells (t ! i) (cs ! i). a < brk (bm_pool B)))
      \<and> (\<forall>i < m. \<forall>j < m. i \<noteq> j \<longrightarrow> cells (t ! i) (cs ! i) \<inter> cells (t ! j) (cs ! j) = {}))"

text \<open>The map a table denotes, read off the chains.\<close>

partial_function (option) chain_walk :: "('k, 'v) heap \<Rightarrow> ptr option \<Rightarrow> ptr list option" where
  "chain_walk h n = (case n of None \<Rightarrow> Some []
     | Some a \<Rightarrow> Option.bind (chain_walk h (n_next (h a))) (\<lambda>as. Some (a # as)))"

definition bm_chain :: "('k, 'v, 'q) block_map \<Rightarrow> nat \<Rightarrow> ptr list" where
  "bm_chain B i =
     (case chain_walk (bm_heap B) (n_next (bm_heap B (fn_head (bm_table B ! i)))) of None \<Rightarrow> [] | Some as \<Rightarrow> as)"

definition bm_index :: "('k, 'v, 'q) bm_inst \<Rightarrow> ('k, 'v, 'q) block_map \<Rightarrow> 'k \<Rightarrow> nat" where
  "bm_index I B k = unat (bi_hash I k) mod length (bm_table B)"

definition bm_look :: "('k, 'v, 'q) bm_inst \<Rightarrow> ('k, 'v, 'q) block_map \<Rightarrow> 'k \<Rightarrow> 'v option" where
  "bm_look I B k = map_of (entries (bm_heap B) (bm_chain B (bm_index I B k))) k"

definition bm_ok :: "('k, 'v, 'q) bm_inst \<Rightarrow> ('q \<Rightarrow> ptr list) \<Rightarrow> ('k, 'v, 'q) block_map \<Rightarrow> bool" where
  "bm_ok I elems B \<longleftrightarrow> (\<exists>cs. bm_rel I elems B cs)"

lemma chain_walk_path: "path h n as \<Longrightarrow> chain_walk h n = Some as"
  by (induction "as" arbitrary: n) (simp_all add: chain_walk.simps)

lemma bm_relD:
  assumes "bm_rel I elems B cs"
  shows "0 < length (bm_table B)" "length cs = length (bm_table B)" "unat (bm_maxSize B) = length (bm_table B)"
    "pool_inv elems (bm_pool B)"
    "i < length (bm_table B) \<Longrightarrow>
       bucket_ok (bi_hash I) (bm_emptyKey B) (length (bm_table B)) i (bm_heap B) (bm_table B ! i) (cs ! i)"
    "i < length (bm_table B) \<Longrightarrow> cells (bm_table B ! i) (cs ! i) \<inter> set (pooled elems (bm_pool B)) = {}"
    "i < length (bm_table B) \<Longrightarrow> a \<in> cells (bm_table B ! i) (cs ! i) \<Longrightarrow> a < brk (bm_pool B)"
    "bm_index I B k < length (bm_table B)"
  using assms by (auto simp: bm_rel_def Let_def bm_index_def)

lemma bm_chain_rel: "bm_rel I elems B cs \<Longrightarrow> i < length (bm_table B) \<Longrightarrow> bm_chain B i = cs ! i"
  using bm_relD(5) [of I elems B cs i] chain_walk_path by (fastforce simp: bm_chain_def bucket_ok_def)

lemma bm_look_rel:
  "bm_rel I elems B cs \<Longrightarrow> bm_look I B k = map_of (entries (bm_heap B) (cs ! bm_index I B k)) k"
  using bm_relD(8) [of I elems B cs k] by (simp add: bm_look_def bm_chain_rel)

lemma bucket_ok_cong:
  "(\<And>a. a \<in> cells b as \<Longrightarrow> h' a = h a) \<Longrightarrow> bucket_ok hash ek m i h' b as = bucket_ok hash ek m i h b as"
  using path_cong [of "as" h' h] by (simp add: bucket_ok_def cells_def cong: map_cong)

lemma entries_cong: "(\<And>a. a \<in> set as \<Longrightarrow> h' a = h a) \<Longrightarrow> entries h' as = entries h as"
  by (simp add: entries_def)

text \<open>A step on one bucket that leaves the cells of the others alone.\<close>

lemma bm_rel_step:
  assumes rel: "bm_rel I elems B cs" and i: "i < length (bm_table B)"
    and B': "bm_table B' = (bm_table B)[i := b']" "bm_maxSize B' = bm_maxSize B" "bm_emptyKey B' = bm_emptyKey B"
    and hd: "fn_head b' = fn_head (bm_table B ! i)"
    and ok: "bucket_ok (bi_hash I) (bm_emptyKey B) (length (bm_table B)) i (bm_heap B') b' as'"
    and heap: "\<forall>a. a < brk (bm_pool B) \<longrightarrow> a \<notin> set (pooled elems (bm_pool B)) \<longrightarrow>
      a \<notin> cells (bm_table B ! i) (cs ! i) \<longrightarrow> bm_heap B' a = bm_heap B a"
    and pool: "pool_inv elems (bm_pool B')" "brk (bm_pool B) \<le> brk (bm_pool B')"
      "set (pooled elems (bm_pool B')) \<union> set as' \<subseteq> set (pooled elems (bm_pool B)) \<union>
         cells (bm_table B ! i) (cs ! i) \<union> {brk (bm_pool B)..<brk (bm_pool B')}"
      "cells b' as' \<inter> set (pooled elems (bm_pool B')) = {}" "\<forall>a \<in> set as'. a < brk (bm_pool B')"
  shows "bm_rel I elems B' (cs[i := as'])"
    and "bm_look I B' = (\<lambda>k. if bm_index I B k = i then map_of (entries (bm_heap B') as') k else bm_look I B k)"
proof -
  let ?m = "length (bm_table B)"
  have other: "cells (bm_table B ! j) (cs ! j) \<inter> (set (pooled elems (bm_pool B)) \<union>
      cells (bm_table B ! i) (cs ! i) \<union> {brk (bm_pool B)..<brk (bm_pool B')}) = {}"
    "\<And>a. a \<in> cells (bm_table B ! j) (cs ! j) \<Longrightarrow> a < brk (bm_pool B)" if "j < ?m" "j \<noteq> i" for j
    using rel that i bm_relD(7) [OF rel that(1)] by (fastforce simp: bm_rel_def Let_def)+
  have same: "bm_heap B' a = bm_heap B a" if "j < ?m" "j \<noteq> i" "a \<in> cells (bm_table B ! j) (cs ! j)" for j a
    using other [OF that(1,2)] that(3) by (intro heap [rule_format]) auto
  have new: "cells b' as' \<subseteq> set (pooled elems (bm_pool B)) \<union> cells (bm_table B ! i) (cs ! i)
      \<union> {brk (bm_pool B)..<brk (bm_pool B')}"
    using pool(3) hd by (auto simp: cells_def)
  have lt: "fn_head b' < brk (bm_pool B')"
    using bm_relD(7) [OF rel i, of "fn_head b'"] hd pool(2) by (simp add: cells_def)
  have buckets: "bucket_ok (bi_hash I) (bm_emptyKey B) ?m j (bm_heap B') ((bm_table B)[i := b'] ! j) (cs[i := as'] ! j)
      \<and> cells ((bm_table B)[i := b'] ! j) (cs[i := as'] ! j) \<inter> set (pooled elems (bm_pool B')) = {}
      \<and> (\<forall>a \<in> cells ((bm_table B)[i := b'] ! j) (cs[i := as'] ! j). a < brk (bm_pool B'))" if j: "j < ?m" for j
  proof (cases "j = i")
    case True
    then show ?thesis using ok pool(4,5) lt i bm_relD(2) [OF rel] by (auto simp: cells_def)
  next
    case False
    have "bucket_ok (bi_hash I) (bm_emptyKey B) ?m j (bm_heap B') (bm_table B ! j) (cs ! j)"
      using bm_relD(5) [OF rel j] bucket_ok_cong [of "bm_table B ! j" "cs ! j" "bm_heap B'" "bm_heap B"]
        same [OF j False] by blast
    moreover have "\<forall>a \<in> cells (bm_table B ! j) (cs ! j). a < brk (bm_pool B')"
      using other(2) [OF j False] pool(2) by (blast intro: order.strict_trans2)
    ultimately show ?thesis using False other(1) [OF j False] pool(3) by auto
  qed
  have apart: "cells b' as' \<inter> cells (bm_table B ! j) (cs ! j) = {}" if "j < ?m" "j \<noteq> i" for j
    using other(1) [OF that] new by blast
  have old: "cells (bm_table B ! j) (cs ! j) \<inter> cells (bm_table B ! l) (cs ! l) = {}"
    if "j < ?m" "l < ?m" "j \<noteq> l" for j l
    using rel that by (simp add: bm_rel_def Let_def)
  have "cells ((bm_table B)[i := b'] ! j) (cs[i := as'] ! j) \<inter> cells ((bm_table B)[i := b'] ! l) (cs[i := as'] ! l) = {}"
    if "j < ?m" "l < ?m" "j \<noteq> l" for j l
    using apart [OF that(1)] apart [OF that(2)] old [OF that] that bm_relD(2) [OF rel]
    by (cases "j = i"; cases "l = i") (simp_all add: Int_commute)
  then show rel': "bm_rel I elems B' (cs[i := as'])"
    using buckets B' pool(1) bm_relD(1-3) [OF rel] unfolding bm_rel_def Let_def by simp
  show "bm_look I B' = (\<lambda>k. if bm_index I B k = i then map_of (entries (bm_heap B') as') k else bm_look I B k)"
  proof
    fix k
    let ?j = "bm_index I B k"
    have j: "bm_index I B' k = ?j" by (simp add: bm_index_def B')
    have "entries (bm_heap B') (cs ! ?j) = entries (bm_heap B) (cs ! ?j)" if "?j \<noteq> i"
      using same [OF bm_relD(8) [OF rel] that] by (intro entries_cong) (auto simp: cells_def)
    then show "bm_look I B' k = (if ?j = i then map_of (entries (bm_heap B') as') k else bm_look I B k)"
      using i bm_relD(2) [OF rel] by (simp add: bm_look_rel [OF rel'] bm_look_rel [OF rel] j)
  qed
qed

lemma bm_KeyToIndex_rel:
  assumes "bm_rel I elems B cs"
  shows "\<exists>pos. bm_KeyToIndex I B k = Inr pos \<and> unat pos = bm_index I B k"
proof -
  have "unat (bm_maxSize B) \<noteq> 0" using bm_relD(1,3) [OF assms] by simp
  then have "bm_maxSize B \<noteq> 0" by auto
  then show ?thesis
    using bm_relD(3) [OF assms] by (simp add: bm_KeyToIndex_def bm_index_def unat_mod)
qed

lemma in_bucket_rel:
  assumes "bm_rel I elems B cs"
  shows "in_bucket I k body B = rmap (\<lambda>(r, B'). (r, set_mutex False (bm_index I B k) B'))
    (body (bm_index I B k) (set_mutex True (bm_index I B k) B))"
  using bm_KeyToIndex_rel [OF assms, of k] bm_relD(8) [OF assms, of k] bm_relD(5) [OF assms, of "bm_index I B k"]
  by (auto simp: in_bucket_def bucket_ok_def Let_def)

lemma set_mutex_sel [simp]:
  "bm_heap (set_mutex b i B) = bm_heap B" "bm_pool (set_mutex b i B) = bm_pool B"
  "bm_maxSize (set_mutex b i B) = bm_maxSize B" "bm_emptyKey (set_mutex b i B) = bm_emptyKey B"
  "bm_allocated (set_mutex b i B) = bm_allocated B" "bm_removed (set_mutex b i B) = bm_removed B"
  "i < length (bm_table B) \<Longrightarrow> bm_table (set_mutex b i B) ! i = (bm_table B ! i)\<lparr>fn_mutex := b\<rparr>"
  "length (bm_table (set_mutex b i B)) = length (bm_table B)"
  "bm_table (set_mutex b i B) = (bm_table B)[i := (bm_table B ! i)\<lparr>fn_mutex := b\<rparr>]"
  by (simp_all add: set_mutex_def)

section \<open>Steps on one bucket\<close>

lemma map_of_middle:
  "map_of (xs @ (k, v) # ys) = (map_of (xs @ ys))(k \<mapsto> v)" "(map_of (xs @ (k, v) # ys))(k := None) = map_of (xs @ ys)"
  if "k \<notin> fst ` set (xs @ ys)"
proof -
  have n: "map_of (xs @ ys) k = None" using that by (simp add: map_of_eq_None_iff image_Un)
  show m: "map_of (xs @ (k, v) # ys) = (map_of (xs @ ys))(k \<mapsto> v)"
    using that by (induction xs) (auto simp: fun_eq_iff)
  show "(map_of (xs @ (k, v) # ys))(k := None) = map_of (xs @ ys)"
    unfolding m using n by (simp add: fun_upd_idem)
qed

lemma entries_simps [simp]:
  "entries h [] = []" "entries h (a # as) = (n_key (h a), n_value (h a)) # entries h as"
  "entries h (as @ bs) = entries h as @ entries h bs" "fst ` set (entries h as) = set (keys_of h as)"
  by (auto simp: entries_def image_iff)

lemma bucket_okD:
  assumes "bucket_ok hash ek m i h b as"
  shows "\<not> fn_mutex b" "path h (n_next (h (fn_head b))) as" "distinct (fn_head b # as)" "hash_sorted hash h as"
    "distinct (keys_of h as)" "\<forall>a \<in> set as. unat (hash (n_key (h a))) mod m = i"
    "num_nodes b = of_nat (length as)" "n_key (h (fn_head b)) = ek"
  using assms by (simp_all add: bucket_ok_def)

lemma bucket_link:
  fixes hash :: "'k \<Rightarrow> u64"
  assumes ok: "bucket_ok hash ek m i h b (pre @ post)" and a: "a \<notin> cells b (pre @ post)"
    and k: "k \<notin> set (keys_of h (pre @ post))" "unat (hash k) mod m = i"
    and ord: "\<forall>x \<in> set pre. hash (n_key (h x)) \<le> hash k" "\<forall>x \<in> set post. hash k \<le> hash (n_key (h x))"
    and h1: "\<forall>x \<in> cells b (pre @ post). h1 x = h x"
    and h2: "h2 = h1(a := \<lparr>n_key = k, n_value = v, n_next = first_of post\<rparr>)"
    and h3: "h3 = h2(last (fn_head b # pre) := (h2 (last (fn_head b # pre)))\<lparr>n_next := Some a\<rparr>)"
  shows "bucket_ok hash ek m i h3 (b\<lparr>num_nodes := num_nodes b + 1\<rparr>) (pre @ a # post)"
    and "map_of (entries h3 (pre @ a # post)) = (map_of (entries h (pre @ post)))(k \<mapsto> v)"
proof -
  let ?p = "last (fn_head b # pre)" and ?as = "pre @ post"
  have p: "?p \<in> cells b ?as" using last_in_chain [of "fn_head b" pre] by (auto simp: cells_def)
  then have pa: "?p \<noteq> a" using a by blast
  have val: "n_key (h3 x) = n_key (h x)" "n_value (h3 x) = n_value (h x)" if "x \<in> cells b ?as" for x
    using that a h1 [rule_format, OF that] h1 [rule_format, OF p] by (auto simp: h3 h2)
  have at_a: "n_key (h3 a) = k" "n_value (h3 a) = v" using pa by (auto simp: h3 h2)
  have at_head: "n_key (h3 (fn_head b)) = ek" using val(1) [of "fn_head b"] bucket_okD(8) [OF ok] by (simp add: cells_def)
  have "n_next (h2 x) = n_next (h x)" if "x \<in> cells b ?as" for x
    using that a h1 [rule_format, OF that] by (auto simp: h2)
  then have "path h2 (n_next (h2 (fn_head b))) ?as"
    using bucket_okD(2) [OF ok] path_cong [of ?as h2 h] by (simp add: cells_def)
  from path_link [OF this bucket_okD(3) [OF ok], of a] have
    "path h3 (n_next (h3 (fn_head b))) (pre @ a # post)"
    using a by (simp add: h3 h2 cells_def)
  moreover have pv: "n_key (h3 x) = n_key (h x) \<and> n_value (h3 x) = n_value (h x)" if "x \<in> set ?as" for x
    using val [of x] that by (auto simp: cells_def)
  ultimately show "bucket_ok hash ek m i h3 (b\<lparr>num_nodes := num_nodes b + 1\<rparr>) (pre @ a # post)"
    using bucket_okD [OF ok] a k ord at_a at_head
    by (simp add: bucket_ok_def cells_def sorted_append image_iff cong: map_cong)
  show "map_of (entries h3 (pre @ a # post)) = (map_of (entries h (pre @ post)))(k \<mapsto> v)"
    using pv at_a k(1) map_of_middle(1) [of k "entries h3 pre" "entries h3 post" v]
    by (simp add: image_Un entries_def [of _ pre] entries_def [of _ post] image_iff cong: map_cong)
qed

lemma bucket_unlink:
  assumes ok: "bucket_ok hash ek m i h b (pre @ a # post)"
    and h': "h' = h(last (fn_head b # pre) := (h (last (fn_head b # pre)))\<lparr>n_next := n_next (h a)\<rparr>)"
  shows "bucket_ok hash ek m i h' (b\<lparr>num_nodes := num_nodes b - 1\<rparr>) (pre @ post)"
    and "map_of (entries h' (pre @ post)) = (map_of (entries h (pre @ a # post)))(n_key (h a) := None)"
proof -
  have val: "n_key (h' x) = n_key (h x)" "n_value (h' x) = n_value (h x)" for x by (simp_all add: h')
  have "path h' (n_next (h' (fn_head b))) (pre @ post)"
    unfolding h' using bucket_okD(2,3) [OF ok] by (rule path_unlink)
  then show "bucket_ok hash ek m i h' (b\<lparr>num_nodes := num_nodes b - 1\<rparr>) (pre @ post)"
    using bucket_okD [OF ok] by (simp add: bucket_ok_def val sorted_append)
  have "n_key (h a) \<notin> set (keys_of h (pre @ post))"
    using bucket_okD(5) [OF ok] by auto
  moreover have "entries h' as = entries h as" for as by (simp add: entries_def val)
  ultimately show "map_of (entries h' (pre @ post)) = (map_of (entries h (pre @ a # post)))(n_key (h a) := None)"
    using map_of_middle(2) [of "n_key (h a)" "entries h pre" "entries h post" "n_value (h a)"]
    by (simp add: image_Un del: map_of_append)
qed

lemma set_value_entries:
  assumes "a \<in> set as" "distinct as" "distinct (keys_of h as)"
  shows "map_of (entries (h(a := (h a)\<lparr>n_value := u\<rparr>)) as) = (map_of (entries h as))(n_key (h a) \<mapsto> u)"
proof -
  obtain pre post where s: "as = pre @ a # post" using assms(1) by (auto simp: in_set_conv_decomp)
  let ?h = "h(a := (h a)\<lparr>n_value := u\<rparr>)"
  have e: "entries ?h pre = entries h pre" "entries ?h post = entries h post"
    using assms(2) s by (auto intro!: entries_cong)
  have n: "n_key (h a) \<notin> fst ` set (entries h pre @ entries h post)"
    using assms(3) s by (simp add: image_Un)
  show ?thesis
    using map_of_middle(1) [OF n, of u] map_of_middle(1) [OF n, of "n_value (h a)"]
    by (simp add: s e del: map_of_append)
qed

section \<open>Each operation on the map that the table denotes\<close>

locale block_table = pool_queue "bi_queue I" elems
  for I :: "('k, 'v, 'q) bm_inst" and elems :: "'q \<Rightarrow> ptr list"
begin

lemma fnode_upd [simp]:
  "b\<lparr>fn_mutex := m, num_nodes := x\<rparr> = b\<lparr>num_nodes := x, fn_mutex := m\<rparr>" "\<not> fn_mutex b \<Longrightarrow> b\<lparr>fn_mutex := False\<rparr> = b"
  by (cases b; simp)+

lemma set_mutex_undo:
  "i < length (bm_table B) \<Longrightarrow> \<not> fn_mutex (bm_table B ! i) \<Longrightarrow> set_mutex False i (set_mutex True i B) = B"
  by (cases B) (simp add: set_mutex_def)

text \<open>The bodies do not look at the mutex: holding it is the same as running the body alone.\<close>

lemma in_bucket_run:
  assumes rel: "bm_rel I elems B cs" and i: "i = bm_index I B k"
    and body: "body i (set_mutex True i B) = Inr (r, set_mutex True i B')"
    and B': "length (bm_table B') = length (bm_table B)" "\<not> fn_mutex (bm_table B' ! i)"
  shows "in_bucket I k body B = Inr (r, B')"
  using body B' set_mutex_undo [of i B'] bm_relD(8) [OF rel, of k]
  by (simp add: in_bucket_rel [OF rel] i)

text \<open>A new node for a bucket.\<close>

lemma fresh_node:
  assumes rel: "bm_rel I elems B cs" and i: "i < length (bm_table B)"
  obtains a h1 pl where
    "memory_pool_pop (bi_queue I) (bi_key0 I) (bi_val0 I) (bm_heap B) (bm_pool B) = Some (a, h1, pl)"
    "pool_inv elems pl" "a \<notin> set (pooled elems pl)" "a < brk pl" "brk (bm_pool B) \<le> brk pl"
    "insert a (set (pooled elems pl)) \<subseteq> set (pooled elems (bm_pool B)) \<union> {brk (bm_pool B)..<brk pl}"
    "\<And>x. x < brk (bm_pool B) \<Longrightarrow> x \<notin> set (pooled elems (bm_pool B)) \<Longrightarrow> h1 x = bm_heap B x"
    "a \<notin> cells (bm_table B ! i) (cs ! i)" "cells (bm_table B ! i) (cs ! i) \<inter> set (pooled elems pl) = {}"
    "\<forall>x \<in> cells (bm_table B ! i) (cs ! i). h1 x = bm_heap B x"
proof -
  obtain a h1 pl where pop: "memory_pool_pop (bi_queue I) (bi_key0 I) (bi_val0 I) (bm_heap B) (bm_pool B) = Some (a, h1, pl)"
      "pool_inv elems pl" "a \<notin> set (pooled elems pl)" "a < brk pl" "brk (bm_pool B) \<le> brk pl"
      "insert a (set (pooled elems pl)) \<subseteq> set (pooled elems (bm_pool B)) \<union> {brk (bm_pool B)..<brk pl}"
      "\<forall>x. x < brk (bm_pool B) \<longrightarrow> x \<notin> set (pooled elems (bm_pool B)) \<longrightarrow> h1 x = bm_heap B x"
    using memory_pool_pop_eq [OF bm_relD(4) [OF rel], of "bi_key0 I" "bi_val0 I" "bm_heap B"] by clarify
  have cells: "x < brk (bm_pool B) \<and> x \<notin> set (pooled elems (bm_pool B))" if "x \<in> cells (bm_table B ! i) (cs ! i)" for x
    using that bm_relD(6,7) [OF rel i] by auto
  then have out: "x \<notin> set (pooled elems (bm_pool B)) \<union> {brk (bm_pool B)..<brk pl}"
    if "x \<in> cells (bm_table B ! i) (cs ! i)" for x
    using that by fastforce
  show ?thesis
    by (rule that [OF pop(1-6)]) (use pop(6,7) cells out in blast)+
qed

lemma insert_new:
  assumes rel: "bm_rel I elems B cs" and i: "i = bm_index I B k" and k: "k \<notin> set (keys_of (bm_heap B) (cs ! i))"
  shows "\<exists>B' cs'. bm_insert I k v B = Inr (0, B') \<and> bm_rel I elems B' cs' \<and> bm_look I B' = (bm_look I B)(k \<mapsto> v)
    \<and> bm_emptyKey B' = bm_emptyKey B"
proof -
  let ?b = "bm_table B ! i" and ?h = "bm_heap B" and ?as = "cs ! i" and ?hash = "bi_hash I"
  let ?le = "\<lambda>a. ?hash (n_key (?h a)) \<le> ?hash k"
  let ?pre = "takeWhile ?le ?as" and ?post = "dropWhile ?le ?as"
  let ?p = "last (fn_head ?b # ?pre)"
  have i': "i < length (bm_table B)" using bm_relD(8) [OF rel] by (simp add: i)
  note ok = bm_relD(5) [OF rel i']
  obtain a h1 pl where pop: "memory_pool_pop (bi_queue I) (bi_key0 I) (bi_val0 I) ?h (bm_pool B) = Some (a, h1, pl)"
    "pool_inv elems pl" "a \<notin> set (pooled elems pl)" "a < brk pl" "brk (bm_pool B) \<le> brk pl"
    "insert a (set (pooled elems pl)) \<subseteq> set (pooled elems (bm_pool B)) \<union> {brk (bm_pool B)..<brk pl}"
    "\<And>x. x < brk (bm_pool B) \<Longrightarrow> x \<notin> set (pooled elems (bm_pool B)) \<Longrightarrow> h1 x = ?h x"
    "a \<notin> cells ?b ?as" "cells ?b ?as \<inter> set (pooled elems pl) = {}" "\<forall>x \<in> cells ?b ?as. h1 x = ?h x"
    using fresh_node [OF rel i'] by blast
  define h2 where "h2 = h1(a := \<lparr>n_key = k, n_value = v, n_next = first_of ?post\<rparr>)"
  define h3 where "h3 = h2(?p := (h2 ?p)\<lparr>n_next := Some a\<rparr>)"
  define b' where "b' = ?b\<lparr>num_nodes := num_nodes ?b + 1\<rparr>"
  define B' where "B' = B\<lparr>bm_allocated := bm_allocated B + 1, bm_pool := pl, bm_heap := h3,
    bm_table := (bm_table B)[i := b']\<rparr>"
  have b': "\<not> fn_mutex b'" "fn_head b' = fn_head ?b" using bucket_okD(1) [OF ok] by (simp_all add: b'_def)
  have "bm_insert_body I k v i (set_mutex True i B) = Inr (0, set_mutex True i B')"
    using insert_scan_eq [OF bucket_okD(2,4) [OF ok], of k "fn_head ?b" False] k pop(1) i'
    by (simp add: bm_insert_body_def B'_def h3_def h2_def set_mutex_def Let_def b'_def)
  then have run: "bm_insert I k v B = Inr (0, B')"
    unfolding bm_insert_def using i' b' by (intro in_bucket_run [OF rel i]) (simp_all add: B'_def)
  have p: "?p \<in> cells ?b ?as"
    using last_in_chain [of "fn_head ?b" ?pre] by (auto simp: cells_def dest: set_takeWhileD)
  have ord: "\<forall>x \<in> set ?pre. ?le x" "\<forall>x \<in> set ?post. ?hash k \<le> ?hash (n_key (?h x))"
    using set_takeWhileD [of _ ?le ?as] hash_dropWhile [OF bucket_okD(4) [OF ok]] by auto
  have split: "?pre @ ?post = ?as" and home: "unat (?hash k) mod length (bm_table B) = i"
    by (simp_all add: i bm_index_def)
  note link = bucket_link [of ?hash "bm_emptyKey B" "length (bm_table B)" i ?h ?b ?pre ?post a k h1 h2 v h3,
      unfolded split, OF ok pop(8) k home ord pop(10) h2_def h3_def, folded b'_def]
  have far: "\<forall>x. x < brk (bm_pool B) \<longrightarrow> x \<notin> set (pooled elems (bm_pool B)) \<longrightarrow> x \<notin> cells ?b ?as \<longrightarrow> h3 x = ?h x"
  proof (intro allI impI)
    fix x assume x: "x < brk (bm_pool B)" "x \<notin> set (pooled elems (bm_pool B))" "x \<notin> cells ?b ?as"
    then have "x \<noteq> ?p" "x \<noteq> a" using p pop(6) by auto
    with pop(7) [OF x(1,2)] show "h3 x = ?h x" by (simp add: h3_def h2_def)
  qed
  have "set ?pre \<union> set ?post = set ?as" unfolding set_append [symmetric] split ..
  then have new: "set (?pre @ a # ?post) = insert a (set ?as)" "cells b' (?pre @ a # ?post) = insert a (cells ?b ?as)"
    by (auto simp: cells_def b')
  have B': "bm_heap B' = h3" "bm_pool B' = pl" "bm_table B' = (bm_table B)[i := b']"
    "bm_maxSize B' = bm_maxSize B" "bm_emptyKey B' = bm_emptyKey B"
    by (simp_all add: B'_def)
  have pool: "set (pooled elems pl) \<union> insert a (set ?as) \<subseteq> set (pooled elems (bm_pool B)) \<union> cells ?b ?as
      \<union> {brk (bm_pool B)..<brk pl}" "insert a (cells ?b ?as) \<inter> set (pooled elems pl) = {}"
      "\<forall>x \<in> insert a (set ?as). x < brk pl"
    using pop(3-6,9) bm_relD(7) [OF rel i'] by (auto simp: cells_def intro: order.strict_trans2)
  note step = bm_rel_step [OF rel i', of B' b' "?pre @ a # ?post", unfolded B' new,
      OF refl refl refl b'(2) link(1) far pop(2,5) pool]
  have "bm_look I B' x = ((bm_look I B)(k \<mapsto> v)) x" for x
    using fun_cong [OF step(2), of x] i unfolding link(2) by (auto simp: bm_look_rel [OF rel])
  then have "bm_look I B' = (bm_look I B)(k \<mapsto> v)" ..
  with run step(1) B'(5) show ?thesis by blast
qed

lemma insert_found:
  assumes rel: "bm_rel I elems B cs" and i: "i = bm_index I B k" and k: "k \<in> set (keys_of (bm_heap B) (cs ! i))"
  shows "bm_insert I k v B = Inr (1, B)"
proof -
  have i': "i < length (bm_table B)" using bm_relD(8) [OF rel] by (simp add: i)
  note ok = bm_relD(5) [OF rel i']
  have "bm_insert_body I k v i (set_mutex True i B) = Inr (1, set_mutex True i B)"
    using insert_scan_eq [OF bucket_okD(2,4) [OF ok], of k "fn_head (bm_table B ! i)" False] k i'
    by (simp add: bm_insert_body_def Let_def)
  then show ?thesis
    unfolding bm_insert_def using bucket_okD(1) [OF ok] by (intro in_bucket_run [OF rel i]) simp_all
qed

text \<open>A key that the table maps has exactly one node, in its bucket.\<close>

lemma mapped_node:
  assumes rel: "bm_rel I elems B cs" and i: "i = bm_index I B k" and k: "bm_look I B k = Some v"
  obtains pre a post where "cs ! i = pre @ a # post" "n_key (bm_heap B a) = k" "n_value (bm_heap B a) = v"
    "\<forall>b \<in> set pre. n_key (bm_heap B b) \<noteq> k \<and> bi_hash I (n_key (bm_heap B b)) \<le> bi_hash I k"
proof -
  have i': "i < length (bm_table B)" using bm_relD(8) [OF rel] by (simp add: i)
  have v: "map_of (entries (bm_heap B) (cs ! i)) k = Some v" using k by (simp add: bm_look_rel [OF rel] i)
  then have "k \<in> set (keys_of (bm_heap B) (cs ! i))"
    using map_of_entries_None [of "bm_heap B" "cs ! i" k] by auto
  then obtain pre a post where "cs ! i = pre @ a # post" "n_key (bm_heap B a) = k"
    "\<forall>b \<in> set pre. n_key (bm_heap B b) \<noteq> k \<and> bi_hash I (n_key (bm_heap B b)) \<le> bi_hash I k"
    "map_of (entries (bm_heap B) (cs ! i)) k = Some (n_value (bm_heap B a))"
    by (rule key_split [OF _ bucket_okD(5,4) [OF bm_relD(5) [OF rel i']]])
  then show ?thesis using v that by simp
qed

lemma unmapped:
  assumes rel: "bm_rel I elems B cs" and k: "bm_look I B k = None"
  shows "k \<notin> set (keys_of (bm_heap B) (cs ! bm_index I B k))"
  using k unfolding bm_look_rel [OF rel] map_of_entries_None .

lemma scan_miss:
  assumes rel: "bm_rel I elems B cs" and k: "bm_look I B k = None"
  shows "scan_body I k act False x0 (bm_index I B k) (set_mutex True (bm_index I B k) B) =
    Inr (x0, set_mutex True (bm_index I B k) B)"
proof -
  note ok = bm_relD(5) [OF rel bm_relD(8) [OF rel, of k]]
  show ?thesis
    using chain_scan_none [of "(bm_heap B, x0)" _ "cs ! bm_index I B k" k] bucket_okD(2) [OF ok] unmapped [OF rel k]
      bm_relD(8) [OF rel, of k]
    by (simp add: scan_body_def Let_def set_mutex_def)
qed

lemma scan_hit:
  assumes rel: "bm_rel I elems B cs" and a: "cs ! bm_index I B k = pre @ a # post" "n_key (bm_heap B a) = k"
      "\<forall>b \<in> set pre. n_key (bm_heap B b) \<noteq> k \<and> bi_hash I (n_key (bm_heap B b)) \<le> bi_hash I k"
    and act: "act a (bm_heap B, x0) = (h', x)" "same_links (bm_heap B) h'"
  shows "scan_body I k act False x0 (bm_index I B k) (set_mutex True (bm_index I B k) B) =
    Inr (x, set_mutex True (bm_index I B k) (B\<lparr>bm_heap := h'\<rparr>))"
proof -
  note ok = bm_relD(5) [OF rel bm_relD(8) [OF rel, of k], unfolded a(1)]
  show ?thesis
    using chain_scan_hit [of "(bm_heap B, x0)" _ pre a post k "bi_hash I" act] bucket_okD(2,5) [OF ok] a act
      bm_relD(8) [OF rel, of k]
    by (simp add: scan_body_def Let_def set_mutex_def)
qed

lemma set_value_rel:
  assumes rel: "bm_rel I elems B cs" and a: "a \<in> set (cs ! bm_index I B k)" "n_key (bm_heap B a) = k"
    and h': "h' = (bm_heap B)(a := (bm_heap B a)\<lparr>n_value := u\<rparr>)"
  shows "bm_rel I elems (B\<lparr>bm_heap := h'\<rparr>) cs" and "bm_look I (B\<lparr>bm_heap := h'\<rparr>) = (bm_look I B)(k \<mapsto> u)"
proof -
  define i where "i = bm_index I B k"
  let ?as = "cs ! i" and ?b = "bm_table B ! i" and ?B = "B\<lparr>bm_heap := h'\<rparr>"
  have i': "i < length (bm_table B)" using bm_relD(8) [OF rel] by (simp add: i_def)
  note ok = bm_relD(5) [OF rel i']
  have links: "same_links (bm_heap B) h'" by (simp add: same_links_def h')
  have ok': "bucket_ok (bi_hash I) (bm_emptyKey B) (length (bm_table B)) i h' ?b ?as"
    using ok by (simp add: bucket_ok_def same_links_simps [OF links])
  have far: "\<forall>x. x < brk (bm_pool B) \<longrightarrow> x \<notin> set (pooled elems (bm_pool B)) \<longrightarrow> x \<notin> cells ?b ?as \<longrightarrow> h' x = bm_heap B x"
    using a(1) by (auto simp: h' cells_def i_def)
  have B: "bm_heap ?B = h'" "bm_pool ?B = bm_pool B" "bm_table ?B = (bm_table B)[i := ?b]"
    "bm_maxSize ?B = bm_maxSize B" "bm_emptyKey ?B = bm_emptyKey B" by simp_all
  have pool: "set (pooled elems (bm_pool B)) \<union> set ?as \<subseteq> set (pooled elems (bm_pool B)) \<union> cells ?b ?as
      \<union> {brk (bm_pool B)..<brk (bm_pool B)}" "cells ?b ?as \<inter> set (pooled elems (bm_pool B)) = {}"
      "\<forall>x \<in> set ?as. x < brk (bm_pool B)"
    using bm_relD(6,7) [OF rel i'] by (auto simp: cells_def)
  note step = bm_rel_step [OF rel i', of ?B ?b ?as, unfolded B,
      OF refl refl refl refl ok' far bm_relD(4) [OF rel] order_refl pool]
  then show "bm_rel I elems ?B cs" by simp
  have "map_of (entries h' ?as) = (map_of (entries (bm_heap B) ?as))(k \<mapsto> u)"
    using a set_value_entries [of a ?as "bm_heap B" u] bucket_okD(3,5) [OF ok] by (simp add: h' i_def)
  then have "bm_look I ?B x = ((bm_look I B)(k \<mapsto> u)) x" for x
    using fun_cong [OF step(2), of x] by (auto simp: bm_look_rel [OF rel] i_def)
  then show "bm_look I ?B = (bm_look I B)(k \<mapsto> u)" ..
qed

lemma not_locked: "bm_rel I elems B cs \<Longrightarrow> \<not> fn_mutex (bm_table B ! bm_index I B k)"
  by (rule bucket_okD(1), rule bm_relD(5), assumption, rule bm_relD(8))

lemma run_unchanged:
  assumes "bm_rel I elems B cs"
    and "body (bm_index I B k) (set_mutex True (bm_index I B k) B) = Inr (r, set_mutex True (bm_index I B k) B)"
  shows "in_bucket I k body B = Inr (r, B)"
  using assms not_locked [OF assms(1)] by (intro in_bucket_run [OF assms(1) refl]) simp_all

lemma insert_rel:
  assumes rel: "bm_rel I elems B cs"
  shows "\<exists>B' cs'. bm_insert I k v B = Inr (if bm_look I B k = None then 0 else 1, B') \<and> bm_rel I elems B' cs'
    \<and> bm_look I B' = (if bm_look I B k = None then (bm_look I B)(k \<mapsto> v) else bm_look I B)
    \<and> bm_emptyKey B' = bm_emptyKey B"
proof (cases "bm_look I B k")
  case None
  then show ?thesis using insert_new [OF rel refl unmapped [OF rel]] by auto
next
  case (Some u)
  then have "k \<in> set (keys_of (bm_heap B) (cs ! bm_index I B k))"
    using map_of_entries_None [of "bm_heap B" "cs ! bm_index I B k" k] bm_look_rel [OF rel, of k] by auto
  from insert_found [OF rel refl this] show ?thesis using Some rel by auto
qed

lemma find_rel:
  assumes rel: "bm_rel I elems B cs"
  shows "bm_find I k B = Inr (if bm_look I B k = None then - 1 else of_nat (bm_index I B k), B)"
proof (cases "bm_look I B k")
  case None
  then show ?thesis unfolding bm_find_def by (intro run_unchanged [OF rel]) (simp add: scan_miss [OF rel])
next
  case (Some v)
  then obtain pre a post where a: "cs ! bm_index I B k = pre @ a # post" "n_key (bm_heap B a) = k"
    "\<forall>b \<in> set pre. n_key (bm_heap B b) \<noteq> k \<and> bi_hash I (n_key (bm_heap B b)) \<le> bi_hash I k"
    using mapped_node [OF rel refl] by metis
  show ?thesis
    unfolding bm_find_def
    using scan_hit [OF rel a, of "\<lambda>a (h, found). (h, True)" False "bm_heap B" True] Some
    by (intro run_unchanged [OF rel]) (simp add: same_links_def)
qed

text \<open>\<^verbatim>\<open>update\<close> and \<^verbatim>\<open>update_field\<close> rewrite the value of the one node with the key.\<close>

lemma rewrite_rel:
  assumes rel: "bm_rel I elems B cs"
    and op: "opr = in_bucket I k (scan_body I k (\<lambda>a (h, found). (h(a := (h a)\<lparr>n_value := f (n_value (h a))\<rparr>), True)) False False)"
  shows "\<exists>B'. opr B = Inr (bm_look I B k \<noteq> None, B') \<and> bm_rel I elems B' cs
    \<and> bm_look I B' = (case bm_look I B k of None \<Rightarrow> bm_look I B | Some v \<Rightarrow> (bm_look I B)(k \<mapsto> f v))
    \<and> bm_emptyKey B' = bm_emptyKey B"
proof (cases "bm_look I B k")
  case None
  then have "opr B = Inr (False, B)"
    unfolding op by (intro run_unchanged [OF rel]) (simp add: scan_miss [OF rel])
  then show ?thesis using None rel by auto
next
  case (Some v)
  let ?act = "\<lambda>a (h, found). (h(a := (h a)\<lparr>n_value := f (n_value (h a))\<rparr>), True)"
  obtain pre a post where a: "cs ! bm_index I B k = pre @ a # post" "n_key (bm_heap B a) = k"
    "\<forall>b \<in> set pre. n_key (bm_heap B b) \<noteq> k \<and> bi_hash I (n_key (bm_heap B b)) \<le> bi_hash I k"
    and v: "n_value (bm_heap B a) = v"
    using mapped_node [OF rel refl Some] by metis
  let ?h = "(bm_heap B)(a := (bm_heap B a)\<lparr>n_value := f v\<rparr>)"
  have "scan_body I k ?act False False (bm_index I B k) (set_mutex True (bm_index I B k) B) =
      Inr (True, set_mutex True (bm_index I B k) (B\<lparr>bm_heap := ?h\<rparr>))"
    by (rule scan_hit [OF rel a]) (simp_all add: v same_links_def)
  then have "opr B = Inr (True, B\<lparr>bm_heap := ?h\<rparr>)"
    unfolding op using not_locked [OF rel] by (intro in_bucket_run [OF rel refl]) simp_all
  then show ?thesis using set_value_rel [OF rel _ a(2) refl, of "f v"] a(1) Some by auto
qed

lemma update_rel:
  assumes "bm_rel I elems B cs"
  shows "\<exists>B'. bm_update I k v B = Inr (bm_look I B k \<noteq> None, B') \<and> bm_rel I elems B' cs
    \<and> bm_look I B' = (if bm_look I B k = None then bm_look I B else (bm_look I B)(k \<mapsto> v))
    \<and> bm_emptyKey B' = bm_emptyKey B"
  using rewrite_rel [OF assms, of "bm_update I k v" k "\<lambda>_. v"] by (auto simp: bm_update_def split: option.splits)

lemma update_field_rel:
  assumes "bm_rel I elems B cs"
  shows "\<exists>B'. bm_update_field I k f B = Inr (bm_look I B k \<noteq> None, B') \<and> bm_rel I elems B' cs
    \<and> bm_look I B' = (case bm_look I B k of None \<Rightarrow> bm_look I B | Some v \<Rightarrow> (bm_look I B)(k \<mapsto> f v))
    \<and> bm_emptyKey B' = bm_emptyKey B"
  using rewrite_rel [OF assms, of "bm_update_field I k f" k f] by (simp add: bm_update_field_def)

text \<open>\<^verbatim>\<open>get\<close> looks at the sentinel first: a larger hash there ends the search.\<close>

lemma get_rel:
  assumes rel: "bm_rel I elems B cs" and k: "k \<noteq> bm_emptyKey B"
  shows "bm_get I k v0 B =
    Inr (if bi_hash I (bm_emptyKey B) > bi_hash I k then (False, v0)
         else (case bm_look I B k of None \<Rightarrow> (False, v0) | Some v \<Rightarrow> (True, v)), B)"
proof -
  let ?i = "bm_index I B k" and ?act = "\<lambda>a (h, x). (h, (True, n_value (h a)))"
  let ?B = "set_mutex True ?i B" and ?x = "(False, v0)"
  have "n_key (bm_heap B (fn_head (bm_table B ! ?i))) = bm_emptyKey B"
    using bucket_okD(8) [OF bm_relD(5) [OF rel bm_relD(8) [OF rel, of k]]] .
  then have first: "scan_body I k ?act True ?x ?i ?B =
      (if bi_hash I (bm_emptyKey B) > bi_hash I k then Inr (?x, ?B) else scan_body I k ?act False ?x ?i ?B)"
    using k bm_relD(8) [OF rel, of k] chain_scan.simps [of "bi_hash I" k ?act "Some (fn_head (bm_table B ! ?i))" "(bm_heap B, ?x)"]
    by (simp add: scan_body_def Let_def set_mutex_def)
  have "scan_body I k ?act False ?x ?i ?B =
      Inr (case bm_look I B k of None \<Rightarrow> (False, v0) | Some v \<Rightarrow> (True, v), ?B)"
  proof (cases "bm_look I B k")
    case None
    then show ?thesis by (simp add: scan_miss [OF rel])
  next
    case (Some v)
    obtain pre a post where a: "cs ! ?i = pre @ a # post" "n_key (bm_heap B a) = k"
      "\<forall>b \<in> set pre. n_key (bm_heap B b) \<noteq> k \<and> bi_hash I (n_key (bm_heap B b)) \<le> bi_hash I k"
      and v: "n_value (bm_heap B a) = v"
      using mapped_node [OF rel refl Some] by metis
    show ?thesis
      using scan_hit [OF rel a, of ?act ?x "bm_heap B" "(True, v)"] Some v by (simp add: same_links_def)
  qed
  with first show ?thesis unfolding bm_get_def by (intro run_unchanged [OF rel]) simp
qed

lemma erase_hit:
  assumes rel: "bm_rel I elems B cs" and i: "i = bm_index I B k" and look: "bm_look I B k = Some v"
  shows "\<exists>B' cs'. bm_erase I k B = Inr (True, B') \<and> bm_rel I elems B' cs' \<and> bm_look I B' = (bm_look I B)(k := None)
    \<and> bm_emptyKey B' = bm_emptyKey B"
proof -
  let ?b = "bm_table B ! i" and ?h = "bm_heap B" and ?pl = "memory_pool_push (bi_queue I)"
  have i': "i < length (bm_table B)" using bm_relD(8) [OF rel] by (simp add: i)
  obtain pre a post where a: "cs ! i = pre @ a # post" "n_key (?h a) = k"
    "\<forall>b \<in> set pre. n_key (?h b) \<noteq> k \<and> bi_hash I (n_key (?h b)) \<le> bi_hash I k"
    using mapped_node [OF rel i look] by metis
  note ok = bm_relD(5) [OF rel i', unfolded a(1)]
  let ?p = "last (fn_head ?b # pre)" and ?pl = "memory_pool_push (bi_queue I) a (bm_pool B)"
  define h' where "h' = ?h(?p := (?h ?p)\<lparr>n_next := n_next (?h a)\<rparr>)"
  define b' where "b' = ?b\<lparr>num_nodes := num_nodes ?b - 1\<rparr>"
  define B' where "B' = B\<lparr>bm_heap := h', bm_pool := ?pl, bm_table := (bm_table B)[i := b'], bm_removed := bm_removed B + 1\<rparr>"
  have b': "\<not> fn_mutex b'" "fn_head b' = fn_head ?b" using bucket_okD(1) [OF ok] by (simp_all add: b'_def)
  have "bm_erase_body I k i (set_mutex True i B) = Inr (True, set_mutex True i B')"
    using erase_scan_hit [OF bucket_okD(2) [OF ok] a(2,3), of "fn_head ?b"] a(2) i'
    by (simp add: bm_erase_body_def B'_def h'_def set_mutex_def Let_def b'_def)
  then have run: "bm_erase I k B = Inr (True, B')"
    unfolding bm_erase_def using i' b' by (intro in_bucket_run [OF rel i]) (simp_all add: B'_def)
  note link = bucket_unlink [OF ok h'_def, folded b'_def]
  have apart: "a \<notin> set (pooled elems (bm_pool B))" "a < brk (bm_pool B)" "a \<noteq> fn_head ?b" "a \<notin> set (pre @ post)"
    using bm_relD(6) [OF rel i'] bm_relD(7) [OF rel i', of a] bucket_okD(3) [OF ok] a(1) by (auto simp: cells_def)
  note push = memory_pool_push_inv [OF bm_relD(4) [OF rel] apart(1,2)]
  have far: "\<forall>x. x < brk (bm_pool B) \<longrightarrow> x \<notin> set (pooled elems (bm_pool B)) \<longrightarrow> x \<notin> cells ?b (cs ! i) \<longrightarrow> h' x = ?h x"
    using last_in_chain [of "fn_head ?b" pre] by (auto simp: h'_def a(1) cells_def)
  have B': "bm_heap B' = h'" "bm_pool B' = ?pl" "bm_table B' = (bm_table B)[i := b']"
    "bm_maxSize B' = bm_maxSize B" "bm_emptyKey B' = bm_emptyKey B" by (simp_all add: B'_def)
  have pool: "insert a (set (pooled elems (bm_pool B))) \<union> set (pre @ post) \<subseteq> set (pooled elems (bm_pool B))
      \<union> cells ?b (cs ! i) \<union> {brk (bm_pool B)..<brk (bm_pool B)}"
      "cells b' (pre @ post) \<inter> insert a (set (pooled elems (bm_pool B))) = {}" "\<forall>x \<in> set (pre @ post). x < brk (bm_pool B)"
    using bm_relD(6,7) [OF rel i'] apart by (auto simp: cells_def a(1) b')
  note step = bm_rel_step [OF rel i', of B' b' "pre @ post", unfolded B' push(2,3),
      OF refl refl refl b'(2) link(1) far push(1) order_refl pool]
  have "bm_look I B' x = ((bm_look I B)(k := None)) x" for x
    using fun_cong [OF step(2), of x] a(1,2) unfolding link(2) i by (auto simp: bm_look_rel [OF rel])
  then have "bm_look I B' = (bm_look I B)(k := None)" ..
  with run step(1) B'(5) show ?thesis by blast
qed

lemma erase_rel:
  assumes rel: "bm_rel I elems B cs"
  shows "\<exists>B' cs'. bm_erase I k B = Inr (bm_look I B k \<noteq> None, B') \<and> bm_rel I elems B' cs'
    \<and> bm_look I B' = (bm_look I B)(k := None) \<and> bm_emptyKey B' = bm_emptyKey B"
proof (cases "bm_look I B k")
  case None
  let ?i = "bm_index I B k"
  let ?b = "bm_table B ! ?i"
  obtain p n where "erase_scan (bi_hash I) k (bm_heap B) (fn_head ?b) (n_next (bm_heap B (fn_head ?b))) = Some (p, n)"
      "\<forall>a. n = Some a \<longrightarrow> n_key (bm_heap B a) \<noteq> k"
    using erase_scan_none [OF bucket_okD(2) [OF bm_relD(5) [OF rel bm_relD(8) [OF rel]]] unmapped [OF rel None],
        of "bi_hash I" "fn_head ?b"] by metis
  then have "bm_erase_body I k ?i (set_mutex True ?i B) = Inr (False, set_mutex True ?i B)"
    using bm_relD(8) [OF rel, of k] by (simp add: bm_erase_body_def Let_def split: option.splits)
  then have "bm_erase I k B = Inr (False, B)"
    unfolding bm_erase_def by (intro run_unchanged [OF rel])
  moreover have "(bm_look I B)(k := None) = bm_look I B" using None by (simp add: fun_upd_idem)
  ultimately show ?thesis using None rel by auto
next
  case (Some v)
  then show ?thesis using erase_hit [OF rel refl Some] by auto
qed

text \<open>The constructor.\<close>

lemma init_table:
  assumes "pool_inv elems pl"
  shows "\<exists>t h' pl'. bm_init_table I ek m h pl = Inr (t, h', pl') \<and> length t = m \<and> pool_inv elems pl'
    \<and> distinct (map fn_head t)
    \<and> (\<forall>b \<in> set t. num_nodes b = 0 \<and> \<not> fn_mutex b \<and> n_key (h' (fn_head b)) = ek \<and> n_next (h' (fn_head b)) = None
         \<and> fn_head b \<notin> set (pooled elems pl') \<and> fn_head b < brk pl')"
proof (induction m)
  case 0
  then show ?case using assms by simp
next
  case (Suc m)
  then obtain t h1 pl1 where t: "bm_init_table I ek m h pl = Inr (t, h1, pl1)" "length t = m" "pool_inv elems pl1"
      "distinct (map fn_head t)"
      "\<forall>b \<in> set t. num_nodes b = 0 \<and> \<not> fn_mutex b \<and> n_key (h1 (fn_head b)) = ek \<and> n_next (h1 (fn_head b)) = None
         \<and> fn_head b \<notin> set (pooled elems pl1) \<and> fn_head b < brk pl1"
    by (elim exE conjE)
  obtain a h2 pl2 where p: "memory_pool_pop (bi_queue I) (bi_key0 I) (bi_val0 I) h1 pl1 = Some (a, h2, pl2)"
      "pool_inv elems pl2" "a \<notin> set (pooled elems pl2)" "a < brk pl2" "brk pl1 \<le> brk pl2"
      "insert a (set (pooled elems pl2)) \<subseteq> set (pooled elems pl1) \<union> {brk pl1..<brk pl2}"
      "\<forall>x. x < brk pl1 \<longrightarrow> x \<notin> set (pooled elems pl1) \<longrightarrow> h2 x = h1 x"
    using memory_pool_pop_eq [OF t(3), of "bi_key0 I" "bi_val0 I" h1] by clarify
  have old: "fn_head b \<noteq> a \<and> fn_head b \<notin> set (pooled elems pl2) \<and> fn_head b < brk pl2 \<and> h2 (fn_head b) = h1 (fn_head b)"
    if "b \<in> set t" for b
  proof -
    have b: "fn_head b \<notin> set (pooled elems pl1)" "fn_head b < brk pl1" using t(5) that by auto
    then have "fn_head b \<notin> insert a (set (pooled elems pl2))" using p(6) by fastforce
    then show ?thesis using b p(5,7) by auto
  qed
  show ?case using t p(1-4) old by auto
qed

lemma ctor_rel:
  assumes "pool_inv elems pl" "n \<noteq> 0" "n \<noteq> - 1"
  shows "\<exists>B. BlockMap_ctor I n h pl maxKey = Inr B \<and> bm_rel I elems B (replicate (unat n) [])
    \<and> bm_look I B = Map.empty \<and> bm_emptyKey B = maxKey"
proof -
  obtain t h' pl' where t: "bm_init_table I maxKey (unat n) h pl = Inr (t, h', pl')" "length t = unat n"
      "pool_inv elems pl'" "distinct (map fn_head t)"
      "\<forall>b \<in> set t. num_nodes b = 0 \<and> \<not> fn_mutex b \<and> n_key (h' (fn_head b)) = maxKey \<and> n_next (h' (fn_head b)) = None
         \<and> fn_head b \<notin> set (pooled elems pl') \<and> fn_head b < brk pl'"
    using init_table [OF assms(1), of maxKey "unat n" h] by clarify
  define B where "B = \<lparr>bm_table = t, bm_maxSize = n, bm_allocated = 0, bm_removed = 0, bm_pool = pl',
    bm_emptyKey = maxKey, bm_heap = h'\<rparr>"
  have "n > 0" "n < - 1" using assms(2,3) by (simp_all add: word_neq_0_conv word_order.not_eq_extremum)
  then have "BlockMap_ctor I n h pl maxKey = Inr B" using t by (simp add: BlockMap_ctor_def B_def)
  moreover have rel: "bm_rel I elems B (replicate (unat n) [])"
    using t assms(2) unfolding bm_rel_def Let_def
    by (auto simp: B_def bucket_ok_def cells_def distinct_conv_nth unat_gt_0)
  moreover have "bm_look I B k = None" for k
    using bm_relD(8) [OF rel, of k] bm_relD(2) [OF rel] by (simp add: bm_look_rel [OF rel])
  ultimately show ?thesis by (auto simp: B_def fun_eq_iff)
qed

end

interpretation lblock: block_table "\<lparr>bi_hash = hash, bi_queue = list_lfq_ops, bi_key0 = k0, bi_val0 = v0\<rparr>" "\<lambda>q. q"
  for hash :: "'k \<Rightarrow> u64" and k0 and v0 :: 'v
  unfolding block_table_def by (simp add: lpool.pool_queue_axioms)

section \<open>Properties\<close>

lemma bm_look_dom:
  assumes rel: "bm_rel I elems B cs"
  shows "dom (bm_look I B) = (\<Union>i < length cs. set (keys_of (bm_heap B) (cs ! i)))"
proof -
  have in_chain: "bm_index I B k = i" if "i < length cs" "k \<in> set (keys_of (bm_heap B) (cs ! i))" for k i
    using bucket_okD(6) [OF bm_relD(5) [OF rel, of i]] that bm_relD(2) [OF rel] by (auto simp: bm_index_def)
  have "k \<in> dom (bm_look I B) \<longleftrightarrow> k \<in> set (keys_of (bm_heap B) (cs ! bm_index I B k))" for k
    using map_of_entries_None [of "bm_heap B" "cs ! bm_index I B k" k] by (auto simp: bm_look_rel [OF rel] domIff)
  moreover have "bm_index I B k < length cs" for k using bm_relD(2,8) [OF rel] by simp
  ultimately show ?thesis using in_chain by blast
qed

lemma bm_count_rel:
  assumes rel: "bm_rel I elems B cs"
  shows "bm_count_block_entries B = of_nat (card (dom (bm_look I B)))"
proof -
  let ?K = "\<lambda>i. set (keys_of (bm_heap B) (cs ! i))"
  have ok: "bucket_ok (bi_hash I) (bm_emptyKey B) (length cs) i (bm_heap B) (bm_table B ! i) (cs ! i)" if "i < length cs" for i
    using bm_relD(5) [OF rel, of i] bm_relD(2) [OF rel] that by simp
  have "?K i \<inter> ?K j = {}" if "i < length cs" "j < length cs" "i \<noteq> j" for i j
    using bucket_okD(6) [OF ok [OF that(1)]] bucket_okD(6) [OF ok [OF that(2)]] that(3) by auto
  then have "card (dom (bm_look I B)) = (\<Sum>i < length cs. card (?K i))"
    unfolding bm_look_dom [OF rel] by (intro card_UN_disjoint) auto
  also have "\<dots> = (\<Sum>i < length cs. length (cs ! i))"
    using bucket_okD(5) [OF ok] by (intro sum.cong refl) (metis distinct_card length_map lessThan_iff)
  finally have "of_nat (card (dom (bm_look I B))) = (\<Sum>i < length cs. of_nat (length (cs ! i)) :: u64)" by simp
  also have "\<dots> = (\<Sum>i < length cs. num_nodes (bm_table B ! i))"
    using bucket_okD(7) [OF ok] by (intro sum.cong refl) simp
  also have "\<dots> = bm_count_block_entries B"
    using bm_relD(2,3) [OF rel] by (simp add: bm_count_block_entries_def interv_sum_list_conv_sum_set_nat atLeast0LessThan)
  finally show ?thesis by simp
qed

abbreviation ex_block :: "nat \<Rightarrow> (nat, nat, ptr list) bm_inst" where
  "ex_block d \<equiv> \<lparr>bi_hash = of_nat, bi_queue = list_lfq_ops, bi_key0 = 0, bi_val0 = d\<rparr>"

lemma ex_block_table: "\<exists>B. bm_ok (ex_block d) (\<lambda>q. q) B \<and> bm_look (ex_block d) B = [3 \<mapsto> 30]"
proof -
  obtain B where B: "bm_rel (ex_block d) (\<lambda>q. q) B (replicate (unat (4 :: u64)) [])" "bm_look (ex_block d) B = Map.empty"
    using lblock.ctor_rel [of "\<lparr>chunk_size = 1, free_nodes = 0, num_chunks = 0, memory_chunks = [], active_queue = [],
        free_queue = [], brk = 0\<rparr>" 4 of_nat 0 d undefined 0] by (auto simp: pool_inv_def pooled_def)
  then show ?thesis using lblock.insert_rel [OF B(1), of 3 30] by (auto simp: bm_ok_def)
qed

text \<open>
  The counters of the buckets add up: \<^verbatim>\<open>count_block_entries\<close> of a well-formed table is the number of
  keys the table holds (modulo \<open>2 ^ 64\<close>).
\<close>

theorem block_map_counts_keys:
  assumes "bm_ok I elems B"
  shows "finite (dom (bm_look I B)) \<and> bm_count_block_entries B = of_nat (card (dom (bm_look I B)))"
proof -
  obtain cs where rel: "bm_rel I elems B cs" using assms by (auto simp: bm_ok_def)
  have "finite (dom (bm_look I B))" unfolding bm_look_dom [OF rel] by simp
  then show ?thesis using bm_count_rel [OF rel] by simp
qed

theorem block_map_counts_keys_witness:
  "\<exists>B :: (nat, nat, ptr list) block_map. bm_look (ex_block 0) B = [3 \<mapsto> 30] \<and> bm_count_block_entries B = 1"
proof -
  obtain B where B: "bm_ok (ex_block 0) (\<lambda>q. q) B" "bm_look (ex_block 0) B = [3 \<mapsto> 30]"
    using ex_block_table by blast
  then show ?thesis using block_map_counts_keys [OF B(1)] by auto
qed

text \<open>
  \<^verbatim>\<open>update_field\<close> and \<^verbatim>\<open>update\<close> change the value of one key in place: they report whether the key was
  there, leave every other key and the well-formedness of the table as they were, and never add a key.
\<close>

theorem block_map_updates_in_place:
  assumes "block_table I elems" "bm_ok I elems B"
  shows "(\<exists>B'. bm_update_field I k f B = Inr (k \<in> dom (bm_look I B), B') \<and> bm_ok I elems B'
      \<and> bm_look I B' = (bm_look I B)(k := map_option f (bm_look I B k)))
    \<and> (\<exists>B'. bm_update I k v B = Inr (k \<in> dom (bm_look I B), B') \<and> bm_ok I elems B'
      \<and> bm_look I B' = (bm_look I B)(k := map_option (\<lambda>_. v) (bm_look I B k)))"
proof -
  obtain cs where rel: "bm_rel I elems B cs" using assms(2) by (auto simp: bm_ok_def)
  have "\<exists>B'. bm_update_field I k f B = Inr (k \<in> dom (bm_look I B), B') \<and> bm_ok I elems B'
      \<and> bm_look I B' = (bm_look I B)(k := map_option f (bm_look I B k))"
    using block_table.update_field_rel [OF assms(1) rel, of k f]
    by (auto simp: bm_ok_def domIff fun_eq_iff split: option.splits)
  moreover have "\<exists>B'. bm_update I k v B = Inr (k \<in> dom (bm_look I B), B') \<and> bm_ok I elems B'
      \<and> bm_look I B' = (bm_look I B)(k := map_option (\<lambda>_. v) (bm_look I B k))"
    using block_table.update_rel [OF assms(1) rel, of k v]
    by (auto simp: bm_ok_def domIff fun_eq_iff split: if_splits)
  ultimately show ?thesis ..
qed

theorem block_map_updates_in_place_witness:
  "\<exists>B B' :: (nat, nat, ptr list) block_map. bm_look (ex_block 0) B = [3 \<mapsto> 30]
    \<and> bm_update_field (ex_block 0) 3 Suc B = Inr (True, B') \<and> bm_look (ex_block 0) B' = [3 \<mapsto> 31]"
proof -
  obtain B where B: "bm_ok (ex_block 0) (\<lambda>q. q) B" "bm_look (ex_block 0) B = [3 \<mapsto> 30]"
    using ex_block_table by blast
  then show ?thesis
    using block_map_updates_in_place [OF lblock.block_table_axioms B(1), of 3 Suc 0] by auto
qed

end
