(* ===== verification/Hcl_Conc_Unordered_Map.thy ===== *)
theory Hcl_Conc_Unordered_Map
  imports Hcl_Launch Hcl_Block_Map
begin

text \<open>
  \<^verbatim>\<open>hcl::concurrent_unordered_map\<close> (\<^verbatim>\<open>include/hcl/concurrent/unordered_map/unordered_map.h\<close>, \<^verbatim>\<open>.cpp\<close>):
  one \<^verbatim>\<open>BlockMap\<close> per server, in the memory of the server process. The range of hash values modulo
  the total size is cut into one interval per server, and every operation is a remote call.
\<close>

section \<open>The class\<close>

record cum =
  cum_base :: container
  totalSize :: u64
  maxSize :: u64
  min_range :: u64
  max_range :: u64
  nservers :: u32
  serverid :: u32

datatype cum_op = CuInsert | CuFind | CuErase | CuGet | CuUpdate

definition cum_bind_table :: "(string \<times> cum_op) list" where
  "cum_bind_table = [(''_Insert'', CuInsert), (''_Find'', CuFind), (''_Erase'', CuErase), (''_Get'', CuGet),
     (''_Update'', CuUpdate)]"

definition cum_isLocal :: "('k \<Rightarrow> u64) \<Rightarrow> cum \<Rightarrow> 'k \<Rightarrow> bool result" where
  "cum_isLocal hash C k =
     (if totalSize C = 0 then Inl Div_By_Zero
      else let pos = hash k mod totalSize C
           in Inr (is_server (cum_base C) \<and> pos \<ge> min_range C \<and> pos < max_range C))"

definition cum_serverLocation :: "('k \<Rightarrow> u64) \<Rightarrow> cum \<Rightarrow> 'k \<Rightarrow> u64 result" where
  "cum_serverLocation hash C k =
     (let n = of_int (num_servers (cum_base C)) in
      if n = 0 \<or> totalSize C = 0 then Inl Div_By_Zero
      else let localSize = totalSize C div n; rem = totalSize C mod n;
               v = hash k mod totalSize C; offset = rem * (localSize + 1)
           in if v < totalSize C
              then if v < offset then Inr (v div (localSize + 1))
                   else if localSize = 0 then Inl Div_By_Zero
                   else Inr (rem + (v - offset) div localSize)
              else Inr (- 1))"

definition cum_initialize_tables ::
  "('k, 'v, 'q) bm_inst \<Rightarrow> cum \<Rightarrow> u64 \<Rightarrow> u32 \<Rightarrow> u32 \<Rightarrow> 'k \<Rightarrow> ('k, 'v) heap
     \<Rightarrow> (cum \<times> ('k, 'v, 'q) block_map option) result" where
  "cum_initialize_tables I C n np rank maxKey h =
     rguard (n > 0 \<and> n < - 1) Assert_Failed
       (if np = 0 then Inl Div_By_Zero
        else let localSize = n div ucast np; rem = n mod ucast np; sid = ucast rank :: u64;
                 msize = (if sid < rem then localSize + 1 else localSize);
                 lo = (if sid < rem then sid * (localSize + 1) else rem * (localSize + 1) + (sid - rem) * localSize);
                 C = C\<lparr>totalSize := n, nservers := np, serverid := rank, maxSize := msize, min_range := lo,
                       max_range := lo + msize\<rparr>
             in rguard (msize > 0 \<and> msize < - 1) Assert_Failed
                  (if is_server (cum_base C)
                   then (case memory_pool_ctor (bi_queue I) (bi_key0 I) (bi_val0 I) 100 h 0 of (h, pl) \<Rightarrow>
                           rmap (\<lambda>B. (C, Some B)) (BlockMap_ctor I msize h pl maxKey))
                   else Inr (C, None)))"

text \<open>The constructor of the class does not touch shared memory: it binds the procedures on a server.\<close>

definition cum_ctor ::
  "('f, 'd) segment_ops \<Rightarrow> hcl_process \<Rightarrow> charstruct \<Rightarrow> u16 \<Rightarrow> u16 \<Rightarrow> u16 \<Rightarrow> u64 \<Rightarrow> bool \<Rightarrow> bool
     \<Rightarrow> charstruct \<Rightarrow> 'f \<Rightarrow> (container \<times> (string \<times> cum_op) list \<times> 'f) result" where
  "cum_ctor bip p nm prt n idx mem srv on_node dir fs =
     rbind (container_ctor bip p nm prt n idx mem srv on_node dir fs) (\<lambda>(c, fs).
       if is_server c then rmap (\<lambda>b. (c, b, fs)) (bind_functions p c cum_bind_table) else Inr (c, [], fs))"

section \<open>Operations\<close>

type_synonym ('k, 'v, 'q) cum_table = "('k, 'v, 'q) block_map option"

definition on_table ::
  "(('k, 'v, 'q) block_map \<Rightarrow> ('r \<times> ('k, 'v, 'q) block_map) result) \<Rightarrow> ('k, 'v, 'q) cum_table shm
     \<Rightarrow> ('r \<times> ('k, 'v, 'q) cum_table shm) result" where
  "on_table f s = (case obj s of None \<Rightarrow> Inl Null_Deref
     | Some B \<Rightarrow> rmap (\<lambda>(r, B). (r, s\<lparr>obj := Some B\<rparr>)) (f B))"

definition cum_LocalInsert where
  "cum_LocalInsert I k v s = rmap (\<lambda>(_, s). (True, s)) (on_table (bm_insert I k v) s)"

definition cum_LocalFind where
  "cum_LocalFind I k s = rmap (\<lambda>(pos, s). (pos \<noteq> - 1, s)) (on_table (bm_find I k) s)"

definition cum_LocalErase where
  "cum_LocalErase I k = on_table (bm_erase I k)"

definition cum_LocalUpdate where
  "cum_LocalUpdate I k v = on_table (bm_update I k v)"

definition cum_LocalGet where
  "cum_LocalGet I k v = on_table (bm_get I k v)"

definition cum_LocalGetValue where
  "cum_LocalGetValue I k s = rmap (\<lambda>((_, v), s). (v, s)) (cum_LocalGet I k (bi_val0 I) s)"

definition cum_LocalUpdateField where
  "cum_LocalUpdateField I k f = on_table (bm_update_field I k f)"

definition cum_allocated :: "('k, 'v, 'q) cum_table \<Rightarrow> u64 result" where
  "cum_allocated t = (case t of None \<Rightarrow> Inl Null_Deref | Some B \<Rightarrow> Inr (bm_allocated_nodes B))"

definition cum_removed :: "('k, 'v, 'q) cum_table \<Rightarrow> u64 result" where
  "cum_removed t = (case t of None \<Rightarrow> Inl Null_Deref | Some B \<Rightarrow> Inr (bm_removed_nodes B))"

fun cum_handler ::
  "('k, 'v, 'q) bm_inst \<Rightarrow> cum_op \<Rightarrow> ('k, 'v) request \<Rightarrow> container \<Rightarrow> ('k, 'v, 'q) cum_table shm
     \<Rightarrow> (('k, 'v) response \<times> ('k, 'v, 'q) cum_table shm) result" where
  "cum_handler I CuInsert (QKeyVal k v) c s = THALLIUM_DEFINE RBool (cum_LocalInsert I k v s)"
| "cum_handler I CuFind (QKey k) c s = THALLIUM_DEFINE RBool (cum_LocalFind I k s)"
| "cum_handler I CuErase (QKey k) c s = THALLIUM_DEFINE RBool (cum_LocalErase I k s)"
| "cum_handler I CuGet (QKey k) c s = THALLIUM_DEFINE RPlain (cum_LocalGetValue I k s)"
| "cum_handler I CuUpdate (QKeyVal k v) c s = THALLIUM_DEFINE RBool (cum_LocalUpdate I k v s)"
| "cum_handler I op q c s = Inl Bad_Message"

type_synonym ('k, 'v, 'q) cum_cluster = "(('k, 'v, 'q) cum_table, cum_op) cluster"
type_synonym ('k, 'v, 'q) cum_thallium =
  "(('k, 'v, 'q) cum_table, cum_op, ('k, 'v) request, ('k, 'v) response) thallium"

definition cum_Insert ::
  "('k, 'v, 'q) bm_inst \<Rightarrow> hcl_process \<Rightarrow> ('k, 'v, 'q) cum_thallium \<Rightarrow> cum \<Rightarrow> 'k \<Rightarrow> 'v
     \<Rightarrow> ('k, 'v, 'q) cum_cluster \<Rightarrow> (bool \<times> ('k, 'v, 'q) cum_cluster) result" where
  "cum_Insert I p thl C k v w = rbind (cum_serverLocation (bi_hash I) C k) (\<lambda>key_int.
     RPC_CALL_WRAPPER p thl (cum_base C) ''_Insert'' (ucast key_int) as_bool (QKeyVal k v) w)"

definition cum_Find ::
  "('k, 'v, 'q) bm_inst \<Rightarrow> hcl_process \<Rightarrow> ('k, 'v, 'q) cum_thallium \<Rightarrow> cum \<Rightarrow> 'k
     \<Rightarrow> ('k, 'v, 'q) cum_cluster \<Rightarrow> (bool \<times> ('k, 'v, 'q) cum_cluster) result" where
  "cum_Find I p thl C k w = rbind (cum_serverLocation (bi_hash I) C k) (\<lambda>key_int.
     RPC_CALL_WRAPPER p thl (cum_base C) ''_Find'' (ucast key_int) as_bool (QKey k) w)"

definition cum_Erase ::
  "('k, 'v, 'q) bm_inst \<Rightarrow> hcl_process \<Rightarrow> ('k, 'v, 'q) cum_thallium \<Rightarrow> cum \<Rightarrow> 'k
     \<Rightarrow> ('k, 'v, 'q) cum_cluster \<Rightarrow> (bool \<times> ('k, 'v, 'q) cum_cluster) result" where
  "cum_Erase I p thl C k w = rbind (cum_serverLocation (bi_hash I) C k) (\<lambda>key_int.
     RPC_CALL_WRAPPER p thl (cum_base C) ''_Erase'' (ucast key_int) as_bool (QKey k) w)"

definition cum_Get ::
  "('k, 'v, 'q) bm_inst \<Rightarrow> hcl_process \<Rightarrow> ('k, 'v, 'q) cum_thallium \<Rightarrow> cum \<Rightarrow> 'k
     \<Rightarrow> ('k, 'v, 'q) cum_cluster \<Rightarrow> ('v \<times> ('k, 'v, 'q) cum_cluster) result" where
  "cum_Get I p thl C k w = rbind (cum_serverLocation (bi_hash I) C k) (\<lambda>key_int.
     RPC_CALL_WRAPPER p thl (cum_base C) ''_Get'' (ucast key_int) as_plain (QKey k) w)"

definition cum_Update ::
  "('k, 'v, 'q) bm_inst \<Rightarrow> hcl_process \<Rightarrow> ('k, 'v, 'q) cum_thallium \<Rightarrow> cum \<Rightarrow> 'k \<Rightarrow> 'v
     \<Rightarrow> ('k, 'v, 'q) cum_cluster \<Rightarrow> (bool \<times> ('k, 'v, 'q) cum_cluster) result" where
  "cum_Update I p thl C k v w = rbind (cum_serverLocation (bi_hash I) C k) (\<lambda>key_int.
     RPC_CALL_WRAPPER p thl (cum_base C) ''_Update'' (ucast key_int) as_bool (QKeyVal k v) w)"

section \<open>Placement of keys\<close>

text \<open>The interval arithmetic on natural numbers: \<open>n\<close> servers, \<open>N\<close> positions.\<close>

definition interval_start :: "nat \<Rightarrow> nat \<Rightarrow> nat \<Rightarrow> nat" where
  "interval_start N n i =
     (if i < N mod n then i * (N div n + 1) else (N mod n) * (N div n + 1) + (i - N mod n) * (N div n))"

definition interval_size :: "nat \<Rightarrow> nat \<Rightarrow> nat \<Rightarrow> nat" where
  "interval_size N n i = (if i < N mod n then N div n + 1 else N div n)"

definition location :: "nat \<Rightarrow> nat \<Rightarrow> nat \<Rightarrow> nat" where
  "location N n v =
     (if v < (N mod n) * (N div n + 1) then v div (N div n + 1)
      else N mod n + (v - (N mod n) * (N div n + 1)) div (N div n))"

lemma size_split:
  assumes "(n :: nat) > 0"
  shows "N = (N mod n) * (N div n + 1) + (n - N mod n) * (N div n)"
proof -
  have "N mod n * (N div n) + (n - N mod n) * (N div n) = n * (N div n)"
    using assms by (simp add: add_mult_distrib [symmetric] less_imp_le)
  moreover have "N = N mod n + n * (N div n)" by simp
  ultimately show ?thesis by (metis add.assoc add.commute add_mult_distrib2 mult.right_neutral)
qed

lemma div_eq_interval: "0 < c \<Longrightarrow> v div c = i \<longleftrightarrow> i * c \<le> v \<and> v < i * c + (c :: nat)"
proof -
  assume c: "0 < c"
  have "v div c < Suc i \<longleftrightarrow> v < Suc i * c" using c by (rule div_less_iff_less_mult)
  moreover have "i \<le> v div c \<longleftrightarrow> i * c \<le> v" using c by (rule less_eq_div_iff_mult_less_eq)
  ultimately show ?thesis by (auto simp: add.commute)
qed

lemma location_interval:
  assumes "n > 0" "v < N" "i < n"
  shows "location N n v = i \<longleftrightarrow> interval_start N n i \<le> v \<and> v < interval_start N n i + interval_size N n i"
proof -
  let ?l = "N div n" and ?r = "N mod n"
  let ?o = "?r * (?l + 1)"
  show ?thesis
  proof (cases "v < ?o")
    case True
    then have "v div (?l + 1) < ?r" by (simp add: less_mult_imp_div_less)
    with True show ?thesis
      using div_eq_interval [of "?l + 1" v i]
      by (auto simp: location_def interval_start_def interval_size_def)
  next
    case False
    have l: "0 < ?l" using size_split [OF assms(1), of N] assms(2) False by (cases "?l = 0") auto
    show ?thesis
    proof (cases "i < ?r")
      case True
      have "i * (?l + 1) + (?l + 1) \<le> ?o" using mult_le_mono1 [of "Suc i" ?r "?l + 1"] True by simp
      then show ?thesis
        using False True unfolding location_def interval_start_def interval_size_def by simp
    next
      case i: False
      have "location N n v = i \<longleftrightarrow> (v - ?o) div ?l = i - ?r"
        using False i unfolding location_def by auto
      also have "\<dots> \<longleftrightarrow> interval_start N n i \<le> v \<and> v < interval_start N n i + interval_size N n i"
        using False i by (simp add: div_eq_interval [OF l] interval_start_def interval_size_def) linarith
      finally show ?thesis .
    qed
  qed
qed

lemma location_less:
  assumes "n > 0" "v < N"
  shows "location N n v < n"
proof (cases "v < (N mod n) * (N div n + 1)")
  case True
  then have "v div (N div n + 1) < N mod n" by (rule less_mult_imp_div_less)
  also have "\<dots> < n" using assms(1) by simp
  finally show ?thesis using True by (simp add: location_def)
next
  case False
  then have "v - (N mod n) * (N div n + 1) < (n - N mod n) * (N div n)"
    using size_split [OF assms(1), of N] assms(2) by linarith
  then have "(v - (N mod n) * (N div n + 1)) div (N div n) < n - N mod n" by (rule less_mult_imp_div_less)
  then show ?thesis using False by (simp add: location_def)
qed

text \<open>The 64-bit computation does not overflow.\<close>

lemma unat_less_max:
  assumes "N \<noteq> (- 1 :: u64)"
  shows "unat N + 1 < 2 ^ 64"
proof -
  have "N < - 1" using assms by (simp add: word_order.not_eq_extremum)
  then have "unat N < unat (- 1 :: u64)" by (simp only: word_less_nat_alt)
  then show ?thesis by (simp add: unsigned_minus_1_eq_mask mask_eq_exp_minus_1)
qed

lemma unat_parts:
  fixes N ns :: u64
  assumes n: "0 < unat ns" and N: "N \<noteq> - 1"
  shows "unat (N div ns + 1) = unat N div unat ns + 1"
    and "unat (N mod ns * (N div ns + 1)) = (unat N mod unat ns) * (unat N div unat ns + 1)"
proof -
  have lt: "unat N + 1 < 2 ^ 64" using N by (rule unat_less_max)
  have "unat N div unat ns \<le> unat N" by (rule div_le_dividend)
  then have "unat N div unat ns + 1 < 2 ^ 64" using lt by linarith
  then have "unat (N div ns) + unat (1 :: u64) < 2 ^ 64" by (simp add: unat_div)
  then show one: "unat (N div ns + 1) = unat N div unat ns + 1"
    using unat_add_lem [of "N div ns" 1] by (simp add: unat_div)
  have "(unat N mod unat ns) * (unat N div unat ns + 1) \<le> unat N"
    using size_split [OF n, of "unat N"] by linarith
  then have "unat (N mod ns) * unat (N div ns + 1) < 2 ^ 64"
    using lt unfolding one by (simp add: unat_mod)
  then show "unat (N mod ns * (N div ns + 1)) = (unat N mod unat ns) * (unat N div unat ns + 1)"
    using unat_mult_lem [of "N mod ns" "N div ns + 1"] by (simp add: one unat_mod)
qed

definition cum_home :: "('k \<Rightarrow> u64) \<Rightarrow> u64 \<Rightarrow> nat \<Rightarrow> 'k \<Rightarrow> nat" where
  "cum_home hash N n k = location (unat N) n (unat (hash k) mod unat N)"

lemma cum_home_less: "0 < n \<Longrightarrow> N \<noteq> 0 \<Longrightarrow> cum_home hash N n k < n"
  unfolding cum_home_def by (intro location_less) (simp_all add: unat_gt_0)

lemma serverLocation_eq:
  assumes n: "num_servers (cum_base C) = int n" "0 < n" "n < 2 ^ 16" and N: "totalSize C \<noteq> 0" "totalSize C \<noteq> - 1"
  shows "cum_serverLocation hash C k = Inr (of_nat (cum_home hash (totalSize C) n k))"
proof -
  let ?N = "totalSize C" and ?n = "of_nat n :: u64"
  let ?v = "hash k mod ?N" and ?off = "?N mod ?n * (?N div ?n + 1)"
  have un: "unat ?n = n" using n(3) by (simp add: unat_of_nat)
  then have n0: "?n \<noteq> 0" using n(2) by (metis neq0_conv unat_0)
  have v: "?v < ?N" using N(1) by (simp add: word_mod_less_divisor word_neq_0_conv)
  note parts = unat_parts [of ?n ?N, unfolded un, OF n(2) N(2)]
  have home: "cum_home hash ?N n k = (if unat ?v < (unat ?N mod n) * (unat ?N div n + 1) then unat ?v div (unat ?N div n + 1)
      else unat ?N mod n + (unat ?v - (unat ?N mod n) * (unat ?N div n + 1)) div (unat ?N div n))"
    by (simp only: cum_home_def location_def unat_mod)
  have unat_mod_n: "unat (?N mod ?n) = unat ?N mod n" by (simp only: unat_mod un)
  have off: "?v < ?off \<longleftrightarrow> unat ?v < (unat ?N mod n) * (unat ?N div n + 1)"
    by (simp only: word_less_nat_alt parts)
  show ?thesis
  proof (cases "?v < ?off")
    case True
    have "?v div (?N div ?n + 1) = of_nat (unat (?v div (?N div ?n + 1)))" by simp
    also have "\<dots> = of_nat (cum_home hash ?N n k)"
      using True unfolding off home by (simp add: unat_div parts(1) del: of_nat_unat)
    finally show ?thesis using True v n(1) n0 N(1) by (simp add: cum_serverLocation_def Let_def)
  next
    case False
    then have le: "?off \<le> ?v" by simp
    have l0: "?N div ?n \<noteq> 0"
    proof
      assume z: "?N div ?n = 0"
      then have "unat ?N div n = 0" by (metis un unat_0 unat_div)
      then have "unat ?N = (unat ?N mod n) * (unat ?N div n + 1)" using size_split [OF n(2), of "unat ?N"] by simp
      then show False using False v unfolding off by (simp add: word_less_nat_alt)
    qed
    have "?N mod ?n + (?v - ?off) div (?N div ?n) = of_nat (unat (?N mod ?n) + unat ((?v - ?off) div (?N div ?n)))"
      by simp
    also have "\<dots> = of_nat (cum_home hash ?N n k)"
      using False le unfolding off home by (simp only: unat_div unat_sub parts unat_mod_n if_False un)
    finally show ?thesis using False v n(1) n0 N(1) l0 by (simp add: cum_serverLocation_def Let_def)
  qed
qed

text \<open>The bounds that \<^verbatim>\<open>initialize_tables\<close> computes for server \<open>i\<close>.\<close>

lemma interval_le:
  assumes "i < n"
  shows "interval_start N n i + interval_size N n i \<le> N"
proof (cases "i < N mod n")
  case True
  have "(i + 1) * (N div n + 1) \<le> (N mod n) * (N div n + 1)" using True by (intro mult_le_mono1) simp
  then show ?thesis
    using size_split [of n N] assms True by (simp add: interval_start_def interval_size_def)
next
  case False
  have "(i - N mod n + 1) * (N div n) \<le> (n - N mod n) * (N div n)" using False assms by (intro mult_le_mono1) simp
  then show ?thesis
    using size_split [of n N] assms False by (simp add: interval_start_def interval_size_def)
qed

lemma unat_add_eq: "unat a + unat b \<le> unat c \<Longrightarrow> unat (a + b) = unat a + unat b" for a b c :: u64
  unfolding unat_add_lem [symmetric] by (rule order_le_less_trans [OF _ unsigned_less])

lemma unat_mult_eq: "unat a * unat b \<le> unat c \<Longrightarrow> unat (a * b) = unat a * unat b" for a b c :: u64
  unfolding unat_mult_lem [symmetric] by (rule order_le_less_trans [OF _ unsigned_less])

lemma initialized_range:
  fixes N :: u64 and np i :: u32
  assumes n: "unat i < unat np" and N: "N \<noteq> - 1"
  defines "l \<equiv> N div ucast np" and "r \<equiv> N mod ucast np" and "sid \<equiv> ucast i :: u64"
  defines "lo \<equiv> (if sid < r then sid * (l + 1) else r * (l + 1) + (sid - r) * l)"
    and "msize \<equiv> (if sid < r then l + 1 else l)"
  shows "unat lo = interval_start (unat N) (unat np) (unat i)" "unat msize = interval_size (unat N) (unat np) (unat i)"
    "unat (lo + msize) = interval_start (unat N) (unat np) (unat i) + interval_size (unat N) (unat np) (unat i)"
proof -
  let ?N = "unat N" and ?n = "unat np" and ?i = "unat i"
  have un: "unat (ucast np :: u64) = ?n" and ui: "unat sid = ?i"
    by (simp_all add: sid_def)
  note parts = unat_parts [of "ucast np" N, unfolded un, OF order_le_less_trans [OF le0 n] N, folded l_def r_def]
  have ur: "unat r = ?N mod ?n" "unat l = ?N div ?n" by (simp_all only: r_def l_def unat_mod unat_div un)
  have c: "sid < r \<longleftrightarrow> ?i < ?N mod ?n" by (simp only: word_less_nat_alt ui ur)
  note le = interval_le [OF n, of ?N]
  show m: "unat msize = interval_size ?N ?n ?i"
    by (cases "?i < ?N mod ?n") (simp_all only: msize_def interval_size_def c parts ur if_True if_False)
  show lo: "unat lo = interval_start ?N ?n ?i"
  proof (cases "?i < ?N mod ?n")
    case True
    then have "unat sid * unat (l + 1) \<le> ?N"
      using le by (simp only: ui parts interval_start_def if_True add_leD1)
    from unat_mult_eq [OF this] True show ?thesis
      by (simp only: lo_def c if_True ui parts interval_start_def)
  next
    case False
    then have d: "unat (sid - r) = ?i - ?N mod ?n" by (simp only: unat_sub word_le_nat_alt ui ur not_less)
    have b: "(?N mod ?n) * (?N div ?n + 1) + (?i - ?N mod ?n) * (?N div ?n) \<le> ?N"
      using le False by (simp only: interval_start_def if_False add_leD1)
    have m1: "unat ((sid - r) * l) = (?i - ?N mod ?n) * (?N div ?n)"
      using unat_mult_eq [of "sid - r" l N] b by (simp only: d ur add_leD2)
    show ?thesis
      using unat_add_eq [of "r * (l + 1)" "(sid - r) * l" N] b False
      by (simp only: lo_def c if_False parts m1 interval_start_def)
  qed
  show "unat (lo + msize) = interval_start ?N ?n ?i + interval_size ?N ?n ?i"
    using unat_add_eq [of lo msize N] le by (simp only: lo m)
qed

lemma initialize_tables_fields:
  assumes "cum_initialize_tables I C0 n np rank mk h = Inr (C, t)"
  shows "totalSize C = n" "cum_base C = cum_base C0" "n \<noteq> 0" "n \<noteq> - 1"
    "min_range C = (if (ucast rank :: u64) < n mod ucast np then ucast rank * (n div ucast np + 1)
       else n mod ucast np * (n div ucast np + 1) + (ucast rank - n mod ucast np) * (n div ucast np))"
    "max_range C = min_range C + maxSize C"
    "maxSize C = (if (ucast rank :: u64) < n mod ucast np then n div ucast np + 1 else n div ucast np)"
  using assms
  by (auto simp: cum_initialize_tables_def Let_def rguard_def split: if_splits prod.splits)

section \<open>The cluster as one map\<close>

definition cum_look :: "('k, 'v, 'q) bm_inst \<Rightarrow> ('k, 'v, 'q) cum_table \<Rightarrow> 'k \<Rightarrow> 'v option" where
  "cum_look I d = (case d of None \<Rightarrow> Map.empty | Some B \<Rightarrow> bm_look I B)"

definition cum_table_ok :: "('k, 'v, 'q) bm_inst \<Rightarrow> ('q \<Rightarrow> ptr list) \<Rightarrow> 'k \<Rightarrow> ('k, 'v, 'q) cum_table \<Rightarrow> bool" where
  "cum_table_ok I elems ek d \<longleftrightarrow> (\<exists>B. d = Some B \<and> bm_ok I elems B \<and> bm_emptyKey B = ek)"

definition cum_view :: "('k, 'v, 'q) bm_inst \<Rightarrow> u64 \<Rightarrow> ('k, 'v, 'q) cum_cluster \<Rightarrow> 'k \<Rightarrow> 'v option" where
  "cum_view I N w = shard_view (cum_look I) (cum_home (bi_hash I) N (length w)) w"

definition cum_inv ::
  "('k, 'v, 'q) bm_inst \<Rightarrow> ('q \<Rightarrow> ptr list) \<Rightarrow> hcl_process \<Rightarrow> 'k \<Rightarrow> u64 \<Rightarrow> cum set \<Rightarrow> ('k, 'v, 'q) cum_cluster \<Rightarrow> bool" where
  "cum_inv I elems p ek N Cs w \<longleftrightarrow> N \<noteq> 0 \<and> N \<noteq> - 1
     \<and> (\<forall>C \<in> Cs. connected p cum_bind_table (cum_base C) w \<and> totalSize C = N)
     \<and> sharded (cum_look I) (cum_table_ok I elems ek) (cum_home (bi_hash I) N (length w)) w"

datatype ('k, 'v) cum_cmd =
  Insert_Cmd cum 'k 'v | Find_Cmd cum 'k | Erase_Key cum 'k | Get_Key cum 'k | Update_Cmd cum 'k 'v

datatype 'v cum_out = Cum_Bool bool | Cum_Val 'v

primrec cum_client :: "('k, 'v) cum_cmd \<Rightarrow> cum" where
  "cum_client (Insert_Cmd C k v) = C" | "cum_client (Find_Cmd C k) = C" | "cum_client (Erase_Key C k) = C"
| "cum_client (Get_Key C k) = C" | "cum_client (Update_Cmd C k v) = C"

primrec cum_key :: "('k, 'v) cum_cmd \<Rightarrow> 'k" where
  "cum_key (Insert_Cmd C k v) = k" | "cum_key (Find_Cmd C k) = k" | "cum_key (Erase_Key C k) = k"
| "cum_key (Get_Key C k) = k" | "cum_key (Update_Cmd C k v) = k"

primrec cum_exec ::
  "('k, 'v, 'q) bm_inst \<Rightarrow> hcl_process \<Rightarrow> ('k, 'v, 'q) cum_thallium \<Rightarrow> ('k, 'v) cum_cmd \<Rightarrow> ('k, 'v, 'q) cum_cluster
     \<Rightarrow> ('v cum_out \<times> ('k, 'v, 'q) cum_cluster) result" where
  "cum_exec I p thl (Insert_Cmd C k v) w = rmap (\<lambda>(b, w). (Cum_Bool b, w)) (cum_Insert I p thl C k v w)"
| "cum_exec I p thl (Find_Cmd C k) w = rmap (\<lambda>(b, w). (Cum_Bool b, w)) (cum_Find I p thl C k w)"
| "cum_exec I p thl (Erase_Key C k) w = rmap (\<lambda>(b, w). (Cum_Bool b, w)) (cum_Erase I p thl C k w)"
| "cum_exec I p thl (Get_Key C k) w = rmap (\<lambda>(v, w). (Cum_Val v, w)) (cum_Get I p thl C k w)"
| "cum_exec I p thl (Update_Cmd C k v) w = rmap (\<lambda>(b, w). (Cum_Bool b, w)) (cum_Update I p thl C k v w)"

text \<open>
  The specification. \<^verbatim>\<open>Insert\<close> answers true and keeps an existing value; \<^verbatim>\<open>Get\<close> answers the
  default value for a key that is not stored, and also for one that \<open>hidden\<close> selects.
\<close>

primrec cum_step ::
  "('k \<Rightarrow> bool) \<Rightarrow> 'v \<Rightarrow> ('k, 'v) cum_cmd \<Rightarrow> ('k \<Rightarrow> 'v option) \<Rightarrow> 'v cum_out \<times> ('k \<Rightarrow> 'v option)" where
  "cum_step hidden v0 (Insert_Cmd C k v) m = (Cum_Bool True, if m k = None then m(k \<mapsto> v) else m)"
| "cum_step hidden v0 (Find_Cmd C k) m = (Cum_Bool (m k \<noteq> None), m)"
| "cum_step hidden v0 (Erase_Key C k) m = (Cum_Bool (m k \<noteq> None), m(k := None))"
| "cum_step hidden v0 (Get_Key C k) m =
     (Cum_Val (if hidden k then v0 else (case m k of None \<Rightarrow> v0 | Some v \<Rightarrow> v)), m)"
| "cum_step hidden v0 (Update_Cmd C k v) m = (Cum_Bool (m k \<noteq> None), if m k = None then m else m(k \<mapsto> v))"

definition cum_hidden :: "('k \<Rightarrow> u64) \<Rightarrow> 'k \<Rightarrow> 'k \<Rightarrow> bool" where
  "cum_hidden hash ek k \<longleftrightarrow> hash ek > hash k"

primrec cum_body ::
  "('k, 'v, 'q) bm_inst \<Rightarrow> ('k, 'v) cum_cmd \<Rightarrow> ('k, 'v, 'q) block_map \<Rightarrow> ('v cum_out \<times> ('k, 'v, 'q) block_map) result" where
  "cum_body I (Insert_Cmd C k v) B = rmap (\<lambda>(_, B). (Cum_Bool True, B)) (bm_insert I k v B)"
| "cum_body I (Find_Cmd C k) B = rmap (\<lambda>(i, B). (Cum_Bool (i \<noteq> - 1), B)) (bm_find I k B)"
| "cum_body I (Erase_Key C k) B = rmap (\<lambda>(b, B). (Cum_Bool b, B)) (bm_erase I k B)"
| "cum_body I (Get_Key C k) B = rmap (\<lambda>((_, v), B). (Cum_Val v, B)) (bm_get I k (bi_val0 I) B)"
| "cum_body I (Update_Cmd C k v) B = rmap (\<lambda>(b, B). (Cum_Bool b, B)) (bm_update I k v B)"

lemma cum_step_local:
  assumes "m (cum_key x) = m' (cum_key x)"
  shows "fst (cum_step hidden v0 x m) = fst (cum_step hidden v0 x m')"
    and "snd (cum_step hidden v0 x m) = m(cum_key x := snd (cum_step hidden v0 x m') (cum_key x))"
  using assms by (cases x; auto simp: fun_eq_iff)+

lemma rmap_on_table:
  "rmap (\<lambda>x. (h (fst x), snd x)) (on_table f s) = on_table (\<lambda>B. rmap (\<lambda>x. (h (fst x), snd x)) (f B)) s"
  by (cases "obj s"; cases "f (the (obj s))") (auto simp: on_table_def)

lemma rmap_rmap: "rmap f (rmap g m) = rmap (\<lambda>x. f (g x)) m"
  by (cases m) simp_all

lemma on_table_body:
  "on_table (cum_body I (Insert_Cmd C k v)) = on_table (\<lambda>B. rmap (\<lambda>x. (Cum_Bool True, snd x)) (bm_insert I k v B))"
  "on_table (cum_body I (Find_Cmd C k)) = on_table (\<lambda>B. rmap (\<lambda>x. (Cum_Bool (fst x \<noteq> - 1), snd x)) (bm_find I k B))"
  "on_table (cum_body I (Erase_Key C k)) = on_table (\<lambda>B. rmap (\<lambda>x. (Cum_Bool (fst x), snd x)) (bm_erase I k B))"
  "on_table (cum_body I (Get_Key C k)) = on_table (\<lambda>B. rmap (\<lambda>x. (Cum_Val (snd (fst x)), snd x)) (bm_get I k (bi_val0 I) B))"
  "on_table (cum_body I (Update_Cmd C k v)) = on_table (\<lambda>B. rmap (\<lambda>x. (Cum_Bool (fst x), snd x)) (bm_update I k v B))"
  by (rule arg_cong [where f = on_table], rule ext, simp add: case_prod_beta')+

lemma rmap_at_server: "rmap (\<lambda>x. (h (fst x), snd x)) (at_server i f w) = at_server i (\<lambda>s. rmap (\<lambda>x. (h (fst x), snd x)) (f s)) w"
  by (cases "f (seg (w ! i))") (auto simp: at_server_def)

lemma cum_home_server:
  assumes "connected p cum_bind_table (cum_base C) w" "totalSize C \<noteq> 0" "totalSize C \<noteq> - 1"
  shows "cum_serverLocation hash C k = Inr (of_nat (cum_home hash (totalSize C) (length w) k))"
    "cum_home hash (totalSize C) (length w) k < length w"
proof -
  have "num_servers (cum_base C) = int (length w)" "length w < 2 ^ 16" "0 < length w"
    using assms(1) by (auto simp: connected_def)
  then show "cum_serverLocation hash C k = Inr (of_nat (cum_home hash (totalSize C) (length w) k))"
    "cum_home hash (totalSize C) (length w) k < length w"
    using assms(2,3) by (simp_all add: serverLocation_eq cum_home_less)
qed

lemmas cum_routing = cum_bind_table_def rmap_at_server rmap_on_table rmap_on_table [where h = "\<lambda>_. c" for c]
  rmap_on_table [where h = "\<lambda>r. Cum_Bool (r \<noteq> - 1)"] rmap_on_table [where h = "\<lambda>r. Cum_Val (snd r)"] rmap_rmap on_table_body case_prod_beta'

locale cum_deployment = transport thl "cum_handler I" + block_table I elems
  for I :: "('k, 'v, 'q) bm_inst" and elems :: "'q \<Rightarrow> ptr list" and thl :: "('k, 'v, 'q) cum_thallium"
begin

lemma exec_at_home:
  assumes con: "connected p cum_bind_table (cum_base (cum_client x)) w"
    and N: "totalSize (cum_client x) \<noteq> 0" "totalSize (cum_client x) \<noteq> - 1"
  shows "cum_exec I p thl x w =
    at_server (cum_home (bi_hash I) (totalSize (cum_client x)) (length w) (cum_key x)) (on_table (cum_body I x)) w"
proof -
  have u16: "ucast (of_nat n :: u64) = (of_nat n :: u16)" for n
    by transfer (simp add: take_bit_take_bit)
  note at = cum_home_server [OF con N, of "bi_hash I"]
  note call = remote_call [OF con at(2)]
  show ?thesis
  proof (cases x)
    case (Insert_Cmd C k v)
    then show ?thesis
      using call [where sfx = "''_Insert''" and op = CuInsert and q = "QKeyVal k v" and enc = RBool and f = "cum_LocalInsert I k v" and dec = as_bool] at
      by (simp add: cum_Insert_def u16 cum_routing cum_LocalInsert_def [abs_def])
  next
    case (Find_Cmd C k)
    then show ?thesis
      using call [where sfx = "''_Find''" and op = CuFind and q = "QKey k" and enc = RBool and f = "cum_LocalFind I k" and dec = as_bool] at
      by (simp add: cum_Find_def u16 cum_routing cum_LocalFind_def [abs_def])
  next
    case (Erase_Key C k)
    then show ?thesis
      using call [where sfx = "''_Erase''" and op = CuErase and q = "QKey k" and enc = RBool and f = "cum_LocalErase I k" and dec = as_bool] at
      by (simp add: cum_Erase_def u16 cum_routing cum_LocalErase_def [abs_def])
  next
    case (Get_Key C k)
    then show ?thesis
      using call [where sfx = "''_Get''" and op = CuGet and q = "QKey k" and enc = RPlain and f = "cum_LocalGetValue I k" and dec = as_plain] at
      by (simp add: cum_Get_def u16 cum_routing cum_LocalGetValue_def [abs_def] cum_LocalGet_def [abs_def])
  next
    case (Update_Cmd C k v)
    then show ?thesis
      using call [where sfx = "''_Update''" and op = CuUpdate and q = "QKeyVal k v" and enc = RBool and f = "cum_LocalUpdate I k v" and dec = as_bool] at
      by (simp add: cum_Update_def u16 cum_routing cum_LocalUpdate_def [abs_def])
  qed
qed

lemma body_refines:
  assumes ok: "bm_ok I elems B" "bm_emptyKey B = ek" and x: "\<forall>C k. x = Get_Key C k \<longrightarrow> k \<noteq> ek"
  shows "\<exists>B'. cum_body I x B = Inr (fst (cum_step (cum_hidden (bi_hash I) ek) (bi_val0 I) x (bm_look I B)), B')
    \<and> bm_ok I elems B' \<and> bm_emptyKey B' = ek
    \<and> bm_look I B' = snd (cum_step (cum_hidden (bi_hash I) ek) (bi_val0 I) x (bm_look I B))"
proof -
  obtain cs where rel: "bm_rel I elems B cs" using ok(1) by (auto simp: bm_ok_def)
  show ?thesis
  proof (cases x)
    case (Insert_Cmd C k v)
    then show ?thesis using insert_rel [OF rel, of k v] ok(2) by (auto simp: bm_ok_def)
  next
    case (Find_Cmd C k)
    have "unat (of_nat (bm_index I B k) :: u64) < unat (bm_maxSize B)"
      using bm_relD(3,8) [OF rel] le_unat_uoi [of "bm_index I B k" "bm_maxSize B"] by (simp add: order_less_imp_le)
    then have "(of_nat (bm_index I B k) :: u64) \<noteq> - 1"
      by (metis word_less_nat_alt word_order.extremum_strict)
    then show ?thesis using Find_Cmd find_rel [OF rel, of k] ok by auto
  next
    case (Erase_Key C k)
    then show ?thesis using erase_rel [OF rel, of k] ok(2) by (auto simp: bm_ok_def)
  next
    case (Get_Key C k)
    then show ?thesis using get_rel [OF rel, of k "bi_val0 I"] ok x by (auto simp: cum_hidden_def split: option.splits)
  next
    case (Update_Cmd C k v)
    then show ?thesis using update_rel [OF rel, of k v] ok(2) by (auto simp: bm_ok_def)
  qed
qed

end

definition cum_valid :: "cum set \<Rightarrow> 'k \<Rightarrow> ('k, 'v, 'q) cum_cluster \<Rightarrow> ('k, 'v) cum_cmd \<Rightarrow> bool" where
  "cum_valid Cs ek w x \<longleftrightarrow> cum_client x \<in> Cs \<and> (case x of Get_Key C k \<Rightarrow> k \<noteq> ek | _ \<Rightarrow> True)"

sublocale cum_deployment \<subseteq> simulation "cum_exec I p thl" "cum_step (cum_hidden (bi_hash I) ek) (bi_val0 I)"
  "cum_inv I elems p ek N Cs" "cum_view I N" "cum_valid Cs ek" for p ek N Cs
proof
  fix w x
  assume inv: "cum_inv I elems p ek N Cs w" and v: "cum_valid Cs ek w x"
  let ?hm = "cum_home (bi_hash I) N (length w)" and ?st = "cum_step (cum_hidden (bi_hash I) ek) (bi_val0 I) x"
  let ?i = "?hm (cum_key x)"
  have C: "connected p cum_bind_table (cum_base (cum_client x)) w" "totalSize (cum_client x) = N" "N \<noteq> 0" "N \<noteq> - 1"
    and sh: "sharded (cum_look I) (cum_table_ok I elems ek) ?hm w"
    using inv v by (auto simp: cum_inv_def cum_valid_def)
  have i: "?i < length w" using cum_home_server(2) [OF C(1)] C(2-4) by simp
  obtain B where B: "obj (seg (w ! ?i)) = Some B" "bm_ok I elems B" "bm_emptyKey B = ek"
    using shardedD(2) [OF sh i] by (auto simp: cum_table_ok_def)
  have "\<forall>C k. x = Get_Key C k \<longrightarrow> k \<noteq> ek" using v by (auto simp: cum_valid_def)
  from body_refines [OF B(2,3) this] obtain B' where B': "cum_body I x B = Inr (fst (?st (bm_look I B)), B')"
      "bm_ok I elems B'" "bm_emptyKey B' = ek" "bm_look I B' = snd (?st (bm_look I B))" by blast
  let ?s = "(seg (w ! ?i))\<lparr>obj := Some B'\<rparr>"
  have run: "cum_exec I p thl x w = Inr (fst (?st (bm_look I B)), put_seg w ?i ?s)"
    using exec_at_home [OF C(1)] C(2-4) B(1) B'(1) by (simp add: at_server_def on_table_def)
  have here: "cum_view I N w (cum_key x) = bm_look I B (cum_key x)"
    by (simp add: cum_view_def shard_view_def cum_look_def B(1))
  note loc = cum_step_local [of "cum_view I N w" x "bm_look I B" "cum_hidden (bi_hash I) ek" "bi_val0 I", OF here]
  have upd: "cum_look I (obj ?s) = (cum_look I (obj (seg (w ! ?i))))(cum_key x := snd (?st (bm_look I B)) (cum_key x))"
    using B(1) B'(4) cum_step_local(2) [of "bm_look I B" x "bm_look I B" "cum_hidden (bi_hash I) ek" "bi_val0 I"]
    by (simp add: cum_look_def)
  have "sharded (cum_look I) (cum_table_ok I elems ek) ?hm (put_seg w ?i ?s)"
    using quiescentD [OF shardedD(1) [OF sh] i] B'(2,3)
    by (intro sharded_put_seg [OF sh i _ _ upd]) (simp_all add: cum_table_ok_def)
  then have "cum_inv I elems p ek N Cs (put_seg w ?i ?s)"
    using inv i by (auto simp: cum_inv_def intro: hcl_wf)
  moreover have "cum_view I N (put_seg w ?i ?s) = snd (?st (cum_view I N w))"
    unfolding loc(2) unfolding cum_view_def length_put_seg using i upd by (rule shard_view_put_seg)
  ultimately show "\<exists>w'. cum_exec I p thl x w = Inr (fst (?st (cum_view I N w)), w') \<and> cum_inv I elems p ek N Cs w'
      \<and> cum_view I N w' = snd (?st (cum_view I N w)) \<and> cum_valid Cs ek w' = cum_valid Cs ek w"
    using run loc(1) by (auto simp: cum_valid_def fun_eq_iff)
qed

context cum_deployment
begin

lemmas cum_runs = run_simulates

end

section \<open>An instance\<close>

abbreviation list_block :: "('k \<Rightarrow> u64) \<Rightarrow> 'k \<Rightarrow> 'v \<Rightarrow> ('k, 'v, ptr list) bm_inst" where
  "list_block hash key0 val0 \<equiv> \<lparr>bi_hash = hash, bi_queue = list_lfq_ops, bi_key0 = key0, bi_val0 = val0\<rparr>"

interpretation lcum: cum_deployment "list_block hash key0 val0" "\<lambda>q. q" "direct_engine (cum_handler (list_block hash key0 val0))"
  for hash :: "'k \<Rightarrow> u64" and key0 and val0 :: 'v
  unfolding cum_deployment_def by (rule conjI, rule direct.transport_axioms, rule lblock.block_table_axioms)

lemma cum_table_names: "table_ok cum_bind_table"
  by (simp add: table_ok_def cum_bind_table_def NUL_def)

definition ex_cum :: "nat \<Rightarrow> u64 \<Rightarrow> cum" where
  "ex_cum n N = \<lparr>cum_base = ex_client n 0 False, totalSize = N, maxSize = 0, min_range = 0, max_range = 0,
     nservers = of_nat n, serverid = 0\<rparr>"

lemma ex_cum_sel [simp]: "cum_base (ex_cum n N) = ex_client n 0 False" "totalSize (ex_cum n N) = N"
  by (simp_all add: ex_cum_def)

text \<open>A cluster of \<open>n\<close> servers with empty tables.\<close>

lemma ex_cum_cluster:
  fixes hash :: "'k \<Rightarrow> u64" and val0 :: 'v
  assumes n: "0 < n" "n < 2 ^ 16" and N: "N \<noteq> 0" "N \<noteq> - 1"
  shows "\<exists>w :: ('k, 'v, ptr list) cum_cluster. length w = n
    \<and> cum_inv (list_block hash key0 val0) (\<lambda>q. q) (ex_process n) ek N {ex_cum n N} w
    \<and> cum_view (list_block hash key0 val0) N w = Map.empty"
proof -
  let ?I = "list_block hash key0 val0"
  obtain B where B: "bm_rel ?I (\<lambda>q. q) B (replicate (unat (1 :: u64)) [])" "bm_look ?I B = Map.empty" "bm_emptyKey B = ek"
    using lblock.ctor_rel [of "\<lparr>chunk_size = 1, free_nodes = 0, num_chunks = 0, memory_chunks = [], active_queue = [],
        free_queue = [], brk = 0\<rparr>" 1 hash key0 val0 undefined ek] by (auto simp: pool_inv_def pooled_def)
  let ?w = "ex_cluster cum_bind_table (replicate n (Some B))"
  have look: "cum_look ?I (Some B) = Map.empty" "cum_table_ok ?I (\<lambda>q. q) ek (Some B)"
    using B by (auto simp: cum_look_def cum_table_ok_def bm_ok_def)
  have "connected (ex_process n) cum_bind_table (ex_client n 0 False) ?w"
    using n by (intro ex_connected [OF cum_table_names]) auto
  moreover have "sharded (cum_look ?I) (cum_table_ok ?I (\<lambda>q. q) ek) (cum_home hash N n) ?w"
    unfolding sharded_def using look by (auto simp: ex_cluster_def quiescent_def)
  moreover have "cum_view ?I N ?w = Map.empty"
    using cum_home_less [OF n(1) N(1), of hash] look(1) by (auto simp: cum_view_def shard_view_def)
  ultimately show ?thesis using N by (intro exI [of _ ?w]) (simp add: cum_inv_def)
qed

lemma interval_size_pos:
  assumes "i < n"
  shows "0 < interval_size N n i \<longleftrightarrow> i < N"
proof (cases "n \<le> N")
  case True
  then show ?thesis using assms by (simp add: interval_size_def div_greater_zero_iff)
next
  case False
  then show ?thesis by (simp add: interval_size_def)
qed

lemma tables_ready:
  assumes "block_table I elems" "is_server (cum_base C0)" "unat rank < unat np" "N \<noteq> 0" "N \<noteq> - 1"
  shows "if unat rank < unat N
    then \<exists>C B. cum_initialize_tables I C0 N np rank maxKey h = Inr (C, Some B)
      \<and> bm_ok I elems B \<and> bm_look I B = Map.empty \<and> bm_emptyKey B = maxKey \<and> bm_maxSize B = maxSize C
      \<and> unat (maxSize C) = interval_size (unat N) (unat np) (unat rank)
    else cum_initialize_tables I C0 N np rank maxKey h = Inl Assert_Failed"
proof -
  let ?sz = "interval_size (unat N) (unat np) (unat rank)"
  define sz where "sz = (if (ucast rank :: u64) < N mod ucast np then N div ucast np + 1 else N div ucast np)"
  have u: "unat sz = ?sz" using initialized_range(2) [OF assms(3,5)] by (simp only: sz_def)
  have "?sz \<le> unat N" using interval_le [OF assms(3), of "unat N"] by simp
  then have "sz \<le> N" by (simp only: word_le_nat_alt u)
  then have max: "sz < - 1" using assms(5) by (simp add: word_order.not_eq_extremum)
  have N: "N > 0" "N < - 1" using assms(4,5) by (simp_all add: word_neq_0_conv word_order.not_eq_extremum)
  have np: "np \<noteq> 0" using assms(3) by auto
  obtain h' pl where pl: "memory_pool_ctor (bi_queue I) (bi_key0 I) (bi_val0 I) 100 h 0 = (h', pl)" by fastforce
  show ?thesis
  proof (cases "unat rank < unat N")
    case True
    then have "sz \<noteq> 0" using interval_size_pos [OF assms(3), of "unat N"] u by auto
    moreover have "pool_inv elems pl"
      using pool_queue.memory_pool_ctor_inv [OF _ _ pl] assms(1) by (simp add: block_table_def)
    ultimately obtain B where B: "BlockMap_ctor I sz h' pl maxKey = Inr B" "bm_rel I elems B (replicate (unat sz) [])"
        "bm_look I B = Map.empty" "bm_emptyKey B = maxKey"
      using block_table.ctor_rel [OF assms(1), of pl sz h' maxKey] max by auto
    moreover have "bm_maxSize B = sz" using B(1) by (auto simp: BlockMap_ctor_def)
    ultimately show ?thesis
      using True N np max \<open>sz \<noteq> 0\<close> pl assms(2) u
      by (auto simp: cum_initialize_tables_def Let_def bm_ok_def word_neq_0_conv simp flip: sz_def)
  next
    case False
    then have "sz = 0" using interval_size_pos [OF assms(3), of "unat N"] u by (simp add: unat_eq_0)
    then show ?thesis using False N np by (simp add: cum_initialize_tables_def Let_def flip: sz_def)
  qed
qed

definition ex_cum_server :: "nat \<Rightarrow> u16 \<Rightarrow> cum" where
  "ex_cum_server n i = \<lparr>cum_base = (ex_client n i True)\<lparr>is_server := True\<rparr>, totalSize = 0, maxSize = 0, min_range = 0,
     max_range = 0, nservers = 0, serverid = 0\<rparr>"

lemma ex_cum_server_sel [simp]:
  "is_server (cum_base (ex_cum_server n i))" "num_servers (cum_base (ex_cum_server n i)) = int n"
  by (simp_all add: ex_cum_server_def ex_client_def)

section \<open>Properties\<close>

text \<open>
  C10. \<^verbatim>\<open>concurrent_unordered_map\<close> is one map: any sequence of \<^verbatim>\<open>Insert\<close>, \<^verbatim>\<open>Find\<close>, \<^verbatim>\<open>Erase\<close>, \<^verbatim>\<open>Update\<close>
  and \<^verbatim>\<open>Get\<close> of any clients succeeds with the results of one map in one memory; an insertion keeps a
  value that is already there, and \<^verbatim>\<open>Get\<close> of a key whose hash is smaller than the hash of the sentinel
  key returns the default value.
\<close>

theorem concurrent_map_refines_map:
  assumes "cum_deployment I elems thl" "cum_inv I elems p ek N Cs w" "\<forall>x \<in> set xs. cum_valid Cs ek w x"
  shows "\<exists>w'. run_cmds (cum_exec I p thl) xs w =
      Inr (fst (run_spec (cum_step (cum_hidden (bi_hash I) ek) (bi_val0 I)) xs (cum_view I N w)), w')
    \<and> cum_inv I elems p ek N Cs w'
    \<and> cum_view I N w' = snd (run_spec (cum_step (cum_hidden (bi_hash I) ek) (bi_val0 I)) xs (cum_view I N w))"
  using cum_deployment.cum_runs [OF assms] .

theorem concurrent_map_refines_map_witness:
  "\<exists>w w' :: (nat, nat, ptr list) cum_cluster. length w = 3 \<and>
    run_cmds (cum_exec (list_block of_nat 0 0) (ex_process 3) (direct_engine (cum_handler (list_block of_nat 0 0))))
      [Insert_Cmd (ex_cum 3 10) 8 80, Insert_Cmd (ex_cum 3 10) 8 90, Get_Key (ex_cum 3 10) 8, Find_Cmd (ex_cum 3 10) 7,
       Update_Cmd (ex_cum 3 10) 8 90, Erase_Key (ex_cum 3 10) 8, Find_Cmd (ex_cum 3 10) 8] w =
    Inr ([Cum_Bool True, Cum_Bool True, Cum_Val 80, Cum_Bool False, Cum_Bool True, Cum_Bool True, Cum_Bool False], w')"
proof -
  let ?I = "list_block of_nat 0 0 :: (nat, nat, ptr list) bm_inst"
  obtain w :: "(nat, nat, ptr list) cum_cluster" where w: "length w = 3"
      "cum_inv ?I (\<lambda>q. q) (ex_process 3) 0 10 {ex_cum 3 10} w" "cum_view ?I 10 w = Map.empty"
    using ex_cum_cluster [of 3 10 of_nat 0 0 0] by auto
  show ?thesis
    using concurrent_map_refines_map [OF lcum.cum_deployment_axioms w(2), of "[Insert_Cmd (ex_cum 3 10) 8 80,
        Insert_Cmd (ex_cum 3 10) 8 90, Get_Key (ex_cum 3 10) 8, Find_Cmd (ex_cum 3 10) 7,
        Update_Cmd (ex_cum 3 10) 8 90, Erase_Key (ex_cum 3 10) 8, Find_Cmd (ex_cum 3 10) 8]"] w(1,3)
    by (auto simp: cum_valid_def cum_hidden_def Let_def simp del: run_cmds.simps)
qed

text \<open>
  C25. A key can be stored and found and still not be read: \<^verbatim>\<open>BlockMap::get\<close> starts its search at the
  sentinel of the bucket, so that, after a successful \<^verbatim>\<open>Insert\<close> of a key whose hash is smaller than the
  hash of the sentinel key, \<^verbatim>\<open>Find\<close> answers true and \<^verbatim>\<open>Get\<close> the default value.
\<close>

theorem concurrent_map_get_misses_small_hash:
  assumes "cum_deployment I elems thl" "cum_inv I elems p ek N Cs w" "C \<in> Cs"
    and "bi_hash I k < bi_hash I ek"
  shows "\<exists>w'. run_cmds (cum_exec I p thl) [Insert_Cmd C k v, Find_Cmd C k, Get_Key C k] w =
      Inr ([Cum_Bool True, Cum_Bool True, Cum_Val (bi_val0 I)], w')"
proof -
  have "k \<noteq> ek" using assms(4) by auto
  then have "\<forall>x \<in> set [Insert_Cmd C k v, Find_Cmd C k, Get_Key C k]. cum_valid Cs ek w x"
    using assms(3) by (simp add: cum_valid_def)
  from cum_deployment.cum_runs [OF assms(1,2) this] show ?thesis
    using assms(4) by (auto simp: cum_hidden_def Let_def simp del: run_cmds.simps)
qed

theorem concurrent_map_get_misses_small_hash_witness:
  "\<exists>w w' :: (nat, nat, ptr list) cum_cluster.
    run_cmds (cum_exec (list_block of_nat 0 0) (ex_process 3) (direct_engine (cum_handler (list_block of_nat 0 0))))
      [Insert_Cmd (ex_cum 3 10) 8 80, Find_Cmd (ex_cum 3 10) 8, Get_Key (ex_cum 3 10) 8] w =
    Inr ([Cum_Bool True, Cum_Bool True, Cum_Val 0], w')"
proof -
  let ?I = "list_block of_nat 0 0 :: (nat, nat, ptr list) bm_inst"
  obtain w :: "(nat, nat, ptr list) cum_cluster" where
      w: "cum_inv ?I (\<lambda>q. q) (ex_process 3) 1000 10 {ex_cum 3 10} w"
    using ex_cum_cluster [of 3 10 of_nat 0 0 1000] by auto
  have "bi_hash ?I 8 < bi_hash ?I 1000" by simp
  then show ?thesis
    using concurrent_map_get_misses_small_hash [OF lcum.cum_deployment_axioms w, of "ex_cum 3 10" 8 80]
    by (auto simp del: run_cmds.simps)
qed

text \<open>
  C21. Placement: a server that called \<^verbatim>\<open>initialize_tables\<close> with its rank among the \<^verbatim>\<open>num_servers\<close>
  servers answers \<^verbatim>\<open>isLocal\<close> for exactly the keys that every client's \<^verbatim>\<open>serverLocation\<close> sends to it;
  the 64-bit arithmetic of the intervals does not wrap.
\<close>

theorem isLocal_iff_serverLocation:
  assumes init: "cum_initialize_tables I C0 N np rank maxKey h = Inr (C, t)"
    and n: "num_servers (cum_base C0) = int (unat np)" "unat np < 2 ^ 16" "unat rank < unat np"
  shows "cum_isLocal hash C k =
    Inr (is_server (cum_base C) \<and> cum_serverLocation hash C k = Inr (ucast rank))"
proof -
  note f = initialize_tables_fields [OF init]
  let ?v = "unat (hash k) mod unat N"
  have N: "0 < unat N" using f(3) by (simp add: unat_gt_0)
  then have v: "?v < unat N" by simp
  note range = initialized_range [OF n(3) f(4), folded f(5,7), folded f(6)]
  have "cum_home hash N (unat np) k = unat rank \<longleftrightarrow>
      interval_start (unat N) (unat np) (unat rank) \<le> ?v
        \<and> ?v < interval_start (unat N) (unat np) (unat rank) + interval_size (unat N) (unat np) (unat rank)"
    unfolding cum_home_def using n(3) v by (intro location_interval) auto
  then have home: "cum_home hash N (unat np) k = unat rank \<longleftrightarrow> min_range C \<le> hash k mod N \<and> hash k mod N < max_range C"
    by (simp only: word_le_nat_alt word_less_nat_alt unat_mod range)
  have "(of_nat (cum_home hash N (unat np) k) :: u64) = ucast rank \<longleftrightarrow> cum_home hash N (unat np) k = unat rank"
    using cum_home_less [of "unat np" N hash k] n(2,3) f(3) by (simp add: word_unat_eq_iff unat_of_nat)
  then show ?thesis
    using serverLocation_eq [of C "unat np" hash k] n f home by (auto simp: cum_isLocal_def Let_def)
qed

theorem isLocal_iff_serverLocation_witness:
  "\<exists>C t. cum_initialize_tables (list_block (of_nat :: nat \<Rightarrow> u64) 0 (0 :: nat)) (ex_cum_server 3 1) 10 3 1 99 (\<lambda>_. undefined) =
      Inr (C, t) \<and> cum_isLocal of_nat C (14 :: nat) = Inr True \<and> cum_isLocal of_nat C (13 :: nat) = Inr False"
proof -
  let ?I = "list_block (of_nat :: nat \<Rightarrow> u64) 0 (0 :: nat)"
  obtain C t where C: "cum_initialize_tables ?I (ex_cum_server 3 1) 10 3 1 99 (\<lambda>_. undefined) = Inr (C, t)"
    using tables_ready [OF lblock.block_table_axioms [of of_nat 0 0], of "ex_cum_server 3 1" 1 3 10 99 "\<lambda>_. undefined"] by auto
  have "cum_isLocal of_nat C k =
      Inr (is_server (cum_base C) \<and> cum_serverLocation of_nat C k = Inr (ucast (1 :: u32)))" for k :: nat
    by (rule isLocal_iff_serverLocation [OF C]) simp_all
  moreover have "is_server (cum_base C)" "num_servers (cum_base C) = 3" "totalSize C = 10"
    using initialize_tables_fields(1,2) [OF C] by simp_all
  ultimately show ?thesis using C by (auto simp: cum_serverLocation_def Let_def)
qed

text \<open>
  C24. \<^verbatim>\<open>initialize_tables\<close> gives every server of rank below the total size an empty table of the size of
  its interval; its assertion fails on the servers beyond the total size.
\<close>

theorem initialize_tables_ready:
  assumes "block_table I elems" "is_server (cum_base C0)" "unat rank < unat np" "N \<noteq> 0" "N \<noteq> - 1"
  shows "if unat rank < unat N
    then \<exists>C B. cum_initialize_tables I C0 N np rank maxKey h = Inr (C, Some B)
      \<and> bm_ok I elems B \<and> bm_look I B = Map.empty \<and> bm_emptyKey B = maxKey \<and> bm_maxSize B = maxSize C
      \<and> unat (maxSize C) = interval_size (unat N) (unat np) (unat rank)
    else cum_initialize_tables I C0 N np rank maxKey h = Inl Assert_Failed"
  by (rule tables_ready [OF assms])

theorem initialize_tables_ready_witness:
  "(\<exists>C B. cum_initialize_tables (list_block (of_nat :: nat \<Rightarrow> u64) 0 (0 :: nat)) (ex_cum_server 3 1) 10 3 1 99 (\<lambda>_. undefined) =
       Inr (C, Some B) \<and> unat (maxSize C) = 3)
   \<and> cum_initialize_tables (list_block (of_nat :: nat \<Rightarrow> u64) 0 (0 :: nat)) (ex_cum_server 3 2) 2 3 2 99 (\<lambda>_. undefined) =
       Inl Assert_Failed"
  using initialize_tables_ready [OF lblock.block_table_axioms [of of_nat 0 0], of "ex_cum_server 3 1" 1 3 10 99 "\<lambda>_. undefined"]
    initialize_tables_ready [OF lblock.block_table_axioms [of of_nat 0 0], of "ex_cum_server 3 2" 2 3 2 99 "\<lambda>_. undefined"]
  by (auto simp: interval_size_def)

end
