(* ===== verification/Hcl_Conc_Queue.thy ===== *)
theory Hcl_Conc_Queue
  imports Hcl_Launch
begin

text \<open>
  \<^verbatim>\<open>hcl::concurrent_queue\<close> (\<^verbatim>\<open>include/hcl/concurrent/queue/queue.h\<close>, \<^verbatim>\<open>.cpp\<close>): one lock-free queue per
  server, in the memory of the server process; clients name the server, every operation is a remote
  call. The lock-free queue is the operations \<open>ci_ops\<close> of an instance.
\<close>

section \<open>The class\<close>

record ('v, 'q) cq_inst =
  ci_ops :: "('v, 'q) lfq_ops"
  ci_default :: 'v

datatype cq_op = CqPush | CqPop

definition cq_bind_table :: "(string \<times> cq_op) list" where
  "cq_bind_table = [(''_Push'', CqPush), (''_Pop'', CqPop)]"

definition cq_ctor ::
  "('v, 'q) cq_inst \<Rightarrow> ('f, 'd) segment_ops \<Rightarrow> hcl_process \<Rightarrow> charstruct \<Rightarrow> u16 \<Rightarrow> u16 \<Rightarrow> u16 \<Rightarrow> u64 \<Rightarrow> bool \<Rightarrow> bool
     \<Rightarrow> charstruct \<Rightarrow> 'f \<Rightarrow> (container \<times> 'q option \<times> (string \<times> cq_op) list \<times> 'f) result" where
  "cq_ctor I bip p nm prt n idx mem srv on_node dir fs =
     rbind (container_ctor bip p nm prt n idx mem srv on_node dir fs) (\<lambda>(c, fs).
       if is_server c
       then rmap (\<lambda>b. (c, Some (lf_new (ci_ops I) 128), b, fs)) (bind_functions p c cq_bind_table)
       else Inr (c, None, [], fs))"

section \<open>Operations\<close>

definition cq_LocalPush :: "('v, 'q) cq_inst \<Rightarrow> 'v \<Rightarrow> 'q option shm \<Rightarrow> (bool \<times> 'q option shm) result" where
  "cq_LocalPush I v s = (case obj s of None \<Rightarrow> Inl Null_Deref
     | Some q \<Rightarrow> (case lf_push (ci_ops I) v q of (b, q) \<Rightarrow> Inr (b, s\<lparr>obj := Some q\<rparr>)))"

definition cq_LocalPop :: "('v, 'q) cq_inst \<Rightarrow> 'q option shm \<Rightarrow> ((bool \<times> 'v) \<times> 'q option shm) result" where
  "cq_LocalPop I s = (case obj s of None \<Rightarrow> Inl Null_Deref
     | Some q \<Rightarrow> (case lf_pop (ci_ops I) q of
          (Some v, q) \<Rightarrow> Inr ((True, v), s\<lparr>obj := Some q\<rparr>)
        | (None, q) \<Rightarrow> Inr ((False, ci_default I), s\<lparr>obj := Some q\<rparr>)))"

fun cq_handler ::
  "('v, 'q) cq_inst \<Rightarrow> cq_op \<Rightarrow> ('k, 'v) request \<Rightarrow> container \<Rightarrow> 'q option shm \<Rightarrow> (('k, 'v) response \<times> 'q option shm) result" where
  "cq_handler I CqPush (QVal v) c s = THALLIUM_DEFINE RBool (cq_LocalPush I v s)"
| "cq_handler I CqPop QNone c s = THALLIUM_DEFINE RVal (cq_LocalPop I s)"
| "cq_handler I op q c s = Inl Bad_Message"

type_synonym 'q cq_cluster = "('q option, cq_op) cluster"
type_synonym ('k, 'v, 'q) cq_thallium = "('q option, cq_op, ('k, 'v) request, ('k, 'v) response) thallium"

definition cq_Push ::
  "hcl_process \<Rightarrow> ('k, 'v, 'q) cq_thallium \<Rightarrow> container \<Rightarrow> u64 \<Rightarrow> 'v \<Rightarrow> 'q cq_cluster \<Rightarrow> (bool \<times> 'q cq_cluster) result" where
  "cq_Push p thl c s v w = RPC_CALL_WRAPPER p thl c ''_Push'' (ucast s) as_bool (QVal v) w"

definition cq_Pop ::
  "hcl_process \<Rightarrow> ('k, 'v, 'q) cq_thallium \<Rightarrow> container \<Rightarrow> u64 \<Rightarrow> 'q cq_cluster \<Rightarrow> ((bool \<times> 'v) \<times> 'q cq_cluster) result" where
  "cq_Pop p thl c s w = RPC_CALL_WRAPPER p thl c ''_Pop'' (ucast s) as_val QNone w"

section \<open>One queue per server\<close>

datatype 'v cq_cmd = Cq_Push container u64 'v | Cq_Pop container u64
datatype 'v cq_out = Cq_Pushed bool | Cq_Popped "bool \<times> 'v"

primrec cq_addr :: "'v cq_cmd \<Rightarrow> container \<times> u16" where
  "cq_addr (Cq_Push c s v) = (c, ucast s)" | "cq_addr (Cq_Pop c s) = (c, ucast s)"

primrec cq_exec ::
  "hcl_process \<Rightarrow> ('k, 'v, 'q) cq_thallium \<Rightarrow> 'v cq_cmd \<Rightarrow> 'q cq_cluster \<Rightarrow> ('v cq_out \<times> 'q cq_cluster) result" where
  "cq_exec p thl (Cq_Push c s v) w = rmap (\<lambda>(b, w). (Cq_Pushed b, w)) (cq_Push p thl c s v w)"
| "cq_exec p thl (Cq_Pop c s) w = rmap (\<lambda>(r, w). (Cq_Popped r, w)) (cq_Pop p thl c s w)"

primrec cq_step :: "'v \<Rightarrow> 'v cq_cmd \<Rightarrow> 'v list \<Rightarrow> 'v cq_out \<times> 'v list" where
  "cq_step d (Cq_Push c s v) q = (Cq_Pushed True, q @ [v])"
| "cq_step d (Cq_Pop c s) q = (case q of [] \<Rightarrow> (Cq_Popped (False, d), []) | x # q \<Rightarrow> (Cq_Popped (True, x), q))"

text \<open>What a command does to the queue behind the pointer.\<close>

primrec cq_body :: "('v, 'q) cq_inst \<Rightarrow> 'v cq_cmd \<Rightarrow> 'q option \<Rightarrow> 'v cq_out \<times> 'q option" where
  "cq_body I (Cq_Push c s v) d =
     (case lf_push (ci_ops I) v (the d) of (b, q) \<Rightarrow> (Cq_Pushed b, Some q))"
| "cq_body I (Cq_Pop c s) d =
     (case lf_pop (ci_ops I) (the d) of (r, q) \<Rightarrow>
        (Cq_Popped (case r of None \<Rightarrow> (False, ci_default I) | Some x \<Rightarrow> (True, x)), Some q))"

locale cq_deployment = transport thl "cq_handler I" + reliable_queue "ci_ops I" elems
  for I :: "('v, 'q) cq_inst" and elems :: "'q \<Rightarrow> 'v list" and thl :: "('k, 'v, 'q) cq_thallium"

sublocale cq_deployment \<subseteq> indexed_service cq_bind_table p "cq_exec p thl" cq_addr "cq_body I"
  "\<lambda>d. d \<noteq> None" "\<lambda>d. elems (the d)" "cq_step (ci_default I)" for p
proof
  fix x :: "'v cq_cmd" and w :: "'q cq_cluster"
  assume con: "connected p cq_bind_table (fst (cq_addr x)) w" and i: "unat (snd (cq_addr x)) < length w"
    and free: "\<not> mtx (seg (w ! unat (snd (cq_addr x))))" and ok: "obj (seg (w ! unat (snd (cq_addr x)))) \<noteq> None"
  have word_nat_cast: "of_nat (unat a) = a" for a :: u16 by simp
  note call = remote_call [OF con i, unfolded word_nat_cast]
  show "cq_exec p thl x w = at_server (unat (snd (cq_addr x))) (scoped_lock (cq_body I x)) w"
  proof (cases x)
    case (Cq_Push c s v)
    then show ?thesis
      using call [where sfx = "''_Push''" and op = CqPush and q = "QVal v" and enc = RBool and f = "cq_LocalPush I v" and dec = as_bool]
        free ok
      by (auto simp: cq_Push_def cq_bind_table_def at_server_write at_server_def cq_LocalPush_def scoped_lock_free split: prod.splits)
  next
    case (Cq_Pop c s)
    then show ?thesis
      using call [where sfx = "''_Pop''" and op = CqPop and q = QNone and enc = RVal and f = "cq_LocalPop I" and dec = as_val]
        free ok
      by (auto simp: cq_Pop_def cq_bind_table_def at_server_def cq_LocalPop_def scoped_lock_free split: prod.splits option.splits)
  qed
next
  fix d :: "'q option" and x :: "'v cq_cmd"
  assume "d \<noteq> None"
  then obtain q where d: "d = Some q" by auto
  show "snd (cq_body I x d) \<noteq> None" by (cases x) (simp_all split: prod.splits)
  show "cq_step (ci_default I) x (elems (the d)) = (fst (cq_body I x d), elems (the (snd (cq_body I x d))))"
  proof (cases x)
    case (Cq_Push c s v)
    then show ?thesis using elems_push [of v q] push_True [of v q] by (auto simp: d split: prod.splits)
  next
    case (Cq_Pop c s)
    then show ?thesis by (cases q rule: popE) (simp_all add: d)
  qed
qed

context cq_deployment
begin

lemmas cq_runs = run_simulates

end

section \<open>An instance\<close>

abbreviation list_cq :: "'v \<Rightarrow> ('v, 'v list) cq_inst" where
  "list_cq dflt \<equiv> \<lparr>ci_ops = list_lfq_ops, ci_default = dflt\<rparr>"

interpretation lcq: cq_deployment "list_cq dflt" "\<lambda>q. q" "direct_engine (cq_handler (list_cq dflt))" for dflt :: 'v
  unfolding cq_deployment_def by (simp add: direct.transport_axioms llfq.reliable_queue_axioms)

lemma cq_table_ok: "table_ok cq_bind_table"
  by (simp add: table_ok_def cq_bind_table_def NUL_def)

section \<open>Properties\<close>

text \<open>
  C26. Each server of a \<^verbatim>\<open>concurrent_queue\<close> is a first-in first-out queue: any sequence of \<^verbatim>\<open>Push\<close> and
  \<^verbatim>\<open>Pop\<close> of any clients, addressed by the low 16 bits of the server number, succeeds with the results
  that one list per server gives; \<^verbatim>\<open>Pop\<close> on an empty server reports it.
\<close>

theorem concurrent_queue_refines_fifo:
  assumes "cq_deployment I elems thl" "servers_inv cq_bind_table p (\<lambda>d. d \<noteq> None) C w"
    and "\<forall>x \<in> set xs. addressed cq_addr C w x"
  shows "\<exists>w'. run_cmds (cq_exec p thl) xs w =
      Inr (fst (run_spec (at_index cq_addr (cq_step (ci_default I))) xs (servers_view (\<lambda>d. elems (the d)) w)), w')
    \<and> servers_inv cq_bind_table p (\<lambda>d. d \<noteq> None) C w'
    \<and> servers_view (\<lambda>d. elems (the d)) w' =
        snd (run_spec (at_index cq_addr (cq_step (ci_default I))) xs (servers_view (\<lambda>d. elems (the d)) w))"
  using cq_deployment.cq_runs [OF assms] .

theorem concurrent_queue_refines_fifo_witness:
  "\<exists>w'. run_cmds (cq_exec (ex_process 2) (direct_engine (cq_handler (list_cq (0 :: nat)))))
      [Cq_Push (ex_client 2 1 True) 1 7, Cq_Push (ex_client 2 0 False) 65537 8, Cq_Pop (ex_client 2 0 True) 1,
       Cq_Pop (ex_client 2 0 True) 0]
      (ex_cluster cq_bind_table [Some [], Some []]) =
    Inr ([Cq_Pushed True, Cq_Pushed True, Cq_Popped (True, 7), Cq_Popped (False, 0)], w')"
proof -
  let ?w = "ex_cluster cq_bind_table [Some [], Some []] :: nat list cq_cluster"
  let ?xs = "[Cq_Push (ex_client 2 1 True) 1 7, Cq_Push (ex_client 2 0 False) 65537 8, Cq_Pop (ex_client 2 0 True) 1,
       Cq_Pop (ex_client 2 0 True) 0]"
  have h: "servers_inv cq_bind_table (ex_process 2) (\<lambda>d. d \<noteq> None) (ex_clients 2) ?w"
    by (rule ex_servers_inv [OF cq_table_ok]) simp_all
  have u: "ucast (1 :: u64) = (1 :: u16)" "ucast (65537 :: u64) = (1 :: u16)" by simp_all
  have "\<forall>x \<in> set ?xs. addressed cq_addr (ex_clients 2) ?w x" by (simp add: addressed_def u)
  from concurrent_queue_refines_fifo [OF lcq.cq_deployment_axioms [of 0] h this] show ?thesis
    by (auto simp: at_index_def Let_def u simp del: run_cmds.simps)
qed

end
