(* ===== verification/Hcl_Skip_List.thy ===== *)
theory Hcl_Skip_List
  imports Hcl_Memory_Pool Complex_Main
begin

text \<open>
  The skip list under \<^verbatim>\<open>hcl::concurrent_skiplist\<close>
  (\<^verbatim>\<open>include/hcl/base/containers/concurrent_skiplist/skip_list.h\<close>, \<^verbatim>\<open>skip_list_inl.h\<close>,
  \<^verbatim>\<open>skip_list_accessor.h\<close>): nodes with one successor pointer per layer in an explicit heap, a lock and
  flags in every node, and a recycler that keeps removed nodes by height. Each operation is one
  step of the model; a lock that is held when it is asked for is \<open>Would_Block\<close>. Values are
  compared by \<^verbatim>\<open>std::less\<close>. The samples of the random generator and the two tables computed in floating
  point are parameters.
\<close>

section \<open>Nodes\<close>

record 'a snode =
  s_flags :: u16
  s_height :: nat
  s_lock :: bool
  s_data :: 'a
  s_skip :: "ptr option list"

type_synonym 'a sheap = "ptr \<Rightarrow> 'a snode"

abbreviation IS_HEAD_NODE :: u16 where "IS_HEAD_NODE \<equiv> 1"
abbreviation MARKED_FOR_REMOVAL :: u16 where "MARKED_FOR_REMOVAL \<equiv> 2"
abbreviation FULLY_LINKED :: u16 where "FULLY_LINKED \<equiv> 4"

unbundle bit_operations_syntax

definition fullyLinked :: "'a snode \<Rightarrow> bool" where
  "fullyLinked n \<longleftrightarrow> s_flags n AND FULLY_LINKED \<noteq> 0"

definition markedForRemoval :: "'a snode \<Rightarrow> bool" where
  "markedForRemoval n \<longleftrightarrow> s_flags n AND MARKED_FOR_REMOVAL \<noteq> 0"

definition isHeadNode :: "'a snode \<Rightarrow> bool" where
  "isHeadNode n \<longleftrightarrow> s_flags n AND IS_HEAD_NODE \<noteq> 0"

definition setFlag :: "u16 \<Rightarrow> 'a snode \<Rightarrow> 'a snode" where
  "setFlag f n = n\<lparr>s_flags := s_flags n OR f\<rparr>"

definition SkipListNode_create :: "nat \<Rightarrow> 'a \<Rightarrow> bool \<Rightarrow> 'a snode result" where
  "SkipListNode_create height dat isHead =
     rguard (height \<ge> 1 \<and> height < 64) Assert_Failed
       (Inr \<lparr>s_flags = (if isHead then 0 OR IS_HEAD_NODE else 0), s_height = height, s_lock = False, s_data = dat,
             s_skip = replicate height None\<rparr>)"

definition skip :: "'a sheap \<Rightarrow> ptr \<Rightarrow> nat \<Rightarrow> ptr option result" where
  "skip h a layer = rguard (layer < s_height (h a)) Assert_Failed (Inr (s_skip (h a) ! layer))"

definition setSkip :: "ptr \<Rightarrow> nat \<Rightarrow> ptr option \<Rightarrow> 'a sheap \<Rightarrow> 'a sheap result" where
  "setSkip a layer n h =
     rguard (layer < s_height (h a)) Assert_Failed (Inr (h(a := (h a)\<lparr>s_skip := (s_skip (h a))[layer := n]\<rparr>)))"

definition acquireGuard :: "ptr \<Rightarrow> 'a sheap \<Rightarrow> 'a sheap result" where
  "acquireGuard a h = rguard (\<not> s_lock (h a)) Would_Block (Inr (h(a := (h a)\<lparr>s_lock := True\<rparr>)))"

definition releaseGuard :: "ptr \<Rightarrow> 'a sheap \<Rightarrow> 'a sheap" where
  "releaseGuard a h = h(a := (h a)\<lparr>s_lock := False\<rparr>)"

definition copyHead :: "ptr \<Rightarrow> ptr \<Rightarrow> 'a sheap \<Rightarrow> 'a sheap result" where
  "copyHead this node h =
     rguard (s_height (h this) > s_height (h node)) Assert_Failed
       (Inr (h(this := (h this)\<lparr>s_flags := s_flags (h node),
          s_skip := take (s_height (h node)) (s_skip (h node)) @ drop (s_height (h node)) (s_skip (h this))\<rparr>)))"

text \<open>\<^verbatim>\<open>next\<close> passes over nodes marked for removal.\<close>

partial_function (option) next_unmarked :: "'a sheap \<Rightarrow> ptr option \<Rightarrow> ptr option result option" where
  "next_unmarked h n =
     (case n of
        None \<Rightarrow> Some (Inr None)
      | Some a \<Rightarrow> (if markedForRemoval (h a)
          then (case skip h a 0 of Inl e \<Rightarrow> Some (Inl e) | Inr n \<Rightarrow> next_unmarked h n) else Some (Inr (Some a))))"

definition diverge :: "'b result option \<Rightarrow> 'b result" where
  "diverge m = (case m of None \<Rightarrow> Inl Diverges | Some r \<Rightarrow> r)"

definition node_next :: "'a sheap \<Rightarrow> ptr \<Rightarrow> ptr option result" where
  "node_next h a = rbind (skip h a 0) (\<lambda>n. diverge (next_unmarked h n))"

section \<open>Random heights\<close>

text \<open>\<^verbatim>\<open>SkipListRandomHeight::getHeight\<close> for the sample \<open>p\<close>; \<open>lookupTable\<close> is the table of the constructor.\<close>

definition getHeight :: "(nat \<Rightarrow> real) \<Rightarrow> real \<Rightarrow> nat \<Rightarrow> nat result" where
  "getHeight lookupTable p maxHeight =
     rguard (maxHeight \<le> 64) Assert_Failed
       (Inr (case filter (\<lambda>i. p < lookupTable i) [0..<maxHeight] of [] \<Rightarrow> maxHeight | i # _ \<Rightarrow> i + 1))"

definition getSizeLimit :: "(nat \<Rightarrow> u64) \<Rightarrow> nat \<Rightarrow> u64 result" where
  "getSizeLimit sizeLimitTable height = rguard (height < 64) Assert_Failed (Inr (sizeLimitTable height))"

section \<open>The recycler\<close>

record 'q recycler =
  rc_queues :: "nat \<Rightarrow> 'q"
  rc_nodes :: "ptr list option"
  rc_refs :: int
  rc_dirty :: bool
  rc_brk :: ptr

record ('a, 'q) sl_inst =
  si_ops :: "(ptr, 'q) lfq_ops"
  si_default :: 'a
  si_max :: nat
  si_lookup :: "nat \<Rightarrow> real"
  si_limit :: "nat \<Rightarrow> u64"

definition NodeRecycler_ctor :: "('a, 'q) sl_inst \<Rightarrow> ptr \<Rightarrow> 'q recycler" where
  "NodeRecycler_ctor I base =
     \<lparr>rc_queues = (\<lambda>_. lf_new (si_ops I) 128), rc_nodes = None, rc_refs = 0, rc_dirty = False, rc_brk = base\<rparr>"

definition recycler_push :: "('a, 'q) sl_inst \<Rightarrow> nat \<Rightarrow> ptr \<Rightarrow> 'q recycler \<Rightarrow> 'q recycler result" where
  "recycler_push I k node R =
     rguard (k < 64) Assert_Failed
       (rguard (rc_refs R > 0) Assert_Failed
         (Inr (R\<lparr>rc_queues := (rc_queues R)(k := snd (lf_push (si_ops I) node (rc_queues R k))), rc_dirty := True\<rparr>)))"

text \<open>The loop that creates a chunk of nodes of one height.\<close>

fun create_nodes ::
  "('a, 'q) sl_inst \<Rightarrow> nat \<Rightarrow> ptr list \<Rightarrow> 'a sheap \<Rightarrow> 'q \<Rightarrow> ('a sheap \<times> 'q) result" where
  "create_nodes I k [] h q = Inr (h, q)"
| "create_nodes I k (a # as) h q =
     rbind (SkipListNode_create k (si_default I) False) (\<lambda>n.
       create_nodes I k as (h(a := n)) (snd (lf_push (si_ops I) a q)))"

abbreviation rc_chunk :: nat where "rc_chunk \<equiv> 100"

partial_function (option) recycler_take ::
  "('a, 'q) sl_inst \<Rightarrow> nat \<Rightarrow> 'a sheap \<Rightarrow> 'q recycler \<Rightarrow> (ptr \<times> 'a sheap \<times> 'q recycler) result option" where
  "recycler_take I k h R =
     (case lf_pop (si_ops I) (rc_queues R k) of
        (Some n, q) \<Rightarrow> Some (Inr (n, h, R\<lparr>rc_queues := (rc_queues R)(k := q)\<rparr>))
      | (None, q) \<Rightarrow>
          (case create_nodes I k [rc_brk R..<rc_brk R + rc_chunk] h q of
             Inl e \<Rightarrow> Some (Inl e)
           | Inr (h, q) \<Rightarrow>
               (case lf_pop (si_ops I) q of
                  (Some n, q) \<Rightarrow> Some (Inr (n, h, R\<lparr>rc_queues := (rc_queues R)(k := q), rc_brk := rc_brk R + rc_chunk\<rparr>))
                | (None, q) \<Rightarrow> recycler_take I k h
                    (R\<lparr>rc_queues := (rc_queues R)(k := q), rc_brk := rc_brk R + rc_chunk\<rparr>))))"

definition recycler_pop ::
  "('a, 'q) sl_inst \<Rightarrow> nat \<Rightarrow> bool \<Rightarrow> 'a sheap \<Rightarrow> 'q recycler \<Rightarrow> (ptr \<times> 'a sheap \<times> 'q recycler) result" where
  "recycler_pop I k ishead h R =
     rguard (k < 64) Assert_Failed
       (rbind (diverge (recycler_take I k h R)) (\<lambda>(n, h, R).
        rguard (rc_refs R \<ge> 0) Assert_Failed
          (Inr (n, h(n := (h n)\<lparr>s_flags := (if ishead then 0 OR IS_HEAD_NODE else 0)\<rparr>), R\<lparr>rc_dirty := True\<rparr>))))"

text \<open>The older way to give a node back, and the destructor: it destroys what \<open>add\<close> collected (the answer), and the queues.\<close>

definition recycler_add :: "ptr \<Rightarrow> 'q recycler \<Rightarrow> 'q recycler result" where
  "recycler_add node R =
     (let R = R\<lparr>rc_nodes := Some (case rc_nodes R of None \<Rightarrow> [node] | Some nodes \<Rightarrow> nodes @ [node])\<rparr>
      in rguard (rc_refs R > 0) Assert_Failed (Inr (R\<lparr>rc_dirty := True\<rparr>)))"

definition NodeRecycler_dtor :: "'q recycler \<Rightarrow> ptr list result" where
  "NodeRecycler_dtor R =
     rguard (rc_refs R = 0) Assert_Failed (Inr (case rc_nodes R of None \<Rightarrow> [] | Some nodes \<Rightarrow> nodes))"

definition recycler_addRef :: "'q recycler \<Rightarrow> 'q recycler" where
  "recycler_addRef R = R\<lparr>rc_refs := rc_refs R + 1\<rparr>"

text \<open>The last reference destroys the nodes that wait for reuse.\<close>

definition recycler_releaseRef :: "('a, 'q) sl_inst \<Rightarrow> 'q recycler \<Rightarrow> 'q recycler" where
  "recycler_releaseRef I R =
     (if \<not> rc_dirty R \<or> rc_refs R > 1 then R\<lparr>rc_refs := rc_refs R - 1\<rparr>
      else if rc_refs R = 1
      then R\<lparr>rc_refs := 0, rc_dirty := False, rc_nodes := None, rc_queues := (\<lambda>k. if k < 64 then lf_new (si_ops I) 128 else rc_queues R k)\<rparr>
      else R\<lparr>rc_refs := rc_refs R - 1\<rparr>)"

section \<open>The list\<close>

record ('a, 'q) skip_list =
  sl_recycler :: "'q recycler"
  sl_head :: ptr
  sl_size :: u64
  sl_heap :: "'a sheap"

definition ConcurrentSkipList_ctor :: "('a, 'q) sl_inst \<Rightarrow> nat \<Rightarrow> 'a sheap \<Rightarrow> ptr \<Rightarrow> ('a, 'q) skip_list result" where
  "ConcurrentSkipList_ctor I height h base =
     rmap (\<lambda>(a, h, R). \<lparr>sl_recycler = R, sl_head = a, sl_size = 0, sl_heap = h\<rparr>)
       (recycler_pop I height True h (NodeRecycler_ctor I base))"

text \<open>The destructor frees the nodes along the bottom layer; the answer lists them.\<close>

partial_function (option) destroy_loop :: "'a sheap \<Rightarrow> ptr option \<Rightarrow> ptr list result option" where
  "destroy_loop h current =
     (case current of
        None \<Rightarrow> Some (Inr [])
      | Some a \<Rightarrow> (case skip h a 0 of Inl e \<Rightarrow> Some (Inl e)
          | Inr tmp \<Rightarrow> Option.bind (destroy_loop h tmp) (\<lambda>r. Some (rmap (\<lambda>as. a # as) r))))"

definition ConcurrentSkipList_dtor :: "('a, 'q) skip_list \<Rightarrow> ptr list result" where
  "ConcurrentSkipList_dtor L = diverge (destroy_loop (sl_heap L) (Some (sl_head L)))"

definition sl_recycle :: "ptr \<Rightarrow> ('a, 'q) skip_list \<Rightarrow> ('a, 'q) skip_list result" where
  "sl_recycle node L = rmap (\<lambda>R. L\<lparr>sl_recycler := R\<rparr>) (recycler_add node (sl_recycler L))"

definition sl_height :: "('a, 'q) skip_list \<Rightarrow> nat" where
  "sl_height L = s_height (sl_heap L (sl_head L))"

definition sl_greater :: "'a::linorder \<Rightarrow> 'a sheap \<Rightarrow> ptr option \<Rightarrow> bool" where
  "sl_greater dat h n = (case n of None \<Rightarrow> False | Some a \<Rightarrow> s_data (h a) < dat)"

definition sl_less :: "'a::linorder \<Rightarrow> 'a sheap \<Rightarrow> ptr option \<Rightarrow> bool" where
  "sl_less dat h n = (case n of None \<Rightarrow> True | Some a \<Rightarrow> dat < s_data (h a))"

text \<open>The loop along one layer, shared by the searches.\<close>

partial_function (option) walk_right ::
  "'a::linorder sheap \<Rightarrow> 'a \<Rightarrow> nat \<Rightarrow> ptr \<Rightarrow> ptr option \<Rightarrow> (ptr \<times> ptr option) result option" where
  "walk_right h dat layer pred node =
     (if sl_greater dat h node
      then (case node of
              None \<Rightarrow> Some (Inl Null_Deref)
            | Some a \<Rightarrow> (case skip h a layer of Inl e \<Rightarrow> Some (Inl e) | Inr n \<Rightarrow> walk_right h dat layer a n))
      else Some (Inr (pred, node)))"

text \<open>\<^verbatim>\<open>findInsertionPoint\<close>: the loop from \<open>layers - 1\<close> down to 0.\<close>

fun insertion_loop ::
  "'a::linorder sheap \<Rightarrow> 'a \<Rightarrow> nat \<Rightarrow> ptr \<Rightarrow> int \<Rightarrow> ptr option \<Rightarrow> (nat \<Rightarrow> ptr option) \<Rightarrow> (nat \<Rightarrow> ptr option)
     \<Rightarrow> (int \<times> (nat \<Rightarrow> ptr option) \<times> (nat \<Rightarrow> ptr option)) result" where
  "insertion_loop h dat 0 pred foundLayer foundNode preds succs = Inr (foundLayer, preds, succs)"
| "insertion_loop h dat (Suc layer) pred foundLayer foundNode preds succs =
     rbind (skip h pred layer) (\<lambda>node.
     rbind (diverge (walk_right h dat layer pred node)) (\<lambda>(pred, node).
       let (foundLayer, foundNode) = (if foundLayer = - 1 \<and> \<not> sl_less dat h node then (int layer, node)
                                      else (foundLayer, foundNode))
       in insertion_loop h dat layer pred foundLayer foundNode (preds(layer := Some pred))
            (succs(layer := if foundNode \<noteq> None then foundNode else node))))"

definition findInsertionPoint ::
  "'a::linorder sheap \<Rightarrow> ptr \<Rightarrow> nat \<Rightarrow> 'a \<Rightarrow> (nat \<Rightarrow> ptr option) \<Rightarrow> (nat \<Rightarrow> ptr option)
     \<Rightarrow> (int \<times> (nat \<Rightarrow> ptr option) \<times> (nat \<Rightarrow> ptr option)) result" where
  "findInsertionPoint h cur cur_layer dat preds succs =
     insertion_loop h dat (cur_layer + 1) cur (- 1) None preds succs"

text \<open>Uninitialised local arrays: a predecessor that was not stored is \<open>None\<close>.\<close>

definition findInsertionPointGetMaxLayer ::
  "('a::linorder, 'q) skip_list \<Rightarrow> 'a \<Rightarrow> (int \<times> (nat \<Rightarrow> ptr option) \<times> (nat \<Rightarrow> ptr option)) result" where
  "findInsertionPointGetMaxLayer L dat =
     findInsertionPoint (sl_heap L) (sl_head L) (sl_height L - 1) dat (\<lambda>_. None) (\<lambda>_. None)"

section \<open>Changing the list\<close>

text \<open>
  \<^verbatim>\<open>lockNodesForChange\<close>: locks each predecessor once, as long as the neighbours found by the search are
  still neighbours.
\<close>

fun lock_loop ::
  "nat list \<Rightarrow> (nat \<Rightarrow> ptr option) \<Rightarrow> (nat \<Rightarrow> ptr option) \<Rightarrow> bool \<Rightarrow> ptr option \<Rightarrow> (nat \<Rightarrow> bool) \<Rightarrow> 'a sheap
     \<Rightarrow> (bool \<times> (nat \<Rightarrow> bool) \<times> 'a sheap) result" where
  "lock_loop [] preds succs adding prevPred guards h = Inr (True, guards, h)"
| "lock_loop (layer # ls) preds succs adding prevPred guards h =
     (case preds layer of
        None \<Rightarrow> Inl Assert_Failed
      | Some pred \<Rightarrow>
          rbind (if Some pred \<noteq> prevPred then rmap (\<lambda>h. (guards(layer := True), h)) (acquireGuard pred h)
                 else Inr (guards, h)) (\<lambda>(guards, h).
          rbind (skip h pred layer) (\<lambda>n.
            let succ = succs layer;
                valid = (\<not> markedForRemoval (h pred) \<and> n = succ);
                valid = (if adding then valid \<and> (case succ of None \<Rightarrow> True | Some b \<Rightarrow> \<not> markedForRemoval (h b)) else valid)
            in if valid then lock_loop ls preds succs adding (Some pred) guards h else Inr (False, guards, h))))"

definition lockNodesForChange ::
  "nat \<Rightarrow> (nat \<Rightarrow> ptr option) \<Rightarrow> (nat \<Rightarrow> ptr option) \<Rightarrow> bool \<Rightarrow> 'a sheap \<Rightarrow> (bool \<times> (nat \<Rightarrow> bool) \<times> 'a sheap) result" where
  "lockNodesForChange nodeHeight preds succs adding h =
     lock_loop [0..<nodeHeight] preds succs adding None (\<lambda>_. False) h"

fun release_guards :: "nat list \<Rightarrow> (nat \<Rightarrow> bool) \<Rightarrow> (nat \<Rightarrow> ptr option) \<Rightarrow> 'a sheap \<Rightarrow> 'a sheap" where
  "release_guards [] guards preds h = h"
| "release_guards (i # is) guards preds h =
     release_guards is guards preds
       (case preds i of Some p \<Rightarrow> if guards i then releaseGuard p h else h | None \<Rightarrow> h)"

text \<open>The loop that links a new node, layer by layer.\<close>

fun link_loop :: "nat list \<Rightarrow> ptr \<Rightarrow> (nat \<Rightarrow> ptr option) \<Rightarrow> (nat \<Rightarrow> ptr option) \<Rightarrow> 'a sheap \<Rightarrow> 'a sheap result" where
  "link_loop [] newNode preds succs h = Inr h"
| "link_loop (k # ks) newNode preds succs h =
     (case preds k of
        None \<Rightarrow> Inl Null_Deref
      | Some p \<Rightarrow> rbind (setSkip newNode k (succs k) h) (\<lambda>h. rbind (setSkip p k (Some newNode) h)
          (link_loop ks newNode preds succs)))"

definition growHeight :: "('a, 'q) sl_inst \<Rightarrow> nat \<Rightarrow> ('a, 'q) skip_list \<Rightarrow> ('a, 'q) skip_list result" where
  "growHeight I height L =
     (let oldHead = sl_head L in
      if s_height (sl_heap L oldHead) \<ge> height then Inr L
      else rbind (recycler_pop I height True (sl_heap L) (sl_recycler L)) (\<lambda>(newHead, h, R).
           rbind (acquireGuard oldHead h) (\<lambda>h.
           rbind (copyHead newHead oldHead h) (\<lambda>h.
             let h = releaseGuard oldHead (h(oldHead := setFlag MARKED_FOR_REMOVAL (h oldHead)))
             in rmap (\<lambda>R. L\<lparr>sl_recycler := R, sl_head := newHead, sl_heap := h\<rparr>)
                  (recycler_push I (s_height (h oldHead)) oldHead R)))))"

text \<open>
  \<^verbatim>\<open>addOrGetData\<close>: \<open>ps t\<close> is the random sample of the \<open>t\<close>-th attempt. A found node that is not fully
  linked is waited for. The answer is the node, with the new size when it was added.
\<close>

definition add_attempt ::
  "('a::linorder, 'q) sl_inst \<Rightarrow> 'a \<Rightarrow> real \<Rightarrow> ('a, 'q) skip_list \<Rightarrow> ((ptr \<times> u64 option) option \<times> ('a, 'q) skip_list) result" where
  "add_attempt I dat p L =
     rbind (findInsertionPointGetMaxLayer L dat) (\<lambda>(layer, preds, succs).
       if layer \<ge> 0
       then (case succs (nat layer) of
               None \<Rightarrow> Inl Assert_Failed
             | Some nodeFound \<Rightarrow>
                 if markedForRemoval (sl_heap L nodeFound) then Inr (None, L)
                 else if fullyLinked (sl_heap L nodeFound) then Inr (Some (nodeFound, None), L) else Inl Would_Block)
       else rbind (getHeight (si_lookup I) p (sl_height L)) (\<lambda>nodeHeight.
            rbind (lockNodesForChange nodeHeight preds succs True (sl_heap L)) (\<lambda>(valid, guards, h).
              if \<not> valid
              then Inr (None, L\<lparr>sl_heap := release_guards [0..<si_max I] guards preds h\<rparr>)
              else rbind (recycler_pop I nodeHeight False h (sl_recycler L)) (\<lambda>(newNode, h, R).
                   rbind (link_loop [0..<nodeHeight] newNode preds succs (h(newNode := (h newNode)\<lparr>s_data := dat\<rparr>))) (\<lambda>h.
                     let newSize = sl_size L + 1;
                         h = release_guards [0..<si_max I] guards preds (h(newNode := setFlag FULLY_LINKED (h newNode)))
                     in Inr (Some (newNode, Some newSize), L\<lparr>sl_recycler := R, sl_size := newSize, sl_heap := h\<rparr>))))))"

partial_function (option) add_retry ::
  "('a::linorder, 'q) sl_inst \<Rightarrow> 'a \<Rightarrow> (nat \<Rightarrow> real) \<Rightarrow> nat \<Rightarrow> ('a, 'q) skip_list
     \<Rightarrow> ((ptr \<times> u64 option) \<times> ('a, 'q) skip_list) result option" where
  "add_retry I dat ps t L =
     (case add_attempt I dat (ps t) L of
        Inl e \<Rightarrow> Some (Inl e)
      | Inr (None, L) \<Rightarrow> add_retry I dat ps (Suc t) L
      | Inr (Some r, L) \<Rightarrow> Some (Inr (r, L)))"

definition addOrGetData ::
  "('a::linorder, 'q) sl_inst \<Rightarrow> 'a \<Rightarrow> (nat \<Rightarrow> real) \<Rightarrow> ('a, 'q) skip_list \<Rightarrow> ((ptr \<times> u64) \<times> ('a, 'q) skip_list) result" where
  "addOrGetData I dat ps L =
     rbind (diverge (add_retry I dat ps 0 L)) (\<lambda>((node, added), L').
       case added of
         None \<Rightarrow> Inr ((node, 0), L')
       | Some newSize \<Rightarrow>
           let hgt = sl_height L' in
           rbind (getSizeLimit (si_limit I) hgt) (\<lambda>sizeLimit.
           rbind (if hgt < si_max I \<and> newSize > sizeLimit then growHeight I (hgt + 1) L' else Inr L') (\<lambda>L'.
           rguard (newSize > 0) Assert_Failed (Inr ((node, newSize), L')))))"

section \<open>Removal\<close>

definition okToDelete :: "'a snode \<Rightarrow> int \<Rightarrow> bool" where
  "okToDelete candidate layer \<longleftrightarrow>
     fullyLinked candidate \<and> int (s_height candidate) - 1 = layer \<and> \<not> markedForRemoval candidate"

fun unlink_loop :: "nat list \<Rightarrow> ptr \<Rightarrow> (nat \<Rightarrow> ptr option) \<Rightarrow> 'a sheap \<Rightarrow> 'a sheap result" where
  "unlink_loop [] nodeToDelete preds h = Inr h"
| "unlink_loop (k # ks) nodeToDelete preds h =
     (case preds k of
        None \<Rightarrow> Inl Null_Deref
      | Some p \<Rightarrow> rbind (skip h nodeToDelete k) (\<lambda>n. rbind (setSkip p k n h) (unlink_loop ks nodeToDelete preds)))"

text \<open>
  One turn of the loop of \<^verbatim>\<open>remove\<close>; \<open>marked\<close> is the node that this call has already marked. The result is
  the answer, or the marked node and another turn.
\<close>

definition remove_attempt ::
  "('a::linorder, 'q) sl_inst \<Rightarrow> 'a \<Rightarrow> ptr option \<Rightarrow> ('a, 'q) skip_list
     \<Rightarrow> ((bool + ptr) \<times> ('a, 'q) skip_list) result" where
  "remove_attempt I dat marked L =
     rbind (findInsertionPointGetMaxLayer L dat) (\<lambda>(layer, preds, succs).
     rbind (case marked of
              Some a \<Rightarrow> Inr (Some (a, sl_heap L))
            | None \<Rightarrow>
                if layer < 0 then Inr None
                else (case succs (nat layer) of
                        None \<Rightarrow> Inl Assert_Failed
                      | Some a \<Rightarrow>
                          if \<not> okToDelete (sl_heap L a) layer then Inr None
                          else rbind (acquireGuard a (sl_heap L)) (\<lambda>h.
                               if markedForRemoval (h a) then Inr None
                               else Inr (Some (a, releaseGuard a (h(a := setFlag MARKED_FOR_REMOVAL (h a)))))))) (\<lambda>target.
       case target of
         None \<Rightarrow> Inr (Inl False, L)
       | Some (nodeToDelete, h) \<Rightarrow>
           rbind (lockNodesForChange (s_height (h nodeToDelete)) preds succs False h) (\<lambda>(valid, guards, h).
             if \<not> valid
             then Inr (Inr nodeToDelete, L\<lparr>sl_heap := release_guards [0..<si_max I] guards preds h\<rparr>)
             else rbind (unlink_loop (rev [0..<s_height (h nodeToDelete)]) nodeToDelete preds h) (\<lambda>h.
                    let h = release_guards [0..<si_max I] guards preds h
                    in rmap (\<lambda>R. (Inl True, L\<lparr>sl_recycler := R, sl_size := sl_size L - 1, sl_heap := h\<rparr>))
                         (recycler_push I (s_height (h nodeToDelete)) nodeToDelete (sl_recycler L))))))"

partial_function (option) remove_retry ::
  "('a::linorder, 'q) sl_inst \<Rightarrow> 'a \<Rightarrow> ptr option \<Rightarrow> ('a, 'q) skip_list \<Rightarrow> (bool \<times> ('a, 'q) skip_list) result option" where
  "remove_retry I dat marked L =
     (case remove_attempt I dat marked L of
        Inl e \<Rightarrow> Some (Inl e)
      | Inr (Inl b, L) \<Rightarrow> Some (Inr (b, L))
      | Inr (Inr a, L) \<Rightarrow> remove_retry I dat (Some a) L)"

definition sl_remove :: "('a::linorder, 'q) sl_inst \<Rightarrow> 'a \<Rightarrow> ('a, 'q) skip_list \<Rightarrow> (bool \<times> ('a, 'q) skip_list) result" where
  "sl_remove I dat L = diverge (remove_retry I dat None L)"

section \<open>Searching\<close>

text \<open>\<^verbatim>\<open>findNodeDownRight\<close>: down while the next node is beyond, then right.\<close>

fun descend :: "'a::linorder sheap \<Rightarrow> 'a \<Rightarrow> ptr \<Rightarrow> nat \<Rightarrow> ptr option \<Rightarrow> (nat \<times> ptr option) result" where
  "descend h dat pred 0 node = Inr (0, node)"
| "descend h dat pred (Suc ht) node =
     rbind (skip h pred ht) (\<lambda>node. if sl_less dat h node then descend h dat pred ht node else Inr (Suc ht, node))"

partial_function (option) down_right ::
  "'a::linorder sheap \<Rightarrow> 'a \<Rightarrow> ptr \<Rightarrow> nat \<Rightarrow> ptr option \<Rightarrow> (ptr option \<times> bool) result option" where
  "down_right h dat pred ht node =
     (case descend h dat pred ht node of
        Inl e \<Rightarrow> Some (Inl e)
      | Inr (0, node) \<Rightarrow> Some (Inr (node, False))
      | Inr (Suc ht, node) \<Rightarrow>
          (case diverge (walk_right h dat ht pred node) of
             Inl e \<Rightarrow> Some (Inl e)
           | Inr (pred, node) \<Rightarrow>
               if \<not> sl_less dat h node then Some (Inr (node, True)) else down_right h dat pred ht node))"

definition findNode :: "('a::linorder, 'q) skip_list \<Rightarrow> 'a \<Rightarrow> (ptr option \<times> bool) result" where
  "findNode L dat = diverge (down_right (sl_heap L) dat (sl_head L) (sl_height L) None)"

text \<open>\<^verbatim>\<open>findNodeRightDown\<close>, the variant that no operation uses.\<close>

fun right_down :: "'a::linorder sheap \<Rightarrow> 'a \<Rightarrow> nat \<Rightarrow> ptr \<Rightarrow> ptr option \<Rightarrow> (ptr option \<times> bool) result" where
  "right_down h dat 0 pred node = Inr (node, False)"
| "right_down h dat (Suc layer) pred node =
     rbind (skip h pred layer) (\<lambda>node.
     rbind (diverge (walk_right h dat layer pred node)) (\<lambda>(pred, node).
       if \<not> sl_less dat h node then Inr (node, True) else right_down h dat layer pred node))"

definition findNodeRightDown :: "('a::linorder, 'q) skip_list \<Rightarrow> 'a \<Rightarrow> (ptr option \<times> bool) result" where
  "findNodeRightDown L dat = right_down (sl_heap L) dat (sl_height L) (sl_head L) None"

definition sl_find :: "('a::linorder, 'q) skip_list \<Rightarrow> 'a \<Rightarrow> ptr option result" where
  "sl_find L dat = rmap (\<lambda>(node, found).
     case node of Some a \<Rightarrow> if found \<and> \<not> markedForRemoval (sl_heap L a) then Some a else None | None \<Rightarrow> None) (findNode L dat)"

definition sl_lower_bound :: "('a::linorder, 'q) skip_list \<Rightarrow> 'a \<Rightarrow> ptr option result" where
  "sl_lower_bound L dat = rbind (findNode L dat) (\<lambda>(node, _). diverge (next_unmarked (sl_heap L) node))"

definition sl_first :: "('a, 'q) skip_list \<Rightarrow> 'a option result" where
  "sl_first L = rmap (map_option (\<lambda>a. s_data (sl_heap L a))) (skip (sl_heap L) (sl_head L) 0)"

partial_function (option) walk_end :: "'a sheap \<Rightarrow> nat \<Rightarrow> ptr \<Rightarrow> ptr result option" where
  "walk_end h layer pred =
     (case skip h pred layer of
        Inl e \<Rightarrow> Some (Inl e)
      | Inr None \<Rightarrow> Some (Inr pred)
      | Inr (Some a) \<Rightarrow> walk_end h layer a)"

fun last_loop :: "'a sheap \<Rightarrow> nat \<Rightarrow> ptr \<Rightarrow> ptr result" where
  "last_loop h 0 pred = Inr pred"
| "last_loop h (Suc layer) pred = rbind (diverge (walk_end h layer pred)) (last_loop h layer)"

definition sl_last :: "('a, 'q) skip_list \<Rightarrow> 'a option result" where
  "sl_last L = rmap (\<lambda>pred. if pred = sl_head L then None else Some (s_data (sl_heap L pred)))
     (last_loop (sl_heap L) (sl_height L) (sl_head L))"

section \<open>The accessor\<close>

definition Accessor_ctor :: "('a, 'q) skip_list \<Rightarrow> ('a, 'q) skip_list" where
  "Accessor_ctor L = L\<lparr>sl_recycler := recycler_addRef (sl_recycler L)\<rparr>"

text \<open>\<^verbatim>\<open>createInstance\<close> and \<^verbatim>\<open>create\<close>.\<close>

definition sl_createInstance :: "('a, 'q) sl_inst \<Rightarrow> nat \<Rightarrow> 'a sheap \<Rightarrow> ptr \<Rightarrow> ('a, 'q) skip_list result" where
  "sl_createInstance I height h base = ConcurrentSkipList_ctor I height h base"

definition sl_create :: "('a, 'q) sl_inst \<Rightarrow> nat \<Rightarrow> 'a sheap \<Rightarrow> ptr \<Rightarrow> ('a, 'q) skip_list result" where
  "sl_create I height h base = rmap Accessor_ctor (sl_createInstance I height h base)"

definition Accessor_dtor :: "('a, 'q) sl_inst \<Rightarrow> ('a, 'q) skip_list \<Rightarrow> ('a, 'q) skip_list" where
  "Accessor_dtor I L = L\<lparr>sl_recycler := recycler_releaseRef I (sl_recycler L)\<rparr>"

text \<open>Assignment of an accessor of the list \<open>L'\<close> to one of the list \<open>L\<close>, when they are different lists.\<close>

definition Accessor_assign ::
  "('a, 'q) sl_inst \<Rightarrow> ('a, 'q) skip_list \<Rightarrow> ('a, 'q) skip_list \<Rightarrow> ('a, 'q) skip_list \<times> ('a, 'q) skip_list" where
  "Accessor_assign I L L' = (Accessor_dtor I L, Accessor_ctor L')"

definition acc_empty :: "('a, 'q) skip_list \<Rightarrow> bool" where
  "acc_empty L \<longleftrightarrow> sl_size L = 0"

definition acc_size :: "('a, 'q) skip_list \<Rightarrow> u64" where
  "acc_size L = sl_size L"

definition acc_max_size :: u64 where
  "acc_max_size = - 1"

definition acc_find :: "('a::linorder, 'q) skip_list \<Rightarrow> 'a \<Rightarrow> ptr option result" where
  "acc_find L value = sl_find L value"

definition acc_contains :: "('a::linorder, 'q) skip_list \<Rightarrow> 'a \<Rightarrow> bool result" where
  "acc_contains L dat = rmap (\<lambda>n. n \<noteq> None) (sl_find L dat)"

definition acc_count :: "('a::linorder, 'q) skip_list \<Rightarrow> 'a \<Rightarrow> u64 result" where
  "acc_count L dat = rmap of_bool (acc_contains L dat)"

definition acc_begin :: "('a, 'q) skip_list \<Rightarrow> ptr option result" where
  "acc_begin L = node_next (sl_heap L) (sl_head L)"

definition acc_end :: "ptr option" where
  "acc_end = None"

definition acc_insert ::
  "('a::linorder, 'q) sl_inst \<Rightarrow> 'a \<Rightarrow> (nat \<Rightarrow> real) \<Rightarrow> ('a, 'q) skip_list \<Rightarrow> ((ptr option \<times> bool) \<times> ('a, 'q) skip_list) result" where
  "acc_insert I dat ps L = rmap (\<lambda>((n, sz), L). ((Some n, sz \<noteq> 0), L)) (addOrGetData I dat ps L)"

definition acc_remove :: "('a::linorder, 'q) sl_inst \<Rightarrow> 'a \<Rightarrow> ('a, 'q) skip_list \<Rightarrow> (bool \<times> ('a, 'q) skip_list) result" where
  "acc_remove I dat L = sl_remove I dat L"

definition acc_erase :: "('a::linorder, 'q) sl_inst \<Rightarrow> 'a \<Rightarrow> ('a, 'q) skip_list \<Rightarrow> (u64 \<times> ('a, 'q) skip_list) result" where
  "acc_erase I dat L = rmap (\<lambda>(b, L). (of_bool b, L)) (acc_remove I dat L)"

definition acc_lower_bound :: "('a::linorder, 'q) skip_list \<Rightarrow> 'a \<Rightarrow> ptr option result" where
  "acc_lower_bound L dat = sl_lower_bound L dat"

definition acc_height :: "('a, 'q) skip_list \<Rightarrow> nat" where
  "acc_height L = sl_height L"

definition acc_first :: "('a, 'q) skip_list \<Rightarrow> 'a option result" where
  "acc_first L = sl_first L"

definition acc_last :: "('a, 'q) skip_list \<Rightarrow> 'a option result" where
  "acc_last L = sl_last L"

definition acc_pop_back :: "('a::linorder, 'q) sl_inst \<Rightarrow> ('a, 'q) skip_list \<Rightarrow> (bool \<times> ('a, 'q) skip_list) result" where
  "acc_pop_back I L = rbind (sl_last L) (\<lambda>l. case l of None \<Rightarrow> Inr (False, L) | Some dat \<Rightarrow> sl_remove I dat L)"

text \<open>The pointer to the stored value is given by the node that holds it.\<close>

definition acc_addOrGetData ::
  "('a::linorder, 'q) sl_inst \<Rightarrow> 'a \<Rightarrow> (nat \<Rightarrow> real) \<Rightarrow> ('a, 'q) skip_list \<Rightarrow> ((ptr \<times> bool) \<times> ('a, 'q) skip_list) result" where
  "acc_addOrGetData I dat ps L = rmap (\<lambda>((n, sz), L). ((n, sz \<noteq> 0), L)) (addOrGetData I dat ps L)"

definition acc_add ::
  "('a::linorder, 'q) sl_inst \<Rightarrow> 'a \<Rightarrow> (nat \<Rightarrow> real) \<Rightarrow> ('a, 'q) skip_list \<Rightarrow> (bool \<times> ('a, 'q) skip_list) result" where
  "acc_add I dat ps L = rmap (\<lambda>((n, sz), L). (sz \<noteq> 0, L)) (addOrGetData I dat ps L)"

section \<open>The iterator\<close>

definition csl_iterator_increment :: "'a sheap \<Rightarrow> ptr option \<Rightarrow> ptr option result" where
  "csl_iterator_increment h it = (case it of None \<Rightarrow> Inl Null_Deref | Some a \<Rightarrow> node_next h a)"

definition csl_iterator_equal :: "ptr option \<Rightarrow> ptr option \<Rightarrow> bool" where
  "csl_iterator_equal it it' \<longleftrightarrow> it = it'"

definition csl_iterator_dereference :: "'a sheap \<Rightarrow> ptr option \<Rightarrow> 'a result" where
  "csl_iterator_dereference h it = (case it of None \<Rightarrow> Inl Null_Deref | Some a \<Rightarrow> Inr (s_data (h a)))"

definition csl_iterator_good :: "ptr option \<Rightarrow> bool" where
  "csl_iterator_good it \<longleftrightarrow> it \<noteq> None"

text \<open>\<^verbatim>\<open>operator++(int)\<close> answers the old iterator.\<close>

definition postfix_increment :: "'a sheap \<Rightarrow> ptr option \<Rightarrow> (ptr option \<times> ptr option) result" where
  "postfix_increment h it = rmap (\<lambda>it'. (it, it')) (csl_iterator_increment h it)"

text \<open>The loop from an iterator to \<open>end\<close>, collecting what it designates.\<close>

partial_function (option) iterate :: "'a sheap \<Rightarrow> ptr option \<Rightarrow> 'a list result option" where
  "iterate h it =
     (if csl_iterator_equal it acc_end then Some (Inr [])
      else (case csl_iterator_dereference h it of
              Inl e \<Rightarrow> Some (Inl e)
            | Inr x \<Rightarrow> (case csl_iterator_increment h it of
                Inl e \<Rightarrow> Some (Inl e)
              | Inr it \<Rightarrow> Option.bind (iterate h it) (\<lambda>r. Some (rmap (\<lambda>xs. x # xs) r)))))"

end
