(* ===== verification/Hcl_Skip_Layers.thy ===== *)
theory Hcl_Skip_Layers
  imports Hcl_Skip_List
begin

text \<open>
  The loops of the skip list on a well-formed heap: what a search finds in each layer, which locks a
  change takes, and what linking and unlinking do to the pointers.
\<close>

section \<open>Paths and layers\<close>

primrec spath :: "'a sheap \<Rightarrow> nat \<Rightarrow> ptr option \<Rightarrow> ptr list \<Rightarrow> bool" where
  "spath h l n [] \<longleftrightarrow> n = None"
| "spath h l n (a # as) \<longleftrightarrow> n = Some a \<and> l < s_height (h a) \<and> spath h l (s_skip (h a) ! l) as"

definition layer :: "'a sheap \<Rightarrow> nat \<Rightarrow> ptr list \<Rightarrow> ptr list" where
  "layer h l xs = filter (\<lambda>a. l < s_height (h a)) xs"

definition hd_opt :: "'b list \<Rightarrow> 'b option" where
  "hd_opt xs = (case xs of [] \<Rightarrow> None | x # _ \<Rightarrow> Some x)"

lemma hd_opt_simps [simp]: "hd_opt [] = None" "hd_opt (x # xs) = Some x"
  by (simp_all add: hd_opt_def)

lemma layer_simps [simp]:
  "layer h l [] = []" "layer h l (a # xs) = (if l < s_height (h a) then a # layer h l xs else layer h l xs)"
  "layer h l (xs @ ys) = layer h l xs @ layer h l ys"
  by (simp_all add: layer_def)

lemma set_layer: "set (layer h l xs) = {a \<in> set xs. l < s_height (h a)}"
  by (auto simp: layer_def)

lemma layer_0: "\<forall>a \<in> set xs. 0 < s_height (h a) \<Longrightarrow> layer h 0 xs = xs"
  by (simp add: layer_def)

lemma layer_Nil_mono: "layer h j xs = [] \<Longrightarrow> j \<le> m \<Longrightarrow> layer h m xs = []"
  by (auto simp: layer_def filter_empty_conv)

lemma spath_start: "spath h l n (as @ bs) \<Longrightarrow> as = [] \<Longrightarrow> n = hd_opt bs"
  by (cases bs) auto

lemma spath_drop: "spath h l n (as @ p # bs) \<Longrightarrow> spath h l (s_skip (h p) ! l) bs \<and> l < s_height (h p)"
  by (induction as arbitrary: n) auto

lemma spath_cong:
  "\<forall>a \<in> set as. s_height (h' a) = s_height (h a) \<and> s_skip (h' a) ! l = s_skip (h a) ! l \<Longrightarrow>
     spath h' l n as = spath h l n as"
  by (induction as arbitrary: n) auto

text \<open>Linking a node \<open>a\<close> after \<open>p\<close>, unlinking the node \<open>c\<close> after \<open>p\<close>, in one layer.\<close>

lemma spath_link:
  assumes "spath h l (s_skip (h p) ! l) (as @ bs)" "distinct (p # as @ bs)" "a \<notin> set (p # as @ bs)"
    and "l < s_height (h' a)" "s_skip (h' a) ! l = hd_opt bs"
    and "s_skip (h' (last (p # as))) ! l = Some a"
    and "\<forall>x \<in> set (p # as @ bs). s_height (h' x) = s_height (h x) \<and> (x \<noteq> last (p # as) \<longrightarrow> s_skip (h' x) ! l = s_skip (h x) ! l)"
  shows "spath h' l (s_skip (h' p) ! l) (as @ a # bs)"
  using assms
proof (induction as arbitrary: p)
  case Nil
  have "spath h' l (hd_opt bs) bs"
    using Nil.prems(1,2,7) spath_start [of h l "s_skip (h p) ! l" "[]" bs] by (subst spath_cong [of _ _ h]) auto
  then show ?case using Nil.prems by simp
next
  case (Cons x as)
  have "spath h' l (s_skip (h' x) ! l) (as @ a # bs)"
    using Cons.prems by (intro Cons.IH) (auto split: if_splits)
  moreover have "p \<noteq> last (x # as)" using Cons.prems(2) by (metis append_Cons distinct.simps(2) in_set_conv_decomp last_in_set list.distinct(1) Un_iff set_append)
  ultimately show ?case using Cons.prems by auto
qed

lemma spath_unlink:
  assumes "spath h l (s_skip (h p) ! l) (as @ c # bs)" "distinct (p # as @ c # bs)"
    and "s_skip (h' (last (p # as))) ! l = s_skip (h c) ! l"
    and "\<forall>x \<in> set (p # as @ bs). s_height (h' x) = s_height (h x) \<and> (x \<noteq> last (p # as) \<longrightarrow> s_skip (h' x) ! l = s_skip (h x) ! l)"
  shows "spath h' l (s_skip (h' p) ! l) (as @ bs)"
  using assms
proof (induction as arbitrary: p)
  case Nil
  have "spath h' l (s_skip (h c) ! l) bs"
    using Nil.prems(1,2,4) by (subst spath_cong [of _ _ h]) auto
  then show ?case using Nil.prems by simp
next
  case (Cons x as)
  have "spath h' l (s_skip (h' x) ! l) (as @ bs)"
    using Cons.prems by (intro Cons.IH) (auto split: if_splits)
  moreover have "p \<noteq> last (x # as)" using Cons.prems(2) by (metis append_Cons distinct.simps(2) in_set_conv_decomp last_in_set list.distinct(1) Un_iff set_append)
  ultimately show ?case using Cons.prems by auto
qed

section \<open>The search\<close>

lemma walk_right_eq:
  assumes "spath h l n (as @ bs)" "\<forall>a \<in> set as. s_data (h a) < dat" "\<forall>b \<in> set bs. dat \<le> s_data (h b)"
  shows "walk_right h dat l p n = Some (Inr (last (p # as), hd_opt bs))"
  using assms(1,2)
proof (induction as arbitrary: p n)
  case Nil
  then have "n = hd_opt bs" using spath_start by force
  moreover have "\<not> sl_greater dat h (hd_opt bs)"
    using assms(3) by (cases bs) (auto simp: sl_greater_def)
  ultimately show ?case by (simp add: walk_right.simps)
next
  case (Cons a as)
  then have "walk_right h dat l a (s_skip (h a) ! l) = Some (Inr (last (a # as), hd_opt bs))" by auto
  then show ?case using Cons.prems
    by (subst walk_right.simps) (simp add: sl_greater_def skip_def)
qed

text \<open>
  A list headed by \<open>p0\<close> with \<open>H\<close> layers whose nodes \<open>A\<close> are smaller than \<open>dat\<close> and whose nodes \<open>B\<close> are not:
  what a search for \<open>dat\<close> finds in each layer.
\<close>

definition pred_at :: "'a sheap \<Rightarrow> ptr \<Rightarrow> ptr list \<Rightarrow> nat \<Rightarrow> ptr" where
  "pred_at h p0 A l = last (p0 # layer h l A)"

definition succ_at :: "'a sheap \<Rightarrow> ptr list \<Rightarrow> nat \<Rightarrow> ptr option" where
  "succ_at h B l = hd_opt (layer h l B)"

definition found_layer :: "'a sheap \<Rightarrow> 'a \<Rightarrow> ptr list \<Rightarrow> int" where
  "found_layer h dat B = (case B of [] \<Rightarrow> - 1 | c # _ \<Rightarrow> if s_data (h c) = dat then int (s_height (h c)) - 1 else - 1)"

definition layered :: "'a::linorder sheap \<Rightarrow> ptr \<Rightarrow> nat \<Rightarrow> ptr list \<Rightarrow> bool" where
  "layered h p0 H xs \<longleftrightarrow>
     s_height (h p0) = H \<and> distinct (p0 # xs) \<and> sorted_wrt (<) (map (\<lambda>a. s_data (h a)) xs)
     \<and> (\<forall>a \<in> set xs. 0 < s_height (h a) \<and> s_height (h a) \<le> H)
     \<and> (\<forall>l < H. spath h l (s_skip (h p0) ! l) (layer h l xs))"

definition splits_at :: "'a::linorder sheap \<Rightarrow> 'a \<Rightarrow> ptr list \<Rightarrow> ptr list \<Rightarrow> bool" where
  "splits_at h dat A B \<longleftrightarrow> (\<forall>a \<in> set A. s_data (h a) < dat) \<and> (\<forall>b \<in> set B. dat \<le> s_data (h b))"

lemma split_exists:
  assumes "sorted_wrt (<) (map (\<lambda>a. s_data (h a)) xs)"
  obtains A B where "xs = A @ B" "splits_at h dat A B"
proof
  let ?P = "\<lambda>a. s_data (h a) < dat"
  show "xs = takeWhile ?P xs @ dropWhile ?P xs" by simp
  have "dat \<le> s_data (h b)" if "b \<in> set (dropWhile ?P xs)" for b
    using assms that by (induction xs) (fastforce split: if_splits)+
  then show "splits_at h dat (takeWhile ?P xs) (dropWhile ?P xs)"
    by (auto simp: splits_at_def dest: set_takeWhileD)
qed

lemma layeredD:
  assumes "layered h p0 H xs"
  shows "s_height (h p0) = H" "distinct (p0 # xs)" "sorted_wrt (<) (map (\<lambda>a. s_data (h a)) xs)"
    "a \<in> set xs \<Longrightarrow> 0 < s_height (h a)" "a \<in> set xs \<Longrightarrow> s_height (h a) \<le> H"
    "l < H \<Longrightarrow> spath h l (s_skip (h p0) ! l) (layer h l xs)"
  using assms by (auto simp: layered_def)

lemma beyond_first:
  assumes "layered h p0 H (A @ c # B)" "splits_at h dat A (c # B)" "b \<in> set B"
  shows "dat < s_data (h b)"
  using assms by (fastforce simp: layered_def splits_at_def sorted_wrt_append)

text \<open>From a node of the layer, the walk along the layer ends at the split.\<close>

lemma walk_layer:
  assumes lay: "layered h p0 H (A @ B)" and sp: "splits_at h dat A B" and l: "l < H"
    and p: "p \<in> set (p0 # layer h l A)"
  shows "skip h p l = Inr (s_skip (h p) ! l)"
    and "walk_right h dat l p (s_skip (h p) ! l) = Some (Inr (pred_at h p0 A l, succ_at h B l))"
proof -
  obtain pre post where s: "p0 # layer h l A = pre @ p # post" using p by (meson split_list)
  have "spath h l (s_skip (h p0) ! l) (layer h l A @ layer h l B)" using layeredD(6) [OF lay l] by simp
  then have path: "spath h l (s_skip (h p) ! l) (post @ layer h l B) \<and> l < s_height (h p)"
    using s l layeredD(1) [OF lay] spath_drop [of h l "s_skip (h p0) ! l" "tl pre" p "post @ layer h l B"]
    by (cases pre) auto
  then show "skip h p l = Inr (s_skip (h p) ! l)" by (simp add: skip_def)
  have "set post \<subseteq> set (layer h l A)" using s by (cases pre) auto
  then have "walk_right h dat l p (s_skip (h p) ! l) = Some (Inr (last (p # post), hd_opt (layer h l B)))"
    using path sp by (intro walk_right_eq) (auto simp: splits_at_def set_layer)
  moreover have "last (p # post) = pred_at h p0 A l"
    unfolding pred_at_def s by simp
  ultimately show "walk_right h dat l p (s_skip (h p) ! l) = Some (Inr (pred_at h p0 A l, succ_at h B l))"
    by (simp add: succ_at_def)
qed

lemma pred_at_in: "pred_at h p0 A l \<in> set (p0 # layer h l A)"
  unfolding pred_at_def by (rule last_in_set) simp

lemma pred_at_down: "pred_at h p0 A (Suc l) \<in> set (p0 # layer h l A)"
  using pred_at_in [of h p0 A "Suc l"] by (auto simp: set_layer)

lemma succ_less:
  assumes "layered h p0 H (A @ B)" "splits_at h dat A B"
  shows "sl_less dat h (succ_at h B l) \<longleftrightarrow> found_layer h dat B < int l"
proof (cases B)
  case (Cons c B')
  have "\<forall>b \<in> set (layer h l B'). dat < s_data (h b)"
    using beyond_first [of h p0 H A c B' dat] assms Cons by (auto simp: set_layer)
  moreover have "dat \<le> s_data (h c)" using assms(2) Cons by (simp add: splits_at_def)
  ultimately show ?thesis
    using Cons by (cases "layer h l B'") (auto simp: sl_less_def succ_at_def found_layer_def)
qed (simp add: sl_less_def succ_at_def found_layer_def)

lemma succ_found:
  assumes "int l \<le> found_layer h dat B"
  shows "succ_at h B l = hd_opt B"
  using assms by (cases B) (auto simp: succ_at_def found_layer_def split: if_splits)

text \<open>The loop over the layers below \<open>N\<close>, in which \<open>fl\<close> is the highest one that holds the value.\<close>

lemma insertion_loop_eq:
  assumes lay: "layered h p0 H (A @ B)" and sp: "splits_at h dat A B" and fl: "\<forall>l < N. fl < int l \<longleftrightarrow> found_layer h dat B < int l"
    and "N \<le> H"
  shows "n \<le> N \<Longrightarrow> n = 0 \<or> p \<in> set (p0 # layer h (n - 1) A) \<Longrightarrow>
    insertion_loop h dat n p (if int n \<le> fl then fl else - 1) (if int n \<le> fl then hd_opt B else None) preds succs =
    Inr (if 0 \<le> fl then fl else - 1,
      \<lambda>l. if l < n then Some (pred_at h p0 A l) else preds l, \<lambda>l. if l < n then succ_at h B l else succs l)"
proof (induction n arbitrary: p preds succs)
  case 0
  then show ?case by simp
next
  case (Suc n)
  have n: "n < H" "p \<in> set (p0 # layer h n A)" using Suc.prems \<open>N \<le> H\<close> by auto
  note w = walk_layer [OF lay sp n]
  have less: "sl_less dat h (succ_at h B n) \<longleftrightarrow> fl < int n" using succ_less [OF lay sp] fl Suc.prems(1) by simp
  have down: "n = 0 \<or> pred_at h p0 A n \<in> set (p0 # layer h (n - 1) A)"
    using pred_at_down [of h p0 A "n - 1"] by (cases n) auto
  have found: "succ_at h B n = hd_opt B" "hd_opt B \<noteq> None" if "int n \<le> fl"
  proof -
    have "int n \<le> found_layer h dat B" using that fl Suc.prems(1) by (meson Suc_le_lessD leD leI)
    then show "succ_at h B n = hd_opt B" "hd_opt B \<noteq> None"
      using succ_found [of n h dat B] by (auto simp: found_layer_def split: list.splits)
  qed
  have step: "insertion_loop h dat (Suc n) p (if int (Suc n) \<le> fl then fl else - 1)
      (if int (Suc n) \<le> fl then hd_opt B else None) preds succs =
    insertion_loop h dat n (pred_at h p0 A n) (if int n \<le> fl then fl else - 1)
      (if int n \<le> fl then hd_opt B else None) (preds(n := Some (pred_at h p0 A n))) (succs(n := succ_at h B n))"
  proof -
    consider (above) "int n < fl" | (here) "int n = fl" | (below) "fl < int n" by linarith
    then show ?thesis
      using w less found by cases (simp_all add: diverge_def Let_def)
  qed
  show ?case
    unfolding step using Suc.IH [of "pred_at h p0 A n"] Suc.prems(1) down by (auto simp: fun_eq_iff less_Suc_eq)
qed

lemma search_eq:
  assumes "layered (sl_heap L) (sl_head L) H (A @ B)" "splits_at (sl_heap L) dat A B" "0 < H"
  shows "findInsertionPointGetMaxLayer L dat = Inr (if 0 \<le> found_layer (sl_heap L) dat B then found_layer (sl_heap L) dat B else - 1,
    \<lambda>l. if l < H then Some (pred_at (sl_heap L) (sl_head L) A l) else None, \<lambda>l. if l < H then succ_at (sl_heap L) B l else None)"
proof -
  have "found_layer (sl_heap L) dat B < int H"
    using layeredD(5) [OF assms(1)] assms(3) by (fastforce simp: found_layer_def split: list.splits)
  then show ?thesis
    using insertion_loop_eq [OF assms(1,2), of H "found_layer (sl_heap L) dat B" H "sl_head L" "\<lambda>_. None" "\<lambda>_. None"] assms(3) layeredD(1) [OF assms(1)]
    by (simp add: findInsertionPointGetMaxLayer_def findInsertionPoint_def sl_height_def)
qed

section \<open>Locking the predecessors\<close>

lemma last_layer_split:
  assumes "layer h j A \<noteq> []"
  obtains A1 A2 where "A = A1 @ last (layer h j A) # A2" "layer h j A2 = []"
  using assms
proof (induction A arbitrary: thesis rule: rev_induct)
  case (snoc x A)
  show ?case
  proof (cases "j < s_height (h x)")
    case True
    then show ?thesis using snoc.prems(1) [of A "[]"] by simp
  next
    case False
    then have ne: "layer h j A \<noteq> []" using snoc.prems(2) by simp
    obtain A1 A2 where "A = A1 @ last (layer h j A) # A2" "layer h j A2 = []" using snoc.IH [OF _ ne] by blast
    then show ?thesis using snoc.prems(1) [of A1 "A2 @ [x]"] False by simp
  qed
qed simp

text \<open>The layers that have the same predecessor are consecutive, so that no lock is asked for twice.\<close>

lemma pred_at_convex:
  assumes d: "distinct (p0 # A)" and eq: "pred_at h p0 A j = pred_at h p0 A l" and "j \<le> m" "m \<le> l"
  shows "pred_at h p0 A m = pred_at h p0 A l"
proof (cases "layer h j A = []")
  case True
  then show ?thesis using layer_Nil_mono [OF True] assms(3,4) by (simp add: pred_at_def)
next
  case False
  let ?a = "last (layer h j A)"
  obtain A1 A2 where s: "A = A1 @ ?a # A2" "layer h j A2 = []" using last_layer_split [OF False] by blast
  have "?a \<noteq> p0" using d s(1) by (metis distinct.simps(2) in_set_conv_decomp)
  then have "layer h l A \<noteq> []" using eq False by (auto simp: pred_at_def)
  then have "?a \<in> set (layer h l A)" using eq False last_in_set by (fastforce simp: pred_at_def)
  then have "m < s_height (h ?a)" using assms(4) by (simp add: set_layer)
  then have "layer h m A = layer h m A1 @ [?a]"
    using s layer_Nil_mono [OF s(2) assms(3)] by (metis append.right_neutral layer_simps(2,3))
  then have "pred_at h p0 A m = ?a" by (simp add: pred_at_def)
  then show ?thesis using eq False by (simp add: pred_at_def)
qed

definition lockset :: "ptr set \<Rightarrow> 'a sheap \<Rightarrow> 'a sheap" where
  "lockset S h = (\<lambda>a. if a \<in> S then (h a)\<lparr>s_lock := True\<rparr> else h a)"

lemma lockset_sel [simp]:
  "s_height (lockset S h a) = s_height (h a)" "s_skip (lockset S h a) = s_skip (h a)"
  "s_flags (lockset S h a) = s_flags (h a)" "s_data (lockset S h a) = s_data (h a)"
  "s_lock (lockset S h a) \<longleftrightarrow> a \<in> S \<or> s_lock (h a)" "markedForRemoval (lockset S h a) = markedForRemoval (h a)"
  "lockset {} h = h"
  by (simp_all add: lockset_def markedForRemoval_def)

definition locks_at :: "(nat \<Rightarrow> ptr) \<Rightarrow> nat \<Rightarrow> nat \<Rightarrow> bool" where
  "locks_at P n l \<longleftrightarrow> l < n \<and> (l = 0 \<or> P l \<noteq> P (l - 1))"

lemma locks_at_image: "{P l | l. locks_at P n l} = P ` {..<n}"
proof
  have "l < n \<Longrightarrow> P l \<in> {P l | l. locks_at P n l}" for l
  proof (induction l)
    case (Suc l)
    then show ?case by (cases "P (Suc l) = P l") (auto simp: locks_at_def)
  qed (auto simp: locks_at_def)
  then show "P ` {..<n} \<subseteq> {P l | l. locks_at P n l}" by auto
qed (auto simp: locks_at_def)

lemma lock_loop_eq:
  assumes conv: "\<forall>j m l. j \<le> m \<longrightarrow> m \<le> l \<longrightarrow> l < n \<longrightarrow> P j = P l \<longrightarrow> P m = P l"
    and ok: "\<forall>l < n. preds l = Some (P l) \<and> l < s_height (h (P l)) \<and> s_skip (h (P l)) ! l = succs l
      \<and> \<not> s_lock (h (P l)) \<and> \<not> markedForRemoval (h (P l)) \<and> (\<forall>b. succs l = Some b \<longrightarrow> adding \<longrightarrow> \<not> markedForRemoval (h b))"
    and "j \<le> n"
  shows "lock_loop [j..<n] preds succs adding (if j = 0 then None else Some (P (j - 1))) (locks_at P j) (lockset (P ` {..<j}) h) =
    Inr (True, locks_at P n, lockset (P ` {..<n}) h)"
  using \<open>j \<le> n\<close>
proof (induction "n - j" arbitrary: j)
  case 0
  then show ?case by simp
next
  case (Suc k)
  then have j: "j < n" by simp
  note IH = Suc.hyps(1) [of "Suc j"]
  have upt: "[j..<n] = j # [Suc j..<n]" using j by (simp add: upt_conv_Cons)
  have valid: "(if adding then s_skip (h (P j)) ! j = succs j \<and> (case succs j of None \<Rightarrow> True | Some b \<Rightarrow> \<not> markedForRemoval (h b))
      else s_skip (h (P j)) ! j = succs j)"
    using ok j by (simp split: option.splits)
  have ih: "lock_loop [Suc j..<n] preds succs adding (Some (P j)) (locks_at P (Suc j)) (lockset (P ` {..<Suc j}) h) =
      Inr (True, locks_at P n, lockset (P ` {..<n}) h)"
    using IH Suc by simp
  show ?case
  proof (cases "j \<noteq> 0 \<and> P j = P (j - 1)")
    case True
    then have "locks_at P (Suc j) = locks_at P j" "P ` {..<Suc j} = P ` {..<j}"
      by (auto simp: locks_at_def fun_eq_iff less_Suc_eq lessThan_Suc image_iff intro!: bexI [of _ "j - 1"])
    then show ?thesis using ih valid ok j True unfolding upt by (auto simp: skip_def Let_def split: if_splits option.splits)
  next
    case False
    have "P j \<noteq> P i" if "i < j" for i
    proof
      assume "P j = P i"
      moreover have "i \<le> j - 1" "j - 1 \<le> j" using that by simp_all
      ultimately have "P (j - 1) = P j" using conv j by metis
      then show False using that False by simp
    qed
    then have fresh: "P j \<notin> P ` {..<j}" by auto
    have "(locks_at P j)(j := True) = locks_at P (Suc j)"
      using False by (auto simp: locks_at_def fun_eq_iff less_Suc_eq)
    moreover have "(lockset (P ` {..<j}) h)(P j := (lockset (P ` {..<j}) h (P j))\<lparr>s_lock := True\<rparr>) = lockset (P ` {..<Suc j}) h"
      using fresh by (auto simp: lockset_def lessThan_Suc fun_eq_iff)
    moreover have "Some (P j) \<noteq> (if j = 0 then None else Some (P (j - 1)))" using False by auto
    ultimately show ?thesis
      using ih valid ok j fresh unfolding upt
      by (auto simp: acquireGuard_def skip_def Let_def split: if_splits option.splits)
  qed
qed

lemma lockNodes_eq:
  assumes "distinct (p0 # A)" "n \<le> H"
    and "\<forall>l < n. l < s_height (h (pred_at h p0 A l)) \<and> s_skip (h (pred_at h p0 A l)) ! l = succs l
      \<and> \<not> s_lock (h (pred_at h p0 A l)) \<and> \<not> markedForRemoval (h (pred_at h p0 A l))
      \<and> (\<forall>b. succs l = Some b \<longrightarrow> adding \<longrightarrow> \<not> markedForRemoval (h b))"
  shows "lockNodesForChange n (\<lambda>l. if l < H then Some (pred_at h p0 A l) else None) succs adding h =
    Inr (True, locks_at (pred_at h p0 A) n, lockset (pred_at h p0 A ` {..<n}) h)"
proof -
  have "locks_at (pred_at h p0 A) 0 = (\<lambda>_. False)" by (simp add: locks_at_def fun_eq_iff)
  then show ?thesis
    using lock_loop_eq [of n "pred_at h p0 A" "\<lambda>l. if l < H then Some (pred_at h p0 A l) else None" h succs adding 0]
      pred_at_convex [OF assms(1)] assms(2,3) unfolding lockNodesForChange_def by auto
qed

lemma release_guards_eq:
  "release_guards is guards preds h =
     (\<lambda>a. if \<exists>i \<in> set is. guards i \<and> preds i = Some a then (h a)\<lparr>s_lock := False\<rparr> else h a)"
proof (induction "is" arbitrary: h)
  case (Cons i "is")
  show ?case
    unfolding release_guards.simps Cons.IH by (auto simp: releaseGuard_def fun_eq_iff split: option.splits)
qed simp

lemma release_locks:
  assumes "n \<le> H" "H \<le> M"
  shows "release_guards [0..<M] (locks_at P n) (\<lambda>l. if l < H then Some (P l) else None) h =
    (\<lambda>a. if a \<in> P ` {..<n} then (h a)\<lparr>s_lock := False\<rparr> else h a)"
proof -
  have "(\<exists>i \<in> set [0..<M]. locks_at P n i \<and> (if i < H then Some (P i) else None) = Some a) \<longleftrightarrow> a \<in> {P l | l. locks_at P n l}" for a
    using assms by (fastforce simp: locks_at_def)
  then show ?thesis unfolding release_guards_eq locks_at_image by simp
qed

section \<open>Linking and unlinking\<close>

text \<open>The heap in which the pointers of the layers \<open>K\<close> are as \<open>F\<close> says, where it says anything.\<close>

definition edit :: "nat set \<Rightarrow> (nat \<Rightarrow> ptr \<Rightarrow> ptr option option) \<Rightarrow> 'a sheap \<Rightarrow> 'a sheap" where
  "edit K F h = (\<lambda>x. (h x)\<lparr>s_skip :=
     map (\<lambda>l. case F l x of Some v \<Rightarrow> if l \<in> K then v else s_skip (h x) ! l | None \<Rightarrow> s_skip (h x) ! l)
       [0..<length (s_skip (h x))]\<rparr>)"

lemma edit_sel [simp]:
  "s_height (edit K F h x) = s_height (h x)" "s_flags (edit K F h x) = s_flags (h x)" "s_lock (edit K F h x) = s_lock (h x)"
  "s_data (edit K F h x) = s_data (h x)" "length (s_skip (edit K F h x)) = length (s_skip (h x))"
  by (simp_all add: edit_def)

lemma edit_nth [simp]:
  "l < length (s_skip (h x)) \<Longrightarrow>
     s_skip (edit K F h x) ! l = (case F l x of Some v \<Rightarrow> if l \<in> K then v else s_skip (h x) ! l | None \<Rightarrow> s_skip (h x) ! l)"
  by (simp add: edit_def split: option.splits)

lemma edit_empty [simp]: "edit {} F h = h"
proof -
  have "edit {} F h x = h x" for x
    by (cases "h x") (auto simp: edit_def map_nth intro!: nth_equalityI split: option.splits)
  then show ?thesis by (simp add: fun_eq_iff)
qed

lemma snode_eqI:
  assumes "s_flags n = s_flags m" "s_height n = s_height m" "s_lock n = s_lock m" "s_data n = s_data m" "s_skip n = s_skip m"
  shows "n = (m :: 'a snode)"
  using assms by (cases n; cases m) simp

lemma edit_untouched: "\<forall>l \<in> K. F l x = None \<Longrightarrow> edit K F h x = h x"
  by (rule snode_eqI) (auto intro!: nth_equalityI split: option.splits)

lemma setSkip_edit:
  assumes "k < s_height (h a)" "length (s_skip (h a)) = s_height (h a)"
  shows "setSkip a k v (edit K F h) =
    Inr ((edit K F h)(a := (edit K F h a)\<lparr>s_skip := (s_skip (edit K F h a))[k := v]\<rparr>))"
  using assms by (simp add: setSkip_def)

definition link_edit :: "ptr \<Rightarrow> (nat \<Rightarrow> ptr) \<Rightarrow> (nat \<Rightarrow> ptr option) \<Rightarrow> nat \<Rightarrow> ptr \<Rightarrow> ptr option option" where
  "link_edit a P S l x = (if x = a then Some (S l) else if x = P l then Some (Some a) else None)"

definition unlink_edit :: "(nat \<Rightarrow> ptr) \<Rightarrow> (nat \<Rightarrow> ptr option) \<Rightarrow> nat \<Rightarrow> ptr \<Rightarrow> ptr option option" where
  "unlink_edit P S l x = (if x = P l then Some (S l) else None)"

lemma link_loop_eq:
  assumes "\<forall>k \<in> set ks. preds k = Some (P k) \<and> P k \<noteq> a \<and> k < s_height (h a) \<and> k < s_height (h (P k))
      \<and> length (s_skip (h (P k))) = s_height (h (P k))" and len: "length (s_skip (h a)) = s_height (h a)"
  shows "link_loop ks a preds S (edit K (link_edit a P S) h) = Inr (edit (K \<union> set ks) (link_edit a P S) h)"
  using assms(1)
proof (induction ks arbitrary: K)
  case (Cons k ks)
  let ?F = "link_edit a P S"
  let ?h1 = "(edit K ?F h)(a := (edit K ?F h a)\<lparr>s_skip := (s_skip (edit K ?F h a))[k := S k]\<rparr>)"
  let ?h2 = "?h1(P k := (?h1 (P k))\<lparr>s_skip := (s_skip (?h1 (P k)))[k := Some a]\<rparr>)"
  have k: "preds k = Some (P k)" "P k \<noteq> a" "k < s_height (h a)" "k < s_height (h (P k))"
    "length (s_skip (h (P k))) = s_height (h (P k))" using Cons.prems by auto
  have "?h2 x = edit (insert k K) ?F h x" for x
    using k len by (intro snode_eqI) (auto intro!: nth_equalityI simp: link_edit_def nth_list_update split: option.splits)
  then have "?h2 = edit (insert k K) ?F h" by (simp add: fun_eq_iff)
  then show ?case
    using Cons k len by (simp add: setSkip_edit) (simp add: setSkip_def)
qed simp

lemma unlink_loop_eq:
  assumes "\<forall>k \<in> set ks. preds k = Some (P k) \<and> k < s_height (h c) \<and> k < s_height (h (P k))
      \<and> length (s_skip (h (P k))) = s_height (h (P k)) \<and> S k = s_skip (h c) ! k" and c: "\<forall>k. P k \<noteq> c"
  shows "unlink_loop ks c preds (edit K (unlink_edit P S) h) = Inr (edit (K \<union> set ks) (unlink_edit P S) h)"
  using assms(1)
proof (induction ks arbitrary: K)
  case (Cons k ks)
  let ?F = "unlink_edit P S"
  let ?h2 = "(edit K ?F h)(P k := (edit K ?F h (P k))\<lparr>s_skip := (s_skip (edit K ?F h (P k)))[k := S k]\<rparr>)"
  have k: "preds k = Some (P k)" "k < s_height (h c)" "k < s_height (h (P k))"
    "length (s_skip (h (P k))) = s_height (h (P k))" "S k = s_skip (h c) ! k" using Cons.prems by auto
  have "edit K ?F h c = h c" using c by (intro edit_untouched) (metis unlink_edit_def)
  then have sk: "skip (edit K ?F h) c k = Inr (S k)" using k by (simp add: skip_def)
  have "?h2 x = edit (insert k K) ?F h x" for x
    using k by (intro snode_eqI) (auto intro!: nth_equalityI simp: unlink_edit_def nth_list_update split: option.splits)
  then have "?h2 = edit (insert k K) ?F h" by (simp add: fun_eq_iff)
  then show ?case using Cons k sk by (simp add: setSkip_edit)
qed simp

end
