(* ===== verification/Hcl_Skip_Set.thy ===== *)
theory Hcl_Skip_Set
  imports Hcl_Skip_Layers
begin

text \<open>
  The skip list is a sorted set: its invariant, what each operation does to the list of its values, and
  the properties of the component.
\<close>

section \<open>Layers after a change\<close>

lemma layer_cong: "\<forall>x \<in> set xs. s_height (h' x) = s_height (h x) \<Longrightarrow> layer h' l xs = layer h l xs"
  by (simp add: layer_def cong: filter_cong)

lemma in_layer_height:
  assumes "layered h p0 H xs" "l < H" "x \<in> set (p0 # layer h l ys)"
  shows "l < s_height (h x)"
  using assms layeredD(1) [OF assms(1)] by (auto simp: set_layer)

lemma insert_layered:
  assumes lay: "layered h p0 H (A @ B)" and a: "a \<notin> set (p0 # A @ B)"
    and sp: "\<forall>x \<in> set A. s_data (h x) < dat" "\<forall>x \<in> set B. dat < s_data (h x)"
    and same: "\<forall>x \<in> set (p0 # A @ B). s_height (h' x) = s_height (h x) \<and> s_data (h' x) = s_data (h x)
      \<and> (\<forall>l < s_height (h x). s_skip (h' x) ! l = (if l < n \<and> x = pred_at h p0 A l then Some a else s_skip (h x) ! l))"
    and new: "s_height (h' a) = n" "s_data (h' a) = dat" "\<forall>l < n. s_skip (h' a) ! l = succ_at h B l" and n: "0 < n" "n \<le> H"
  shows "layered h' p0 H (A @ a # B)"
proof -
  have hts: "\<forall>x \<in> set (p0 # A @ B). s_height (h' x) = s_height (h x)" using same by blast
  have "spath h' l (s_skip (h' p0) ! l) (layer h' l (A @ a # B))" if l: "l < H" for l
  proof -
    let ?A = "layer h l A" and ?B = "layer h l B"
    have lays: "layer h' l A = ?A" "layer h' l B = ?B" using hts by (auto intro: layer_cong)
    have path: "spath h l (s_skip (h p0) ! l) (?A @ ?B)" using layeredD(6) [OF lay l] by simp
    have dist: "distinct (p0 # ?A @ ?B)" using layeredD(2) [OF lay] by (auto simp: layer_def)
    have sub: "set (p0 # ?A @ ?B) \<subseteq> set (p0 # A @ B)" by (auto simp: set_layer)
    have inl: "l < s_height (h x)" if "x \<in> set (p0 # ?A @ ?B)" for x
      using that l layeredD(1) [OF lay] by (auto simp: set_layer)
    have p: "pred_at h p0 A l \<in> set (p0 # ?A)" by (rule pred_at_in)
    show ?thesis
    proof (cases "l < n")
      case True
      have sk: "s_skip (h' x) ! l = (if x = pred_at h p0 A l then Some a else s_skip (h x) ! l)" "s_height (h' x) = s_height (h x)"
        if "x \<in> set (p0 # ?A @ ?B)" for x
        using bspec [OF same subsetD [OF sub that]] inl [OF that] True by auto
      have "spath h' l (s_skip (h' p0) ! l) (?A @ a # ?B)"
      proof (rule spath_link [OF path dist])
        show "a \<notin> set (p0 # ?A @ ?B)" using a sub by auto
        show "l < s_height (h' a)" "s_skip (h' a) ! l = hd_opt ?B" using new True by (simp_all add: succ_at_def)
        show "s_skip (h' (last (p0 # ?A))) ! l = Some a" using sk [of "pred_at h p0 A l"] p by (auto simp: pred_at_def)
        show "\<forall>x \<in> set (p0 # ?A @ ?B). s_height (h' x) = s_height (h x)
            \<and> (x \<noteq> last (p0 # ?A) \<longrightarrow> s_skip (h' x) ! l = s_skip (h x) ! l)"
          using sk unfolding pred_at_def by metis
      qed
      then show ?thesis using lays new True by simp
    next
      case False
      have "s_height (h' x) = s_height (h x) \<and> s_skip (h' x) ! l = s_skip (h x) ! l" if "x \<in> set (p0 # ?A @ ?B)" for x
        using bspec [OF same subsetD [OF sub that]] inl [OF that] False by auto
      then show ?thesis using path lays new False spath_cong [of "?A @ ?B" h' h l] by simp
    qed
  qed
  moreover have "sorted_wrt (<) (map (\<lambda>x. s_data (h' x)) (A @ a # B))"
  proof -
    have eq: "map (\<lambda>x. s_data (h' x)) A = map (\<lambda>x. s_data (h x)) A" "map (\<lambda>x. s_data (h' x)) B = map (\<lambda>x. s_data (h x)) B"
      using same by auto
    have "sorted_wrt (<) (map (\<lambda>x. s_data (h x)) A @ dat # map (\<lambda>x. s_data (h x)) B)"
      using layeredD(3) [OF lay] sp by (auto simp: sorted_wrt_append)
    then show ?thesis by (simp only: map_append list.map eq new(2))
  qed
  ultimately show ?thesis
    using layeredD(1,2,4,5) [OF lay] hts new(1) n a unfolding layered_def by auto
qed

lemma remove_layered:
  assumes lay: "layered h p0 H (A @ c # B)"
    and same: "\<forall>x \<in> set (p0 # A @ B). s_height (h' x) = s_height (h x) \<and> s_data (h' x) = s_data (h x)
      \<and> (\<forall>l < s_height (h x). s_skip (h' x) ! l =
           (if l < s_height (h c) \<and> x = pred_at h p0 A l then s_skip (h c) ! l else s_skip (h x) ! l))"
  shows "layered h' p0 H (A @ B)"
proof -
  have hts: "\<forall>x \<in> set (p0 # A @ B). s_height (h' x) = s_height (h x)" using same by blast
  have "spath h' l (s_skip (h' p0) ! l) (layer h' l (A @ B))" if l: "l < H" for l
  proof -
    let ?A = "layer h l A" and ?B = "layer h l B"
    have lays: "layer h' l A = ?A" "layer h' l B = ?B" using hts by (auto intro: layer_cong)
    have sub: "set (p0 # ?A @ ?B) \<subseteq> set (p0 # A @ B)" by (auto simp: set_layer)
    have inl: "l < s_height (h x)" if "x \<in> set (p0 # ?A @ ?B)" for x
      using that l layeredD(1) [OF lay] by (auto simp: set_layer)
    have p: "pred_at h p0 A l \<in> set (p0 # ?A)" by (rule pred_at_in)
    show ?thesis
    proof (cases "l < s_height (h c)")
      case True
      have path: "spath h l (s_skip (h p0) ! l) (?A @ c # ?B)" using layeredD(6) [OF lay l] True by simp
      have dist: "distinct (p0 # ?A @ c # ?B)" using layeredD(2) [OF lay] by (auto simp: layer_def)
      have sk: "s_skip (h' x) ! l = (if x = pred_at h p0 A l then s_skip (h c) ! l else s_skip (h x) ! l)"
        "s_height (h' x) = s_height (h x)" if "x \<in> set (p0 # ?A @ ?B)" for x
        using bspec [OF same subsetD [OF sub that]] inl [OF that] True by auto
      have "spath h' l (s_skip (h' p0) ! l) (?A @ ?B)"
      proof (rule spath_unlink [OF path dist])
        show "s_skip (h' (last (p0 # ?A))) ! l = s_skip (h c) ! l" using sk [of "pred_at h p0 A l"] p by (auto simp: pred_at_def)
        show "\<forall>x \<in> set (p0 # ?A @ ?B). s_height (h' x) = s_height (h x)
            \<and> (x \<noteq> last (p0 # ?A) \<longrightarrow> s_skip (h' x) ! l = s_skip (h x) ! l)"
          using sk unfolding pred_at_def by metis
      qed
      then show ?thesis using lays by simp
    next
      case False
      have "spath h l (s_skip (h p0) ! l) (?A @ ?B)" using layeredD(6) [OF lay l] False by simp
      moreover have "s_height (h' x) = s_height (h x) \<and> s_skip (h' x) ! l = s_skip (h x) ! l" if "x \<in> set (p0 # ?A @ ?B)" for x
        using bspec [OF same subsetD [OF sub that]] inl [OF that] False by auto
      ultimately show ?thesis using lays spath_cong [of "?A @ ?B" h' h l] by simp
    qed
  qed
  moreover have "sorted_wrt (<) (map (\<lambda>x. s_data (h' x)) (A @ B))"
  proof -
    have "map (\<lambda>x. s_data (h' x)) (A @ B) = map (\<lambda>x. s_data (h x)) (A @ B)" using same by auto
    moreover have "sorted_wrt (<) (map (\<lambda>x. s_data (h x)) (A @ B))"
      using layeredD(3) [OF lay] by (auto simp: sorted_wrt_append)
    ultimately show ?thesis by (simp only:)
  qed
  ultimately show ?thesis
    using layeredD(1,2,4,5) [OF lay] hts unfolding layered_def by auto
qed

section \<open>What the recycler holds\<close>

text \<open>
  Queue \<open>k\<close> holds nodes of height \<open>k\<close> that are not locked; those higher than the list has ever been
  (\<open>H\<close> layers) have never been linked.
\<close>

definition waiting :: "('q \<Rightarrow> ptr list) \<Rightarrow> 'q recycler \<Rightarrow> ptr set" where
  "waiting elems R = (\<Union>k. set (elems (rc_queues R k)))"

definition idle_node :: "nat \<Rightarrow> nat \<Rightarrow> 'a snode \<Rightarrow> bool" where
  "idle_node H k n \<longleftrightarrow> s_height n = k \<and> length (s_skip n) = k \<and> \<not> s_lock n \<and> (H < k \<longrightarrow> s_skip n = replicate k None)"

definition rc_ok :: "('q \<Rightarrow> ptr list) \<Rightarrow> 'a sheap \<Rightarrow> nat \<Rightarrow> 'q recycler \<Rightarrow> bool" where
  "rc_ok elems h H R \<longleftrightarrow> 0 \<le> rc_refs R \<and>
     (\<forall>k. distinct (elems (rc_queues R k)) \<and> (\<forall>a \<in> set (elems (rc_queues R k)). a < rc_brk R \<and> idle_node H k (h a)))"

lemma rc_okD:
  assumes "rc_ok elems h H R"
  shows "0 \<le> rc_refs R" "distinct (elems (rc_queues R k))"
    "a \<in> set (elems (rc_queues R k)) \<Longrightarrow> a < rc_brk R" "a \<in> set (elems (rc_queues R k)) \<Longrightarrow> idle_node H k (h a)"
  using assms by (auto simp: rc_ok_def)

lemma rc_ok_frame:
  assumes "rc_ok elems h H R" "\<forall>a \<in> waiting elems R. h' a = h a" "H \<le> H'"
  shows "rc_ok elems h' H' R"
  using assms unfolding rc_ok_def waiting_def idle_node_def by (metis (no_types, lifting) UN_I UNIV_I order_le_less_trans)

lemma waiting_bound: "rc_ok elems h H R \<Longrightarrow> a \<in> waiting elems R \<Longrightarrow> a < rc_brk R"
  by (auto simp: rc_ok_def waiting_def)

definition fresh_node :: "'a \<Rightarrow> nat \<Rightarrow> 'a snode" where
  "fresh_node d k = \<lparr>s_flags = 0, s_height = k, s_lock = False, s_data = d, s_skip = replicate k None\<rparr>"

lemma waiting_split:
  "waiting elems R = (\<Union>j \<in> - {k}. set (elems (rc_queues R j))) \<union> set (elems (rc_queues R k))"
  unfolding waiting_def by auto

lemma waiting_update:
  "waiting elems (R\<lparr>rc_queues := (rc_queues R)(k := q)\<rparr>) = (\<Union>j \<in> - {k}. set (elems (rc_queues R j))) \<union> set (elems q)"
  unfolding waiting_split [of elems "R\<lparr>rc_queues := (rc_queues R)(k := q)\<rparr>" k] by auto

text \<open>A node \<open>a\<close> of height \<open>k\<close> was taken out: the nodes in use are as they were, and \<open>a\<close> is none of them.\<close>

definition taken ::
  "('q \<Rightarrow> ptr list) \<Rightarrow> nat \<Rightarrow> nat \<Rightarrow> 'a sheap \<Rightarrow> 'q recycler \<Rightarrow> ptr \<Rightarrow> 'a sheap \<Rightarrow> 'q recycler \<Rightarrow> bool" where
  "taken elems H k h R a h' R' \<longleftrightarrow> rc_ok elems h' H R' \<and> a \<notin> waiting elems R' \<and> a < rc_brk R' \<and> rc_refs R' = rc_refs R
     \<and> idle_node H k (h' a)
     \<and> (\<forall>x. x < rc_brk R \<longrightarrow> x \<notin> waiting elems R \<longrightarrow> x \<noteq> a \<and> x < rc_brk R' \<and> x \<notin> waiting elems R' \<and> h' x = h x)"

lemma takenD:
  assumes "taken elems H k h R a h' R'"
  shows "rc_ok elems h' H R'" "a \<notin> waiting elems R'" "a < rc_brk R'" "rc_refs R' = rc_refs R" "idle_node H k (h' a)"
    "x < rc_brk R \<Longrightarrow> x \<notin> waiting elems R \<Longrightarrow> x \<noteq> a \<and> x < rc_brk R' \<and> x \<notin> waiting elems R' \<and> h' x = h x"
  using assms by (auto simp: taken_def)

locale skip_nodes = reliable_queue "si_ops I" elems
  for I :: "('a::linorder, 'q) sl_inst" and elems :: "'q \<Rightarrow> ptr list" +
  assumes max_height: "2 \<le> si_max I" "si_max I < 64"
begin

lemma create_nodes_eq:
  assumes "1 \<le> k" "k < 64"
  shows "\<exists>q'. create_nodes I k as h q = Inr (\<lambda>x. if x \<in> set as then fresh_node (si_default I) k else h x, q') \<and> elems q' = elems q @ as"
proof (induction "as" arbitrary: h q)
  case (Cons a as)
  define h1 where "h1 = h(a := fresh_node (si_default I) k)"
  obtain q' where q': "create_nodes I k as h1 (snd (lf_push (si_ops I) a q)) =
      Inr (\<lambda>x. if x \<in> set as then fresh_node (si_default I) k else h1 x, q')" "elems q' = elems q @ a # as"
    using Cons.IH [of h1 "snd (lf_push (si_ops I) a q)"] by auto
  have "create_nodes I k (a # as) h q = create_nodes I k as h1 (snd (lf_push (si_ops I) a q))"
    using assms by (simp add: SkipListNode_create_def fresh_node_def h1_def)
  moreover have "(\<lambda>x. if x \<in> set as then fresh_node (si_default I) k else h1 x) =
      (\<lambda>x. if x \<in> set (a # as) then fresh_node (si_default I) k else h x)" by (auto simp: h1_def)
  ultimately show ?case using q' by auto
qed simp

lemma rc_take_queue:
  assumes ok: "rc_ok elems h H R" and q: "elems (rc_queues R k) = a # elems q" "R' = R\<lparr>rc_queues := (rc_queues R)(k := q)\<rparr>"
  shows "rc_ok elems h H R'" "a \<notin> waiting elems R'" "a < rc_brk R" "idle_node H k (h a)"
    "insert a (waiting elems R') = waiting elems R"
proof -
  show "rc_ok elems h H R'" using ok q by (auto simp: rc_ok_def split: if_splits) (metis distinct.simps(2) list.set_intros(2))+
  have here: "a \<in> set (elems (rc_queues R k))" using q by simp
  show "a < rc_brk R" "idle_node H k (h a)" using rc_okD(3,4) [OF ok here] .
  have "a \<notin> set (elems (rc_queues R j))" if "j \<noteq> k" for j
    using rc_okD(4) [OF ok here] rc_okD(4) [OF ok, of a j] that by (auto simp: idle_node_def)
  moreover have "a \<notin> set (elems q)" using rc_okD(2) [OF ok, of k] q by simp
  ultimately show "a \<notin> waiting elems R'" unfolding q(2) waiting_update by auto
  show "insert a (waiting elems R') = waiting elems R"
    unfolding q(2) waiting_update waiting_split [of elems R k] q(1) by auto
qed

lemma recycler_take_eq:
  assumes ok: "rc_ok elems h H R" and k: "1 \<le> k" "k < 64"
  shows "\<exists>a h' R'. recycler_take I k h R = Some (Inr (a, h', R')) \<and> rc_ok elems h' H R' \<and> a \<notin> waiting elems R'
    \<and> a < rc_brk R' \<and> rc_brk R \<le> rc_brk R' \<and> insert a (waiting elems R') \<subseteq> waiting elems R \<union> {rc_brk R..<rc_brk R'}
    \<and> rc_refs R' = rc_refs R \<and> idle_node H k (h' a) \<and> (\<forall>x. x < rc_brk R \<longrightarrow> h' x = h x)"
proof (cases "rc_queues R k" rule: popE)
  case (2 a q)
  note t = rc_take_queue [OF ok 2(1) refl]
  show ?thesis using 2(2) t by (auto simp: recycler_take.simps)
next
  case (1 q0)
  let ?as = "[rc_brk R..<rc_brk R + rc_chunk]"
  obtain q1 where q1: "create_nodes I k ?as h q0 = Inr (\<lambda>x. if x \<in> set ?as then fresh_node (si_default I) k else h x, q1)" "elems q1 = ?as"
    using create_nodes_eq [OF k, of ?as h q0] 1(3) by auto
  let ?h = "\<lambda>x. if x \<in> set ?as then fresh_node (si_default I) k else h x"
  have "elems q1 \<noteq> []" using q1(2) by (simp add: upt_conv_Cons)
  then obtain a q where q: "elems q1 = a # elems q" "lf_pop (si_ops I) q1 = (Some a, q)"
    by (cases q1 rule: popE) auto
  let ?R = "R\<lparr>rc_queues := (rc_queues R)(k := q1), rc_brk := rc_brk R + rc_chunk\<rparr>"
  have "idle_node H k (fresh_node (si_default I) k)" by (simp add: idle_node_def fresh_node_def)
  then have ok1: "rc_ok elems ?h H ?R"
    using ok q1(2) by (fastforce simp: rc_ok_def)
  have w: "waiting elems ?R \<subseteq> waiting elems R \<union> set ?as"
    using q1(2) by (auto simp: waiting_def split: if_splits)
  note t = rc_take_queue [OF ok1, of k a q "?R\<lparr>rc_queues := (rc_queues ?R)(k := q)\<rparr>"]
  have "recycler_take I k h R = Some (Inr (a, ?h, R\<lparr>rc_queues := (rc_queues R)(k := q), rc_brk := rc_brk R + rc_chunk\<rparr>))"
    using 1(2) q1(1) q(2) by (simp add: recycler_take.simps)
  moreover have "R\<lparr>rc_queues := (rc_queues R)(k := q), rc_brk := rc_brk R + rc_chunk\<rparr> = ?R\<lparr>rc_queues := (rc_queues ?R)(k := q)\<rparr>"
    by simp
  ultimately show ?thesis using t q(1) w by (auto simp del: upt_Suc)
qed

lemma recycler_pop_eq:
  assumes ok: "rc_ok elems h H R" and k: "1 \<le> k" "k < 64"
  shows "\<exists>a h' R'. recycler_pop I k b h R = Inr (a, h', R') \<and> taken elems H k h R a h' R' \<and> s_flags (h' a) = (if b then IS_HEAD_NODE else 0)"
proof -
  obtain a h1 R1 where t: "recycler_take I k h R = Some (Inr (a, h1, R1))" "rc_ok elems h1 H R1" "a \<notin> waiting elems R1"
      "a < rc_brk R1" "rc_brk R \<le> rc_brk R1" "insert a (waiting elems R1) \<subseteq> waiting elems R \<union> {rc_brk R..<rc_brk R1}"
      "rc_refs R1 = rc_refs R" "idle_node H k (h1 a)" "\<forall>x. x < rc_brk R \<longrightarrow> h1 x = h x"
    using recycler_take_eq [OF ok k] by clarify
  let ?h = "h1(a := (h1 a)\<lparr>s_flags := (if b then 0 OR IS_HEAD_NODE else 0)\<rparr>)" and ?R = "R1\<lparr>rc_dirty := True\<rparr>"
  have w: "waiting elems ?R = waiting elems R1" by (simp add: waiting_def)
  have "rc_ok elems ?h H R1" using t(3) by (intro rc_ok_frame [OF t(2)]) auto
  then have "rc_ok elems ?h H ?R" by (simp add: rc_ok_def)
  moreover have "recycler_pop I k b h R = Inr (a, ?h, ?R)"
    using t(1) k rc_okD(1) [OF t(2)] by (simp add: recycler_pop_def diverge_def)
  moreover have "x \<noteq> a \<and> x < rc_brk R1 \<and> x \<notin> waiting elems R1 \<and> ?h x = h x" if "x < rc_brk R" "x \<notin> waiting elems R" for x
    using that t(5,6,9) by auto
  ultimately show ?thesis
    using t(3,4,7-9) w by (intro exI [of _ a] exI [of _ ?h] exI [of _ ?R]) (simp add: idle_node_def taken_def)
qed

lemma recycler_push_eq:
  assumes ok: "rc_ok elems h H R" and refs: "0 < rc_refs R" and k: "k < 64"
    and a: "a \<notin> waiting elems R" "a < rc_brk R" "idle_node H k (h a)"
  shows "\<exists>R'. recycler_push I k a R = Inr R' \<and> rc_ok elems h H R' \<and> waiting elems R' = insert a (waiting elems R)
    \<and> rc_refs R' = rc_refs R \<and> rc_brk R' = rc_brk R"
proof -
  let ?q = "snd (lf_push (si_ops I) a (rc_queues R k))"
  let ?R = "R\<lparr>rc_queues := (rc_queues R)(k := ?q)\<rparr>"
  have "a \<notin> set (elems (rc_queues R k))" using a(1) by (auto simp: waiting_def)
  then have "rc_ok elems h H (?R\<lparr>rc_dirty := True\<rparr>)"
    using ok a(2,3) by (auto simp: rc_ok_def)
  moreover have "waiting elems ?R = insert a (waiting elems R)"
    unfolding waiting_update waiting_split [of elems R k] by auto
  then have "waiting elems (?R\<lparr>rc_dirty := True\<rparr>) = insert a (waiting elems R)" by (simp add: waiting_def)
  ultimately show ?thesis using refs k by (auto simp: recycler_push_def)
qed

end

section \<open>The invariant\<close>

definition sl_rel :: "('a::linorder, 'q) sl_inst \<Rightarrow> ('q \<Rightarrow> ptr list) \<Rightarrow> ('a, 'q) skip_list \<Rightarrow> ptr list \<Rightarrow> bool" where
  "sl_rel I elems L xs \<longleftrightarrow>
     (let h = sl_heap L; hd = sl_head L; H = sl_height L; R = sl_recycler L in
      layered h hd H xs \<and> 0 < H \<and> H \<le> si_max I
      \<and> (\<forall>a \<in> set (hd # xs). length (s_skip (h a)) = s_height (h a) \<and> \<not> s_lock (h a) \<and> \<not> markedForRemoval (h a)
            \<and> a < rc_brk R \<and> a \<notin> waiting elems R)
      \<and> (\<forall>a \<in> set xs. fullyLinked (h a)) \<and> sl_size L = of_nat (length xs) \<and> rc_ok elems h H R \<and> 0 < rc_refs R)"

lemma sl_relD:
  assumes "sl_rel I elems L xs"
  shows "layered (sl_heap L) (sl_head L) (sl_height L) xs" "0 < sl_height L" "sl_height L \<le> si_max I"
    "a \<in> set (sl_head L # xs) \<Longrightarrow> length (s_skip (sl_heap L a)) = s_height (sl_heap L a)"
    "a \<in> set (sl_head L # xs) \<Longrightarrow> \<not> s_lock (sl_heap L a)" "a \<in> set (sl_head L # xs) \<Longrightarrow> \<not> markedForRemoval (sl_heap L a)"
    "a \<in> set (sl_head L # xs) \<Longrightarrow> a < rc_brk (sl_recycler L)" "a \<in> set (sl_head L # xs) \<Longrightarrow> a \<notin> waiting elems (sl_recycler L)"
    "a \<in> set xs \<Longrightarrow> fullyLinked (sl_heap L a)" "sl_size L = of_nat (length xs)"
    "rc_ok elems (sl_heap L) (sl_height L) (sl_recycler L)" "0 < rc_refs (sl_recycler L)"
  using assms unfolding sl_rel_def Let_def by blast+

text \<open>The values of the list, in order.\<close>

definition sl_values :: "('a, 'q) skip_list \<Rightarrow> ptr list \<Rightarrow> 'a list" where
  "sl_values L xs = map (\<lambda>a. s_data (sl_heap L a)) xs"

text \<open>Where a value is found.\<close>

lemma split_found:
  assumes "layered h p0 H (A @ B)" "splits_at h dat A B"
  shows "dat \<in> (\<lambda>a. s_data (h a)) ` set (A @ B) \<longleftrightarrow> (\<exists>c B'. B = c # B' \<and> s_data (h c) = dat)"
proof
  assume "dat \<in> (\<lambda>a. s_data (h a)) ` set (A @ B)"
  then obtain b where b: "b \<in> set B" "s_data (h b) = dat" using assms(2) by (auto simp: splits_at_def)
  then obtain c B' where B: "B = c # B'" by (cases B) auto
  then show "\<exists>c B'. B = c # B' \<and> s_data (h c) = dat"
    using beyond_first [of h p0 H A c B' dat b] assms b by auto
qed auto

lemma found_layer_found: "0 < s_height (h c) \<Longrightarrow> s_data (h c) = dat \<Longrightarrow> found_layer h dat (c # B) = int (s_height (h c)) - 1"
  by (simp add: found_layer_def)

lemma found_layer_not: "\<nexists>c B'. B = c # B' \<and> s_data (h c) = dat \<Longrightarrow> found_layer h dat B = - 1"
  by (auto simp: found_layer_def split: list.splits)

section \<open>Insertion\<close>

lemma getHeight_range:
  assumes "0 < m" "m \<le> 64"
  shows "\<exists>n. getHeight tbl p m = Inr n \<and> 0 < n \<and> n \<le> m"
proof (cases "filter (\<lambda>i. p < tbl i) [0..<m]")
  case (Cons i r)
  then have "i \<in> set (filter (\<lambda>i. p < tbl i) [0..<m])" by simp
  then have "i < m" unfolding set_filter by simp
  then show ?thesis using Cons assms by (simp add: getHeight_def)
qed (use assms in \<open>simp add: getHeight_def\<close>)

lemma flag_bits [simp]:
  "\<not> markedForRemoval (setFlag FULLY_LINKED n) \<longleftrightarrow> \<not> markedForRemoval n" "fullyLinked (setFlag FULLY_LINKED n)"
  "markedForRemoval (setFlag MARKED_FOR_REMOVAL n)"
  "s_height (setFlag f n) = s_height n" "s_data (setFlag f n) = s_data n" "s_skip (setFlag f n) = s_skip n"
  "s_lock (setFlag f n) = s_lock n"
  by (simp_all add: markedForRemoval_def fullyLinked_def setFlag_def bit.conj_disj_distrib2)

text \<open>What a change of the layers below \<open>n\<close> meets at the predecessors.\<close>

lemma pred_links:
  assumes rel: "sl_rel I elems L (A @ B)" and l: "l < sl_height L"
  defines "P \<equiv> pred_at (sl_heap L) (sl_head L) A"
  shows "P l \<in> set (sl_head L # A)" "l < s_height (sl_heap L (P l))" "s_skip (sl_heap L (P l)) ! l = succ_at (sl_heap L) B l"
proof -
  note lay = sl_relD(1) [OF rel]
  have p: "P l \<in> set (sl_head L # layer (sl_heap L) l A)" unfolding P_def by (rule pred_at_in)
  then show "P l \<in> set (sl_head L # A)" by (auto simp: set_layer)
  show "l < s_height (sl_heap L (P l))" using in_layer_height [OF lay l p] .
  have "spath (sl_heap L) l (s_skip (sl_heap L (sl_head L)) ! l) (layer (sl_heap L) l A @ layer (sl_heap L) l B)"
    using layeredD(6) [OF lay l] by simp
  then have "spath (sl_heap L) l (s_skip (sl_heap L (P l)) ! l) (layer (sl_heap L) l B)"
    unfolding P_def pred_at_def
    by (cases "layer (sl_heap L) l A" rule: rev_cases) (use spath_drop in force)+
  then show "s_skip (sl_heap L (P l)) ! l = succ_at (sl_heap L) B l"
    unfolding succ_at_def using spath_start [of _ _ _ "[]"] by force
qed

text \<open>The heap after a new node has been linked and the locks released.\<close>

definition linked :: "(nat \<Rightarrow> ptr) \<Rightarrow> (nat \<Rightarrow> ptr option) \<Rightarrow> nat \<Rightarrow> ptr \<Rightarrow> 'a \<Rightarrow> 'a sheap \<Rightarrow> 'a sheap" where
  "linked P S n a dat h =
     (let h = edit {..<n} (link_edit a P S) (h(a := (h a)\<lparr>s_data := dat\<rparr>)); h = h(a := setFlag FULLY_LINKED (h a))
      in (\<lambda>x. if x \<in> P ` {..<n} then (h x)\<lparr>s_lock := False\<rparr> else h x))"

lemma linked_new:
  assumes "a \<notin> P ` {..<n}" "s_height (h a) = n" "length (s_skip (h a)) = n" "\<not> s_lock (h a)"
  shows "s_height (linked P S n a dat h a) = n" "s_data (linked P S n a dat h a) = dat" "length (s_skip (linked P S n a dat h a)) = n"
    "\<not> s_lock (linked P S n a dat h a)" "s_flags (linked P S n a dat h a) = s_flags (h a) OR FULLY_LINKED"
    "\<forall>l < n. s_skip (linked P S n a dat h a) ! l = S l"
  using assms by (simp_all add: linked_def Let_def setFlag_def link_edit_def)

lemma linked_other: "x \<notin> P ` {..<n} \<Longrightarrow> x \<noteq> a \<Longrightarrow> linked P S n a dat h x = h x"
proof -
  assume x: "x \<notin> P ` {..<n}" "x \<noteq> a"
  then have "edit {..<n} (link_edit a P S) (h(a := (h a)\<lparr>s_data := dat\<rparr>)) x = (h(a := (h a)\<lparr>s_data := dat\<rparr>)) x"
    by (intro edit_untouched) (auto simp: link_edit_def)
  then show ?thesis using x by (simp add: linked_def Let_def)
qed

lemma linked_old:
  assumes "x \<noteq> a" "h' x = lockset (P ` {..<n}) h x" "\<not> s_lock (h x)" "length (s_skip (h x)) = s_height (h x)"
  shows "s_height (linked P S n a dat h' x) = s_height (h x)" "s_data (linked P S n a dat h' x) = s_data (h x)"
    "s_flags (linked P S n a dat h' x) = s_flags (h x)" "\<not> s_lock (linked P S n a dat h' x)"
    "length (s_skip (linked P S n a dat h' x)) = s_height (h x)"
    "\<forall>l < s_height (h x). s_skip (linked P S n a dat h' x) ! l = (if l < n \<and> x = P l then Some a else s_skip (h x) ! l)"
proof -
  let ?h = "edit {..<n} (link_edit a P S) (h'(a := (h' a)\<lparr>s_data := dat\<rparr>))"
  have eq: "linked P S n a dat h' x = (if x \<in> P ` {..<n} then (?h x)\<lparr>s_lock := False\<rparr> else ?h x)"
    using assms(1) by (simp add: linked_def Let_def)
  show "s_height (linked P S n a dat h' x) = s_height (h x)" "s_data (linked P S n a dat h' x) = s_data (h x)"
    "s_flags (linked P S n a dat h' x) = s_flags (h x)" "\<not> s_lock (linked P S n a dat h' x)"
    "length (s_skip (linked P S n a dat h' x)) = s_height (h x)"
    unfolding eq using assms by simp_all
  have "s_skip (linked P S n a dat h' x) ! l = (if l < n \<and> x = P l then Some a else s_skip (h x) ! l)" if "l < s_height (h x)" for l
  proof -
    have "s_skip (linked P S n a dat h' x) ! l = s_skip (?h x) ! l" unfolding eq by simp
    also have "\<dots> = (case link_edit a P S l x of Some v \<Rightarrow> if l \<in> {..<n} then v else s_skip (h x) ! l | None \<Rightarrow> s_skip (h x) ! l)"
      using assms that by (subst edit_nth) (simp_all split: option.splits)
    finally show ?thesis using assms(1) by (cases "x = P l") (simp_all add: link_edit_def)
  qed
  then show "\<forall>l < s_height (h x). s_skip (linked P S n a dat h' x) ! l = (if l < n \<and> x = P l then Some a else s_skip (h x) ! l)"
    by blast
qed

lemma lock_preds:
  assumes rel: "sl_rel I elems L (A @ B)" and n: "n \<le> sl_height L"
    and h: "\<forall>x \<in> set (sl_head L # A). h x = sl_heap L x" "\<forall>b \<in> set B. adding \<longrightarrow> \<not> markedForRemoval (h b)"
      "\<forall>l < n. S l = succ_at (sl_heap L) B l"
  defines "P \<equiv> pred_at (sl_heap L) (sl_head L) A"
  shows "lockNodesForChange n (\<lambda>l. if l < sl_height L then Some (P l) else None) S adding h =
    Inr (True, locks_at P n, lockset (P ` {..<n}) h)"
proof -
  have P: "pred_at h (sl_head L) A = P"
    unfolding P_def pred_at_def using h(1) by (intro ext) (simp add: layer_cong [of A h "sl_heap L"])
  have "distinct (sl_head L # A)" using layeredD(2) [OF sl_relD(1) [OF rel]] by simp
  moreover have "l < s_height (h (P l)) \<and> s_skip (h (P l)) ! l = S l \<and> \<not> s_lock (h (P l)) \<and> \<not> markedForRemoval (h (P l))
      \<and> (\<forall>b. S l = Some b \<longrightarrow> adding \<longrightarrow> \<not> markedForRemoval (h b))" if "l < n" for l
  proof -
    have l: "l < sl_height L" using that n by simp
    note p = pred_links [OF rel l, folded P_def]
    have "P l \<in> set (sl_head L # A @ B)" using p(1) by auto
    moreover have "h (P l) = sl_heap L (P l)" using h(1) p(1) by blast
    moreover have "b \<in> set B" if "succ_at (sl_heap L) B l = Some b" for b
      using that by (auto simp: succ_at_def hd_opt_def set_layer dest!: arg_cong [of _ _ set] split: list.splits)
    ultimately show ?thesis using p sl_relD(5,6) [OF rel, of "P l"] h(2,3) that by auto
  qed
  ultimately show ?thesis
    using lockNodes_eq [of "sl_head L" A n "sl_height L" h S adding] n unfolding P by simp
qed

context skip_nodes
begin

lemma add_found:
  assumes rel: "sl_rel I elems L xs" and dat: "dat \<in> set (sl_values L xs)"
  shows "\<exists>c \<in> set xs. s_data (sl_heap L c) = dat \<and> add_attempt I dat p L = Inr (Some (c, None), L)"
proof -
  note lay = sl_relD(1) [OF rel]
  obtain A B where xs: "xs = A @ B" "splits_at (sl_heap L) dat A B" using split_exists [OF layeredD(3) [OF lay]] .
  obtain c B' where c: "B = c # B'" "s_data (sl_heap L c) = dat"
    using split_found [OF lay [unfolded xs(1)] xs(2)] dat by (auto simp: sl_values_def xs(1))
  have pos: "0 < s_height (sl_heap L c)" "s_height (sl_heap L c) \<le> sl_height L" "c \<in> set xs"
    using layeredD(4,5) [OF lay, of c] by (auto simp: xs(1) c(1))
  have "succ_at (sl_heap L) B (s_height (sl_heap L c) - 1) = Some c" using c(1) pos(1) by (simp add: succ_at_def)
  then show ?thesis
    using search_eq [OF lay [unfolded xs(1)] xs(2) sl_relD(2) [OF rel]] pos c sl_relD(6,9) [OF rel, of c]
    by (auto simp: add_attempt_def found_layer_found nat_diff_distrib)
qed

end

text \<open>The list after a new node was linked in.\<close>

lemma add_rel:
  fixes L :: "('a::linorder, 'q) skip_list" and A
  defines "P \<equiv> pred_at (sl_heap L) (sl_head L) A"
  assumes rel: "sl_rel I elems L (A @ B)" and sp: "\<forall>x \<in> set A. s_data (sl_heap L x) < dat" "\<forall>x \<in> set B. dat < s_data (sl_heap L x)"
    and n: "0 < n" "n \<le> sl_height L" and S: "\<forall>l < n. S l = succ_at (sl_heap L) B l"
    and t: "taken elems (sl_height L) n (lockset (P ` {..<n}) (sl_heap L)) (sl_recycler L) a h R'" "s_flags (h a) = 0"
  defines "L' \<equiv> L\<lparr>sl_recycler := R', sl_size := sl_size L + 1, sl_heap := linked (P) S n a dat h\<rparr>"
  shows "sl_rel I elems L' (A @ a # B)" "sl_height L' = sl_height L" "s_data (sl_heap L' a) = dat"
    "\<forall>x \<in> set (A @ B). s_data (sl_heap L' x) = s_data (sl_heap L x)"
proof -
  let ?h = "sl_heap L'" and ?U = "set (sl_head L # A @ B)"
  have heap: "?h = linked (P) S n a dat h" by (simp add: L'_def)
  have "P l \<in> ?U" if "l < n" for l using pred_links(1) [OF rel, of l] that n(2) by (auto simp: P_def)
  then have PU: "P ` {..<n} \<subseteq> ?U" by auto
  have u: "x \<noteq> a" "x < rc_brk R'" "x \<notin> waiting elems R'" "h x = lockset (P ` {..<n}) (sl_heap L) x" if "x \<in> ?U" for x
    using takenD(6) [OF t(1), of x] sl_relD(7,8) [OF rel that] by auto
  have old: "s_height (?h x) = s_height (sl_heap L x)" "s_data (?h x) = s_data (sl_heap L x)" "s_flags (?h x) = s_flags (sl_heap L x)"
      "\<not> s_lock (?h x)" "length (s_skip (?h x)) = s_height (sl_heap L x)"
      "\<forall>l < s_height (sl_heap L x). s_skip (?h x) ! l = (if l < n \<and> x = P l then Some a else s_skip (sl_heap L x) ! l)"
      if "x \<in> ?U" for x
    unfolding heap using linked_old [of x a h P n "sl_heap L", OF u(1,4) [OF that] sl_relD(5,4) [OF rel that]] by blast+
  have a: "a \<notin> ?U" using u(1) by blast
  have "a \<notin> P ` {..<n}" using a PU by blast
  from linked_new [OF this, of h S dat] takenD(5) [OF t(1)]
  have new: "s_height (?h a) = n" "s_data (?h a) = dat" "length (s_skip (?h a)) = n" "\<not> s_lock (?h a)"
    "s_flags (?h a) = s_flags (h a) OR FULLY_LINKED" "\<forall>l < n. s_skip (?h a) ! l = S l"
    unfolding heap by (simp_all add: idle_node_def)
  have lay: "layered ?h (sl_head L) (sl_height L) (A @ a # B)"
  proof (rule insert_layered [OF sl_relD(1) [OF rel] a sp])
    show "\<forall>x \<in> ?U. s_height (?h x) = s_height (sl_heap L x) \<and> s_data (?h x) = s_data (sl_heap L x)
        \<and> (\<forall>l < s_height (sl_heap L x). s_skip (?h x) ! l =
             (if l < n \<and> x = pred_at (sl_heap L) (sl_head L) A l then Some a else s_skip (sl_heap L x) ! l))"
      using old(1,2,6) unfolding P_def by blast
  qed (use new n S in auto)
  have "?h x = h x" if "x \<in> waiting elems R'" for x
    unfolding heap using that u(3) PU takenD(2) [OF t(1)] by (intro linked_other) auto
  then have rc: "rc_ok elems ?h (sl_height L) R'" by (intro rc_ok_frame [OF takenD(1) [OF t(1)]]) simp_all
  have nodes: "length (s_skip (?h x)) = s_height (?h x)" "\<not> s_lock (?h x)" "\<not> markedForRemoval (?h x)" "x < rc_brk R'" "x \<notin> waiting elems R'"
      if "x \<in> set (sl_head L # A @ a # B)" for x
    using that old [of x] new u(2,3) [of x] t(2) takenD(2,3) [OF t(1)] sl_relD(6) [OF rel, of x] by (auto simp: markedForRemoval_def)
  have full: "fullyLinked (?h x)" if "x \<in> set (A @ a # B)" for x
    using that old(3) [of x] new t(2) sl_relD(9) [OF rel, of x] by (auto simp: fullyLinked_def)
  have fields: "sl_head L' = sl_head L" "sl_recycler L' = R'" "sl_size L' = sl_size L + 1" by (simp_all add: L'_def)
  show ht: "sl_height L' = sl_height L" using layeredD(1) [OF lay] by (simp add: sl_height_def fields)
  show "s_data (?h a) = dat" "\<forall>x \<in> set (A @ B). s_data (?h x) = s_data (sl_heap L x)" using new old(2) by auto
  show "sl_rel I elems L' (A @ a # B)"
    unfolding sl_rel_def Let_def ht fields
    using lay rc nodes full sl_relD(2,3,10,12) [OF rel] takenD(4) [OF t(1)] by simp
qed

context skip_nodes
begin

text \<open>One turn of the loop: search, lock, take a node, link it, unlock.\<close>

lemma add_run:
  assumes rel: "sl_rel I elems L (A @ B)" and sp: "splits_at (sl_heap L) dat A B" and nf: "\<nexists>c B'. B = c # B' \<and> s_data (sl_heap L c) = dat"
  defines "P \<equiv> pred_at (sl_heap L) (sl_head L) A" and "S \<equiv> \<lambda>l. if l < sl_height L then succ_at (sl_heap L) B l else None"
  shows "\<exists>n a h R'. 0 < n \<and> n \<le> sl_height L \<and> s_flags (h a) = 0
    \<and> taken elems (sl_height L) n (lockset (P ` {..<n}) (sl_heap L)) (sl_recycler L) a h R'
    \<and> add_attempt I dat p L = Inr (Some (a, Some (sl_size L + 1)),
        L\<lparr>sl_recycler := R', sl_size := sl_size L + 1, sl_heap := linked P S n a dat h\<rparr>)"
proof -
  let ?preds = "\<lambda>l. if l < sl_height L then Some (P l) else None"
  obtain n where n: "getHeight (si_lookup I) p (sl_height L) = Inr n" "0 < n" "n \<le> sl_height L"
    using getHeight_range [of "sl_height L" "si_lookup I" p] sl_relD(2,3) [OF rel] max_height by auto
  have search: "findInsertionPointGetMaxLayer L dat = Inr (- 1, ?preds, S)"
    using search_eq [OF sl_relD(1) [OF rel] sp sl_relD(2) [OF rel]] nf unfolding P_def S_def by (simp add: found_layer_not)
  let ?h1 = "lockset (P ` {..<n}) (sl_heap L)"
  have pl: "P l \<in> set (sl_head L # A @ B)" "l < s_height (sl_heap L (P l))" if "l < n" for l
    using pred_links(1,2) [OF rel, of l] that n(3) unfolding P_def by auto
  have lock: "lockNodesForChange n ?preds S True (sl_heap L) = Inr (True, locks_at P n, ?h1)"
    using lock_preds [OF rel, of n "sl_heap L" True S] n(3) sl_relD(6) [OF rel] unfolding P_def S_def by simp
  have "rc_ok elems ?h1 (sl_height L) (sl_recycler L)"
    using pl(1) sl_relD(8) [OF rel] by (intro rc_ok_frame [OF sl_relD(11) [OF rel]]) (auto simp: lockset_def)
  then obtain a h R' where pop: "recycler_pop I n False ?h1 (sl_recycler L) = Inr (a, h, R')"
      "taken elems (sl_height L) n ?h1 (sl_recycler L) a h R'" "s_flags (h a) = 0"
    using recycler_pop_eq [of ?h1 "sl_height L" "sl_recycler L" n False] n sl_relD(3) [OF rel] max_height by auto
  let ?h2 = "h(a := (h a)\<lparr>s_data := dat\<rparr>)"
  note idle = takenD(5) [OF pop(2), unfolded idle_node_def]
  have "\<forall>k \<in> set [0..<n]. ?preds k = Some (P k) \<and> P k \<noteq> a \<and> k < s_height (?h2 a) \<and> k < s_height (?h2 (P k))
      \<and> length (s_skip (?h2 (P k))) = s_height (?h2 (P k))"
  proof
    fix k assume "k \<in> set [0..<n]"
    then have k: "k < n" by simp
    have "P k \<noteq> a \<and> h (P k) = ?h1 (P k)" using takenD(6) [OF pop(2)] sl_relD(7,8) [OF rel pl(1) [OF k]] by blast
    then show "?preds k = Some (P k) \<and> P k \<noteq> a \<and> k < s_height (?h2 a) \<and> k < s_height (?h2 (P k))
        \<and> length (s_skip (?h2 (P k))) = s_height (?h2 (P k))"
      using k n(3) pl(2) [OF k] sl_relD(4) [OF rel pl(1) [OF k]] idle by simp
  qed
  from link_loop_eq [of "[0..<n]" ?preds P a ?h2, OF this, of S "{}"]
  have link: "link_loop [0..<n] a ?preds S ?h2 = Inr (edit {..<n} (link_edit a P S) ?h2)"
    using idle by (simp add: atLeast0LessThan)
  let ?h3 = "edit {..<n} (link_edit a P S) ?h2"
  have unlock: "release_guards [0..<si_max I] (locks_at P n) ?preds (?h3(a := setFlag FULLY_LINKED (?h3 a))) = linked P S n a dat h"
    unfolding linked_def Let_def using n(3) sl_relD(3) [OF rel] by (intro release_locks) simp_all
  have "add_attempt I dat p L = Inr (Some (a, Some (sl_size L + 1)),
      L\<lparr>sl_recycler := R', sl_size := sl_size L + 1, sl_heap := linked P S n a dat h\<rparr>)"
    using search n lock pop(1) link unlock by (simp add: add_attempt_def Let_def)
  then show ?thesis using n(2,3) pop(2,3) by blast
qed

lemma add_new:
  assumes rel: "sl_rel I elems L xs" and dat: "dat \<notin> set (sl_values L xs)"
  shows "\<exists>a L' A B. xs = A @ B \<and> add_attempt I dat p L = Inr (Some (a, Some (sl_size L + 1)), L')
    \<and> sl_rel I elems L' (A @ a # B) \<and> s_data (sl_heap L' a) = dat \<and> sl_height L' = sl_height L
    \<and> (\<forall>x \<in> set xs. s_data (sl_heap L' x) = s_data (sl_heap L x))"
proof -
  obtain A B where xs: "xs = A @ B" and sp: "splits_at (sl_heap L) dat A B"
    using split_exists [OF layeredD(3) [OF sl_relD(1) [OF rel]]] .
  note rel = rel [unfolded xs]
  have nf: "\<nexists>c B'. B = c # B' \<and> s_data (sl_heap L c) = dat" using dat by (auto simp: sl_values_def xs)
  have sp': "\<forall>x \<in> set A. s_data (sl_heap L x) < dat" "\<forall>x \<in> set B. dat < s_data (sl_heap L x)"
    using sp dat by (auto simp: splits_at_def sl_values_def xs order.strict_iff_order)
  obtain n a h R' where run: "0 < n" "n \<le> sl_height L" "s_flags (h a) = 0"
      "taken elems (sl_height L) n (lockset (pred_at (sl_heap L) (sl_head L) A ` {..<n}) (sl_heap L)) (sl_recycler L) a h R'"
      "add_attempt I dat p L = Inr (Some (a, Some (sl_size L + 1)), L\<lparr>sl_recycler := R', sl_size := sl_size L + 1,
        sl_heap := linked (pred_at (sl_heap L) (sl_head L) A) (\<lambda>l. if l < sl_height L then succ_at (sl_heap L) B l else None) n a dat h\<rparr>)"
    using add_run [OF rel sp nf, of p] by clarify
  have "\<forall>l < n. (if l < sl_height L then succ_at (sl_heap L) B l else None) = succ_at (sl_heap L) B l" using run(2) by simp
  from add_rel [OF rel sp' run(1,2) this run(4,3)] run(5) xs show ?thesis by blast
qed

end

section \<open>Growing\<close>

text \<open>A higher head over the same nodes.\<close>

lemma grow_layered:
  assumes lay: "layered h p0 H xs" and same: "\<forall>x \<in> set xs. h' x = h x" and a: "a \<notin> set xs" "s_height (h' a) = Suc H"
    and sk: "\<forall>l < H. s_skip (h' a) ! l = s_skip (h p0) ! l" "s_skip (h' a) ! H = None"
  shows "layered h' a (Suc H) xs"
proof -
  have "spath h' l (s_skip (h' a) ! l) (layer h' l xs)" if "l < Suc H" for l
  proof (cases "l = H")
    case True
    have "layer h' l xs = []" using layeredD(5) [OF lay] same True by (fastforce simp: layer_def filter_empty_conv)
    then show ?thesis using sk(2) True by simp
  next
    case False
    then have l: "l < H" using that by simp
    have "layer h' l xs = layer h l xs" using same by (intro layer_cong) simp
    moreover have "spath h' l n (layer h l xs) = spath h l n (layer h l xs)" for n
      using same by (intro spath_cong) (auto simp: set_layer)
    ultimately show ?thesis using layeredD(6) [OF lay l] sk(1) l by simp
  qed
  moreover have "map (\<lambda>x. s_data (h' x)) xs = map (\<lambda>x. s_data (h x)) xs" using same by simp
  then have "sorted_wrt (<) (map (\<lambda>x. s_data (h' x)) xs)" using layeredD(3) [OF lay] by (simp only:)
  ultimately show ?thesis
    using layeredD(2,4,5) [OF lay] a same unfolding layered_def by (auto simp: le_SucI)
qed

context skip_nodes
begin

lemma grow_ok:
  assumes rel: "sl_rel I elems L xs" and "sl_height L < si_max I"
  shows "\<exists>L'. growHeight I (sl_height L + 1) L = Inr L' \<and> sl_rel I elems L' xs \<and> sl_height L' = sl_height L + 1
    \<and> sl_size L' = sl_size L \<and> (\<forall>x \<in> set xs. sl_heap L' x = sl_heap L x)"
proof -
  define h p0 H R where "h = sl_heap L" and "p0 = sl_head L" and "H = sl_height L" and "R = sl_recycler L"
  note defs = h_def p0_def H_def R_def
  note rel' = rel [THEN sl_relD(1), folded defs] sl_relD(4-8) [OF rel, folded defs] sl_relD(11) [OF rel, folded defs]
  have H: "s_height (h p0) = H" by (simp add: defs sl_height_def)
  obtain a h1 R1 where run: "recycler_pop I (H + 1) True h R = Inr (a, h1, R1)" and t: "taken elems H (H + 1) h R a h1 R1"
    using recycler_pop_eq [OF rel'(7), of "H + 1" True] assms(2) max_height unfolding H_def by auto
  note pop = run takenD(1-5) [OF t]
  have u: "h1 x = h x" "x \<notin> waiting elems R1" "x < rc_brk R1" "x \<noteq> a" if "x \<in> set (p0 # xs)" for x
    using rel'(5,6) [OF that] takenD(6) [OF t, of x] by auto
  have old: "\<not> s_lock (h p0)" "length (s_skip (h p0)) = H" using rel'(2,3) [of p0] H by auto
  define na where "na = (h1 a)\<lparr>s_flags := s_flags (h p0), s_skip := s_skip (h p0) @ [None]\<rparr>"
  define h4 where "h4 = h1(a := na, p0 := (setFlag MARKED_FOR_REMOVAL (h p0))\<lparr>s_lock := False\<rparr>)"
  have idle: "s_height (h1 a) = H + 1" "s_skip (h1 a) = replicate (H + 1) None" "\<not> s_lock (h1 a)"
    using pop(6) by (simp_all add: idle_node_def)
  have "rc_ok elems h4 (H + 1) R1"
    using pop(3) u(2) by (intro rc_ok_frame [OF pop(2)]) (auto simp: h4_def)
  then obtain R2 where push: "recycler_push I H p0 R1 = Inr R2" "rc_ok elems h4 (H + 1) R2"
      "waiting elems R2 = insert p0 (waiting elems R1)" "rc_refs R2 = rc_refs R" "rc_brk R2 = rc_brk R1"
    using recycler_push_eq [of h4 "H + 1" R1 H p0] u(2,3) [of p0] sl_relD(12) [OF rel] assms(2) max_height pop(5) H old
    by (auto simp: idle_node_def h4_def defs [symmetric])
  define L' where "L' = L\<lparr>sl_recycler := R2, sl_head := a, sl_heap := h4\<rparr>"
  have "drop H (s_skip (h1 a)) = [None]" by (simp add: idle(2) del: replicate_Suc) simp
  then have "growHeight I (H + 1) L = Inr L'"
    using pop(1) push(1) u(1,4) [of p0] H old idle(1,3)
    by (simp add: growHeight_def acquireGuard_def copyHead_def releaseGuard_def Let_def defs [symmetric] L'_def h4_def na_def setFlag_def fun_upd_twist)
  moreover have same: "\<forall>x \<in> set xs. h4 x = h x" using u layeredD(2) [OF rel'(1)] by (auto simp: h4_def)
  moreover have lay: "layered h4 a (Suc H) xs"
    using same u(4) [of p0] u(4) idle(1) old by (intro grow_layered [OF rel'(1)]) (auto simp: h4_def na_def nth_append)
  moreover have "sl_height L' = H + 1" using layeredD(1) [OF lay] by (simp add: L'_def sl_height_def)
  moreover have "sl_rel I elems L' xs"
  proof -
    have "x \<notin> waiting elems R2" if "x \<in> set (a # xs)" for x
      using that u(2,4) [of x] u(4) [of p0] pop(3) push(3) layeredD(2) [OF rel'(1)] by auto
    moreover have "length (s_skip (h4 x)) = s_height (h4 x)" "\<not> s_lock (h4 x)" "\<not> markedForRemoval (h4 x)" "x < rc_brk R2"
      if "x \<in> set (a # xs)" for x
      using that same rel'(2-4) [of x] rel'(4) [of p0] u(3) [of x] u(4) [of p0] pop(4) push(5) idle old
        layeredD(2) [OF rel'(1)] by (auto simp: h4_def na_def markedForRemoval_def)
    ultimately show ?thesis
      using lay \<open>sl_height L' = H + 1\<close> same sl_relD(4-6,9,10,12) [OF rel] assms(2) push(2,4) unfolding sl_rel_def L'_def defs by simp
  qed
  ultimately show ?thesis by (auto simp: L'_def defs)
qed

end

section \<open>The set of the values\<close>

definition sl_set :: "('a::linorder, 'q) sl_inst \<Rightarrow> ('q \<Rightarrow> ptr list) \<Rightarrow> ('a, 'q) skip_list \<Rightarrow> 'a set \<Rightarrow> bool" where
  "sl_set I elems L S \<longleftrightarrow> (\<exists>xs. sl_rel I elems L xs \<and> S = set (sl_values L xs))"

lemma sl_values_sorted:
  assumes "sl_rel I elems L xs"
  shows "sl_values L xs = sorted_list_of_set (set (sl_values L xs))" "length xs = card (set (sl_values L xs))"
proof -
  have s: "sorted_wrt (<) (sl_values L xs)" using layeredD(3) [OF sl_relD(1) [OF assms]] by (simp add: sl_values_def)
  then show "sl_values L xs = sorted_list_of_set (set (sl_values L xs))"
    by (simp add: sorted_list_of_set.idem_if_sorted_distinct strict_sorted_iff)
  show "length xs = card (set (sl_values L xs))"
    using s distinct_card [of "sl_values L xs"] by (simp add: strict_sorted_iff) (simp add: sl_values_def)
qed

lemma sl_set_size: "sl_set I elems L S \<Longrightarrow> finite S \<and> sl_size L = of_nat (card S)"
  using sl_values_sorted(2) sl_relD(10) unfolding sl_set_def by fastforce

context skip_nodes
begin

lemma addOrGetData_ok:
  assumes "sl_set I elems L S" "card S + 1 < 2 ^ 64"
  shows "\<exists>n sz L'. addOrGetData I dat ps L = Inr ((n, sz), L') \<and> sl_set I elems L' (insert dat S)
    \<and> s_data (sl_heap L' n) = dat \<and> (if dat \<in> S then sz = 0 \<and> L' = L else sz = of_nat (card S + 1) \<and> sz \<noteq> 0)"
proof -
  obtain xs where rel: "sl_rel I elems L xs" and S: "S = set (sl_values L xs)" using assms(1) by (auto simp: sl_set_def)
  show ?thesis
  proof (cases "dat \<in> S")
    case True
    then obtain c where "s_data (sl_heap L c) = dat" "add_attempt I dat (ps 0) L = Inr (Some (c, None), L)"
      using add_found [OF rel] S by blast
    then show ?thesis using True assms(1) by (simp add: addOrGetData_def add_retry.simps diverge_def insert_absorb)
  next
    case False
    then obtain a L1 A B where add: "xs = A @ B" "add_attempt I dat (ps 0) L = Inr (Some (a, Some (sl_size L + 1)), L1)"
        "sl_rel I elems L1 (A @ a # B)" "s_data (sl_heap L1 a) = dat" "sl_height L1 = sl_height L"
        "\<forall>x \<in> set xs. s_data (sl_heap L1 x) = s_data (sl_heap L x)" 
      using add_new [OF rel, of dat "ps 0"] S by auto
    have vals: "set (sl_values L1 (A @ a # B)) = insert dat S"
      using add(1,4,6) by (auto simp: sl_values_def S)
    have eq: "sl_size L + 1 = of_nat (card S + 1)" using sl_set_size [OF assms(1)] by simp
    have "(of_nat (card S + 1) :: u64) \<noteq> 0" using assms(2) by (auto simp only: word_of_nat_eq_0_iff dest!: dvd_imp_le) simp
    then obtain z where z: "z = of_nat (card S + 1)" "z > 0" "z \<noteq> 0" "sl_size L + 1 = z" unfolding eq by (simp add: word_gt_0)
    have lim: "getSizeLimit (si_limit I) (sl_height L1) = Inr (si_limit I (sl_height L1))"
      using sl_relD(3) [OF add(3)] max_height by (simp add: getSizeLimit_def)
    show ?thesis
    proof (cases "sl_height L1 < si_max I \<and> z > si_limit I (sl_height L1)")
      case True
      obtain L2 where L2: "growHeight I (sl_height L1 + 1) L1 = Inr L2" "sl_rel I elems L2 (A @ a # B)"
          "\<forall>x \<in> set (A @ a # B). sl_heap L2 x = sl_heap L1 x"
        using grow_ok [OF add(3)] True by auto
      have "sl_set I elems L2 (insert dat S)"
        unfolding sl_set_def using L2(2,3) vals by (intro exI [of _ "A @ a # B"]) (simp add: sl_values_def)
      then show ?thesis using add(2,4) [unfolded z(4)] L2(1,3) lim z(1-3) True \<open>dat \<notin> S\<close>
        by (simp add: addOrGetData_def add_retry.simps diverge_def Let_def del: of_nat_add of_nat_Suc)
    next
      case no: False
      have "sl_set I elems L1 (insert dat S)" unfolding sl_set_def using add(3) vals by blast
      then show ?thesis using add(2,4) [unfolded z(4)] lim z(1-3) no \<open>dat \<notin> S\<close>
        by (auto simp: addOrGetData_def add_retry.simps diverge_def Let_def simp del: of_nat_add of_nat_Suc)
    qed
  qed
qed

end

section \<open>Removal\<close>

text \<open>The heap after a node was unlinked and the locks released.\<close>

definition unlinked :: "(nat \<Rightarrow> ptr) \<Rightarrow> (nat \<Rightarrow> ptr option) \<Rightarrow> nat \<Rightarrow> 'a sheap \<Rightarrow> 'a sheap" where
  "unlinked P S n h =
     (let h = edit {..<n} (unlink_edit P S) (lockset (P ` {..<n}) h) in (\<lambda>x. if x \<in> P ` {..<n} then (h x)\<lparr>s_lock := False\<rparr> else h x))"

lemma unlinked_sel:
  "x \<notin> P ` {..<n} \<Longrightarrow> unlinked P S n h x = h x"
  "s_height (unlinked P S n h x) = s_height (h x)" "s_data (unlinked P S n h x) = s_data (h x)" "s_flags (unlinked P S n h x) = s_flags (h x)"
  "length (s_skip (unlinked P S n h x)) = length (s_skip (h x))" "\<not> s_lock (h x) \<Longrightarrow> \<not> s_lock (unlinked P S n h x)"
  "l < length (s_skip (h x)) \<Longrightarrow> s_skip (unlinked P S n h x) ! l = (if l < n \<and> x = P l then S l else s_skip (h x) ! l)"
proof -
  let ?h = "edit {..<n} (unlink_edit P S) (lockset (P ` {..<n}) h)"
  show "unlinked P S n h x = h x" if "x \<notin> P ` {..<n}"
  proof -
    have "?h x = lockset (P ` {..<n}) h x" using that by (intro edit_untouched) (auto simp: unlink_edit_def)
    then show ?thesis using that by (simp add: unlinked_def Let_def lockset_def)
  qed
  show "s_height (unlinked P S n h x) = s_height (h x)" "s_data (unlinked P S n h x) = s_data (h x)" "s_flags (unlinked P S n h x) = s_flags (h x)"
    "length (s_skip (unlinked P S n h x)) = length (s_skip (h x))" "\<not> s_lock (h x) \<Longrightarrow> \<not> s_lock (unlinked P S n h x)"
    by (simp_all add: unlinked_def Let_def)
  show "s_skip (unlinked P S n h x) ! l = (if l < n \<and> x = P l then S l else s_skip (h x) ! l)" if "l < length (s_skip (h x))"
  proof -
    have "s_skip (unlinked P S n h x) ! l = s_skip (?h x) ! l" by (simp add: unlinked_def Let_def)
    also have "\<dots> = (if l < n \<and> x = P l then S l else s_skip (h x) ! l)"
      using that by (cases "x = P l") (simp_all add: unlink_edit_def split: option.splits)
    finally show ?thesis .
  qed
qed

text \<open>The list after its node \<open>c\<close> was marked, unlinked and given to the recycler.\<close>

definition marked_off :: "ptr \<Rightarrow> 'a sheap \<Rightarrow> 'a sheap" where
  "marked_off c h = h(c := (setFlag MARKED_FOR_REMOVAL (h c))\<lparr>s_lock := False\<rparr>)"

lemma marked_off_sel:
  "x \<noteq> c \<Longrightarrow> marked_off c h x = h x" "s_height (marked_off c h c) = s_height (h c)" "s_skip (marked_off c h c) = s_skip (h c)"
  "\<not> s_lock (marked_off c h c)"
  by (simp_all add: marked_off_def)

lemma remove_rel:
  fixes L :: "('a::linorder, 'q) skip_list" and A c
  defines "P \<equiv> pred_at (sl_heap L) (sl_head L) A" and "n \<equiv> s_height (sl_heap L c)" and "S \<equiv> \<lambda>l. s_skip (sl_heap L c) ! l"
  defines "h \<equiv> unlinked P S n (marked_off c (sl_heap L))"
  assumes rel: "sl_rel I elems L (A @ c # B)"
    and R': "rc_ok elems h (sl_height L) R'" "waiting elems R' = insert c (waiting elems (sl_recycler L))"
      "rc_refs R' = rc_refs (sl_recycler L)" "rc_brk R' = rc_brk (sl_recycler L)"
  shows "sl_rel I elems (L\<lparr>sl_recycler := R', sl_size := sl_size L - 1, sl_heap := h\<rparr>) (A @ B)"
    "\<forall>x \<in> set (A @ B). s_data (h x) = s_data (sl_heap L x)"
proof -
  note lay = sl_relD(1) [OF rel]
  have cout: "c \<notin> set (sl_head L # A @ B)" using layeredD(2) [OF lay] by auto
  have x: "x \<noteq> c" "x \<in> set (sl_head L # A @ c # B)" if "x \<in> set (sl_head L # A @ B)" for x using that cout by auto
  have keep: "s_height (h x) = s_height (sl_heap L x)" "s_data (h x) = s_data (sl_heap L x)" "s_flags (h x) = s_flags (sl_heap L x)"
      "\<not> s_lock (h x)" "length (s_skip (h x)) = s_height (h x)" "x < rc_brk R'" "x \<notin> waiting elems R'" "\<not> markedForRemoval (h x)"
      "\<forall>l < s_height (sl_heap L x). s_skip (h x) ! l = (if l < n \<and> x = P l then S l else s_skip (sl_heap L x) ! l)"
    if "x \<in> set (sl_head L # A @ B)" for x
  proof -
    have "marked_off c (sl_heap L) x = sl_heap L x" by (rule marked_off_sel(1) [OF x(1) [OF that]])
    note us = unlinked_sel(2-7) [where P = P and S = S and n = n and h = "marked_off c (sl_heap L)" and x = x, folded h_def, unfolded this]
    note r = sl_relD(4-8) [OF rel x(2) [OF that]]
    show "s_height (h x) = s_height (sl_heap L x)" "s_data (h x) = s_data (sl_heap L x)" "s_flags (h x) = s_flags (sl_heap L x)"
      "\<not> s_lock (h x)" "length (s_skip (h x)) = s_height (h x)" "x < rc_brk R'" "x \<notin> waiting elems R'" "\<not> markedForRemoval (h x)"
      using us(1-5) r x(1) [OF that] R'(2,4) by (simp_all add: markedForRemoval_def)
    show "\<forall>l < s_height (sl_heap L x). s_skip (h x) ! l = (if l < n \<and> x = P l then S l else s_skip (sl_heap L x) ! l)"
      using us(6) r(1) by simp
  qed
  have lay': "layered h (sl_head L) (sl_height L) (A @ B)"
    using keep(1,2,9) unfolding S_def P_def n_def by (intro remove_layered [OF lay]) blast
  have full: "fullyLinked (h x)" if "x \<in> set (A @ B)" for x
    using that keep(3) [of x] sl_relD(9) [OF rel, of x] by (auto simp: fullyLinked_def)
  show "\<forall>x \<in> set (A @ B). s_data (h x) = s_data (sl_heap L x)" using keep(2) by auto
  let ?L = "L\<lparr>sl_recycler := R', sl_size := sl_size L - 1, sl_heap := h\<rparr>"
  have ht: "sl_height ?L = sl_height L" using layeredD(1) [OF lay'] by (simp add: sl_height_def)
  show "sl_rel I elems ?L (A @ B)"
    unfolding sl_rel_def Let_def ht
    using lay' full keep(4-8) sl_relD(2,3,10,12) [OF rel] R'(1,3) by simp
qed

context skip_nodes
begin

lemma remove_missing:
  assumes rel: "sl_rel I elems L xs" and dat: "dat \<notin> set (sl_values L xs)"
  shows "sl_remove I dat L = Inr (False, L)"
proof -
  note lay = sl_relD(1) [OF rel]
  obtain A B where xs: "xs = A @ B" "splits_at (sl_heap L) dat A B" using split_exists [OF layeredD(3) [OF lay]] .
  have "\<nexists>c B'. B = c # B' \<and> s_data (sl_heap L c) = dat" using dat by (auto simp: sl_values_def xs(1))
  then show ?thesis
    using search_eq [OF lay [unfolded xs(1)] xs(2) sl_relD(2) [OF rel]]
    by (simp add: found_layer_not sl_remove_def remove_retry.simps remove_attempt_def diverge_def)
qed

text \<open>One turn of the loop: search, mark, lock, unlink, unlock, recycle.\<close>

lemma remove_run:
  fixes L :: "('a, 'q) skip_list" and A c
  defines "P \<equiv> pred_at (sl_heap L) (sl_head L) A" and "n \<equiv> s_height (sl_heap L c)" and "S \<equiv> \<lambda>l. s_skip (sl_heap L c) ! l"
  defines "h \<equiv> unlinked P S n (marked_off c (sl_heap L))"
  assumes rel: "sl_rel I elems L (A @ c # B)" and sp: "splits_at (sl_heap L) dat A (c # B)" and c: "s_data (sl_heap L c) = dat"
    and push: "recycler_push I n c (sl_recycler L) = Inr R'"
  shows "sl_remove I dat L = Inr (True, L\<lparr>sl_recycler := R', sl_size := sl_size L - 1, sl_heap := h\<rparr>)"
proof -
  note lay = sl_relD(1) [OF rel]
  have n: "0 < n" "n \<le> sl_height L" using layeredD(4,5) [OF lay, of c] by (simp_all add: n_def)
  let ?preds = "\<lambda>l. if l < sl_height L then Some (P l) else None"
  let ?succs = "\<lambda>l. if l < sl_height L then succ_at (sl_heap L) (c # B) l else None"
  let ?h1 = "marked_off c (sl_heap L)"
  have search: "findInsertionPointGetMaxLayer L dat = Inr (int n - 1, ?preds, ?succs)"
    using search_eq [OF lay sp sl_relD(2) [OF rel]] c n(1) unfolding P_def n_def by (simp add: found_layer_found)
  have cout: "c \<notin> set (sl_head L # A @ B)" using layeredD(2) [OF lay] by auto
  then have cP: "P l \<noteq> c" for l using pred_at_in [of "sl_heap L" "sl_head L" A l] by (auto simp: P_def set_layer)
  have "\<forall>x \<in> set (sl_head L # A). ?h1 x = sl_heap L x" using marked_off_sel(1) cout by (metis Un_iff append_Cons set_append)
  then have lock: "lockNodesForChange n ?preds ?succs False ?h1 = Inr (True, locks_at P n, lockset (P ` {..<n}) ?h1)"
    using lock_preds [OF rel, of n ?h1 False ?succs] n(2) unfolding P_def by simp
  let ?h2 = "lockset (P ` {..<n}) ?h1"
  have "\<forall>k \<in> set (rev [0..<n]). ?preds k = Some (P k) \<and> k < s_height (?h2 c) \<and> k < s_height (?h2 (P k))
      \<and> length (s_skip (?h2 (P k))) = s_height (?h2 (P k)) \<and> S k = s_skip (?h2 c) ! k"
  proof
    fix k assume "k \<in> set (rev [0..<n])"
    then have k: "k < n" "k < sl_height L" using n(2) by simp_all
    have "P k \<in> set (sl_head L # A @ c # B)" using pred_links(1) [OF rel k(2)] unfolding P_def by auto
    from sl_relD(4) [OF rel this]
    show "?preds k = Some (P k) \<and> k < s_height (?h2 c) \<and> k < s_height (?h2 (P k))
        \<and> length (s_skip (?h2 (P k))) = s_height (?h2 (P k)) \<and> S k = s_skip (?h2 c) ! k"
      using pred_links(2) [OF rel k(2), folded P_def] k marked_off_sel(1) [OF cP [of k], of "sl_heap L"] marked_off_sel(2,3) [of c "sl_heap L"]
      by (simp add: S_def n_def)
  qed
  from unlink_loop_eq [of "rev [0..<n]" ?preds P ?h2 c S, OF this, of "{}"] cP
  have unlink: "unlink_loop (rev [0..<n]) c ?preds ?h2 = Inr (edit {..<n} (unlink_edit P S) ?h2)" by (simp add: atLeast0LessThan)
  have unlock: "release_guards [0..<si_max I] (locks_at P n) ?preds (edit {..<n} (unlink_edit P S) ?h2) = h"
    unfolding h_def unlinked_def Let_def using n(2) sl_relD(3) [OF rel] by (intro release_locks) simp_all
  have hc: "s_height (h c) = n" "s_height (?h1 c) = n" unfolding h_def unlinked_sel(2) by (simp_all add: marked_off_sel(2) n_def)
  have first: "succ_at (sl_heap L) (c # B) (n - Suc 0) = Some c" "nat (int n - 1) = n - Suc 0" "n - Suc 0 < sl_height L"
    "okToDelete (sl_heap L c) (int n - 1)"
    using n sl_relD(6,9) [OF rel, of c] by (simp_all add: succ_at_def n_def [symmetric] okToDelete_def nat_diff_distrib')
  have mark: "acquireGuard c (sl_heap L) = Inr ((sl_heap L)(c := (sl_heap L c)\<lparr>s_lock := True\<rparr>))"
    "\<not> markedForRemoval ((sl_heap L c)\<lparr>s_lock := True\<rparr>)"
    "releaseGuard c ((sl_heap L)(c := setFlag MARKED_FOR_REMOVAL ((sl_heap L c)\<lparr>s_lock := True\<rparr>))) = ?h1"
    using sl_relD(5,6) [OF rel, of c] by (simp_all add: acquireGuard_def markedForRemoval_def releaseGuard_def marked_off_def setFlag_def)
  show ?thesis
    using search lock unlink unlock push hc first mark n(1)
    by (simp add: sl_remove_def remove_retry.simps diverge_def remove_attempt_def)
qed

lemma remove_found:
  assumes rel: "sl_rel I elems L xs" and dat: "dat \<in> set (sl_values L xs)"
  shows "\<exists>L' A c B. xs = A @ c # B \<and> s_data (sl_heap L c) = dat \<and> sl_remove I dat L = Inr (True, L') \<and> sl_rel I elems L' (A @ B)
    \<and> (\<forall>x \<in> set (A @ B). s_data (sl_heap L' x) = s_data (sl_heap L x))"
proof -
  note lay = sl_relD(1) [OF rel]
  obtain A B0 where xs0: "xs = A @ B0" and sp: "splits_at (sl_heap L) dat A B0" using split_exists [OF layeredD(3) [OF lay]] .
  obtain c B where B0: "B0 = c # B" and c: "s_data (sl_heap L c) = dat"
    using split_found [OF lay [unfolded xs0] sp] dat by (auto simp: sl_values_def xs0)
  note xs = xs0 [unfolded B0]
  note rel = rel [unfolded xs] and lay = lay [unfolded xs] and sp = sp [unfolded B0]
  define P n S where "P = pred_at (sl_heap L) (sl_head L) A" and "n = s_height (sl_heap L c)" and "S = (\<lambda>l. s_skip (sl_heap L c) ! l)"
  define h where "h = unlinked P S n (marked_off c (sl_heap L))"
  have out: "P l \<in> set (sl_head L # A)" for l using pred_at_in [of "sl_heap L" "sl_head L" A l] by (auto simp: P_def set_layer)
  have nc: "c \<notin> waiting elems (sl_recycler L)" "c < rc_brk (sl_recycler L)" "length (s_skip (sl_heap L c)) = n" "n \<le> sl_height L" "P l \<noteq> c" for l
    using sl_relD(4,7,8) [OF rel, of c] layeredD(5) [OF lay, of c] layeredD(2) [OF lay] out [of l] by (auto simp: n_def)
  have "h x = sl_heap L x" if x: "x \<in> waiting elems (sl_recycler L)" for x
  proof -
    have "x \<notin> P ` {..<n}" "x \<noteq> c" using x out sl_relD(8) [OF rel] nc(1) by auto
    then show ?thesis unfolding h_def by (simp add: unlinked_sel(1) marked_off_sel(1))
  qed
  then have "rc_ok elems h (sl_height L) (sl_recycler L)" by (intro rc_ok_frame [OF sl_relD(11) [OF rel]]) simp_all
  moreover have "h c = marked_off c (sl_heap L) c" unfolding h_def using nc(5) by (intro unlinked_sel(1)) auto
  then have "idle_node (sl_height L) n (h c)" using nc(3,4) by (simp add: idle_node_def marked_off_sel n_def)
  ultimately obtain R' where R': "recycler_push I n c (sl_recycler L) = Inr R'" "rc_ok elems h (sl_height L) R'"
      "waiting elems R' = insert c (waiting elems (sl_recycler L))" "rc_refs R' = rc_refs (sl_recycler L)" "rc_brk R' = rc_brk (sl_recycler L)"
    using recycler_push_eq [of h "sl_height L" "sl_recycler L" n c] nc(1,2,4) sl_relD(3,12) [OF rel] max_height by auto
  note defs = h_def P_def n_def S_def
  show ?thesis
    using xs c remove_run [OF rel sp c R'(1) [unfolded defs]] remove_rel [OF rel R'(2-5) [unfolded defs]]
    by (intro exI conjI) (assumption | simp)+
qed

end

section \<open>Lookups\<close>

lemma layer_down: "p \<in> set (p0 # layer h l A) \<Longrightarrow> m \<le> l \<Longrightarrow> p \<in> set (p0 # layer h m A)"
  by (auto simp: set_layer)

lemma succ_bottom:
  assumes "layered h p0 H (A @ B)"
  shows "succ_at h B 0 = hd_opt B"
  using layer_0 [of B h] layeredD(4) [OF assms] by (simp add: succ_at_def)

text \<open>The next node is beyond the value: the search is at the split.\<close>

lemma skip_beyond:
  assumes "layered h p0 H (A @ B)" "splits_at h dat A B" "l < H" "p \<in> set (p0 # layer h l A)" "sl_less dat h (s_skip (h p) ! l)"
  shows "s_skip (h p) ! l = succ_at h B l"
proof -
  have "\<not> sl_greater dat h (s_skip (h p) ! l)" using assms(5) by (auto simp: sl_less_def sl_greater_def split: option.splits)
  then show ?thesis using walk_layer(2) [OF assms(1-4)] by (auto simp: walk_right.simps)
qed

lemma pred_at_below: "pred_at h p0 A l \<in> set (p0 # layer h (l - 1) A)"
  using layer_down [OF pred_at_in, of "l - 1" l] by simp

lemma descend_eq:
  assumes lay: "layered h p0 H (A @ B)" and sp: "splits_at h dat A B"
  shows "ht \<le> H \<Longrightarrow> ht = 0 \<longrightarrow> node = hd_opt B \<Longrightarrow> p \<in> set (p0 # layer h (ht - 1) A) \<Longrightarrow> found_layer h dat B < int ht \<Longrightarrow>
    \<exists>k node'. descend h dat p ht node = Inr (k, node') \<and> k \<le> ht \<and> found_layer h dat B < int k
      \<and> (if k = 0 then node' = hd_opt B else node' = s_skip (h p) ! (k - 1))"
proof (induction ht arbitrary: node)
  case (Suc ht)
  have l: "ht < H" "p \<in> set (p0 # layer h ht A)" using Suc.prems by simp_all
  note w = walk_layer(1) [OF lay sp l]
  show ?case
  proof (cases "sl_less dat h (s_skip (h p) ! ht)")
    case True
    then have eq: "s_skip (h p) ! ht = succ_at h B ht" using skip_beyond [OF lay sp l] by blast
    then have "found_layer h dat B < int ht" using succ_less [OF lay sp] True by simp
    moreover have "ht = 0 \<longrightarrow> s_skip (h p) ! ht = hd_opt B" using eq succ_bottom [OF lay] by auto
    moreover have "p \<in> set (p0 # layer h (ht - 1) A)" using layer_down [OF l(2)] by simp
    ultimately obtain k node' where "descend h dat p ht (s_skip (h p) ! ht) = Inr (k, node')" "k \<le> ht" "found_layer h dat B < int k"
        "if k = 0 then node' = hd_opt B else node' = s_skip (h p) ! (k - 1)"
      using Suc.IH [of "s_skip (h p) ! ht"] l(1) by auto
    then show ?thesis using w True by (intro exI [of _ k] exI [of _ node']) simp
  next
    case False
    then show ?thesis using w Suc.prems(4) by simp
  qed
qed simp

lemma down_right_eq:
  assumes lay: "layered h p0 H (A @ B)" and sp: "splits_at h dat A B"
  shows "ht \<le> H \<Longrightarrow> ht = 0 \<longrightarrow> node = hd_opt B \<Longrightarrow> p \<in> set (p0 # layer h (ht - 1) A) \<Longrightarrow> found_layer h dat B < int ht \<Longrightarrow>
    down_right h dat p ht node = Some (Inr (hd_opt B, 0 \<le> found_layer h dat B))"
proof (induction ht arbitrary: p node rule: less_induct)
  case (less ht)
  obtain k node' where d: "descend h dat p ht node = Inr (k, node')" "k \<le> ht" "found_layer h dat B < int k"
      "if k = 0 then node' = hd_opt B else node' = s_skip (h p) ! (k - 1)"
    using descend_eq [OF lay sp less.prems] by blast
  show ?case
  proof (cases k)
    case 0
    then show ?thesis using d by (simp add: down_right.simps)
  next
    case (Suc j)
    have j: "j < H" "p \<in> set (p0 # layer h j A)" using Suc d(2) less.prems(1,3) layer_down [of p p0 h "ht - 1" A j] by auto
    have w: "walk_right h dat j p node' = Some (Inr (pred_at h p0 A j, succ_at h B j))"
      using walk_layer(2) [OF lay sp j] d(4) Suc by simp
    show ?thesis
    proof (cases "found_layer h dat B < int j")
      case True
      have "down_right h dat (pred_at h p0 A j) j (succ_at h B j) = Some (Inr (hd_opt B, 0 \<le> found_layer h dat B))"
        using True Suc d(2) less.prems(1) succ_bottom [OF lay] by (intro less.IH pred_at_below) auto
      then show ?thesis
        using d(1) Suc w True succ_less [OF lay sp] by (subst down_right.simps) (simp add: diverge_def)
    next
      case False
      then have "\<not> sl_less dat h (hd_opt B)" "succ_at h B j = hd_opt B"
        using succ_less [OF lay sp, of j] succ_found [of j h dat B] by simp_all
      then show ?thesis
        using d(1) Suc w False by (subst down_right.simps) (simp add: diverge_def)
    qed
  qed
qed

text \<open>The variant that walks right first gives the same answer.\<close>

lemma right_down_eq:
  assumes lay: "layered h p0 H (A @ B)" and sp: "splits_at h dat A B"
  shows "ht \<le> H \<Longrightarrow> ht = 0 \<longrightarrow> node = hd_opt B \<Longrightarrow> p \<in> set (p0 # layer h (ht - 1) A) \<Longrightarrow> found_layer h dat B < int ht \<Longrightarrow>
    right_down h dat ht p node = Inr (hd_opt B, 0 \<le> found_layer h dat B)"
proof (induction ht arbitrary: p node)
  case (Suc ht)
  have l: "ht < H" "p \<in> set (p0 # layer h ht A)" using Suc.prems by simp_all
  note w = walk_layer [OF lay sp l]
  note pred_at_below [of h p0 A ht]
  moreover have "ht = 0 \<longrightarrow> succ_at h B ht = hd_opt B" using succ_bottom [OF lay] by simp
  ultimately show ?case
    using Suc.IH [of "succ_at h B ht" "pred_at h p0 A ht"] w l(1) succ_less [OF lay sp, of ht] succ_found [of ht h dat B]
    by (auto simp: diverge_def)
qed simp

text \<open>The way to the last node.\<close>

lemma walk_end_eq:
  "spath h l (s_skip (h p) ! l) as \<Longrightarrow> l < s_height (h p) \<Longrightarrow> walk_end h l p = Some (Inr (last (p # as)))"
  by (induction "as" arbitrary: p) (auto simp: walk_end.simps skip_def)

lemma last_loop_eq:
  assumes lay: "layered h p0 H xs"
  shows "n \<le> H \<Longrightarrow> p \<in> set (p0 # layer h (n - 1) xs) \<Longrightarrow> (n = 0 \<longrightarrow> p = last (p0 # xs)) \<Longrightarrow> last_loop h n p = Inr (last (p0 # xs))"
proof (induction n arbitrary: p)
  case (Suc l)
  have l: "l < H" "p \<in> set (p0 # layer h l xs)" using Suc.prems by simp_all
  then obtain pre post where s: "p0 # layer h l xs = pre @ p # post" by (meson split_list)
  have "spath h l (s_skip (h p) ! l) post \<and> l < s_height (h p)"
    using s l layeredD(1) [OF lay] layeredD(6) [OF lay l(1)] spath_drop [of h l "s_skip (h p0) ! l" "tl pre" p post]
    by (cases pre) auto
  moreover have "last (p # post) = pred_at h p0 xs l" unfolding pred_at_def s by simp
  ultimately have "walk_end h l p = Some (Inr (pred_at h p0 xs l))" using walk_end_eq by metis
  moreover have "last_loop h l (pred_at h p0 xs l) = Inr (last (p0 # xs))"
    using l(1) pred_at_below [of h p0 xs l] layer_0 [of xs h] layeredD(4) [OF lay]
    by (intro Suc.IH) (auto simp: pred_at_def)
  ultimately show ?case by (simp add: diverge_def)
qed simp

lemma next_unmarked_alive: "(\<And>a. n = Some a \<Longrightarrow> \<not> markedForRemoval (h a)) \<Longrightarrow> next_unmarked h n = Some (Inr n)"
  by (cases n) (simp_all add: next_unmarked.simps)

lemmas iterator_defs = csl_iterator_equal_def csl_iterator_dereference_def csl_iterator_increment_def acc_end_def

lemma iterate_eq:
  assumes "spath h 0 n as" "\<forall>a \<in> set as. \<not> markedForRemoval (h a)"
  shows "iterate h n = Some (Inr (map (\<lambda>a. s_data (h a)) as))"
  using assms
proof (induction "as" arbitrary: n)
  case (Cons a as)
  have "s_skip (h a) ! 0 = hd_opt as" using Cons.prems(1) spath_start [of h 0 _ "[]" as] by auto
  then have "next_unmarked h (s_skip (h a) ! 0) = Some (Inr (s_skip (h a) ! 0))"
    using Cons.prems(2) by (intro next_unmarked_alive) (cases "as"; simp)
  then show ?case using Cons by (subst iterate.simps) (simp add: iterator_defs node_next_def skip_def diverge_def)
qed (simp add: iterate.simps iterator_defs)

section \<open>What the lookups answer\<close>

lemma findNode_split:
  assumes rel: "sl_rel I elems L (A @ B)" and sp: "splits_at (sl_heap L) dat A B"
  shows "findNode L dat = Inr (hd_opt B, dat \<in> set (sl_values L (A @ B)))"
    and "findNodeRightDown L dat = Inr (hd_opt B, dat \<in> set (sl_values L (A @ B)))"
proof -
  note lay = sl_relD(1) [OF rel]
  have fl: "found_layer (sl_heap L) dat B < int (sl_height L)"
    using layeredD(5) [OF lay] sl_relD(2) [OF rel] by (fastforce simp: found_layer_def split: list.splits)
  have "0 \<le> found_layer (sl_heap L) dat B \<longleftrightarrow> (\<exists>c B'. B = c # B' \<and> s_data (sl_heap L c) = dat)"
    using layeredD(4) [OF lay] by (cases B) (auto simp: found_layer_def Suc_le_eq)
  then have found: "0 \<le> found_layer (sl_heap L) dat B \<longleftrightarrow> dat \<in> set (sl_values L (A @ B))"
    using split_found [OF lay sp] by (simp add: sl_values_def image_Un)
  show "findNode L dat = Inr (hd_opt B, dat \<in> set (sl_values L (A @ B)))"
    using down_right_eq [OF lay sp, of "sl_height L" None "sl_head L"] sl_relD(2) [OF rel] fl found
    by (simp add: findNode_def diverge_def)
  show "findNodeRightDown L dat = Inr (hd_opt B, dat \<in> set (sl_values L (A @ B)))"
    using right_down_eq [OF lay sp, of "sl_height L" None "sl_head L"] sl_relD(2) [OF rel] fl found
    by (simp add: findNodeRightDown_def)
qed

lemma sl_set_splitE:
  assumes "sl_set I elems L S"
  obtains A B where "sl_rel I elems L (A @ B)" "splits_at (sl_heap L) dat A B" "S = set (sl_values L (A @ B))"
  using assms split_exists layeredD(3) [OF sl_relD(1)] unfolding sl_set_def by metis

lemma findNode_variants:
  assumes "sl_set I elems L S"
  shows "findNodeRightDown L dat = findNode L dat"
  by (rule sl_set_splitE [OF assms, of dat]) (simp add: findNode_split)

text \<open>The least value that is not smaller.\<close>

lemma split_bound:
  assumes rel: "sl_rel I elems L (A @ B)" and sp: "splits_at (sl_heap L) dat A B"
  shows "map_option (\<lambda>a. s_data (sl_heap L a)) (hd_opt B) =
    (if \<exists>x \<in> set (sl_values L (A @ B)). dat \<le> x then Some (Min {x \<in> set (sl_values L (A @ B)). dat \<le> x}) else None)"
proof (cases B)
  case Nil
  then show ?thesis using sp by (auto simp: splits_at_def sl_values_def not_le [symmetric])
next
  case (Cons c B')
  let ?d = "\<lambda>a. s_data (sl_heap L a)"
  have c: "\<forall>b \<in> set B'. ?d c < ?d b" using layeredD(3) [OF sl_relD(1) [OF rel]] Cons by (simp add: sorted_wrt_append)
  have "{x \<in> set (sl_values L (A @ B)). dat \<le> x} = ?d ` set B"
    using sp by (auto simp: splits_at_def sl_values_def)
  moreover have "Min (?d ` set B) = ?d c"
    unfolding Cons using c by (intro Min_eqI) (auto intro: less_imp_le)
  moreover have "dat \<le> ?d c" using sp Cons by (simp add: splits_at_def)
  ultimately show ?thesis using Cons by (auto simp: sl_values_def)
qed

lemma sl_find_ok:
  assumes "sl_set I elems L S"
  shows "\<exists>n. sl_find L dat = Inr n \<and> (n \<noteq> None \<longleftrightarrow> dat \<in> S) \<and> (\<forall>a. n = Some a \<longrightarrow> s_data (sl_heap L a) = dat)"
proof (rule sl_set_splitE [OF assms, of dat])
  fix A B assume rel: "sl_rel I elems L (A @ B)" and sp: "splits_at (sl_heap L) dat A B" and S: "S = set (sl_values L (A @ B))"
  have "(\<exists>c B'. B = c # B' \<and> s_data (sl_heap L c) = dat) \<longleftrightarrow> dat \<in> S"
    using split_found [OF sl_relD(1) [OF rel] sp] S by (simp add: sl_values_def image_Un)
  then show ?thesis using findNode_split(1) [OF rel sp] sl_relD(6) [OF rel] S
    by (cases B) (auto simp: sl_find_def)
qed

lemma acc_contains_ok: "sl_set I elems L S \<Longrightarrow> acc_contains L dat = Inr (dat \<in> S)"
  using sl_find_ok [of I elems L S dat] by (auto simp: acc_contains_def)

lemma sl_lower_bound_ok:
  assumes "sl_set I elems L S"
  shows "rmap (map_option (\<lambda>a. s_data (sl_heap L a))) (sl_lower_bound L dat) =
    Inr (if \<exists>x \<in> S. dat \<le> x then Some (Min {x \<in> S. dat \<le> x}) else None)"
proof (rule sl_set_splitE [OF assms, of dat])
  fix A B assume rel: "sl_rel I elems L (A @ B)" and sp: "splits_at (sl_heap L) dat A B" and S: "S = set (sl_values L (A @ B))"
  have "next_unmarked (sl_heap L) (hd_opt B) = Some (Inr (hd_opt B))"
    using sl_relD(6) [OF rel] by (intro next_unmarked_alive) (cases B; auto)
  then have "sl_lower_bound L dat = Inr (hd_opt B)" by (simp add: sl_lower_bound_def findNode_split(1) [OF rel sp] diverge_def)
  then show ?thesis using split_bound [OF rel sp] S by simp
qed

lemma sorted_ends:
  assumes "sl_rel I elems L xs" "xs \<noteq> []"
  shows "s_data (sl_heap L (hd xs)) = Min (set (sl_values L xs))" "s_data (sl_heap L (last xs)) = Max (set (sl_values L xs))"
proof -
  have s: "sorted_wrt (<) (sl_values L xs)" using layeredD(3) [OF sl_relD(1) [OF assms(1)]] by (simp add: sl_values_def)
  have ne: "sl_values L xs \<noteq> []" using assms(2) by (simp add: sl_values_def)
  have "hd (sl_values L xs) = Min (set (sl_values L xs))"
    using s ne by (cases "sl_values L xs") (auto intro!: Min_eqI [symmetric] simp: less_imp_le)
  then show "s_data (sl_heap L (hd xs)) = Min (set (sl_values L xs))" using assms(2) by (simp add: sl_values_def hd_map)
  have "last (sl_values L xs) = Max (set (sl_values L xs))"
    using s ne by (cases "sl_values L xs" rule: rev_cases) (auto intro!: Max_eqI [symmetric] simp: less_imp_le sorted_wrt_append)
  then show "s_data (sl_heap L (last xs)) = Max (set (sl_values L xs))" using assms(2) by (simp add: sl_values_def last_map)
qed

lemma sl_ends_ok:
  assumes "sl_set I elems L S"
  shows "sl_first L = Inr (if S = {} then None else Some (Min S))" "sl_last L = Inr (if S = {} then None else Some (Max S))"
proof -
  obtain xs where rel: "sl_rel I elems L xs" and S: "S = set (sl_values L xs)" using assms by (auto simp: sl_set_def)
  note lay = sl_relD(1) [OF rel]
  have "spath (sl_heap L) 0 (s_skip (sl_heap L (sl_head L)) ! 0) xs"
    using layeredD(4) [OF lay] layeredD(6) [OF lay sl_relD(2) [OF rel]] layer_0 [of xs "sl_heap L"] by simp
  then have "skip (sl_heap L) (sl_head L) 0 = Inr (hd_opt xs)"
    using spath_start [of "sl_heap L" 0 _ "[]" xs] sl_relD(2) [OF rel] by (auto simp: skip_def sl_height_def)
  then show "sl_first L = Inr (if S = {} then None else Some (Min S))"
    using sorted_ends(1) [OF rel] S by (cases xs) (auto simp: sl_first_def sl_values_def)
  have "last_loop (sl_heap L) (sl_height L) (sl_head L) = Inr (last (sl_head L # xs))"
    using sl_relD(2) [OF rel] by (intro last_loop_eq [OF lay]) auto
  moreover have "last xs \<noteq> sl_head L" if "xs \<noteq> []" using layeredD(2) [OF lay] last_in_set [OF that] by auto
  ultimately show "sl_last L = Inr (if S = {} then None else Some (Max S))"
    using sorted_ends(2) [OF rel] S by (cases "xs = []") (auto simp: sl_last_def sl_values_def)
qed

lemma iterate_ok:
  assumes "sl_set I elems L S"
  shows "rbind (acc_begin L) (\<lambda>it. diverge (iterate (sl_heap L) it)) = Inr (sorted_list_of_set S)"
proof -
  obtain xs where rel: "sl_rel I elems L xs" and S: "S = set (sl_values L xs)" using assms by (auto simp: sl_set_def)
  note lay = sl_relD(1) [OF rel]
  have path: "spath (sl_heap L) 0 (s_skip (sl_heap L (sl_head L)) ! 0) xs"
    using layeredD(4) [OF lay] layeredD(6) [OF lay sl_relD(2) [OF rel]] layer_0 [of xs "sl_heap L"] by simp
  then have first: "s_skip (sl_heap L (sl_head L)) ! 0 = hd_opt xs" using spath_start [of _ _ _ "[]" xs] by force
  have "next_unmarked (sl_heap L) (hd_opt xs) = Some (Inr (hd_opt xs))"
    using sl_relD(6) [OF rel] by (intro next_unmarked_alive) (cases xs; auto)
  then have "acc_begin L = Inr (hd_opt xs)"
    using first sl_relD(2) [OF rel] by (simp add: acc_begin_def node_next_def skip_def sl_height_def diverge_def)
  moreover have "iterate (sl_heap L) (hd_opt xs) = Some (Inr (sl_values L xs))"
    using iterate_eq [of "sl_heap L" "hd_opt xs" xs] path first sl_relD(6) [OF rel] by (simp add: sl_values_def)
  ultimately show ?thesis using sl_values_sorted(1) [OF rel] S by (simp add: diverge_def)
qed

context skip_nodes
begin

lemma sl_remove_ok:
  assumes "sl_set I elems L S"
  shows "\<exists>L'. sl_remove I dat L = Inr (dat \<in> S, L') \<and> sl_set I elems L' (S - {dat})"
proof -
  obtain xs where rel: "sl_rel I elems L xs" and S: "S = set (sl_values L xs)" using assms by (auto simp: sl_set_def)
  show ?thesis
  proof (cases "dat \<in> S")
    case True
    then obtain L' A c B where r: "xs = A @ c # B" "s_data (sl_heap L c) = dat" "sl_remove I dat L = Inr (True, L')"
        "sl_rel I elems L' (A @ B)" "\<forall>x \<in> set (A @ B). s_data (sl_heap L' x) = s_data (sl_heap L x)"
      using remove_found [OF rel] S by blast
    have "distinct (sl_values L xs)"
      using layeredD(3) [OF sl_relD(1) [OF rel]] by (simp add: sl_values_def strict_sorted_iff)
    then have "S - {dat} = set (sl_values L' (A @ B))" using r(1,2,5) S by (auto simp: sl_values_def)
    then show ?thesis using r(3,4) True by (auto simp: sl_set_def)
  next
    case False
    then show ?thesis using remove_missing [OF rel] S assms by simp
  qed
qed

lemma pop_back_ok:
  assumes "sl_set I elems L S"
  shows "\<exists>L'. acc_pop_back I L = Inr (S \<noteq> {}, L') \<and> sl_set I elems L' (S - {Max S})"
  using sl_ends_ok(2) [OF assms] sl_remove_ok [OF assms, of "Max S"] sl_set_size [OF assms] assms
  by (cases "S = {}") (auto simp: acc_pop_back_def)

end

end
