(* ===== verification/Hcl_Skip_Spec.thy ===== *)
theory Hcl_Skip_Spec
  imports Hcl_Skip_Set Hcl_Service
begin

text \<open>
  What the skip list promises: a sorted set, for any sequence of operations of its accessor, from the
  constructor to the destructor.
\<close>

section \<open>Construction and destruction\<close>

context skip_nodes
begin

lemma ctor_ok:
  assumes "1 \<le> height" "height \<le> si_max I"
  shows "\<exists>L. ConcurrentSkipList_ctor I height h base = Inr L \<and> sl_set I elems (Accessor_ctor L) {} \<and> sl_height L = height"
proof -
  let ?R = "NodeRecycler_ctor I base"
  have "rc_ok elems h 0 ?R" by (simp add: rc_ok_def NodeRecycler_ctor_def elems_new)
  then obtain a h1 R1 where run: "recycler_pop I height True h ?R = Inr (a, h1, R1)" and t: "taken elems 0 height h ?R a h1 R1"
      and flags: "s_flags (h1 a) = IS_HEAD_NODE"
    using recycler_pop_eq [of h 0 ?R height True] assms max_height by auto
  then have pop: "recycler_pop I height True h ?R = Inr (a, h1, R1)" "rc_ok elems h1 0 R1" "a \<notin> waiting elems R1"
      "a < rc_brk R1" "rc_refs R1 = 0" "idle_node 0 height (h1 a)" "s_flags (h1 a) = IS_HEAD_NODE"
    using takenD(1-5) [OF t] by (simp_all add: NodeRecycler_ctor_def)
  define L where "L = \<lparr>sl_recycler = R1, sl_head = a, sl_size = 0, sl_heap = h1\<rparr>"
  have ctor: "ConcurrentSkipList_ctor I height h base = Inr L" using pop(1) by (simp add: ConcurrentSkipList_ctor_def L_def)
  have idle: "s_height (h1 a) = height" "s_skip (h1 a) = replicate height None" "\<not> s_lock (h1 a)" "\<not> markedForRemoval (h1 a)"
    using pop(6,7) assms(1) by (auto simp: idle_node_def markedForRemoval_def)
  have "rc_ok elems h1 height R1" using rc_ok_frame [OF pop(2)] by simp
  then have "sl_rel I elems (Accessor_ctor L) []"
    using idle pop(3-5) assms
    by (simp add: sl_rel_def Accessor_ctor_def recycler_addRef_def L_def sl_height_def layered_def rc_ok_def waiting_def)
  then have "sl_set I elems (Accessor_ctor L) {}" by (auto simp: sl_set_def sl_values_def)
  then show ?thesis using ctor idle(1) by (simp add: L_def sl_height_def)
qed

lemma create_ok:
  "1 \<le> height \<Longrightarrow> height \<le> si_max I \<Longrightarrow> \<exists>L. sl_create I height h base = Inr L \<and> sl_set I elems L {}"
  using ctor_ok [of height h base] by (auto simp: sl_create_def sl_createInstance_def)

end

text \<open>A node that was given back by \<open>recycle\<close> is destroyed once: by the last accessor, and not again by the destructor.\<close>

lemma recycled_destroyed_once:
  assumes "recycler_add node R = Inr R'" "rc_refs R = 1"
  shows "NodeRecycler_dtor R' = Inl Assert_Failed" "NodeRecycler_dtor (recycler_releaseRef I R') = Inr []"
  using assms by (auto simp: recycler_add_def recycler_releaseRef_def NodeRecycler_dtor_def Let_def)

lemma destroy_eq: "spath h 0 n as \<Longrightarrow> destroy_loop h n = Some (Inr as)"
  by (induction "as" arbitrary: n) (auto simp: destroy_loop.simps skip_def)

lemma dtor_ok:
  assumes rel: "sl_rel I elems L xs"
  shows "ConcurrentSkipList_dtor L = Inr (sl_head L # xs)"
proof -
  note lay = sl_relD(1) [OF rel]
  have "spath (sl_heap L) 0 (Some (sl_head L)) (sl_head L # xs)"
    using layeredD(4) [OF lay] layeredD(6) [OF lay sl_relD(2) [OF rel]] layer_0 [of xs "sl_heap L"] sl_relD(2) [OF rel]
    by (simp add: sl_height_def)
  from destroy_eq [OF this] show ?thesis by (simp add: ConcurrentSkipList_dtor_def diverge_def)
qed

section \<open>Sequences of operations\<close>

text \<open>Simulation as long as the abstract state is smaller than a bound; a step makes it larger by at most one.\<close>

locale bounded_simulation =
  fixes exec :: "'x \<Rightarrow> 'w \<Rightarrow> ('o \<times> 'w) result" and step :: "'x \<Rightarrow> 'a \<Rightarrow> 'o \<times> 'a"
    and inv :: "'w \<Rightarrow> bool" and view :: "'w \<Rightarrow> 'a" and valid :: "'w \<Rightarrow> 'x \<Rightarrow> bool" and bulk :: "'a \<Rightarrow> nat" and bound :: nat
  assumes simulates: "inv w \<Longrightarrow> valid w x \<Longrightarrow> bulk (view w) < bound \<Longrightarrow>
      \<exists>w'. exec x w = Inr (fst (step x (view w)), w') \<and> inv w' \<and> view w' = snd (step x (view w)) \<and> valid w' = valid w"
    and grows: "bulk (snd (step x a)) \<le> Suc (bulk a)"
begin

lemma bounded_run:
  assumes "inv w" "\<forall>x \<in> set xs. valid w x" "bulk (view w) + length xs \<le> bound"
  shows "\<exists>w'. run_cmds exec xs w = Inr (fst (run_spec step xs (view w)), w') \<and> inv w'
    \<and> view w' = snd (run_spec step xs (view w))"
  using assms
proof (induction xs arbitrary: w)
  case (Cons x xs)
  then obtain w1 where w1: "exec x w = Inr (fst (step x (view w)), w1)" "inv w1"
      "view w1 = snd (step x (view w))" "valid w1 = valid w"
    using simulates [of w x] by auto
  moreover have "bulk (view w1) + length xs \<le> bound" using w1(3) grows [of x "view w"] Cons.prems(3) by simp
  then obtain w2 where "run_cmds exec xs w1 = Inr (fst (run_spec step xs (view w1)), w2)" "inv w2"
      "view w2 = snd (run_spec step xs (view w1))"
    using Cons.IH [OF w1(2)] Cons.prems w1(4) by auto
  ultimately show ?case by (auto simp: Let_def case_prod_beta)
qed simp

end

text \<open>The operations of the accessor. An insertion carries the samples of the random generator.\<close>

datatype 'a sl_cmd =
  Sl_Add 'a "nat \<Rightarrow> real" | Sl_Remove 'a | Sl_Contains 'a | Sl_Lower_Bound 'a | Sl_First | Sl_Last | Sl_Pop_Back | Sl_Size
| Sl_Iterate

datatype 'a sl_out = Sl_Bool bool | Sl_Value "'a option" | Sl_Count u64 | Sl_List "'a list"

primrec sl_exec ::
  "('a::linorder, 'q) sl_inst \<Rightarrow> 'a sl_cmd \<Rightarrow> ('a, 'q) skip_list \<Rightarrow> ('a sl_out \<times> ('a, 'q) skip_list) result" where
  "sl_exec I (Sl_Add x ps) L = rmap (\<lambda>(b, L). (Sl_Bool b, L)) (acc_add I x ps L)"
| "sl_exec I (Sl_Remove x) L = rmap (\<lambda>(b, L). (Sl_Bool b, L)) (acc_remove I x L)"
| "sl_exec I (Sl_Contains x) L = rmap (\<lambda>b. (Sl_Bool b, L)) (acc_contains L x)"
| "sl_exec I (Sl_Lower_Bound x) L =
     rmap (\<lambda>n. (Sl_Value (map_option (\<lambda>a. s_data (sl_heap L a)) n), L)) (acc_lower_bound L x)"
| "sl_exec I Sl_First L = rmap (\<lambda>v. (Sl_Value v, L)) (acc_first L)"
| "sl_exec I Sl_Last L = rmap (\<lambda>v. (Sl_Value v, L)) (acc_last L)"
| "sl_exec I Sl_Pop_Back L = rmap (\<lambda>(b, L). (Sl_Bool b, L)) (acc_pop_back I L)"
| "sl_exec I Sl_Size L = Inr (Sl_Count (acc_size L), L)"
| "sl_exec I Sl_Iterate L = rmap (\<lambda>xs. (Sl_List xs, L)) (rbind (acc_begin L) (\<lambda>it. diverge (iterate (sl_heap L) it)))"

primrec sl_step :: "'a::linorder sl_cmd \<Rightarrow> 'a set \<Rightarrow> 'a sl_out \<times> 'a set" where
  "sl_step (Sl_Add x ps) S = (Sl_Bool (x \<notin> S), insert x S)"
| "sl_step (Sl_Remove x) S = (Sl_Bool (x \<in> S), S - {x})"
| "sl_step (Sl_Contains x) S = (Sl_Bool (x \<in> S), S)"
| "sl_step (Sl_Lower_Bound x) S = (Sl_Value (if \<exists>y \<in> S. x \<le> y then Some (Min {y \<in> S. x \<le> y}) else None), S)"
| "sl_step Sl_First S = (Sl_Value (if S = {} then None else Some (Min S)), S)"
| "sl_step Sl_Last S = (Sl_Value (if S = {} then None else Some (Max S)), S)"
| "sl_step Sl_Pop_Back S = (Sl_Bool (S \<noteq> {}), S - {Max S})"
| "sl_step Sl_Size S = (Sl_Count (of_nat (card S)), S)"
| "sl_step Sl_Iterate S = (Sl_List (sorted_list_of_set S), S)"

text \<open>The set that a list denotes is what \<open>contains\<close> says it is.\<close>

definition sl_inv :: "('a::linorder, 'q) sl_inst \<Rightarrow> ('q \<Rightarrow> ptr list) \<Rightarrow> ('a, 'q) skip_list \<Rightarrow> bool" where
  "sl_inv I elems L \<longleftrightarrow> (\<exists>S. sl_set I elems L S)"

definition sl_view :: "('a::linorder, 'q) skip_list \<Rightarrow> 'a set" where
  "sl_view L = {x. acc_contains L x = Inr True}"

lemma sl_view_eq: "sl_set I elems L S \<Longrightarrow> sl_view L = S"
  by (simp add: sl_view_def acc_contains_ok)

lemma sl_inv_set: "sl_inv I elems L \<Longrightarrow> sl_set I elems L (sl_view L)"
  using sl_view_eq by (metis sl_inv_def)

lemma sl_step_grows: "card (snd (sl_step x S)) \<le> Suc (card S)"
  by (cases x) (auto simp: card_insert_if le_SucI card_Diff1_le intro: card_insert_le_m1)

abbreviation sl_capacity :: nat where "sl_capacity \<equiv> 2 ^ 64 - 1"

context skip_nodes
begin

lemma sl_exec_ok:
  assumes "sl_set I elems L S" "card S < sl_capacity"
  shows "\<exists>L'. sl_exec I x L = Inr (fst (sl_step x S), L') \<and> sl_set I elems L' (snd (sl_step x S))"
proof (cases x)
  case (Sl_Add y ps)
  then show ?thesis using addOrGetData_ok [OF assms(1), of y ps] assms(2) by (auto simp: acc_add_def split: if_splits)
next
  case (Sl_Remove y)
  then show ?thesis using sl_remove_ok [OF assms(1), of y] by (auto simp: acc_remove_def)
next
  case (Sl_Contains y)
  then show ?thesis using acc_contains_ok [OF assms(1)] assms(1) by simp
next
  case (Sl_Lower_Bound y)
  then show ?thesis using sl_lower_bound_ok [OF assms(1), of y] assms(1)
    by (cases "sl_lower_bound L y") (auto simp: acc_lower_bound_def)
next
  case Sl_First
  then show ?thesis using sl_ends_ok(1) [OF assms(1)] assms(1) by (simp add: acc_first_def)
next
  case Sl_Last
  then show ?thesis using sl_ends_ok(2) [OF assms(1)] assms(1) by (simp add: acc_last_def)
next
  case Sl_Pop_Back
  then show ?thesis using pop_back_ok [OF assms(1)] by auto
next
  case Sl_Size
  then show ?thesis using sl_set_size [OF assms(1)] assms(1) by (simp add: acc_size_def)
next
  case Sl_Iterate
  then show ?thesis using iterate_ok [OF assms(1)] assms(1) by (simp del: rbind_simps)
qed

end

sublocale skip_nodes \<subseteq> sl: bounded_simulation "sl_exec I" sl_step "sl_inv I elems" sl_view "\<lambda>_ _. True" card sl_capacity
proof
  fix w x
  assume "sl_inv I elems w" "card (sl_view w) < sl_capacity"
  from sl_exec_ok [OF sl_inv_set [OF this(1)] this(2), of x]
  show "\<exists>w'. sl_exec I x w = Inr (fst (sl_step x (sl_view w)), w') \<and> sl_inv I elems w'
      \<and> sl_view w' = snd (sl_step x (sl_view w)) \<and> (\<lambda>_. True) = (\<lambda>_. True)"
    using sl_view_eq unfolding sl_inv_def by blast
qed (rule sl_step_grows)

context skip_nodes
begin

lemmas sl_runs = sl.bounded_run

end

section \<open>An instance\<close>

text \<open>Lists as queues, at most \<open>m\<close> layers (24 is the default of the class).\<close>

abbreviation list_skip :: "'a::linorder \<Rightarrow> nat \<Rightarrow> (nat \<Rightarrow> real) \<Rightarrow> (nat \<Rightarrow> u64) \<Rightarrow> ('a, ptr list) sl_inst" where
  "list_skip d m tbl limits \<equiv> \<lparr>si_ops = list_lfq_ops, si_default = d, si_max = m, si_lookup = tbl, si_limit = limits\<rparr>"

interpretation lskip: skip_nodes "list_skip d 24 tbl limits" "\<lambda>q. q"
  for d :: "'a::linorder" and tbl limits
  unfolding skip_nodes_def skip_nodes_axioms_def by (simp add: llfq.reliable_queue_axioms)

section \<open>Properties\<close>

text \<open>
  C11. The skip list is a sorted set: from any well-formed list, a sequence of \<^verbatim>\<open>add\<close>, \<^verbatim>\<open>remove\<close>, \<^verbatim>\<open>contains\<close>,
  \<^verbatim>\<open>lower_bound\<close>, \<^verbatim>\<open>first\<close>, \<^verbatim>\<open>last\<close>, \<^verbatim>\<open>pop_back\<close>, \<^verbatim>\<open>size\<close> and traversals by iterator succeeds, whatever the random
  generator gives, answers as a set does and leaves the list well-formed; the traversal gives the values in
  increasing order. The only limit is that the 64-bit size does not wrap.
\<close>

theorem skip_list_refines_set:
  assumes "skip_nodes I elems" "sl_inv I elems L" "card (sl_view L) + length xs < 2 ^ 64"
  shows "\<exists>L'. run_cmds (sl_exec I) xs L = Inr (fst (run_spec sl_step xs (sl_view L)), L') \<and> sl_inv I elems L'
    \<and> sl_view L' = snd (run_spec sl_step xs (sl_view L))"
  using skip_nodes.sl_runs [OF assms(1,2), of xs] assms(3) by simp

theorem skip_list_refines_set_witness:
  "\<exists>L L' :: (nat, ptr list) skip_list.
    ConcurrentSkipList_ctor (list_skip 0 24 (\<lambda>_. 0) (\<lambda>_. 1)) 2 (\<lambda>_. fresh_node 0 0) 0 = Inr L \<and>
    run_cmds (sl_exec (list_skip 0 24 (\<lambda>_. 0) (\<lambda>_. 1)))
      [Sl_Add 5 (\<lambda>_. 0), Sl_Add 3 (\<lambda>_. 0), Sl_Add 5 (\<lambda>_. 0), Sl_Iterate, Sl_Lower_Bound 4, Sl_Remove 3, Sl_Contains 3,
       Sl_Size, Sl_Pop_Back, Sl_Last] (Accessor_ctor L) =
    Inr ([Sl_Bool True, Sl_Bool True, Sl_Bool False, Sl_List [3, 5], Sl_Value (Some 5), Sl_Bool True, Sl_Bool False,
       Sl_Count 1, Sl_Bool True, Sl_Value None], L')"
proof -
  let ?I = "list_skip 0 24 (\<lambda>_. 0) (\<lambda>_. 1) :: (nat, ptr list) sl_inst"
  obtain L where L: "ConcurrentSkipList_ctor ?I 2 (\<lambda>_. fresh_node 0 0) 0 = Inr L" "sl_set ?I (\<lambda>q. q) (Accessor_ctor L) {}"
    using lskip.ctor_ok [of 2 0 "\<lambda>_. 0" "\<lambda>_. 1" "\<lambda>_. fresh_node 0 0" 0] by auto
  have "sl_inv ?I (\<lambda>q. q) (Accessor_ctor L)" "sl_view (Accessor_ctor L) = {}"
    using L(2) sl_view_eq [OF L(2)] by (auto simp: sl_inv_def)
  moreover have "{y. (y = 5 \<or> y = 3 \<or> y = 5) \<and> 4 \<le> y} = {5 :: nat}" by auto
  ultimately show ?thesis
    using skip_list_refines_set [OF lskip.skip_nodes_axioms, of 0 "\<lambda>_. 0" "\<lambda>_. 1" "Accessor_ctor L" "[Sl_Add 5 (\<lambda>_. 0), Sl_Add 3 (\<lambda>_. 0),
        Sl_Add 5 (\<lambda>_. 0), Sl_Iterate, Sl_Lower_Bound 4, Sl_Remove 3, Sl_Contains 3, Sl_Size, Sl_Pop_Back, Sl_Last]"] L(1)
    by (auto simp: Let_def insert_Diff_if simp del: run_cmds.simps)
qed

text \<open>
  C15. A node is freed once: the destructor of a well-formed list terminates and frees the head and one node
  per value, all different and none of them among the nodes that wait in the recycler, which the last
  accessor frees.
\<close>

theorem skip_list_freed_once:
  assumes "sl_inv I elems L"
  shows "\<exists>as. ConcurrentSkipList_dtor L = Inr as \<and> distinct as \<and> length as = card (sl_view L) + 1
    \<and> set as \<inter> waiting elems (sl_recycler L) = {}"
proof -
  obtain xs where rel: "sl_rel I elems L xs" and S: "sl_view L = set (sl_values L xs)"
    using sl_inv_set [OF assms] by (auto simp: sl_set_def)
  have "distinct (sl_head L # xs)" by (rule layeredD(2) [OF sl_relD(1) [OF rel]])
  moreover have "set (sl_head L # xs) \<inter> waiting elems (sl_recycler L) = {}" using sl_relD(8) [OF rel] by blast
  ultimately show ?thesis using dtor_ok [OF rel] sl_values_sorted(2) [OF rel] S by simp
qed

theorem skip_list_freed_once_witness:
  "\<exists>L :: (nat, ptr list) skip_list. \<exists>as.
    ConcurrentSkipList_ctor (list_skip 0 24 (\<lambda>_. 0) (\<lambda>_. 1)) 2 (\<lambda>_. fresh_node 0 0) 0 = Inr L \<and>
    ConcurrentSkipList_dtor (Accessor_ctor L) = Inr as \<and> length as = 1"
proof -
  let ?I = "list_skip 0 24 (\<lambda>_. 0) (\<lambda>_. 1) :: (nat, ptr list) sl_inst"
  obtain L where L: "ConcurrentSkipList_ctor ?I 2 (\<lambda>_. fresh_node 0 0) 0 = Inr L" "sl_set ?I (\<lambda>q. q) (Accessor_ctor L) {}"
    using lskip.ctor_ok [of 2 0 "\<lambda>_. 0" "\<lambda>_. 1" "\<lambda>_. fresh_node 0 0" 0] by auto
  then have "sl_inv ?I (\<lambda>q. q) (Accessor_ctor L)" "sl_view (Accessor_ctor L) = {}"
    using sl_view_eq [OF L(2)] by (auto simp: sl_inv_def)
  then show ?thesis using L(1) skip_list_freed_once [of ?I "\<lambda>q. q" "Accessor_ctor L"] by auto
qed

end
