(* ===== verification/Hcl_Skipper.thy ===== *)
theory Hcl_Skipper
  imports Hcl_Skip_Spec
begin

text \<open>
  \<^verbatim>\<open>ConcurrentSkipList::Skipper\<close> (\<^verbatim>\<open>skip_list_accessor.h\<close>): a cursor that keeps, for every layer, a
  predecessor and its successor, so that a search for a larger value starts where the last one ended.
\<close>

section \<open>The class\<close>

record skipper =
  sk_headHeight :: nat
  sk_succs :: "nat \<Rightarrow> ptr option"
  sk_preds :: "nat \<Rightarrow> ptr option"
  sk_hints :: "nat \<Rightarrow> nat"

fun init_layers ::
  "'a sheap \<Rightarrow> ptr \<Rightarrow> nat list \<Rightarrow> (nat \<Rightarrow> ptr option) \<Rightarrow> (nat \<Rightarrow> ptr option)
     \<Rightarrow> ((nat \<Rightarrow> ptr option) \<times> (nat \<Rightarrow> ptr option)) result" where
  "init_layers h head_node [] preds succs = Inr (preds, succs)"
| "init_layers h head_node (i # is) preds succs =
     rbind (skip h head_node i) (\<lambda>n. init_layers h head_node is (preds(i := Some head_node)) (succs(i := n)))"

definition init_hints :: "nat \<Rightarrow> nat \<Rightarrow> nat" where
  "init_hints max_layer i = (if i < max_layer then (i + 1) mod 256 else if i = max_layer then max_layer mod 256 else 0)"

definition sk_init :: "('a, 'q) skip_list \<Rightarrow> skipper result" where
  "sk_init L =
     (let head_node = sl_head L; headHeight = s_height (sl_heap L head_node) in
      rmap (\<lambda>(preds, succs). \<lparr>sk_headHeight = headHeight, sk_succs = succs, sk_preds = preds, sk_hints = init_hints (headHeight - 1)\<rparr>)
        (init_layers (sl_heap L) head_node [0..<headHeight] (\<lambda>_. None) (\<lambda>_. None)))"

text \<open>The cursor holds an accessor of the list.\<close>

definition Skipper_ctor :: "('a, 'q) skip_list \<Rightarrow> (skipper \<times> ('a, 'q) skip_list) result" where
  "Skipper_ctor L = rmap (\<lambda>K. (K, Accessor_ctor L)) (sk_init (Accessor_ctor L))"

definition sk_good :: "skipper \<Rightarrow> bool" where
  "sk_good K \<longleftrightarrow> sk_succs K 0 \<noteq> None"

definition sk_maxLayer :: "skipper \<Rightarrow> nat" where
  "sk_maxLayer K = sk_headHeight K - 1"

definition curHeight :: "'a sheap \<Rightarrow> skipper \<Rightarrow> nat" where
  "curHeight h K = (case sk_succs K 0 of Some a \<Rightarrow> min (sk_headHeight K) (s_height (h a)) | None \<Rightarrow> 0)"

definition sk_data :: "'a sheap \<Rightarrow> skipper \<Rightarrow> 'a result" where
  "sk_data h K = (case sk_succs K 0 of None \<Rightarrow> Inl Assert_Failed | Some a \<Rightarrow> Inr (s_data (h a)))"

text \<open>The layers above the bottom whose successor is the node \<open>c\<close> that the cursor passes.\<close>

fun advance ::
  "'a sheap \<Rightarrow> ptr \<Rightarrow> nat list \<Rightarrow> (nat \<Rightarrow> ptr option) \<Rightarrow> (nat \<Rightarrow> ptr option)
     \<Rightarrow> ((nat \<Rightarrow> ptr option) \<times> (nat \<Rightarrow> ptr option)) result" where
  "advance h c [] preds succs = Inr (preds, succs)"
| "advance h c (i # is) preds succs =
     (if Some c = succs i then rbind (skip h c i) (\<lambda>n. advance h c is (preds(i := Some c)) (succs(i := n)))
      else Inr (preds, succs))"

definition sk_next :: "'a sheap \<Rightarrow> skipper \<Rightarrow> skipper result" where
  "sk_next h K =
     (case sk_succs K 0 of
        None \<Rightarrow> Inl Null_Deref
      | Some c \<Rightarrow> rbind (skip h c 0) (\<lambda>n.
          let K = K\<lparr>sk_preds := (sk_preds K)(0 := Some c), sk_succs := (sk_succs K)(0 := n)\<rparr>
          in rmap (\<lambda>(preds, succs). K\<lparr>sk_preds := preds, sk_succs := succs\<rparr>)
               (advance h c [1..<curHeight h K] (sk_preds K) (sk_succs K))))"

function climb :: "'a::linorder sheap \<Rightarrow> 'a \<Rightarrow> (nat \<Rightarrow> ptr option) \<Rightarrow> nat \<Rightarrow> nat \<Rightarrow> nat" where
  "climb h dat succs max_layer lyr =
     (if sl_greater dat h (succs lyr) \<and> lyr < max_layer then climb h dat succs max_layer (Suc lyr) else lyr)"
  by auto
termination by (relation "measure (\<lambda>(h, dat, succs, m, l). m - l)") auto

declare climb.simps [simp del]

definition sk_to :: "'a::linorder sheap \<Rightarrow> 'a \<Rightarrow> skipper \<Rightarrow> (bool \<times> skipper) result" where
  "sk_to h dat K =
     (if curHeight h K = 0 then Inr (False, K)
      else let layer = curHeight h K - 1;
               lyr = climb h dat (sk_succs K) (sk_maxLayer K) (sk_hints K layer);
               K = K\<lparr>sk_hints := (sk_hints K)(layer := lyr mod 256)\<rparr>
           in (case sk_preds K lyr of
                 None \<Rightarrow> Inl Null_Deref
               | Some p \<Rightarrow>
                   rbind (findInsertionPoint h p lyr dat (sk_preds K) (sk_succs K)) (\<lambda>(foundLayer, preds, succs).
                     let K = K\<lparr>sk_preds := preds, sk_succs := succs\<rparr>
                     in if foundLayer < 0 then Inr (False, K)
                        else (case succs 0 of None \<Rightarrow> Inl Assert_Failed
                              | Some a \<Rightarrow> Inr (\<not> markedForRemoval (h a), K)))))"

section \<open>The invariant\<close>

text \<open>
  Layer by layer the cursor is at a link of the list, and \<open>low\<close> holds of the values of its predecessors: it can
  be moved forward to a value above them.
\<close>

definition link_at ::
  "('a::linorder, 'q) skip_list \<Rightarrow> ptr list \<Rightarrow> ('a \<Rightarrow> bool) \<Rightarrow> (nat \<Rightarrow> ptr option) \<Rightarrow> (nat \<Rightarrow> ptr option) \<Rightarrow> nat \<Rightarrow> bool" where
  "link_at L xs low preds succs i \<longleftrightarrow> (\<exists>p. preds i = Some p \<and> p \<in> set (sl_head L # layer (sl_heap L) i xs)
     \<and> succs i = s_skip (sl_heap L p) ! i \<and> (p = sl_head L \<or> low (s_data (sl_heap L p))))"

definition skipper_ok :: "('a::linorder, 'q) skip_list \<Rightarrow> ptr list \<Rightarrow> ('a \<Rightarrow> bool) \<Rightarrow> skipper \<Rightarrow> bool" where
  "skipper_ok L xs low K \<longleftrightarrow> sk_headHeight K = sl_height L \<and> (\<forall>i < sl_height L. sk_hints K i < sl_height L)
     \<and> (\<forall>i < sl_height L. link_at L xs low (sk_preds K) (sk_succs K) i)"

lemma link_atE:
  assumes "link_at L xs low preds succs i"
  obtains p where "preds i = Some p" "p \<in> set (sl_head L # layer (sl_heap L) i xs)" "s_skip (sl_heap L p) ! i = succs i"
    "p = sl_head L \<or> low (s_data (sl_heap L p))"
  using assms unfolding link_at_def by metis

lemma skipper_link: "skipper_ok L xs low K \<Longrightarrow> i < sl_height L \<Longrightarrow> link_at L xs low (sk_preds K) (sk_succs K) i"
  by (simp add: skipper_ok_def)

lemma skipper_mono: "skipper_ok L xs low K \<Longrightarrow> (\<And>x. low x \<Longrightarrow> low' x) \<Longrightarrow> skipper_ok L xs low' K"
  unfolding skipper_ok_def link_at_def by metis

lemma climb_range: "lyr \<le> m \<Longrightarrow> climb h dat succs m lyr \<le> m"
  by (induction h dat succs m lyr rule: climb.induct) (subst climb.simps, auto)

lemma init_layers_eq:
  "\<forall>i \<in> set is. i < s_height (h a) \<Longrightarrow> init_layers h a is preds succs =
     Inr (\<lambda>i. if i \<in> set is then Some a else preds i, \<lambda>i. if i \<in> set is then s_skip (h a) ! i else succs i)"
  by (induction "is" arbitrary: preds succs) (auto simp: skip_def fun_eq_iff)

lemma init_ok:
  assumes "sl_rel I elems L xs" "si_max I < 64"
  shows "\<exists>K. sk_init L = Inr K \<and> skipper_ok L xs low K"
proof -
  have "\<forall>i \<in> set [0..<sl_height L]. i < s_height (sl_heap L (sl_head L))" by (simp add: sl_height_def)
  note init = init_layers_eq [of "[0..<sl_height L]" "sl_heap L" "sl_head L", OF this]
  have "init_hints (sl_height L - 1) i < sl_height L" if "i < sl_height L" for i
    using that sl_relD(3) [OF assms(1)] assms(2) by (auto simp: init_hints_def)
  then show ?thesis by (auto simp: sk_init_def init Let_def skipper_ok_def link_at_def simp flip: sl_height_def)
qed

section \<open>Moving the cursor\<close>

lemma link_succ:
  assumes rel: "sl_rel I elems L xs" and i: "i < sl_height L" and p: "p \<in> set (sl_head L # layer (sl_heap L) i xs)"
    and c: "s_skip (sl_heap L p) ! i = Some c"
  shows "c \<in> set (layer (sl_heap L) i xs)" "i < s_height (sl_heap L c)"
proof -
  note lay = sl_relD(1) [OF rel]
  obtain pre post where s: "sl_head L # layer (sl_heap L) i xs = pre @ p # post" using p by (meson split_list)
  have "spath (sl_heap L) i (Some (sl_head L)) (pre @ p # post)"
    unfolding s [symmetric] using layeredD(6) [OF lay i] i by (simp add: sl_height_def)
  then have "spath (sl_heap L) i (s_skip (sl_heap L p) ! i) post" using spath_drop by blast
  then have "c \<in> set post" using c by (cases post) auto
  then show "c \<in> set (layer (sl_heap L) i xs)" using s by (cases pre) auto
  then show "i < s_height (sl_heap L c)" by (simp add: set_layer)
qed

lemma advance_ok:
  assumes rel: "sl_rel I elems L xs" and c: "low (s_data (sl_heap L c))" and "is": "\<forall>i \<in> set is. i < sl_height L"
  shows "\<forall>i < sl_height L. link_at L xs low preds succs i \<Longrightarrow>
    \<exists>preds' succs'. advance (sl_heap L) c is preds succs = Inr (preds', succs')
      \<and> (\<forall>i < sl_height L. link_at L xs low preds' succs' i) \<and> (\<forall>i. i \<notin> set is \<longrightarrow> preds' i = preds i \<and> succs' i = succs i)"
  using "is"
proof (induction "is" arbitrary: preds succs)
  case (Cons i "is")
  have i: "i < sl_height L" using Cons.prems(2) by simp
  show ?case
  proof (cases "Some c = succs i")
    case True
    then obtain p where "p \<in> set (sl_head L # layer (sl_heap L) i xs)" "s_skip (sl_heap L p) ! i = Some c"
      using link_atE [OF Cons.prems(1) [rule_format, OF i]] by metis
    note c' = link_succ [OF rel i this]
    let ?P = "preds(i := Some c)" and ?S = "succs(i := s_skip (sl_heap L c) ! i)"
    have links: "\<forall>j < sl_height L. link_at L xs low ?P ?S j"
      using Cons.prems(1) c c'(1) by (auto simp: link_at_def)
    have "\<forall>i \<in> set is. i < sl_height L" using Cons.prems(2) by simp
    from Cons.IH [of ?P ?S, OF links this] obtain P S where "advance (sl_heap L) c is ?P ?S = Inr (P, S)"
        "\<forall>j < sl_height L. link_at L xs low P S j" "\<forall>j. j \<notin> set is \<longrightarrow> P j = ?P j \<and> S j = ?S j"
      by blast
    then show ?thesis using True c'(2) by (auto simp: skip_def)
  next
    case False
    then show ?thesis using Cons.prems(1) by auto
  qed
qed simp

lemma next_ok:
  assumes rel: "sl_rel I elems L xs" and ok: "skipper_ok L xs low K" and c: "sk_succs K 0 = Some c"
    and low': "\<And>x. low x \<Longrightarrow> low' x" "low' (s_data (sl_heap L c))"
  shows "\<exists>K'. sk_next (sl_heap L) K = Inr K' \<and> skipper_ok L xs low' K' \<and> sk_succs K' 0 = s_skip (sl_heap L c) ! 0"
proof -
  have ok': "skipper_ok L xs low' K" using skipper_mono [OF ok low'(1)] .
  have H: "0 < sl_height L" by (rule sl_relD(2) [OF rel])
  then obtain p where "p \<in> set (sl_head L # layer (sl_heap L) 0 xs)" "s_skip (sl_heap L p) ! 0 = Some c"
    using link_atE [OF skipper_link [OF ok H]] c by metis
  note c' = link_succ [OF rel H this]
  define K1 where "K1 = K\<lparr>sk_preds := (sk_preds K)(0 := Some c), sk_succs := (sk_succs K)(0 := s_skip (sl_heap L c) ! 0)\<rparr>"
  have links: "\<forall>i < sl_height L. link_at L xs low' (sk_preds K1) (sk_succs K1) i"
    using ok' c'(1) low'(2) by (auto simp: skipper_ok_def link_at_def K1_def)
  have "\<forall>i \<in> set [1..<curHeight (sl_heap L) K1]. i < sl_height L"
    using ok by (auto simp: curHeight_def K1_def skipper_ok_def split: option.splits)
  from advance_ok [OF rel low'(2) this links] obtain P S where
    adv: "advance (sl_heap L) c [1..<curHeight (sl_heap L) K1] (sk_preds K1) (sk_succs K1) = Inr (P, S)"
      "\<forall>i < sl_height L. link_at L xs low' P S i" "S 0 = sk_succs K1 0" by auto
  have "sk_next (sl_heap L) K = Inr (K1\<lparr>sk_preds := P, sk_succs := S\<rparr>)"
    using c c'(2) adv(1) by (simp add: sk_next_def skip_def Let_def K1_def)
  moreover have "skipper_ok L xs low' (K1\<lparr>sk_preds := P, sk_succs := S\<rparr>)"
    using ok' adv(2) by (simp add: skipper_ok_def K1_def)
  ultimately show ?thesis using adv(3) by (auto simp: K1_def)
qed

lemma link_left:
  assumes "splits_at (sl_heap L) dat A B" "p \<in> set (sl_head L # layer (sl_heap L) i (A @ B))" "p = sl_head L \<or> s_data (sl_heap L p) < dat"
  shows "p \<in> set (sl_head L # layer (sl_heap L) i A)"
  using assms by (auto simp: splits_at_def set_layer)

text \<open>A cursor without a successor is at the end, and every value is smaller.\<close>

lemma cursor_at_end:
  assumes rel: "sl_rel I elems L (A @ B)" and sp: "splits_at (sl_heap L) dat A B" and ok: "skipper_ok L (A @ B) (\<lambda>x. x < dat) K"
    and "curHeight (sl_heap L) K = 0"
  shows "B = []" "sk_succs K 0 = None"
proof -
  note lay = sl_relD(1) [OF rel] and H = sl_relD(2) [OF rel]
  show none: "sk_succs K 0 = None"
  proof (rule ccontr)
    assume "sk_succs K 0 \<noteq> None"
    then obtain c where c: "sk_succs K 0 = Some c" by blast
    then obtain p where "p \<in> set (sl_head L # layer (sl_heap L) 0 (A @ B))" "s_skip (sl_heap L p) ! 0 = Some c"
      using link_atE [OF skipper_link [OF ok H]] by metis
    from link_succ(2) [OF rel H this] show False using assms(4) c H ok by (simp add: curHeight_def skipper_ok_def)
  qed
  then obtain p where p: "p \<in> set (sl_head L # layer (sl_heap L) 0 (A @ B))" "s_skip (sl_heap L p) ! 0 = None"
      "p = sl_head L \<or> s_data (sl_heap L p) < dat"
    using link_atE [OF skipper_link [OF ok H]] by metis
  show "B = []"
    using skip_beyond [OF lay sp H link_left [OF sp p(1,3)]] p(2) succ_bottom [OF lay] by (cases B) (auto simp: sl_less_def)
qed

text \<open>The search from the link of one layer downwards.\<close>

lemma cursor_search:
  assumes rel: "sl_rel I elems L (A @ B)" and sp: "splits_at (sl_heap L) dat A B" and lyr: "lyr < sl_height L"
    and p: "p \<in> set (sl_head L # layer (sl_heap L) lyr A)"
  defines "fl \<equiv> min (found_layer (sl_heap L) dat B) (int lyr)"
  shows "findInsertionPoint (sl_heap L) p lyr dat preds succs = Inr (if 0 \<le> fl then fl else - 1,
    \<lambda>l. if l < Suc lyr then Some (pred_at (sl_heap L) (sl_head L) A l) else preds l,
    \<lambda>l. if l < Suc lyr then succ_at (sl_heap L) B l else succs l)"
proof -
  have "\<forall>l < Suc lyr. fl < int l \<longleftrightarrow> found_layer (sl_heap L) dat B < int l" by (auto simp: fl_def)
  moreover have "\<not> int (Suc lyr) \<le> fl" by (simp add: fl_def)
  ultimately have "insertion_loop (sl_heap L) dat (Suc lyr) p (- 1) None preds succs = Inr (if 0 \<le> fl then fl else - 1,
      \<lambda>l. if l < Suc lyr then Some (pred_at (sl_heap L) (sl_head L) A l) else preds l,
      \<lambda>l. if l < Suc lyr then succ_at (sl_heap L) B l else succs l)"
    using insertion_loop_eq [OF sl_relD(1) [OF rel] sp, of "Suc lyr" fl "Suc lyr" p preds succs] p lyr
    by (simp only: if_False diff_Suc_1 Suc_leI simp_thms order_refl)
  then show ?thesis by (simp add: findInsertionPoint_def)
qed

lemma to_ok:
  assumes rel: "sl_rel I elems L (A @ B)" and sp: "splits_at (sl_heap L) dat A B" and ok: "skipper_ok L (A @ B) low K"
    and low: "\<And>x. low x \<Longrightarrow> x < dat"
  shows "\<exists>K'. sk_to (sl_heap L) dat K = Inr (dat \<in> set (sl_values L (A @ B)), K') \<and> skipper_ok L (A @ B) (\<lambda>x. x < dat) K'
    \<and> sk_succs K' 0 = hd_opt B"
proof -
  note lay = sl_relD(1) [OF rel] and H = sl_relD(2) [OF rel]
  let ?h = "sl_heap L" and ?H = "sl_height L"
  have ok: "skipper_ok L (A @ B) (\<lambda>x. x < dat) K" by (rule skipper_mono [OF ok]) (rule low)
  have found: "dat \<in> set (sl_values L (A @ B)) \<longleftrightarrow> 0 \<le> found_layer ?h dat B"
    using split_found [OF lay sp] layeredD(4) [OF lay] by (cases B) (auto simp: sl_values_def found_layer_def Suc_le_eq image_Un)
  show ?thesis
  proof (cases "curHeight ?h K = 0")
    case True
    then show ?thesis using ok found cursor_at_end [OF rel sp ok True] by (simp add: sk_to_def found_layer_def)
  next
    case False
    define ly lyr where "ly = curHeight ?h K - 1" and "lyr = climb ?h dat (sk_succs K) (sk_maxLayer K) (sk_hints K ly)"
    have "curHeight ?h K \<le> ?H" using ok by (simp add: curHeight_def skipper_ok_def split: option.splits)
    then have "ly < ?H" using False by (simp add: ly_def)
    then have "sk_hints K ly \<le> sk_maxLayer K" using ok by (fastforce simp: skipper_ok_def sk_maxLayer_def)
    from climb_range [OF this, of ?h dat "sk_succs K"] have lyr: "lyr < ?H" using ok H by (simp add: lyr_def sk_maxLayer_def skipper_ok_def)
    obtain p where p: "sk_preds K lyr = Some p" "p \<in> set (sl_head L # layer ?h lyr A)"
      using link_atE [OF skipper_link [OF ok lyr]] link_left [OF sp] by metis
    let ?P = "\<lambda>l. if l < Suc lyr then Some (pred_at ?h (sl_head L) A l) else sk_preds K l"
    let ?S = "\<lambda>l. if l < Suc lyr then succ_at ?h B l else sk_succs K l"
    define K' where "K' = K\<lparr>sk_hints := (sk_hints K)(ly := lyr mod 256), sk_preds := ?P, sk_succs := ?S\<rparr>"
    have zero: "?S 0 = hd_opt B" using succ_bottom [OF lay] by simp
    have "link_at L (A @ B) (\<lambda>x. x < dat) ?P ?S i" if i: "i < ?H" for i
      using pred_links(3) [OF rel i] pred_at_in [of ?h "sl_head L" A i] sp skipper_link [OF ok i]
      by (cases "i < Suc lyr") (auto simp: link_at_def splits_at_def set_layer)
    then have "skipper_ok L (A @ B) (\<lambda>x. x < dat) K'"
      using ok lyr by (simp add: skipper_ok_def K'_def order_le_less_trans [OF mod_less_eq_dividend])
    moreover have "sk_to ?h dat K = Inr (dat \<in> set (sl_values L (A @ B)), K')"
    proof (cases B)
      case Nil
      then show ?thesis
        using False p(1) cursor_search [OF rel sp lyr p(2)] found
        unfolding sk_to_def Let_def ly_def [symmetric] lyr_def [symmetric] by (simp add: K'_def found_layer_def)
    next
      case (Cons c B')
      then have "\<not> markedForRemoval (?h c)" using sl_relD(6) [OF rel, of c] by simp
      then show ?thesis
        using False p(1) cursor_search [OF rel sp lyr p(2)] zero Cons found
        unfolding sk_to_def Let_def ly_def [symmetric] lyr_def [symmetric] by (auto simp: K'_def min_def)
    qed
    ultimately show ?thesis using zero by (auto simp: K'_def)
  qed
qed

section \<open>Searching forward\<close>

text \<open>A sequence of searches; after a value that is found, the flag asks for \<^verbatim>\<open>++\<close>.\<close>

fun sk_walk :: "'a::linorder sheap \<Rightarrow> ('a \<times> bool) list \<Rightarrow> skipper \<Rightarrow> (bool list \<times> skipper) result" where
  "sk_walk h [] K = Inr ([], K)"
| "sk_walk h ((x, inc) # xs) K =
     rbind (sk_to h x K) (\<lambda>(b, K). rbind (if b \<and> inc then sk_next h K else Inr K) (\<lambda>K.
       rmap (\<lambda>(bs, K). (b # bs, K)) (sk_walk h xs K)))"

lemma walk_ok:
  assumes rel: "sl_rel I elems L ns"
  shows "sorted_wrt (<) (map fst xs) \<Longrightarrow> skipper_ok L ns low K \<Longrightarrow> (\<And>x y inc. (y, inc) \<in> set xs \<Longrightarrow> low x \<Longrightarrow> x < y) \<Longrightarrow>
    \<exists>K'. sk_walk (sl_heap L) xs K = Inr (map (\<lambda>(x, inc). x \<in> set (sl_values L ns)) xs, K')"
proof (induction xs arbitrary: K low)
  case (Cons e xs)
  obtain x inc where e: "e = (x, inc)" by fastforce
  obtain A B where ns: "ns = A @ B" "splits_at (sl_heap L) x A B" using split_exists [OF layeredD(3) [OF sl_relD(1) [OF rel]]] .
  have "skipper_ok L (A @ B) low K" using Cons.prems(2) ns(1) by simp
  moreover have "d < x" if "low d" for d using Cons.prems(3) [of x inc d] that e by simp
  ultimately obtain K1 where
    K1: "sk_to (sl_heap L) x K = Inr (x \<in> set (sl_values L ns), K1)" "skipper_ok L ns (\<lambda>d. d < x) K1" "sk_succs K1 0 = hd_opt B"
    using to_ok [OF rel [unfolded ns(1)] ns(2), of low K] ns(1) by auto
  have "\<exists>K2. (if x \<in> set (sl_values L ns) \<and> inc then sk_next (sl_heap L) K1 else Inr K1) = Inr K2 \<and> skipper_ok L ns (\<lambda>d. d \<le> x) K2"
  proof (cases "x \<in> set (sl_values L ns) \<and> inc")
    case True
    then obtain c B' where c: "B = c # B'" "s_data (sl_heap L c) = x"
      using split_found [OF sl_relD(1) [OF rel [unfolded ns(1)]] ns(2)] by (auto simp: sl_values_def ns(1))
    then have "sk_succs K1 0 = Some c" using K1(3) by simp
    from next_ok [OF rel K1(2) this, of "\<lambda>d. d \<le> x"] c(2) True show ?thesis by (auto simp: less_imp_le)
  next
    case False
    then show ?thesis using skipper_mono [OF K1(2), of "\<lambda>d. d \<le> x"] by (auto simp: less_imp_le)
  qed
  then obtain K2 where K2: "(if x \<in> set (sl_values L ns) \<and> inc then sk_next (sl_heap L) K1 else Inr K1) = Inr K2"
      "skipper_ok L ns (\<lambda>d. d \<le> x) K2" by blast
  have "\<exists>K'. sk_walk (sl_heap L) xs K2 = Inr (map (\<lambda>(x, inc). x \<in> set (sl_values L ns)) xs, K')"
    using Cons.prems(1) e by (intro Cons.IH [OF _ K2(2)]) force+
  then show ?case using K1(1) K2(1) e by auto
qed simp

section \<open>Properties\<close>

text \<open>
  C14. The cursor is an exact search: over any well-formed list, a new \<^verbatim>\<open>Skipper\<close> that is asked for increasing values,
  and advanced by \<^verbatim>\<open>++\<close> over the ones it finds wherever the caller likes, answers for each whether it is in
  the list, although each search starts at the place and the layer that the last one left.
\<close>

theorem skipper_searches_forward:
  assumes "sl_inv I elems L" "si_max I < 64" "sorted_wrt (<) (map fst xs)"
  shows "\<exists>K L' K'. Skipper_ctor L = Inr (K, L') \<and> sl_heap L' = sl_heap L
    \<and> sk_walk (sl_heap L) xs K = Inr (map (\<lambda>(x, inc). x \<in> sl_view L) xs, K')"
proof -
  obtain ns where rel: "sl_rel I elems L ns" and S: "sl_view L = set (sl_values L ns)"
    using sl_inv_set [OF assms(1)] by (auto simp: sl_set_def)
  obtain K where "sk_init L = Inr K" "skipper_ok L ns (\<lambda>_. False) K" using init_ok [OF rel assms(2)] by blast
  moreover have "sk_init (Accessor_ctor L) = sk_init L" by (simp add: sk_init_def Accessor_ctor_def)
  ultimately show ?thesis using walk_ok [OF rel assms(3), of "\<lambda>_. False" K] S
    by (auto simp: Skipper_ctor_def) (simp add: Accessor_ctor_def)
qed

theorem skipper_searches_forward_witness:
  "\<exists>L :: (nat, ptr list) skip_list. \<exists>K L' K'. sl_view L = {5} \<and> Skipper_ctor L = Inr (K, L')
    \<and> sk_walk (sl_heap L) [(3, True), (5, True), (7, False)] K = Inr ([False, True, False], K')"
proof -
  let ?I = "list_skip 0 24 (\<lambda>_. 0) (\<lambda>_. 1) :: (nat, ptr list) sl_inst"
  obtain L0 where "sl_set ?I (\<lambda>q. q) (Accessor_ctor L0) {}"
    using lskip.ctor_ok [of 2 0 "\<lambda>_. 0" "\<lambda>_. 1" "\<lambda>_. fresh_node 0 0" 0] by auto
  then obtain L where L: "sl_set ?I (\<lambda>q. q) L {5}"
    using lskip.addOrGetData_ok [of 0 "\<lambda>_. 0" "\<lambda>_. 1" "Accessor_ctor L0" "{}" 5 "\<lambda>_. 0"] by auto
  then have "sl_inv ?I (\<lambda>q. q) L" "sl_view L = {5}" using sl_view_eq [OF L] by (auto simp: sl_inv_def)
  then show ?thesis
    using skipper_searches_forward [of ?I "\<lambda>q. q" L "[(3, True), (5, True), (7, False)]"]
    by (auto simp del: sk_walk.simps)
qed

end
