(* ===== verification/Hcl_Skip_Locks.thy ===== *)
theory Hcl_Skip_Locks
  imports Hcl_Skip_Layers "HOL-Library.Option_ord"
begin

text \<open>
  The node locks of the skip list under interleaving. Each thread runs the part of
  \<^verbatim>\<open>addOrGetData\<close>, \<^verbatim>\<open>remove\<close> and \<^verbatim>\<open>growHeight\<close> (\<^verbatim>\<open>skip_list.h\<close>) that follows its search: it
  locks the predecessors it found from the bottom layer up, checks each against the window of the search, writes
  the pointers of one layer after the other and gives the locks back. One step is one access of a
  shared node, or the two writes of one layer.

  A thread enters with any window that a search may give (\<open>enters\<close>): predecessors of descending order from
  layer to layer, smaller than the value, on their layers or marked since, none of them a node that another thread has not
  yet linked at that layer. The recycler is taken to hand out nodes that no thread has in its local variables.
\<close>

section \<open>Threads\<close>

record 'a window =
  w_preds :: "nat \<Rightarrow> ptr option"
  w_succs :: "nat \<Rightarrow> ptr option"
  w_height :: nat
  w_value :: 'a
  w_target :: "ptr option"
  w_guards :: "nat \<Rightarrow> bool"

text \<open>\<open>w_value\<close> is the argument of the operation, \<open>w_target\<close> the node to remove; there is none when a node is added.\<close>

abbreviation w_adding :: "'a window \<Rightarrow> bool" where "w_adding w \<equiv> w_target w = None"

text \<open>
  The position of a thread: in the loop of \<^verbatim>\<open>lockNodesForChange\<close> before and after the lock of a layer, behind it,
  in the loops that link a new node or unlink a removed one, in the loop that releases the guards after a change
  or after a failed check, before another search for a node it has marked; before and after the lock of the
  node to mark, and after the mark; in \<^verbatim>\<open>growHeight\<close>.
\<close>

datatype 'a lpc =
    Outside
  | Locking "'a window" nat "ptr option"
  | Checking "'a window" nat ptr
  | Locked "'a window"
  | Linking "'a window" ptr nat
  | Linked "'a window" ptr
  | Unlinking "'a window" nat
  | Releasing "'a window" nat bool
  | Retrying ptr
  | Wanting "'a window" ptr
  | Marking "'a window" ptr
  | Marked "'a window" ptr
  | Growth ptr nat
  | Requesting ptr ptr
  | Growing ptr ptr
  | Copied ptr ptr
  | Retiring ptr
  | Retired ptr
  | Unlocking ptr

text \<open>\<open>lk_free\<close>: the nodes of the recycler, and the memory not yet allocated.\<close>

record 'a locks =
  lk_heap :: "'a sheap"
  lk_head :: ptr
  lk_free :: "ptr set"
  lk_pc :: "nat \<Rightarrow> 'a lpc"

text \<open>What a thread has in its local variables, and which nodes it alone writes to at a layer.\<close>

fun win_of :: "'a lpc \<Rightarrow> 'a window option" where
  "win_of (Locking w l prev) = Some w"
| "win_of (Checking w l p) = Some w"
| "win_of (Locked w) = Some w"
| "win_of (Linking w b k) = Some w"
| "win_of (Linked w b) = Some w"
| "win_of (Unlinking w k) = Some w"
| "win_of (Releasing w i d) = Some w"
| "win_of (Wanting w a) = Some w"
| "win_of (Marking w a) = Some w"
| "win_of (Marked w a) = Some w"
| "win_of _ = None"

definition remembers :: "'a lpc \<Rightarrow> nat \<Rightarrow> ptr \<Rightarrow> bool" where
  "remembers c j p \<longleftrightarrow>
     (case win_of c of None \<Rightarrow> False | Some w \<Rightarrow> j < w_height w \<and> (w_preds w j = Some p \<or> w_succs w j = Some p))"

fun own_nodes :: "'a lpc \<Rightarrow> ptr set" where
  "own_nodes (Linking w b k) = {b}"
| "own_nodes (Linked w b) = {b}"
| "own_nodes (Retrying a) = {a}"
| "own_nodes (Wanting w a) = {a}"
| "own_nodes (Marking w a) = {a}"
| "own_nodes (Marked w a) = {a}"
| "own_nodes (Growth q k) = {q}"
| "own_nodes (Requesting q b) = {q, b}"
| "own_nodes (Growing q b) = {q, b}"
| "own_nodes (Copied q b) = {q, b}"
| "own_nodes (Retiring q) = {q}"
| "own_nodes (Retired q) = {q}"
| "own_nodes (Unlocking q) = {q}"
| "own_nodes _ = {}"

definition uses :: "'a lpc \<Rightarrow> ptr set" where
  "uses c = {p. \<exists>j. remembers c j p} \<union> own_nodes c \<union> {a. \<exists>w. win_of c = Some w \<and> w_target w = Some a}"

fun unlinked_at :: "'a lpc \<Rightarrow> nat \<Rightarrow> ptr set" where
  "unlinked_at (Linking w b k) j = (if k \<le> j then {b} else {})"
| "unlinked_at (Requesting q b) j = {b}"
| "unlinked_at (Growing q b) j = {b}"
| "unlinked_at (Copied q b) j = {b}"
| "unlinked_at _ j = {}"

definition guarded :: "'a window \<Rightarrow> nat \<Rightarrow> ptr set" where
  "guarded w i = {p. \<exists>j \<ge> i. w_guards w j \<and> w_preds w j = Some p}"

text \<open>The locks a thread has taken and not given back.\<close>

fun held_by :: "'a lpc \<Rightarrow> ptr set" where
  "held_by (Locking w l prev) = guarded w 0"
| "held_by (Checking w l p) = guarded w 0"
| "held_by (Locked w) = guarded w 0"
| "held_by (Linking w b k) = guarded w 0"
| "held_by (Linked w b) = guarded w 0"
| "held_by (Unlinking w k) = guarded w 0"
| "held_by (Releasing w i d) = guarded w i"
| "held_by (Marking w a) = {a}"
| "held_by (Marked w a) = {a}"
| "held_by (Growing q b) = {q}"
| "held_by (Copied q b) = {q}"
| "held_by (Retiring q) = {q}"
| "held_by (Retired q) = {q}"
| "held_by (Unlocking q) = {q}"
| "held_by _ = {}"

text \<open>The node whose lock a thread asks for.\<close>

fun wants :: "'a lpc \<Rightarrow> ptr option" where
  "wants (Locking w l prev) = (if l < w_height w \<and> w_preds w l \<noteq> prev then w_preds w l else None)"
| "wants (Wanting w a) = Some a"
| "wants (Requesting q b) = Some q"
| "wants _ = None"

text \<open>The order of the nodes: a head comes before every other node, the others by their values.\<close>

definition node_rank :: "'a sheap \<Rightarrow> ptr \<Rightarrow> 'a option" where
  "node_rank h p = (if isHeadNode (h p) then None else Some (s_data (h p)))"

section \<open>Windows\<close>

text \<open>What a search leaves in \<^verbatim>\<open>preds\<close> and \<^verbatim>\<open>succs\<close>: a descending row of predecessors, and values on both sides of its own.\<close>

definition window_ok :: "'a::linorder sheap \<Rightarrow> nat \<Rightarrow> 'a window \<Rightarrow> bool" where
  "window_ok h M w \<longleftrightarrow> w_height w \<le> M \<and> (\<forall>a. w_target w = Some a \<longrightarrow> s_height (h a) = w_height w)
     \<and> (\<forall>j < w_height w. \<exists>p. w_preds w j = Some p \<and> j < s_height (h p))
     \<and> (\<forall>i j p q. i < j \<longrightarrow> j < w_height w \<longrightarrow> w_preds w i = Some p \<longrightarrow> w_preds w j = Some q \<longrightarrow> p \<noteq> q
          \<longrightarrow> node_rank h q < node_rank h p)"

definition values_ok :: "'a::linorder sheap \<Rightarrow> 'a window \<Rightarrow> bool" where
  "values_ok h w \<longleftrightarrow> (\<forall>k < w_height w.
     (\<forall>p. w_preds w k = Some p \<longrightarrow> node_rank h p < Some (w_value w))
     \<and> (case w_target w of
          None \<Rightarrow> \<forall>b. w_succs w k = Some b \<longrightarrow> Some (w_value w) < node_rank h b
        | Some a \<Rightarrow> w_succs w k = Some a \<and> node_rank h a = Some (w_value w)))"

text \<open>
  A node that a search meets at a layer is on that layer. It may be marked and unlinked later, or be
  the old head while the list grows.
\<close>

definition on_layer :: "'a locks \<Rightarrow> nat \<Rightarrow> ptr \<Rightarrow> bool" where
  "on_layer s k p \<longleftrightarrow> (\<exists>xs. spath (lk_heap s) k (Some (lk_head s)) xs \<and> p \<in> set xs)"

definition known :: "'a locks \<Rightarrow> nat \<Rightarrow> ptr \<Rightarrow> bool" where
  "known s k p \<longleftrightarrow> on_layer s k p \<or> markedForRemoval (lk_heap s p) \<or> (\<exists>u. lk_pc s u = Retiring p)"

abbreviation no_guards :: "nat \<Rightarrow> bool" where "no_guards \<equiv> \<lambda>_. False"

definition enters :: "nat \<Rightarrow> 'a::linorder locks \<Rightarrow> 'a window \<Rightarrow> bool" where
  "enters M s w \<longleftrightarrow> 0 < w_height w \<and> w_guards w = no_guards \<and> window_ok (lk_heap s) M w \<and> values_ok (lk_heap s) w
     \<and> (\<forall>k < w_height w. \<forall>p. w_preds w k = Some p \<longrightarrow> known s k p)
     \<and> (\<forall>k < w_height w. \<forall>p u. w_preds w k = Some p \<or> w_succs w k = Some p \<longrightarrow> p \<notin> unlinked_at (lk_pc s u) k)
     \<and> (\<forall>a. w_target w = Some a \<longrightarrow> fullyLinked (lk_heap s a) \<and> known s 0 a)"

section \<open>Steps\<close>

abbreviation goto :: "'a locks \<Rightarrow> nat \<Rightarrow> 'a sheap \<Rightarrow> 'a lpc \<Rightarrow> 'a locks" where
  "goto s t h c \<equiv> s\<lparr>lk_heap := h, lk_pc := (lk_pc s)(t := c)\<rparr>"

definition fresh :: "'a locks \<Rightarrow> ptr \<Rightarrow> bool" where
  "fresh s b \<longleftrightarrow> b \<in> lk_free s \<and> (\<forall>u. b \<notin> uses (lk_pc s u))"

text \<open>A node of the recycler: no flag but that of a head, unlocked, with a pointer for every layer.\<close>

definition popped :: "'a snode \<Rightarrow> nat \<Rightarrow> bool \<Rightarrow> bool" where
  "popped nd k ishead \<longleftrightarrow> s_height nd = k \<and> length (s_skip nd) = k \<and> \<not> s_lock nd
     \<and> s_flags nd = (if ishead then 0 OR IS_HEAD_NODE else 0)"

text \<open>From \<^verbatim>\<open>lockNodesForChange\<close> to the release of the guards, in \<^verbatim>\<open>addOrGetData\<close> and \<^verbatim>\<open>remove\<close>.\<close>

inductive lk_change :: "nat \<Rightarrow> nat \<Rightarrow> 'a::linorder locks \<Rightarrow> 'a locks \<Rightarrow> bool" for M :: nat and t :: nat where
  start: "lk_pc s t = Outside \<Longrightarrow> enters M s w \<Longrightarrow> w_adding w \<Longrightarrow>
    lk_change M t s (goto s t (lk_heap s) (Locking w 0 None))"
| retry: "lk_pc s t = Retrying a \<Longrightarrow> enters M s w \<Longrightarrow> w_target w = Some a \<Longrightarrow>
    lk_change M t s (goto s t (lk_heap s) (Locking w 0 None))"
| acquire: "lk_pc s t = Locking w l prev \<Longrightarrow> l < w_height w \<Longrightarrow> w_preds w l = Some p \<Longrightarrow> Some p \<noteq> prev \<Longrightarrow>
    acquireGuard p (lk_heap s) = Inr h \<Longrightarrow>
    lk_change M t s (goto s t h (Checking (w\<lparr>w_guards := (w_guards w)(l := True)\<rparr>) l p))"
| again: "lk_pc s t = Locking w l prev \<Longrightarrow> l < w_height w \<Longrightarrow> w_preds w l = Some p \<Longrightarrow> Some p = prev \<Longrightarrow>
    lk_change M t s (goto s t (lk_heap s) (Checking w l p))"
| check: "lk_pc s t = Checking w l p \<Longrightarrow>
    lock_loop [l] (w_preds w) (w_succs w) (w_adding w) (Some p) (w_guards w) (lk_heap s) = Inr (valid, g, h) \<Longrightarrow>
    lk_change M t s (goto s t h (if valid then Locking w (Suc l) (Some p) else Releasing w 0 False))"
| locked: "lk_pc s t = Locking w (w_height w) prev \<Longrightarrow> lk_change M t s (goto s t (lk_heap s) (Locked w))"
| take: "lk_pc s t = Locked w \<Longrightarrow> w_adding w \<Longrightarrow> fresh s b \<Longrightarrow> popped nd (w_height w) False \<Longrightarrow> s_data nd = w_value w \<Longrightarrow>
    lk_change M t s ((goto s t ((lk_heap s)(b := nd)) (Linking w b 0))\<lparr>lk_free := lk_free s - {b}\<rparr>)"
| link: "lk_pc s t = Linking w b k \<Longrightarrow> k < w_height w \<Longrightarrow>
    link_loop [k] b (w_preds w) (w_succs w) (lk_heap s) = Inr h \<Longrightarrow>
    lk_change M t s (goto s t h (Linking w b (Suc k)))"
| linked: "lk_pc s t = Linking w b (w_height w) \<Longrightarrow> lk_change M t s (goto s t (lk_heap s) (Linked w b))"
| full: "lk_pc s t = Linked w b \<Longrightarrow>
    lk_change M t s (goto s t ((lk_heap s)(b := setFlag FULLY_LINKED (lk_heap s b))) (Releasing w 0 True))"
| remove: "lk_pc s t = Locked w \<Longrightarrow> \<not> w_adding w \<Longrightarrow>
    lk_change M t s (goto s t (lk_heap s) (Unlinking w (w_height w)))"
| unlink: "lk_pc s t = Unlinking w (Suc k) \<Longrightarrow> w_target w = Some a \<Longrightarrow> unlink_loop [k] a (w_preds w) (lk_heap s) = Inr h \<Longrightarrow>
    lk_change M t s (goto s t h (Unlinking w k))"
| unlinked: "lk_pc s t = Unlinking w 0 \<Longrightarrow> lk_change M t s (goto s t (lk_heap s) (Releasing w 0 True))"
| release: "lk_pc s t = Releasing w i d \<Longrightarrow> i < M \<Longrightarrow>
    lk_change M t s (goto s t (release_guards [i] (w_guards w) (w_preds w) (lk_heap s)) (Releasing w (Suc i) d))"
| failed: "lk_pc s t = Releasing w M False \<Longrightarrow>
    lk_change M t s (goto s t (lk_heap s) (case w_target w of None \<Rightarrow> Outside | Some a \<Rightarrow> Retrying a))"
| released: "lk_pc s t = Releasing w M True \<Longrightarrow>
    lk_change M t s ((goto s t (lk_heap s) Outside)\<lparr>lk_free := lk_free s \<union> set_option (w_target w)\<rparr>)"

text \<open>The mark that \<^verbatim>\<open>remove\<close> sets on the node it found; the thread that sets it goes on with its window.\<close>

inductive lk_mark :: "nat \<Rightarrow> nat \<Rightarrow> 'a::linorder locks \<Rightarrow> 'a locks \<Rightarrow> bool" for M :: nat and t :: nat where
  want: "lk_pc s t = Outside \<Longrightarrow> enters M s w \<Longrightarrow> w_target w = Some a \<Longrightarrow>
    lk_mark M t s (goto s t (lk_heap s) (Wanting w a))"
| lock_target: "lk_pc s t = Wanting w a \<Longrightarrow> acquireGuard a (lk_heap s) = Inr h \<Longrightarrow>
    lk_mark M t s (goto s t h (Marking w a))"
| mark: "lk_pc s t = Marking w a \<Longrightarrow> \<not> markedForRemoval (lk_heap s a) \<Longrightarrow>
    lk_mark M t s (goto s t ((lk_heap s)(a := setFlag MARKED_FOR_REMOVAL (lk_heap s a))) (Marked w a))"
| marked: "lk_pc s t = Marking w a \<Longrightarrow> markedForRemoval (lk_heap s a) \<Longrightarrow>
    lk_mark M t s (goto s t (lk_heap s) (Unlocking a))"
| unlock: "lk_pc s t = Unlocking a \<Longrightarrow> lk_mark M t s (goto s t (releaseGuard a (lk_heap s)) Outside)"
| unlock_marked: "lk_pc s t = Marked w a \<Longrightarrow> lk_mark M t s (goto s t (releaseGuard a (lk_heap s)) (Locking w 0 None))"

text \<open>
  \<^verbatim>\<open>growHeight\<close>, when the head is too low. As long as the head has not grown, no node of the new
  height was ever in use, and the pointers of a new one are null. A failed exchange destroys the new head.
\<close>

inductive lk_grow :: "nat \<Rightarrow> 'a::linorder locks \<Rightarrow> 'a locks \<Rightarrow> bool" for t :: nat where
  grow: "lk_pc s t = Outside \<Longrightarrow> s_height (lk_heap s (lk_head s)) < k \<Longrightarrow>
    lk_grow t s (goto s t (lk_heap s) (Growth (lk_head s) k))"
| take_head: "lk_pc s t = Growth q k \<Longrightarrow> fresh s b \<Longrightarrow> popped nd k True \<Longrightarrow> (lk_head s = q \<longrightarrow> s_skip nd = replicate k None) \<Longrightarrow>
    lk_grow t s ((goto s t ((lk_heap s)(b := nd)) (Requesting q b))\<lparr>lk_free := lk_free s - {b}\<rparr>)"
| lock_head: "lk_pc s t = Requesting q b \<Longrightarrow> acquireGuard q (lk_heap s) = Inr h \<Longrightarrow>
    lk_grow t s (goto s t h (Growing q b))"
| copy: "lk_pc s t = Growing q b \<Longrightarrow> copyHead b q (lk_heap s) = Inr h \<Longrightarrow>
    lk_grow t s (goto s t h (Copied q b))"
| swap: "lk_pc s t = Copied q b \<Longrightarrow> lk_head s = q \<Longrightarrow>
    lk_grow t s ((goto s t (lk_heap s) (Retiring q))\<lparr>lk_head := b\<rparr>)"
| no_swap: "lk_pc s t = Copied q b \<Longrightarrow> lk_head s \<noteq> q \<Longrightarrow>
    lk_grow t s ((goto s t (lk_heap s) (Unlocking q))\<lparr>lk_free := insert b (lk_free s)\<rparr>)"
| retire: "lk_pc s t = Retiring q \<Longrightarrow>
    lk_grow t s (goto s t ((lk_heap s)(q := setFlag MARKED_FOR_REMOVAL (lk_heap s q))) (Retired q))"
| unlock_head: "lk_pc s t = Retired q \<Longrightarrow>
    lk_grow t s ((goto s t (releaseGuard q (lk_heap s)) Outside)\<lparr>lk_free := insert q (lk_free s)\<rparr>)"

definition lk_step :: "nat \<Rightarrow> nat \<Rightarrow> 'a::linorder locks \<Rightarrow> 'a locks \<Rightarrow> bool" where
  "lk_step M t s s' \<longleftrightarrow> lk_change M t s s' \<or> lk_mark M t s s' \<or> lk_grow t s s'"

lemma lk_stepI:
  "lk_change M t s s' \<Longrightarrow> lk_step M t s s'" "lk_mark M t s s' \<Longrightarrow> lk_step M t s s'" "lk_grow t s s' \<Longrightarrow> lk_step M t s s'"
  by (simp_all add: lk_step_def)

section \<open>The invariant\<close>

text \<open>The guards of the first \<open>l\<close> layers: one where the predecessor changes.\<close>

definition guards_of :: "'a window \<Rightarrow> nat \<Rightarrow> nat \<Rightarrow> bool" where
  "guards_of w l = (\<lambda>j. j < l \<and> (j = 0 \<or> w_preds w j \<noteq> w_preds w (j - 1)))"

definition valid_at :: "'a sheap \<Rightarrow> 'a window \<Rightarrow> nat \<Rightarrow> bool" where
  "valid_at h w j \<longleftrightarrow> (\<exists>p. w_preds w j = Some p \<and> \<not> markedForRemoval (h p) \<and> s_skip (h p) ! j = w_succs w j)"

definition locked_window :: "'a::linorder sheap \<Rightarrow> nat \<Rightarrow> 'a window \<Rightarrow> bool" where
  "locked_window h M w \<longleftrightarrow> window_ok h M w \<and> w_guards w = guards_of w (w_height w)"

fun phase_ok :: "'a::linorder sheap \<Rightarrow> nat \<Rightarrow> 'a lpc \<Rightarrow> bool" where
  "phase_ok h M (Locking w l prev) \<longleftrightarrow> window_ok h M w \<and> l \<le> w_height w \<and> w_guards w = guards_of w l
     \<and> prev = (if l = 0 then None else w_preds w (l - 1)) \<and> (\<forall>j < l. valid_at h w j)"
| "phase_ok h M (Checking w l p) \<longleftrightarrow> window_ok h M w \<and> l < w_height w \<and> w_preds w l = Some p
     \<and> w_guards w = guards_of w (Suc l) \<and> (\<forall>j < l. valid_at h w j)"
| "phase_ok h M (Locked w) \<longleftrightarrow> locked_window h M w \<and> (\<forall>j < w_height w. valid_at h w j)"
| "phase_ok h M (Linking w b k) \<longleftrightarrow> locked_window h M w \<and> k \<le> w_height w \<and> w_height w \<le> s_height (h b)
     \<and> (\<forall>j < w_height w. k \<le> j \<longrightarrow> valid_at h w j)"
| "phase_ok h M (Linked w b) \<longleftrightarrow> locked_window h M w"
| "phase_ok h M (Unlinking w k) \<longleftrightarrow> locked_window h M w \<and> k \<le> w_height w \<and> \<not> w_adding w \<and> (\<forall>j < k. valid_at h w j)"
| "phase_ok h M (Releasing w i d) \<longleftrightarrow> window_ok h M w \<and> i \<le> M \<and> (\<exists>m \<le> w_height w. w_guards w = guards_of w m)"
| "phase_ok h M (Wanting w a) \<longleftrightarrow> window_ok h M w \<and> w_guards w = no_guards \<and> w_target w = Some a"
| "phase_ok h M (Marking w a) \<longleftrightarrow> window_ok h M w \<and> w_guards w = no_guards \<and> w_target w = Some a"
| "phase_ok h M (Marked w a) \<longleftrightarrow> window_ok h M w \<and> w_guards w = no_guards \<and> w_target w = Some a"
| "phase_ok h M (Growth q k) \<longleftrightarrow> s_height (h q) < k"
| "phase_ok h M (Requesting q b) \<longleftrightarrow> s_height (h q) < s_height (h b)"
| "phase_ok h M (Growing q b) \<longleftrightarrow> s_height (h q) < s_height (h b)"
| "phase_ok h M _ \<longleftrightarrow> True"

definition lk_inv :: "nat \<Rightarrow> 'a::linorder locks \<Rightarrow> bool" where
  "lk_inv M s \<longleftrightarrow> finite {t. lk_pc s t \<noteq> Outside} \<and> infinite (lk_free s)
     \<and> (\<forall>t. phase_ok (lk_heap s) M (lk_pc s t))
     \<and> (\<forall>t u j p. remembers (lk_pc s u) j p \<longrightarrow> p \<notin> unlinked_at (lk_pc s t) j)
     \<and> (\<forall>t u. t \<noteq> u \<longrightarrow> held_by (lk_pc s t) \<inter> held_by (lk_pc s u) = {})
     \<and> (\<forall>p. s_lock (lk_heap s p) \<longleftrightarrow> (\<exists>t. p \<in> held_by (lk_pc s t)))"

text \<open>What a step of another thread leaves of the nodes a thread works with.\<close>

definition stable :: "'a::linorder sheap \<Rightarrow> 'a sheap \<Rightarrow> 'a lpc \<Rightarrow> bool" where
  "stable h h' c \<longleftrightarrow> (\<forall>p \<in> uses c. s_height (h' p) = s_height (h p))
     \<and> (\<forall>j p. remembers c j p \<longrightarrow> node_rank h' p = node_rank h p)
     \<and> (\<forall>j p. remembers c j p \<longrightarrow> p \<in> held_by c \<longrightarrow>
          markedForRemoval (h' p) = markedForRemoval (h p) \<and> s_skip (h' p) ! j = s_skip (h p) ! j)"

text \<open>The flags do not disturb one another.\<close>

lemma flags_apart [simp]:
  "isHeadNode (setFlag MARKED_FOR_REMOVAL n) = isHeadNode n" "isHeadNode (setFlag FULLY_LINKED n) = isHeadNode n"
  "markedForRemoval (setFlag FULLY_LINKED n) = markedForRemoval n"
  by (simp_all add: isHeadNode_def markedForRemoval_def setFlag_def bit.conj_disj_distrib2)

lemma setFlag_sel [simp]:
  "s_height (setFlag f n) = s_height n" "s_skip (setFlag f n) = s_skip n" "s_lock (setFlag f n) = s_lock n"
  "s_data (setFlag f n) = s_data n"
  by (simp_all add: setFlag_def)

lemma guarded_prefix:
  assumes "w_guards w = guards_of w l"
  shows "guarded w 0 = {p. \<exists>j < l. w_preds w j = Some p}"
proof -
  have "j < l \<Longrightarrow> w_preds w j = Some p \<Longrightarrow> p \<in> guarded w 0" for j p
  proof (induction j)
    case 0
    then show ?case by (auto simp: guarded_def assms guards_of_def)
  next
    case (Suc j)
    show ?case
    proof (cases "w_preds w j = Some p")
      case True
      then show ?thesis using Suc by simp
    next
      case False
      then show ?thesis using Suc.prems by (auto simp: guarded_def assms guards_of_def intro!: exI [of _ "Suc j"])
    qed
  qed
  then show ?thesis by (auto simp: guarded_def assms guards_of_def)
qed

lemma window_bound: "window_ok h M w \<Longrightarrow> w_height w \<le> M"
  by (simp add: window_ok_def)

lemma window_target: "window_ok h M w \<Longrightarrow> w_target w = Some a \<Longrightarrow> s_height (h a) = w_height w"
  by (simp add: window_ok_def)

lemma window_pred:
  assumes "window_ok h M w" "j < w_height w"
  obtains p where "w_preds w j = Some p" "j < s_height (h p)"
  using assms by (auto simp: window_ok_def)

lemma window_descends:
  "window_ok h M w \<Longrightarrow> i < j \<Longrightarrow> j < w_height w \<Longrightarrow> w_preds w i = Some p \<Longrightarrow> w_preds w j = Some q \<Longrightarrow> p \<noteq> q \<Longrightarrow>
     node_rank h q < node_rank h p"
  unfolding window_ok_def by blast

lemma stable_height: "stable h h' c \<Longrightarrow> p \<in> own_nodes c \<Longrightarrow> s_height (h' p) = s_height (h p)"
  by (simp add: stable_def uses_def)

lemma window_stable:
  assumes "window_ok h M w" "stable h h' c" "win_of c = Some w"
  shows "window_ok h' M w"
proof -
  have r: "node_rank h' p = node_rank h p" "s_height (h' p) = s_height (h p)" if "j < w_height w" "w_preds w j = Some p" for j p
    using assms(2,3) that by (auto simp: stable_def remembers_def uses_def)
  have lay: "\<exists>p. w_preds w j = Some p \<and> j < s_height (h' p)" if "j < w_height w" for j
  proof -
    obtain p where p: "w_preds w j = Some p" "j < s_height (h p)" using assms(1) \<open>j < w_height w\<close> by (rule window_pred)
    then show ?thesis using r(2) [OF that p(1)] by simp
  qed
  have desc: "node_rank h' q < node_rank h' p" if "i < j" "j < w_height w" "w_preds w i = Some p" "w_preds w j = Some q" "p \<noteq> q" for i j p q
    using window_descends [OF assms(1) that] that r(1) [of i p] r(1) [of j q] by simp
  have tgt: "s_height (h' a) = w_height w" if "w_target w = Some a" for a
    using window_target [OF assms(1) that] assms(2,3) that by (auto simp: stable_def uses_def)
  show ?thesis
    unfolding window_ok_def by (intro conjI allI impI lay desc tgt window_bound [OF assms(1)])
qed

lemma valid_stable:
  assumes "valid_at h w j" "stable h h' c" "win_of c = Some w" "held_by c = guarded w 0" "w_guards w = guards_of w l" "j < l"
    "j < w_height w"
  shows "valid_at h' w j"
proof -
  obtain p where p: "w_preds w j = Some p" "\<not> markedForRemoval (h p)" "s_skip (h p) ! j = w_succs w j"
    using assms(1) by (auto simp: valid_at_def)
  have "remembers c j p" "p \<in> held_by c"
    using p(1) assms(3-7) by (auto simp: remembers_def guarded_prefix [OF assms(5)])
  then show ?thesis
    using assms(2) p by (auto simp: stable_def valid_at_def)
qed

lemma phase_stable:
  assumes "phase_ok h M c" "stable h h' c"
  shows "phase_ok h' M c"
  using assms stable_height [OF assms(2)] window_stable [OF _ assms(2)] valid_stable [OF _ assms(2)]
  by (cases c) (auto simp: locked_window_def)

text \<open>Writes that leave the nodes of a thread as they are.\<close>

definition same_but_lock :: "'a sheap \<Rightarrow> 'a sheap \<Rightarrow> bool" where
  "same_but_lock h h' \<longleftrightarrow> (\<forall>p. s_flags (h' p) = s_flags (h p) \<and> s_height (h' p) = s_height (h p)
     \<and> s_data (h' p) = s_data (h p) \<and> s_skip (h' p) = s_skip (h p))"

lemma stable_lock: "same_but_lock h h' \<Longrightarrow> stable h h' c"
  by (simp add: same_but_lock_def stable_def node_rank_def isHeadNode_def markedForRemoval_def)

lemma same_but_lock_simps [simp]:
  "same_but_lock h h" "same_but_lock h (releaseGuard a h)" "same_but_lock h (h(a := (h a)\<lparr>s_lock := b\<rparr>))"
  by (simp_all add: same_but_lock_def releaseGuard_def)

lemma stable_mark: "a \<notin> held_by c \<Longrightarrow> stable h (h(a := setFlag MARKED_FOR_REMOVAL (h a))) c"
  by (auto simp: stable_def node_rank_def)

lemma stable_full: "stable h (h(a := setFlag FULLY_LINKED (h a))) c"
  by (auto simp: stable_def node_rank_def)

lemma stable_fresh: "b \<notin> uses c \<Longrightarrow> stable h (h(b := nd)) c"
  by (auto simp: stable_def node_rank_def uses_def)

lemma stable_skip:
  "setSkip a k v h = Inr h' \<Longrightarrow> a \<notin> held_by c \<or> \<not> remembers c k a \<Longrightarrow> stable h h' c"
  by (auto simp: setSkip_def rguard_def stable_def node_rank_def isHeadNode_def markedForRemoval_def split: if_splits)
    (metis nth_list_update_neq)

lemma stable_copy: "copyHead b q h = Inr h' \<Longrightarrow> \<forall>j. \<not> remembers c j b \<Longrightarrow> stable h h' c"
  by (auto simp: copyHead_def rguard_def stable_def node_rank_def isHeadNode_def split: if_splits)

lemma guarded_bound:
  "p \<in> guarded w i \<Longrightarrow> w_guards w = guards_of w l \<Longrightarrow> l \<le> w_height w \<Longrightarrow> \<exists>j < w_height w. w_preds w j = Some p"
  by (auto simp: guarded_def guards_of_def intro: order_less_le_trans)

lemma held_uses: "phase_ok h M c \<Longrightarrow> p \<in> held_by c \<Longrightarrow> p \<in> uses c"
  by (cases c) (auto simp: uses_def remembers_def locked_window_def dest: guarded_bound)

lemma stable_trans:
  "stable h h' c \<Longrightarrow> stable h' h'' c \<Longrightarrow> stable h h'' c"
  by (auto simp: stable_def)

section \<open>Steps and the invariant\<close>

lemma lk_invD:
  assumes "lk_inv M s"
  shows "finite {t. lk_pc s t \<noteq> Outside}" "phase_ok (lk_heap s) M (lk_pc s t)"
    "remembers (lk_pc s u) j p \<Longrightarrow> p \<notin> unlinked_at (lk_pc s t) j"
    "t \<noteq> u \<Longrightarrow> p \<in> held_by (lk_pc s t) \<Longrightarrow> p \<notin> held_by (lk_pc s u)"
    "s_lock (lk_heap s p) \<longleftrightarrow> (\<exists>t. p \<in> held_by (lk_pc s t))" "infinite (lk_free s)"
  using assms unfolding lk_inv_def by blast+

text \<open>What a thread that goes on to \<open>c\<close> may newly remember and keep to itself.\<close>

definition goes_on :: "'a locks \<Rightarrow> nat \<Rightarrow> 'a lpc \<Rightarrow> bool" where
  "goes_on s t c \<longleftrightarrow>
     (\<forall>j p. remembers c j p \<longrightarrow> remembers (lk_pc s t) j p
        \<or> unlinked_at c j = {} \<and> (\<forall>u. p \<notin> unlinked_at (lk_pc s u) j))
     \<and> (\<forall>j p. p \<in> unlinked_at c j \<longrightarrow> p \<in> unlinked_at (lk_pc s t) j \<or> fresh s p)"

lemma unlinked_apart:
  assumes inv: "lk_inv M s" and on: "goes_on s t c" and rem: "remembers (((lk_pc s)(t := c)) u) j p"
  shows "p \<notin> unlinked_at (((lk_pc s)(t := c)) v) j"
proof
  assume priv: "p \<in> unlinked_at (((lk_pc s)(t := c)) v) j"
  have old: "p \<in> unlinked_at (lk_pc s v) j \<or> v = t \<and> fresh s p"
    using on priv by (auto simp: goes_on_def split: if_splits)
  have "remembers (lk_pc s u) j p \<or> (v \<noteq> t \<and> p \<notin> unlinked_at (lk_pc s v) j)"
    using on rem priv by (auto simp: goes_on_def split: if_splits)
  then show False
  proof
    assume r: "remembers (lk_pc s u) j p"
    then show False using old lk_invD(3) [OF inv r] by (auto simp: fresh_def uses_def)
  qed (use old in auto)
qed

lemma lk_inv_goto:
  assumes inv: "lk_inv M s" and ph: "phase_ok h M c" and st: "\<And>u. u \<noteq> t \<Longrightarrow> stable (lk_heap s) h (lk_pc s u)"
    and on: "goes_on s t c" and apart: "\<And>u p. u \<noteq> t \<Longrightarrow> p \<in> held_by c \<Longrightarrow> p \<notin> held_by (lk_pc s u)"
    and lk: "\<And>p. s_lock (h p) \<longleftrightarrow> p \<in> held_by c \<or> (\<exists>u. u \<noteq> t \<and> p \<in> held_by (lk_pc s u))"
  shows "lk_inv M (goto s t h c)"
proof -
  have "finite {u. ((lk_pc s)(t := c)) u \<noteq> Outside}"
    by (rule finite_subset [OF _ finite.insertI [OF lk_invD(1) [OF inv], of t]]) auto
  moreover have "phase_ok h M (((lk_pc s)(t := c)) u)" for u
    using ph phase_stable [OF lk_invD(2) [OF inv] st] by simp
  moreover have "held_by (((lk_pc s)(t := c)) u) \<inter> held_by (((lk_pc s)(t := c)) v) = {}" if "u \<noteq> v" for u v
    using that apart lk_invD(4) [OF inv that] by auto
  moreover have "s_lock (h p) \<longleftrightarrow> (\<exists>u. p \<in> held_by (((lk_pc s)(t := c)) u))" for p
    using lk [of p] by auto
  ultimately show ?thesis
    using unlinked_apart [OF inv on] lk_invD(6) [OF inv] by (simp add: lk_inv_def del: fun_upd_apply)
qed

lemma held_others:
  "lk_inv M s \<Longrightarrow> s_lock (lk_heap s p) \<longleftrightarrow> p \<in> held_by (lk_pc s t) \<or> (\<exists>u. u \<noteq> t \<and> p \<in> held_by (lk_pc s u))"
  by (auto simp: lk_invD(5))

text \<open>A step that keeps the locks, one that takes a lock and one that gives a lock back.\<close>

lemma lk_inv_keep:
  assumes inv: "lk_inv M s" and "phase_ok h M c" "\<And>u. u \<noteq> t \<Longrightarrow> stable (lk_heap s) h (lk_pc s u)" "goes_on s t c"
    and "held_by c = held_by (lk_pc s t)" "\<And>p. s_lock (h p) = s_lock (lk_heap s p)"
  shows "lk_inv M (goto s t h c)"
  by (rule lk_inv_goto) (use assms lk_invD(4) [OF inv] held_others [OF inv, of _ t] in auto)

lemma lk_inv_acquire:
  assumes inv: "lk_inv M s" and "phase_ok h M c" "goes_on s t c" and acq: "acquireGuard p (lk_heap s) = Inr h"
    and "held_by c = insert p (held_by (lk_pc s t))"
  shows "lk_inv M (goto s t h c)"
proof (rule lk_inv_goto)
  have h: "h = (lk_heap s)(p := (lk_heap s p)\<lparr>s_lock := True\<rparr>)" "\<not> s_lock (lk_heap s p)"
    using acq by (auto simp: acquireGuard_def rguard_def split: if_splits)
  show "stable (lk_heap s) h (lk_pc s u)" for u
    unfolding h by (rule stable_lock) simp
  show "q \<notin> held_by (lk_pc s u)" if "u \<noteq> t" "q \<in> held_by c" for u q
    using that assms(5) h(2) lk_invD(4) [OF inv, of t u q] lk_invD(5) [OF inv, of p] by auto
  show "s_lock (h q) \<longleftrightarrow> q \<in> held_by c \<or> (\<exists>u. u \<noteq> t \<and> q \<in> held_by (lk_pc s u))" for q
    using held_others [OF inv, of q t] by (auto simp: h assms(5))
qed (use assms in auto)

lemma lk_inv_release:
  assumes inv: "lk_inv M s" and "phase_ok (releaseGuard p (lk_heap s)) M c" "goes_on s t c"
    and "p \<in> held_by (lk_pc s t)" "held_by c = held_by (lk_pc s t) - {p}"
  shows "lk_inv M (goto s t (releaseGuard p (lk_heap s)) c)"
proof (rule lk_inv_goto)
  show "stable (lk_heap s) (releaseGuard p (lk_heap s)) (lk_pc s u)" for u
    by (rule stable_lock) simp
  show "q \<notin> held_by (lk_pc s u)" if "u \<noteq> t" "q \<in> held_by c" for u q
    using that assms(5) lk_invD(4) [OF inv, of t u q] by auto
  show "s_lock (releaseGuard p (lk_heap s) q) \<longleftrightarrow> q \<in> held_by c \<or> (\<exists>u. u \<noteq> t \<and> q \<in> held_by (lk_pc s u))" for q
    using held_others [OF inv, of q t] assms(4,5) lk_invD(4) [OF inv, of t _ p] by (auto simp: releaseGuard_def)
qed (use assms in auto)

text \<open>A write of pointers of one layer.\<close>

definition layer_write :: "nat \<Rightarrow> 'a sheap \<Rightarrow> 'a sheap \<Rightarrow> bool" where
  "layer_write k h h' \<longleftrightarrow> (\<forall>p. s_height (h' p) = s_height (h p) \<and> s_flags (h' p) = s_flags (h p)
     \<and> s_data (h' p) = s_data (h p) \<and> s_lock (h' p) = s_lock (h p)
     \<and> length (s_skip (h' p)) = length (s_skip (h p)) \<and> (\<forall>j. j \<noteq> k \<longrightarrow> s_skip (h' p) ! j = s_skip (h p) ! j))"

lemma layer_write_trans: "layer_write k h h' \<Longrightarrow> layer_write k h' h'' \<Longrightarrow> layer_write k h h''"
  by (simp add: layer_write_def)

lemma setSkip_layer_write: "setSkip a k v h = Inr h' \<Longrightarrow> layer_write k h h'"
  by (auto simp: setSkip_def rguard_def layer_write_def split: if_splits)

lemma layer_write_keeps:
  assumes "layer_write k h h'"
  shows "s_height (h' p) = s_height (h p)" "s_lock (h' p) = s_lock (h p)"
    "window_ok h' M w = window_ok h M w" "j \<noteq> k \<Longrightarrow> valid_at h' w j = valid_at h w j"
  using assms by (simp_all add: layer_write_def window_ok_def node_rank_def isHeadNode_def valid_at_def markedForRemoval_def)

lemma link_one:
  assumes "link_loop [k] b P S h = Inr h'"
  obtains p h1 where "P k = Some p" "setSkip b k (S k) h = Inr h1" "setSkip p k (Some b) h1 = Inr h'"
  using assms by (auto split: option.splits)

lemma unlink_one:
  assumes "unlink_loop [k] a P h = Inr h'"
  obtains p n where "P k = Some p" "skip h a k = Inr n" "setSkip p k n h = Inr h'"
  using assms by (auto split: option.splits)

lemma window_mark: "window_ok (h(a := setFlag MARKED_FOR_REMOVAL (h a))) M w = window_ok h M w"
proof -
  have "node_rank (h(a := setFlag MARKED_FOR_REMOVAL (h a))) = node_rank h"
    "(\<lambda>p. s_height ((h(a := setFlag MARKED_FOR_REMOVAL (h a))) p)) = (\<lambda>p. s_height (h p))"
    by (auto simp: node_rank_def)
  then show ?thesis by (simp add: window_ok_def fun_eq_iff)
qed

lemma window_guards [simp]:
  "window_ok h M (w\<lparr>w_guards := g\<rparr>) = window_ok h M w" "valid_at h (w\<lparr>w_guards := g\<rparr>) j = valid_at h w j"
  "guards_of (w\<lparr>w_guards := g\<rparr>) l = guards_of w l"
  by (simp_all add: window_ok_def valid_at_def guards_of_def)

lemma guards_0 [simp]: "guards_of w 0 = no_guards"
  by (simp add: guards_of_def)

lemma guards_Suc:
  "guards_of w (Suc l) = (if l = 0 \<or> w_preds w l \<noteq> w_preds w (l - 1) then (guards_of w l)(l := True) else guards_of w l)"
  by (auto simp: guards_of_def less_Suc_eq fun_eq_iff)

lemma guarded_take: "w_preds w l = Some p \<Longrightarrow> guarded (w\<lparr>w_guards := (w_guards w)(l := True)\<rparr>) 0 = insert p (guarded w 0)"
  by (auto simp: guarded_def) (metis option.inject)

text \<open>No node has two guards.\<close>

lemma guard_once:
  assumes w: "window_ok h M w" and m: "m \<le> w_height w" and g: "guards_of w m i" "guards_of w m j" and "i < j" "w_preds w i = Some p"
  shows "w_preds w j \<noteq> Some p"
proof
  assume eq: "w_preds w j = Some p"
  have j: "j < w_height w" "w_preds w j \<noteq> w_preds w (j - 1)" using g(2) m \<open>i < j\<close> by (auto simp: guards_of_def)
  obtain q where q: "w_preds w (j - 1) = Some q" by (rule window_pred [OF w, of "j - 1"]) (use j(1) in auto)
  have "p \<noteq> q" using j(2) eq q by auto
  moreover have "i < j - 1" using \<open>i < j\<close> \<open>p \<noteq> q\<close> q assms(6) by (cases "i = j - 1") auto
  ultimately have "node_rank h q < node_rank h p" "node_rank h p < node_rank h q"
    using window_descends [OF w, of i "j - 1" p q] window_descends [OF w, of "j - 1" j q p] assms(6) eq q j(1) by auto
  then show False by simp
qed

lemma guarded_step: "guarded w i = (if w_guards w i then set_option (w_preds w i) else {}) \<union> guarded w (Suc i)"
proof -
  have "(\<exists>j \<ge> i. Q j) \<longleftrightarrow> Q i \<or> (\<exists>j \<ge> Suc i. Q j)" for Q
    by (metis Suc_le_eq le_neq_implies_less le_refl less_imp_le)
  then show ?thesis by (auto simp: guarded_def)
qed

lemma guarded_Suc:
  assumes "window_ok h M w" "m \<le> w_height w" "w_guards w = guards_of w m"
  shows "guarded w (Suc i) = (if w_guards w i then guarded w i - set_option (w_preds w i) else guarded w i)"
proof (cases "w_guards w i")
  case True
  have "p \<notin> guarded w (Suc i)" if "w_preds w i = Some p" for p
    using guard_once [OF assms(1,2), of i _ p] that True assms(3) by (auto simp: guarded_def)
  then show ?thesis
    using True by (auto simp: guarded_step [of w i])
qed (auto simp: guarded_step [of w i])

text \<open>Every step keeps the invariant.\<close>

lemma goes_on_same:
  "win_of c = win_of (lk_pc s t) \<Longrightarrow> (\<And>j. unlinked_at c j \<subseteq> unlinked_at (lk_pc s t) j) \<Longrightarrow> goes_on s t c"
  by (auto simp: goes_on_def remembers_def)

lemma goes_on_none: "win_of c = None \<Longrightarrow> (\<And>j. unlinked_at c j \<subseteq> unlinked_at (lk_pc s t) j) \<Longrightarrow> goes_on s t c"
  by (auto simp: goes_on_def remembers_def)

lemma inv_still:
  assumes "lk_inv M s" "phase_ok (lk_heap s) M c" "goes_on s t c" "held_by c = held_by (lk_pc s t)"
  shows "lk_inv M (goto s t (lk_heap s) c)"
  using assms by (intro lk_inv_keep stable_lock) auto

lemma phase_lock_only: "phase_ok h M c \<Longrightarrow> same_but_lock h h' \<Longrightarrow> phase_ok h' M c"
  by (rule phase_stable) (auto intro: stable_lock)

lemma acquired: "acquireGuard p h = Inr h' \<Longrightarrow> same_but_lock h h'"
  by (auto simp: acquireGuard_def rguard_def split: if_splits)

lemma inv_acquire:
  assumes inv: "lk_inv M s" and pc: "lk_pc s t = Locking w l prev" and l: "l < w_height w" and p: "w_preds w l = Some p" "Some p \<noteq> prev"
    and acq: "acquireGuard p (lk_heap s) = Inr h"
  shows "lk_inv M (goto s t h (Checking (w\<lparr>w_guards := (w_guards w)(l := True)\<rparr>) l p))"
proof (rule lk_inv_acquire [OF inv _ _ acq])
  have ph: "phase_ok h M (Locking w l prev)"
    using phase_lock_only [OF lk_invD(2) [OF inv] acquired [OF acq], of t] pc by simp
  then show "phase_ok h M (Checking (w\<lparr>w_guards := (w_guards w)(l := True)\<rparr>) l p)"
    using l p by (auto simp: guards_Suc)
  show "goes_on s t (Checking (w\<lparr>w_guards := (w_guards w)(l := True)\<rparr>) l p)"
    by (simp add: goes_on_def remembers_def pc)
qed (simp add: pc guarded_take [OF p(1)])

lemma checked:
  assumes "lock_loop [l] P S adding (Some p) g h = Inr (valid, g', h')" "P l = Some p"
  shows "h' = h" "valid \<Longrightarrow> \<not> markedForRemoval (h p) \<and> s_skip (h p) ! l = S l"
  using assms by (auto simp: Let_def skip_def rguard_def split: if_splits option.splits)

lemma inv_check:
  assumes inv: "lk_inv M s" and pc: "lk_pc s t = Checking w l p"
    and lp: "lock_loop [l] (w_preds w) (w_succs w) (w_adding w) (Some p) (w_guards w) (lk_heap s) = Inr (valid, g, h)"
  shows "lk_inv M (goto s t h (if valid then Locking w (Suc l) (Some p) else Releasing w 0 False))"
proof -
  have ph: "phase_ok (lk_heap s) M (Checking w l p)" using lk_invD(2) [OF inv, of t] pc by simp
  note ck = checked [OF lp]
  have "phase_ok (lk_heap s) M (if valid then Locking w (Suc l) (Some p) else Releasing w 0 False)"
    using ph ck by (auto simp: less_Suc_eq valid_at_def intro: Suc_leI)
  moreover have "goes_on s t (if valid then Locking w (Suc l) (Some p) else Releasing w 0 False)"
    by (rule goes_on_same) (simp_all add: pc)
  moreover have "h = lk_heap s" using ck(1) ph by simp
  ultimately show ?thesis
    using inv_still [OF inv, of "if valid then Locking w (Suc l) (Some p) else Releasing w 0 False" t] by (simp add: pc)
qed

lemma fresh_unlocked: "lk_inv M s \<Longrightarrow> fresh s b \<Longrightarrow> \<not> s_lock (lk_heap s b)"
  using held_uses lk_invD(2,5) unfolding fresh_def by blast

lemma inv_take:
  assumes inv: "lk_inv M s" and pc: "lk_pc s t = Locked w" and b: "fresh s b" "popped nd (w_height w) False"
  shows "lk_inv M (goto s t ((lk_heap s)(b := nd)) (Linking w b 0))"
proof (rule lk_inv_keep [OF inv])
  have nu: "b \<notin> uses (lk_pc s u)" for u using b(1) by (simp add: fresh_def)
  then have "phase_ok ((lk_heap s)(b := nd)) M (Locked w)"
    using phase_stable [OF lk_invD(2) [OF inv] stable_fresh, of b t] pc by metis
  then show "phase_ok ((lk_heap s)(b := nd)) M (Linking w b 0)"
    using b(2) by (simp add: popped_def)
  show "stable (lk_heap s) ((lk_heap s)(b := nd)) (lk_pc s u)" for u
    by (rule stable_fresh [OF nu])
  show "goes_on s t (Linking w b 0)"
    using b(1) by (auto simp: goes_on_def remembers_def pc)
  show "s_lock (((lk_heap s)(b := nd)) p) = s_lock (lk_heap s p)" for p
    using b(2) fresh_unlocked [OF inv b(1)] by (simp add: popped_def)
qed (simp add: pc)

text \<open>The locked predecessors of a thread.\<close>

lemma pred_held:
  "locked_window h M w \<Longrightarrow> k < w_height w \<Longrightarrow> w_preds w k = Some p \<Longrightarrow> p \<in> guarded w 0"
  by (auto simp: locked_window_def guarded_prefix)

lemma inv_link:
  assumes inv: "lk_inv M s" and pc: "lk_pc s t = Linking w b k" and k: "k < w_height w"
    and lk: "link_loop [k] b (w_preds w) (w_succs w) (lk_heap s) = Inr h"
  shows "lk_inv M (goto s t h (Linking w b (Suc k)))"
proof (rule lk_inv_keep [OF inv])
  obtain p h1 where p: "w_preds w k = Some p" and w1: "setSkip b k (w_succs w k) (lk_heap s) = Inr h1"
    and w2: "setSkip p k (Some b) h1 = Inr h"
    using lk by (rule link_one)
  have lw: "layer_write k (lk_heap s) h"
    using setSkip_layer_write [OF w1] setSkip_layer_write [OF w2] by (rule layer_write_trans)
  have ph: "phase_ok (lk_heap s) M (Linking w b k)" using lk_invD(2) [OF inv, of t] pc by simp
  show "phase_ok h M (Linking w b (Suc k))"
    using ph k by (auto simp: locked_window_def layer_write_keeps [OF lw])
  show "s_lock (h q) = s_lock (lk_heap s q)" for q by (rule layer_write_keeps(2) [OF lw])
  show "stable (lk_heap s) h (lk_pc s u)" if "u \<noteq> t" for u
  proof (rule stable_trans [OF stable_skip [OF w1] stable_skip [OF w2]])
    show "b \<notin> held_by (lk_pc s u) \<or> \<not> remembers (lk_pc s u) k b"
      using lk_invD(3) [OF inv, of u k b t] by (auto simp: pc)
    have "p \<in> held_by (lk_pc s t)" using ph pred_held [of "lk_heap s" M w, OF _ k p] by (simp add: pc)
    then show "p \<notin> held_by (lk_pc s u) \<or> \<not> remembers (lk_pc s u) k p"
      using lk_invD(4) [OF inv] that by blast
  qed
  show "goes_on s t (Linking w b (Suc k))" by (rule goes_on_same) (auto simp: pc)
qed (simp add: pc)

lemma inv_unlink:
  assumes inv: "lk_inv M s" and pc: "lk_pc s t = Unlinking w (Suc k)"
    and lk: "unlink_loop [k] a (w_preds w) (lk_heap s) = Inr h"
  shows "lk_inv M (goto s t h (Unlinking w k))"
proof (rule lk_inv_keep [OF inv])
  obtain p n where p: "w_preds w k = Some p" and wr: "setSkip p k n (lk_heap s) = Inr h"
    using lk by (rule unlink_one)
  note lw = setSkip_layer_write [OF wr]
  have ph: "phase_ok (lk_heap s) M (Unlinking w (Suc k))" using lk_invD(2) [OF inv, of t] pc by simp
  then show "phase_ok h M (Unlinking w k)"
    by (auto simp: locked_window_def layer_write_keeps [OF lw])
  show "s_lock (h q) = s_lock (lk_heap s q)" for q by (rule layer_write_keeps(2) [OF lw])
  have "p \<in> held_by (lk_pc s t)" using ph pred_held [of "lk_heap s" M w, OF _ _ p] by (simp add: pc Suc_le_eq)
  then show "stable (lk_heap s) h (lk_pc s u)" if "u \<noteq> t" for u
    using lk_invD(4) [OF inv] that by (intro stable_skip [OF wr]) blast
  show "goes_on s t (Unlinking w k)" by (rule goes_on_same) (auto simp: pc)
qed (simp add: pc)

lemma inv_release:
  assumes inv: "lk_inv M s" and pc: "lk_pc s t = Releasing w i d" and i: "i < M"
  shows "lk_inv M (goto s t (release_guards [i] (w_guards w) (w_preds w) (lk_heap s)) (Releasing w (Suc i) d))"
proof -
  have ph: "phase_ok (lk_heap s) M (Releasing w i d)" using lk_invD(2) [OF inv, of t] pc by simp
  then obtain m where m: "window_ok (lk_heap s) M w" "m \<le> w_height w" "w_guards w = guards_of w m" by auto
  have on: "goes_on s t (Releasing w (Suc i) d)" by (rule goes_on_same) (auto simp: pc)
  have nx: "phase_ok (lk_heap s) M (Releasing w (Suc i) d)" using ph i by auto
  show ?thesis
  proof (cases "w_guards w i")
    case True
    then obtain p where p: "w_preds w i = Some p"
      using m by (auto simp: guards_of_def elim: window_pred [of _ _ _ i])
    have "lk_inv M (goto s t (releaseGuard p (lk_heap s)) (Releasing w (Suc i) d))"
      using True p guarded_Suc [OF m, of i] guarded_step [of w i]
      by (intro lk_inv_release [OF inv phase_lock_only [OF nx] on]) (auto simp: pc)
    then show ?thesis using True p by simp
  next
    case False
    then have "release_guards [i] (w_guards w) (w_preds w) (lk_heap s) = lk_heap s" by (simp split: option.split)
    then show ?thesis
      using inv_still [OF inv nx on] guarded_Suc [OF m, of i] False by (simp add: pc)
  qed
qed

lemma inv_take_head:
  assumes inv: "lk_inv M s" and pc: "lk_pc s t = Growth q k" and b: "fresh s b" "popped nd k True"
  shows "lk_inv M (goto s t ((lk_heap s)(b := nd)) (Requesting q b))"
proof (rule lk_inv_keep [OF inv])
  have nu: "b \<notin> uses (lk_pc s u)" for u using b(1) by (simp add: fresh_def)
  show "stable (lk_heap s) ((lk_heap s)(b := nd)) (lk_pc s u)" for u by (rule stable_fresh [OF nu])
  have "q \<noteq> b" "s_height (lk_heap s q) < k" using nu [of t] lk_invD(2) [OF inv, of t] pc by (auto simp: uses_def)
  then show "phase_ok ((lk_heap s)(b := nd)) M (Requesting q b)" using b(2) by (simp add: popped_def)
  show "goes_on s t (Requesting q b)" using b(1) by (auto simp: goes_on_def remembers_def)
  show "s_lock (((lk_heap s)(b := nd)) p) = s_lock (lk_heap s p)" for p
    using b fresh_unlocked [OF inv b(1)] by (simp add: popped_def)
qed (simp add: pc)

lemma inv_copy:
  assumes inv: "lk_inv M s" and pc: "lk_pc s t = Growing q b" and cp: "copyHead b q (lk_heap s) = Inr h"
  shows "lk_inv M (goto s t h (Copied q b))"
proof (rule lk_inv_keep [OF inv])
  show "stable (lk_heap s) h (lk_pc s u)" for u
    using lk_invD(3) [OF inv, of u _ b t] pc by (intro stable_copy [OF cp]) auto
  show "s_lock (h p) = s_lock (lk_heap s p)" for p
    using cp by (auto simp: copyHead_def rguard_def split: if_splits)
qed (auto simp: pc intro: goes_on_none)

lemma inv_mark:
  assumes inv: "lk_inv M s" and pc: "held_by (lk_pc s t) = {a}"
    and c: "lk_pc s t = Marking w a \<and> c = Marked w a \<or> lk_pc s t = Retiring a \<and> c = Retired a"
  shows "lk_inv M (goto s t ((lk_heap s)(a := setFlag MARKED_FOR_REMOVAL (lk_heap s a))) c)"
proof (rule lk_inv_keep [OF inv])
  show "stable (lk_heap s) ((lk_heap s)(a := setFlag MARKED_FOR_REMOVAL (lk_heap s a))) (lk_pc s u)" if "u \<noteq> t" for u
    using lk_invD(4) [OF inv, of t u a] that pc by (intro stable_mark) simp
  show "phase_ok ((lk_heap s)(a := setFlag MARKED_FOR_REMOVAL (lk_heap s a))) M c"
    using c lk_invD(2) [OF inv, of t] by (auto simp: window_mark)
qed (use c in \<open>auto intro!: goes_on_same\<close>)

lemma inv_full:
  assumes inv: "lk_inv M s" and pc: "lk_pc s t = Linked w b"
  shows "lk_inv M (goto s t ((lk_heap s)(b := setFlag FULLY_LINKED (lk_heap s b))) (Releasing w 0 True))"
proof (rule lk_inv_keep [OF inv _ stable_full])
  have "phase_ok ((lk_heap s)(b := setFlag FULLY_LINKED (lk_heap s b))) M (Linked w b)"
    using phase_stable [OF lk_invD(2) [OF inv, of t] stable_full] pc by metis
  then show "phase_ok ((lk_heap s)(b := setFlag FULLY_LINKED (lk_heap s b))) M (Releasing w 0 True)"
    by (auto simp: locked_window_def)
  show "goes_on s t (Releasing w 0 True)" by (rule goes_on_same) (simp_all add: pc)
qed (simp_all add: pc)

lemma inv_released:
  assumes inv: "lk_inv M s" and pc: "lk_pc s t = Releasing w M d" and c: "held_by c = {}" "win_of c = None" "unlinked_at c = (\<lambda>_. {})" "phase_ok (lk_heap s) M c"
  shows "lk_inv M (goto s t (lk_heap s) c)"
proof (rule inv_still [OF inv c(4)])
  obtain m where "window_ok (lk_heap s) M w" "m \<le> w_height w" "w_guards w = guards_of w m"
    using lk_invD(2) [OF inv, of t] pc by auto
  then have "guarded w M = {}" using window_bound [of "lk_heap s" M w] by (auto simp: guarded_def guards_of_def)
  then show "held_by c = held_by (lk_pc s t)" by (simp add: pc c(1))
qed (auto intro: goes_on_none simp: c)

lemma inv_lock_one:
  assumes "lk_inv M s" "acquireGuard a (lk_heap s) = Inr h"
    and "lk_pc s t = Wanting w a \<and> c = Marking w a \<or> lk_pc s t = Requesting a b \<and> c = Growing a b"
  shows "lk_inv M (goto s t h c)"
  using assms phase_lock_only [OF lk_invD(2) [OF assms(1), of t] acquired [OF assms(2)]]
  by (intro lk_inv_acquire [OF assms(1) _ _ assms(2)]) (auto intro: goes_on_none goes_on_same)

lemma inv_start:
  assumes inv: "lk_inv M s" and "held_by (lk_pc s t) = {}" "enters M s w"
    and "c = Locking w 0 None \<or> c = Wanting w a \<and> w_target w = Some a"
  shows "lk_inv M (goto s t (lk_heap s) c)"
  using assms by (intro inv_still [OF inv]) (auto simp: goes_on_def remembers_def guarded_def enters_def)

lemma inv_unlock:
  assumes "lk_inv M s" "held_by (lk_pc s t) = {a}" "lk_pc s t = Marked w a \<and> c = Locking w 0 None \<or> c = Outside"
  shows "lk_inv M (goto s t (releaseGuard a (lk_heap s)) c)"
  using assms phase_lock_only [OF lk_invD(2) [OF assms(1), of t], of "releaseGuard a (lk_heap s)"]
  by (intro lk_inv_release) (auto intro: goes_on_none goes_on_same simp: guarded_def)

lemma lk_inv_free: "lk_inv M s \<Longrightarrow> infinite F \<Longrightarrow> lk_inv M (s\<lparr>lk_free := F\<rparr>)"
  by (simp add: lk_inv_def)

lemma lk_inv_head [simp]: "lk_inv M (s\<lparr>lk_head := b\<rparr>) = lk_inv M s"
  by (simp add: lk_inv_def)

lemma inv_quiet:
  assumes "lk_inv M s" "win_of c = None" "\<And>j. unlinked_at c j \<subseteq> unlinked_at (lk_pc s t) j" "phase_ok (lk_heap s) M c"
    "held_by c = held_by (lk_pc s t)"
  shows "lk_inv M (goto s t (lk_heap s) c)"
  using assms by (intro inv_still goes_on_none)

lemma lk_change_inv: "lk_change M t s s' \<Longrightarrow> lk_inv M s \<Longrightarrow> lk_inv M s'"
proof (induction rule: lk_change.induct)
  case (again s w l prev p)
  then show ?case using lk_invD(2) [of M s t]
    by (intro inv_still goes_on_same) (auto simp: guards_Suc split: if_splits)
next
  case (locked s w prev)
  then show ?case using lk_invD(2) [of M s t] by (intro inv_still goes_on_same) (auto simp: locked_window_def)
next
  case (take s w b nd)
  then show ?case using lk_invD(6) [of M s] by (intro lk_inv_free inv_take) auto
next
  case (linked s w b)
  then show ?case using lk_invD(2) [of M s t] by (intro inv_still goes_on_same) auto
next
  case (remove s w)
  then show ?case using lk_invD(2) [of M s t] by (intro inv_still goes_on_same) auto
next
  case (unlinked s w)
  then show ?case using lk_invD(2) [of M s t] by (intro inv_still goes_on_same) (auto simp: locked_window_def)
next
  case (failed s w)
  then show ?case by (intro inv_released) (auto split: option.split)
next
  case (released s w)
  then show ?case using lk_invD(6) [of M s] by (intro lk_inv_free inv_released) auto
next
  case (start s w)
  then show ?case by (intro inv_start) auto
next
  case (retry s a w)
  then show ?case by (intro inv_start) auto
qed (blast intro: inv_acquire inv_check inv_link inv_full inv_unlink inv_release)+

lemma lk_mark_inv: "lk_mark M t s s' \<Longrightarrow> lk_inv M s \<Longrightarrow> lk_inv M s'"
proof (induction rule: lk_mark.induct)
  case (marked s w a)
  then show ?case by (intro inv_quiet) auto
qed (rule inv_start inv_lock_one inv_mark inv_unlock; auto)+

lemma lk_grow_inv: "lk_grow t s s' \<Longrightarrow> lk_inv M s \<Longrightarrow> lk_inv M s'"
proof (induction rule: lk_grow.induct)
  case (grow s k)
  then show ?case by (intro inv_quiet) auto
next
  case (take_head s q k b nd)
  then show ?case using lk_invD(6) [of M s] by (intro lk_inv_free inv_take_head) auto
next
  case (swap s q b)
  then show ?case unfolding lk_inv_head by (intro inv_quiet) auto
next
  case (no_swap s q b)
  then show ?case using lk_invD(6) [of M s] by (intro lk_inv_free inv_quiet) auto
next
  case (unlock_head s q)
  then show ?case using lk_invD(6) [of M s] by (intro lk_inv_free inv_unlock) auto
next
  case (retire s q)
  then show ?case by (intro inv_mark) auto
qed (blast intro: inv_lock_one inv_copy)+

lemma lk_step_inv: "lk_step M t s s' \<Longrightarrow> lk_inv M s \<Longrightarrow> lk_inv M s'"
  by (auto simp: lk_step_def intro: lk_change_inv lk_mark_inv lk_grow_inv)

section \<open>Freedom from deadlock\<close>

text \<open>
  Threads that ask for locks in descending order. The laws are what the skip list promises of its
  threads in every state that is in order.
\<close>

locale lock_order =
  fixes ok :: "'s \<Rightarrow> bool"
    and active :: "'s \<Rightarrow> 't set"
    and holding :: "'s \<Rightarrow> 't \<Rightarrow> 'l set"
    and asking :: "'s \<Rightarrow> 't \<Rightarrow> 'l option"
    and order :: "'s \<Rightarrow> 'l \<Rightarrow> 'r::linorder"
  assumes finitely_many: "ok s \<Longrightarrow> finite (active s)"
    and holder_active: "ok s \<Longrightarrow> p \<in> holding s t \<Longrightarrow> t \<in> active s"
    and asks_below: "ok s \<Longrightarrow> asking s t = Some p \<Longrightarrow> q \<in> holding s t \<Longrightarrow> order s p < order s q"
begin

definition blocked :: "'s \<Rightarrow> 't \<Rightarrow> bool" where
  "blocked s t \<longleftrightarrow> (\<exists>p u. asking s t = Some p \<and> p \<in> holding s u)"

lemma lowest_not_blocked:
  assumes ok: "ok s" and t: "t \<in> active s"
    and low: "\<And>u p q. u \<in> active s \<Longrightarrow> asking s t = Some p \<Longrightarrow> asking s u = Some q \<Longrightarrow> \<not> order s q < order s p"
  shows "\<exists>u \<in> active s. \<not> blocked s u"
proof (cases "blocked s t")
  case True
  then obtain p u where p: "asking s t = Some p" and u: "p \<in> holding s u" by (auto simp: blocked_def)
  have "u \<in> active s" using ok u by (rule holder_active)
  moreover have "\<not> blocked s u"
    using low [OF \<open>u \<in> active s\<close> p] asks_below [OF ok _ u] by (auto simp: blocked_def)
  ultimately show ?thesis by blast
qed (use t in blast)

lemma some_not_blocked:
  assumes ok: "ok s" and t: "t \<in> active s"
  shows "\<exists>u \<in> active s. \<not> blocked s u"
proof (cases "\<exists>u \<in> active s. asking s u = None")
  case True
  then obtain u where "u \<in> active s" "\<not> blocked s u" by (auto simp: blocked_def)
  then show ?thesis by blast
next
  case False
  obtain u where u: "u \<in> active s" and low: "\<And>v. v \<in> active s \<Longrightarrow> order s (the (asking s u)) \<le> order s (the (asking s v))"
    using ex_is_arg_min_if_finite [OF finitely_many [OF ok], of "\<lambda>v. order s (the (asking s v))"] t
    by (auto simp: is_arg_min_linorder)
  show ?thesis
    by (rule lowest_not_blocked [OF ok u]) (use low in \<open>force simp: not_less\<close>)
qed

end

text \<open>A thread between two searches takes part in no wait.\<close>

fun searching :: "'a lpc \<Rightarrow> bool" where
  "searching Outside = True"
| "searching (Retrying a) = True"
| "searching _ = False"

lemma not_searching: "\<not> searching c \<Longrightarrow> c \<noteq> Outside"
  by auto

text \<open>The skip list keeps the order: a thread asks for the predecessor of the next layer, which comes before those it holds.\<close>

lemma asks_below_held:
  assumes "phase_ok h M c" "wants c = Some p" "q \<in> held_by c"
  shows "node_rank h p < node_rank h q"
proof (cases c)
  case (Locking w l prev)
  then have w: "window_ok h M w" and l: "l < w_height w" and p: "w_preds w l = Some p" "Some p \<noteq> prev"
    and g: "w_guards w = guards_of w l" and prev: "prev = (if l = 0 then None else w_preds w (l - 1))"
    using assms by (auto split: if_splits)
  obtain j where j: "j < l" "w_preds w j = Some q"
    using assms(3) Locking by (auto simp: guarded_prefix [OF g])
  show ?thesis
  proof (cases "p = q")
    case False
    then show ?thesis using window_descends [OF w j(1) l j(2) p(1)] by simp
  next
    case True
    obtain r where r: "w_preds w (l - 1) = Some r"
      by (rule window_pred [OF w, of "l - 1"]) (use l in auto)
    have "r \<noteq> p" using r p(2) prev j(1) by auto
    moreover have "j < l - 1" using j True r \<open>r \<noteq> p\<close> by (cases "j = l - 1") auto
    moreover have "l - 1 < w_height w" "l - 1 < l" using l j(1) by simp_all
    ultimately have "node_rank h r < node_rank h q" "node_rank h p < node_rank h r"
      using window_descends [OF w, of j "l - 1" q r] window_descends [OF w, of "l - 1" l r p] l j(2) r p(1) True by simp_all
    then show ?thesis by simp
  qed
qed (use assms in auto)

interpretation lord: lock_order "lk_inv M" "\<lambda>s. {t. \<not> searching (lk_pc s t)}" "\<lambda>s t. held_by (lk_pc s t)"
  "\<lambda>s t. wants (lk_pc s t)" "\<lambda>s. node_rank (lk_heap s)" for M
proof
  fix s :: "'a locks" and t p q
  assume inv: "lk_inv M s"
  show "finite {t. \<not> searching (lk_pc s t)}"
    by (rule finite_subset [OF _ lk_invD(1) [OF inv]]) (auto dest: not_searching)
  show "t \<in> {t. \<not> searching (lk_pc s t)}" if "p \<in> held_by (lk_pc s t)" using that by (cases "lk_pc s t") auto
  show "node_rank (lk_heap s) p < node_rank (lk_heap s) q" if "wants (lk_pc s t) = Some p" "q \<in> held_by (lk_pc s t)"
    using asks_below_held [OF lk_invD(2) [OF inv] that] .
qed

text \<open>A thread that does not wait for a held lock can go on.\<close>

lemma fresh_exists:
  assumes "lk_inv M s"
  obtains b where "fresh s b"
proof -
  have fin: "finite (uses c)" for c :: "'a lpc"
  proof -
    have "{p. \<exists>j. remembers c j p} \<subseteq> (\<Union>j < w_height (the (win_of c)).
        set_option (w_preds (the (win_of c)) j) \<union> set_option (w_succs (the (win_of c)) j))"
      by (force simp: remembers_def split: option.splits)
    then have "finite {p. \<exists>j. remembers c j p}" by (rule finite_subset) simp
    moreover have "{a. \<exists>w. win_of c = Some w \<and> w_target w = Some a} \<subseteq> set_option (w_target (the (win_of c)))" by auto
    then have "finite {a. \<exists>w. win_of c = Some w \<and> w_target w = Some a}" by (rule finite_subset) simp
    moreover have "finite (own_nodes c)" by (cases c) auto
    ultimately show ?thesis by (simp add: uses_def)
  qed
  have "c \<noteq> Outside" if "p \<in> uses c" for p and c :: "'a lpc" using that by (auto simp: uses_def remembers_def)
  then have "(\<Union>t. uses (lk_pc s t)) \<subseteq> (\<Union>t \<in> {t. lk_pc s t \<noteq> Outside}. uses (lk_pc s t))" by blast
  then have "finite (\<Union>t. uses (lk_pc s t))" by (rule finite_subset) (use fin lk_invD(1) [OF assms] in simp)
  then have "infinite (lk_free s - (\<Union>t. uses (lk_pc s t)))" using lk_invD(6) [OF assms] by (rule Diff_infinite_finite)
  then obtain b where "b \<in> lk_free s - (\<Union>t. uses (lk_pc s t))" by (metis ex_in_conv finite.emptyI)
  then show thesis by (auto intro: that simp: fresh_def)
qed

lemma free_lock: "\<not> s_lock (h p) \<Longrightarrow> \<exists>h'. acquireGuard p h = Inr h'"
  by (simp add: acquireGuard_def rguard_def)

lemma check_runs: "P l = Some p \<Longrightarrow> l < s_height (h p) \<Longrightarrow> \<exists>v g' h'. lock_loop [l] P S adding (Some p) g h = Inr (v, g', h')"
  by (auto simp: skip_def rguard_def Let_def split: option.splits)

lemma link_runs:
  "P k = Some p \<Longrightarrow> k < s_height (h p) \<Longrightarrow> k < s_height (h b) \<Longrightarrow> \<exists>h'. link_loop [k] b P S h = Inr h'"
  by (auto simp: setSkip_def rguard_def)

lemma unlink_runs:
  "P k = Some p \<Longrightarrow> k < s_height (h p) \<Longrightarrow> k < s_height (h a) \<Longrightarrow> \<exists>h'. unlink_loop [k] a P h = Inr h'"
  by (auto simp: setSkip_def skip_def rguard_def)

lemma locking_steps:
  assumes inv: "lk_inv M s" and pc: "lk_pc s t = Locking w l prev"
    and free: "\<And>p. wants (lk_pc s t) = Some p \<Longrightarrow> \<not> s_lock (lk_heap s p)"
  shows "\<exists>s'. lk_step M t s s'"
proof (cases "l = w_height w")
  case False
  then have w: "window_ok (lk_heap s) M w" and l: "l < w_height w" using lk_invD(2) [OF inv, of t] pc by auto
  obtain p where p: "w_preds w l = Some p" using w l by (rule window_pred)
  show ?thesis
  proof (cases "Some p = prev")
    case True
    then show ?thesis using lk_change.again [THEN lk_stepI(1), OF pc l p] by blast
  next
    case False
    then show ?thesis using lk_change.acquire [THEN lk_stepI(1), OF pc l p] free_lock [of "lk_heap s" p] free [of p] pc l p by auto
  qed
qed (use pc lk_change.locked [THEN lk_stepI(1)] in blast)

lemma linking_steps:
  assumes inv: "lk_inv M s" and pc: "lk_pc s t = Linking w b k"
  shows "\<exists>s'. lk_step M t s s'"
proof (cases "k = w_height w")
  case False
  then have w: "window_ok (lk_heap s) M w" and k: "k < w_height w" and b: "w_height w \<le> s_height (lk_heap s b)"
    using lk_invD(2) [OF inv, of t] pc by (auto simp: locked_window_def)
  obtain p where "w_preds w k = Some p" "k < s_height (lk_heap s p)" using w k by (rule window_pred)
  then show ?thesis
    using link_runs [of "w_preds w" k p "lk_heap s" b "w_succs w"] lk_change.link [THEN lk_stepI(1), OF pc k] k b by auto
qed (use pc lk_change.linked [THEN lk_stepI(1)] in blast)

lemma unlinking_steps:
  assumes inv: "lk_inv M s" and pc: "lk_pc s t = Unlinking w k"
  shows "\<exists>s'. lk_step M t s s'"
proof (cases k)
  case (Suc i)
  have w: "window_ok (lk_heap s) M w" and i: "i < w_height w" and "\<not> w_adding w"
    using lk_invD(2) [OF inv, of t] pc Suc by (auto simp: locked_window_def)
  then obtain a where a: "w_target w = Some a" by auto
  obtain p where "w_preds w i = Some p" "i < s_height (lk_heap s p)" using w i by (rule window_pred)
  then show ?thesis
    using unlink_runs [of "w_preds w" i p "lk_heap s" a] window_target [OF w a] lk_change.unlink [THEN lk_stepI(1), of s t w i a _ M] pc Suc a i by auto
qed (use pc lk_change.unlinked [THEN lk_stepI(1)] in blast)

lemma unblocked_steps:
  assumes inv: "lk_inv M s" and "\<not> searching (lk_pc s t)" and free: "\<And>p. wants (lk_pc s t) = Some p \<Longrightarrow> \<not> s_lock (lk_heap s p)"
  shows "\<exists>s'. lk_step M t s s'"
proof (cases "lk_pc s t")
  case (Checking w l p)
  then have ph: "window_ok (lk_heap s) M w" "l < w_height w" "w_preds w l = Some p" using lk_invD(2) [OF inv, of t] by auto
  have "l < s_height (lk_heap s p)" using window_pred [OF ph(1,2)] ph(3) by (metis option.inject)
  then show ?thesis using lk_change.check [THEN lk_stepI(1), OF Checking] check_runs [of "w_preds w" l p] ph(3) by blast
next
  case (Locked w)
  obtain b where b: "fresh s b" using inv by (rule fresh_exists)
  let ?nd = "\<lparr>s_flags = 0, s_height = w_height w, s_lock = False, s_data = w_value w, s_skip = replicate (w_height w) None\<rparr>"
  have "popped ?nd (w_height w) False" "s_data ?nd = w_value w" by (simp_all add: popped_def)
  then show ?thesis using lk_change.take [THEN lk_stepI(1), OF Locked _ b] lk_change.remove [THEN lk_stepI(1), OF Locked] by blast
next
  case (Releasing w i d)
  then have "i \<le> M" using lk_invD(2) [OF inv, of t] by simp
  then consider "i < M" | "i = M" d | "i = M" "\<not> d" by linarith
  then show ?thesis
  proof cases
    case 1
    then show ?thesis using lk_change.release [THEN lk_stepI(1), OF Releasing] by blast
  next
    case 2
    then show ?thesis using lk_change.released [THEN lk_stepI(1), of s t w M] Releasing by auto
  next
    case 3
    then show ?thesis using lk_change.failed [THEN lk_stepI(1), of s t w M] Releasing by auto
  qed
next
  case (Wanting w a)
  then show ?thesis using free_lock [of "lk_heap s" a] free [of a] lk_mark.lock_target [THEN lk_stepI(2), OF Wanting] by auto
next
  case (Requesting q b)
  then show ?thesis using free_lock [of "lk_heap s" q] free [of q] lk_grow.lock_head [THEN lk_stepI(3), OF Requesting] by auto
next
  case (Growth q k)
  obtain b where b: "fresh s b" using inv by (rule fresh_exists)
  have "popped \<lparr>s_flags = 1, s_height = k, s_lock = False, s_data = s_data (lk_heap s b), s_skip = replicate k None\<rparr> k True"
    by (simp add: popped_def)
  then show ?thesis using lk_grow.take_head [THEN lk_stepI(3), OF Growth b] by fastforce
next
  case (Growing q b)
  then have "s_height (lk_heap s q) < s_height (lk_heap s b)" using lk_invD(2) [OF inv, of t] by simp
  then show ?thesis using lk_grow.copy [THEN lk_stepI(3), OF Growing] by (auto simp: copyHead_def rguard_def)
next
  case (Copied q b)
  show ?thesis
    using lk_grow.swap [THEN lk_stepI(3), OF Copied] lk_grow.no_swap [THEN lk_stepI(3), OF Copied] by (cases "lk_head s = q") blast+
next
  case (Marking w a)
  show ?thesis
    using lk_mark.mark [THEN lk_stepI(2), OF Marking] lk_mark.marked [THEN lk_stepI(2), OF Marking]
    by (cases "markedForRemoval (lk_heap s a)") blast+
next
  case (Locking w l prev)
  then show ?thesis using locking_steps [OF inv Locking free] by blast
qed (use assms in \<open>auto intro: linking_steps unlinking_steps lk_change.full [THEN lk_stepI(1)] lk_mark.unlock [THEN lk_stepI(2)]
  lk_mark.unlock_marked [THEN lk_stepI(2)] lk_grow.retire [THEN lk_stepI(3)] lk_grow.unlock_head [THEN lk_stepI(3)]\<close>)

section \<open>Interleaved runs\<close>

inductive lk_run :: "nat \<Rightarrow> 'a::linorder locks \<Rightarrow> 'a locks \<Rightarrow> bool" for M :: nat and s :: "'a locks" where
  here: "lk_run M s s"
| more: "lk_run M s s' \<Longrightarrow> lk_step M t s' s'' \<Longrightarrow> lk_run M s s''"

definition lk_idle :: "'a locks \<Rightarrow> bool" where
  "lk_idle s \<longleftrightarrow> (\<forall>t. lk_pc s t = Outside) \<and> (\<forall>p. \<not> s_lock (lk_heap s p)) \<and> infinite (lk_free s)"

lemma lk_idle_inv: "lk_idle s \<Longrightarrow> lk_inv M s"
  by (simp add: lk_idle_def lk_inv_def remembers_def)

lemma lk_run_inv: "lk_run M s s' \<Longrightarrow> lk_idle s \<Longrightarrow> lk_inv M s'"
  by (induction rule: lk_run.induct) (auto intro: lk_idle_inv lk_step_inv)

lemma lk_run_trans: "lk_run M s' s'' \<Longrightarrow> lk_run M s s' \<Longrightarrow> lk_run M s s''"
  by (induction rule: lk_run.induct) (auto intro: lk_run.more)

lemma lk_run_step: "lk_step M t s s' \<Longrightarrow> lk_run M s' s'' \<Longrightarrow> lk_run M s s''"
  by (rule lk_run_trans) (auto intro: lk_run.intros)

lemma lock_loop_first:
  assumes "P l = Some p" "lock_loop (l # ls) P S adding (Some p) g h = Inr r"
  obtains v where "lock_loop [l] P S adding (Some p) g h = Inr (v, g, h)"
    "(if v then lock_loop ls P S adding (Some p) g h else Inr (False, g, h)) = Inr r"
proof -
  obtain n where n: "skip h p l = Inr n" using assms by auto
  define v where "v \<longleftrightarrow> \<not> markedForRemoval (h p) \<and> n = S l
    \<and> (adding \<longrightarrow> (case S l of None \<Rightarrow> True | Some b \<Rightarrow> \<not> markedForRemoval (h b)))"
  have "lock_loop (l # ls) P S adding (Some p) g h = (if v then lock_loop ls P S adding (Some p) g h else Inr (False, g, h))" for ls
    using assms(1) n by (auto simp: v_def Let_def)
  then show thesis using assms(2) by (intro that [of v]) simp_all
qed

text \<open>Run alone, the loop of \<open>lk_step\<close> is \<open>lockNodesForChange\<close>.\<close>

lemma lock_loop_runs:
  "lock_loop [l..<w_height w] (w_preds w) (w_succs w) (w_adding w) prev (w_guards w) (lk_heap s) = Inr (valid, g, h) \<Longrightarrow>
   l \<le> w_height w \<Longrightarrow> lk_pc s t = Locking w l prev \<Longrightarrow>
   lk_run M s (goto s t h (if valid then Locked (w\<lparr>w_guards := g\<rparr>) else Releasing (w\<lparr>w_guards := g\<rparr>) 0 False))"
proof (induction "w_height w - l" arbitrary: l w prev s)
  case 0
  then have l: "l = w_height w" and res: "valid" "g = w_guards w" "h = lk_heap s" by auto
  have "lk_run M s (goto s t (lk_heap s) (Locked w))"
    by (rule lk_run.more [OF lk_run.here lk_change.locked [THEN lk_stepI(1)]]) (use 0 l in simp)
  then show ?case using res by (simp add: fun_upd_def)
next
  case (Suc d)
  then have l: "l < w_height w" by simp
  let ?P = "w_preds w"
  obtain p where p: "?P l = Some p" using Suc.prems(1) l by (auto simp: upt_conv_Cons split: option.splits)
  define w' where "w' = (if Some p = prev then w else w\<lparr>w_guards := (w_guards w)(l := True)\<rparr>)"
  have sel: "w_preds w' = ?P" "w_succs w' = w_succs w" "w_target w' = w_target w" "w_height w' = w_height w"
    "w'\<lparr>w_guards := g\<rparr> = w\<lparr>w_guards := g\<rparr>"
    by (simp_all add: w'_def)
  obtain h1 where h1: "if Some p = prev then h1 = lk_heap s else acquireGuard p (lk_heap s) = Inr h1"
    and rest: "lock_loop (l # [Suc l..<w_height w]) ?P (w_succs w) (w_adding w) (Some p) (w_guards w') h1 = Inr (valid, g, h)"
    using Suc.prems(1) l p by (cases "Some p = prev") (auto simp: upt_conv_Cons w'_def rmap_def)
  let ?c = "goto s t h1 (Checking w' l p)"
  have st: "lk_step M t s ?c"
    using lk_change.acquire [THEN lk_stepI(1), OF Suc.prems(3) l p] lk_change.again [THEN lk_stepI(1), OF Suc.prems(3) l p] h1 by (auto simp: w'_def)
  obtain v where v: "lock_loop [l] (w_preds w') (w_succs w') (w_adding w') (Some p) (w_guards w') h1 = Inr (v, w_guards w', h1)"
    and nxt: "(if v then lock_loop [Suc l..<w_height w] ?P (w_succs w) (w_adding w) (Some p) (w_guards w') h1
      else Inr (False, w_guards w', h1)) = Inr (valid, g, h)"
    using lock_loop_first [OF p rest] sel(1-3) by metis
  let ?d = "goto s t h1 (if v then Locking w' (Suc l) (Some p) else Releasing w' 0 False)"
  have st': "lk_step M t ?c ?d"
    using lk_change.check [THEN lk_stepI(1), of ?c t w' l p v "w_guards w'" h1 M] v by simp
  have "lk_run M ?d (goto s t h (if valid then Locked (w'\<lparr>w_guards := g\<rparr>) else Releasing (w'\<lparr>w_guards := g\<rparr>) 0 False))"
  proof (cases v)
    case True
    have "d = w_height w' - Suc l" "Suc l \<le> w_height w'" using Suc.hyps(2) sel(4) by simp_all
    then show ?thesis using Suc.hyps(1) [of w' "Suc l" "Some p" ?d] True nxt sel(1-4) by simp
  next
    case False
    then show ?thesis using nxt lk_run.here by auto
  qed
  then have "lk_run M ?d (goto s t h (if valid then Locked (w\<lparr>w_guards := g\<rparr>) else Releasing (w\<lparr>w_guards := g\<rparr>) 0 False))"
    unfolding sel(5) .
  then show ?case using st st' lk_run_step by blast
qed

text \<open>Run alone from the start of the loop, a thread ends it as \<open>lockNodesForChange\<close> does.\<close>

lemma lockNodes_runs:
  assumes "lockNodesForChange (w_height w) (w_preds w) (w_succs w) (w_adding w) (lk_heap s) = Inr (valid, g, h)"
    and "lk_pc s t = Locking w 0 None" "w_guards w = no_guards"
  shows "lk_run M s (goto s t h (if valid then Locked (w\<lparr>w_guards := g\<rparr>) else Releasing (w\<lparr>w_guards := g\<rparr>) 0 False))"
  using assms by (intro lock_loop_runs [of 0]) (simp_all add: lockNodesForChange_def)

section \<open>Properties\<close>

text \<open>The layers a thread has still to write.\<close>

fun pending :: "'a lpc \<Rightarrow> nat set" where
  "pending (Locked w) = {..<w_height w}"
| "pending (Linking w b k) = {k..<w_height w}"
| "pending (Unlinking w k) = {..<k}"
| "pending _ = {}"

text \<open>A run of two threads that add behind the head of an empty list: the first has the lock, the second waits for it.\<close>

definition ex_heap :: "nat sheap" where
  "ex_heap = (\<lambda>_. \<lparr>s_flags = 1, s_height = 1, s_lock = False, s_data = 0, s_skip = [None]\<rparr>)"

definition ex_window :: "(nat \<Rightarrow> bool) \<Rightarrow> nat window" where
  "ex_window g = \<lparr>w_preds = (\<lambda>_. Some 0), w_succs = (\<lambda>_. None), w_height = 1, w_value = 5, w_target = None, w_guards = g\<rparr>"

definition ex_idle :: "nat locks" where
  "ex_idle = \<lparr>lk_heap = ex_heap, lk_head = 0, lk_free = - {0}, lk_pc = (\<lambda>_. Outside)\<rparr>"

definition ex_both :: "nat locks" where
  "ex_both = ex_idle\<lparr>lk_pc := (lk_pc ex_idle)(1 := Locking (ex_window no_guards) 0 None, 0 := Locking (ex_window no_guards) 0 None)\<rparr>"

definition ex_locked :: "nat locks" where
  "ex_locked = ex_both\<lparr>lk_heap := ex_heap(0 := (ex_heap 0)\<lparr>s_lock := True\<rparr>),
     lk_pc := (lk_pc ex_both)(0 := Locked (ex_window (no_guards(0 := True))))\<rparr>"

lemmas ex_defs = ex_locked_def ex_both_def ex_idle_def ex_window_def ex_heap_def

lemma ex_idle_ok: "lk_idle ex_idle"
  by (simp add: lk_idle_def ex_defs)

lemma ex_enters: "lk_heap s = ex_heap \<Longrightarrow> lk_head s = 0 \<Longrightarrow> \<forall>u j. unlinked_at (lk_pc s u) j = {} \<Longrightarrow> enters 1 s (ex_window no_guards)"
proof -
  assume s: "lk_heap s = ex_heap" "lk_head s = 0" "\<forall>u j. unlinked_at (lk_pc s u) j = {}"
  have "on_layer s 0 0" unfolding on_layer_def by (rule exI [of _ "[0]"]) (simp add: s ex_heap_def)
  then show ?thesis
    using s by (simp add: enters_def known_def window_ok_def values_ok_def ex_window_def ex_heap_def node_rank_def isHeadNode_def)
qed

lemma ex_run: "lk_run 1 ex_idle ex_locked"
proof -
  let ?s = "goto ex_idle 1 (lk_heap ex_idle) (Locking (ex_window no_guards) 0 None)"
  have "lk_step 1 1 ex_idle ?s"
    by (intro lk_stepI(1) lk_change.start ex_enters) (simp_all add: ex_idle_def ex_window_def)
  moreover have "lk_step 1 0 ?s (goto ?s 0 (lk_heap ?s) (Locking (ex_window no_guards) 0 None))"
    by (intro lk_stepI(1) lk_change.start ex_enters) (simp_all add: ex_idle_def ex_window_def)
  ultimately have "lk_run 1 ex_idle (goto ?s 0 (lk_heap ?s) (Locking (ex_window no_guards) 0 None))"
    by (blast intro: lk_run.intros)
  then have "lk_run 1 ex_idle ex_both" by (simp add: ex_both_def)
  moreover have "lk_run 1 ex_both (goto ex_both 0 (ex_heap(0 := (ex_heap 0)\<lparr>s_lock := True\<rparr>))
      (if True then Locked ((ex_window no_guards)\<lparr>w_guards := no_guards(0 := True)\<rparr>) else Releasing ((ex_window no_guards)\<lparr>w_guards := no_guards(0 := True)\<rparr>) 0 False))"
    by (rule lockNodes_runs)
      (simp_all add: ex_defs lockNodesForChange_def acquireGuard_def rguard_def rmap_def skip_def markedForRemoval_def)
  ultimately show ?thesis
    using lk_run_trans by (auto simp: ex_locked_def ex_window_def)
qed





end
