(* ===== verification/Hcl_Skip_Conc.thy ===== *)
theory Hcl_Skip_Conc
  imports Hcl_Skip_Locks Hcl_Skip_Set
begin

text \<open>
  The skip list as a set under interleaving. In every state that the threads of \<^verbatim>\<open>Hcl_Skip_Locks\<close> reach, each
  layer is a sorted path from the head and holds only nodes of the layer below. The set of the
  unmarked values on the bottom layer changes at two steps only: the link of a new node at the bottom layer adds its
  value, the mark of a node takes its value away.
\<close>

section \<open>Layers as paths\<close>

text \<open>\<open>X k\<close>: the nodes of layer \<open>k\<close> behind the head \<open>q\<close>.\<close>

definition paths :: "'a::linorder sheap \<Rightarrow> ptr \<Rightarrow> (nat \<Rightarrow> ptr list) \<Rightarrow> bool" where
  "paths h q X \<longleftrightarrow> isHeadNode (h q) \<and> \<not> markedForRemoval (h q) \<and> 0 < s_height (h q) \<and> length (s_skip (h q)) = s_height (h q)
     \<and> (\<forall>k < s_height (h q). spath h k (s_skip (h q) ! k) (X k) \<and> sorted_wrt (<) (map (\<lambda>a. s_data (h a)) (X k))
          \<and> (\<forall>a \<in> set (X k). \<not> isHeadNode (h a) \<and> length (s_skip (h a)) = s_height (h a)))
     \<and> (\<forall>k. Suc k < s_height (h q) \<longrightarrow> set (X (Suc k)) \<subseteq> set (X k))"

definition on_path :: "'a sheap \<Rightarrow> ptr \<Rightarrow> (nat \<Rightarrow> ptr list) \<Rightarrow> nat \<Rightarrow> ptr \<Rightarrow> bool" where
  "on_path h q X k a \<longleftrightarrow> k < s_height (h q) \<and> a \<in> set (X k)"

lemma pathsD:
  assumes "paths h q X"
  shows "isHeadNode (h q)" "\<not> markedForRemoval (h q)" "0 < s_height (h q)"
    "k < s_height (h q) \<Longrightarrow> spath h k (s_skip (h q) ! k) (X k)"
    "k < s_height (h q) \<Longrightarrow> sorted_wrt (<) (map (\<lambda>a. s_data (h a)) (X k))"
    "on_path h q X k a \<Longrightarrow> \<not> isHeadNode (h a)"
    "on_path h q X (Suc k) a \<Longrightarrow> on_path h q X k a"
    "length (s_skip (h q)) = s_height (h q)" "on_path h q X k a \<Longrightarrow> length (s_skip (h a)) = s_height (h a)"
  using assms by (auto simp: paths_def on_path_def)

lemma on_path_down:
  assumes "paths h q X" "on_path h q X j a" "i \<le> j"
  shows "on_path h q X i a"
  using assms(3,2) by (induction rule: inc_induct) (auto intro: pathsD(7) [OF assms(1)])

lemma sorted_distinct: "sorted_wrt (<) (map f xs) \<Longrightarrow> distinct xs" for f :: "'b \<Rightarrow> 'a::linorder"
  by (induction xs) auto

lemma paths_distinct:
  assumes "paths h q X" "k < s_height (h q)"
  shows "distinct (q # X k)"
  using sorted_distinct [OF pathsD(5) [OF assms]] pathsD(1,6) [OF assms(1)] assms(2) by (auto simp: on_path_def)

lemma spath_height: "spath h k n xs \<Longrightarrow> a \<in> set xs \<Longrightarrow> k < s_height (h a)"
  by (induction xs arbitrary: n) auto

lemma on_path_height: "paths h q X \<Longrightarrow> on_path h q X k a \<Longrightarrow> k < s_height (h a)"
  using pathsD(4) spath_height unfolding on_path_def by blast

lemma spath_det: "spath h k n xs \<Longrightarrow> spath h k n ys \<Longrightarrow> xs = ys"
  by (induction xs arbitrary: n ys) (case_tac ys; auto)+

text \<open>Only the head and the nodes of the layers matter.\<close>

lemma paths_cong:
  assumes "paths h q X"
    and eq: "\<And>a. a = q \<or> (\<exists>k. on_path h q X k a) \<Longrightarrow>
      s_height (h' a) = s_height (h a) \<and> s_skip (h' a) = s_skip (h a) \<and> s_data (h' a) = s_data (h a) \<and> isHeadNode (h' a) = isHeadNode (h a)"
    and "\<not> markedForRemoval (h' q)"
  shows "paths h' q X"
proof -
  have q: "s_height (h' q) = s_height (h q)" "s_skip (h' q) = s_skip (h q)" "isHeadNode (h' q)"
    using eq [of q] pathsD(1) [OF assms(1)] by auto
  have "spath h' k (s_skip (h q) ! k) (X k)" "sorted_wrt (<) (map (\<lambda>a. s_data (h' a)) (X k))"
    "\<forall>a \<in> set (X k). \<not> isHeadNode (h' a) \<and> length (s_skip (h' a)) = s_height (h' a)"
    if k: "k < s_height (h q)" for k
  proof -
    have a: "s_height (h' a) = s_height (h a) \<and> s_skip (h' a) = s_skip (h a) \<and> s_data (h' a) = s_data (h a) \<and> isHeadNode (h' a) = isHeadNode (h a)"
      if "a \<in> set (X k)" for a using eq [of a] that k by (auto simp: on_path_def)
    show "spath h' k (s_skip (h q) ! k) (X k)"
      using pathsD(4) [OF assms(1) k] a by (subst spath_cong [of _ _ h]) auto
    have "map (\<lambda>a. s_data (h' a)) (X k) = map (\<lambda>a. s_data (h a)) (X k)" using a by simp
    then show "sorted_wrt (<) (map (\<lambda>a. s_data (h' a)) (X k))" using pathsD(5) [OF assms(1) k] by metis
    show "\<forall>a \<in> set (X k). \<not> isHeadNode (h' a) \<and> length (s_skip (h' a)) = s_height (h' a)"
      using a pathsD(6) [OF assms(1), of k] pathsD(9) [OF assms(1), of k] k by (auto simp: on_path_def)
  qed
  then show ?thesis
    using assms q by (simp add: paths_def)
qed

lemma on_layer_iff:
  assumes "paths (lk_heap s) (lk_head s) X"
  shows "on_layer s k p \<longleftrightarrow> k < s_height (lk_heap s (lk_head s)) \<and> (p = lk_head s \<or> p \<in> set (X k))"
proof
  assume "on_layer s k p"
  then obtain xs where xs: "spath (lk_heap s) k (Some (lk_head s)) xs" "p \<in> set xs" by (auto simp: on_layer_def)
  then obtain ys where ys: "xs = lk_head s # ys" "k < s_height (lk_heap s (lk_head s))"
    "spath (lk_heap s) k (s_skip (lk_heap s (lk_head s)) ! k) ys" by (cases xs) auto
  then show "k < s_height (lk_heap s (lk_head s)) \<and> (p = lk_head s \<or> p \<in> set (X k))"
    using xs(2) spath_det [OF ys(3) pathsD(4) [OF assms ys(2)]] by auto
next
  assume k: "k < s_height (lk_heap s (lk_head s)) \<and> (p = lk_head s \<or> p \<in> set (X k))"
  then have "spath (lk_heap s) k (Some (lk_head s)) (lk_head s # X k)" using pathsD(4) [OF assms] by simp
  then show "on_layer s k p" using k unfolding on_layer_def by (metis list.set_intros(1) list.set_intros(2))
qed

section \<open>Linking and unlinking\<close>

text \<open>A node of a layer that points to \<open>n\<close> splits the path there.\<close>

lemma path_split:
  assumes "paths h q X" "k < s_height (h q)" "p = q \<or> p \<in> set (X k)"
  obtains as bs where "X k = as @ bs" "p = last (q # as)" "s_skip (h p) ! k = hd_opt bs"
proof (cases "p = q")
  case True
  then show thesis using that [of "[]" "X k"] spath_start [of h k "s_skip (h q) ! k" "[]" "X k"] pathsD(4) [OF assms(1,2)] by simp
next
  case False
  then obtain as bs where X: "X k = as @ p # bs" using assms(3) by (meson split_list)
  then have "spath h k (s_skip (h p) ! k) bs" using spath_drop pathsD(4) [OF assms(1,2)] by metis
  then show thesis using that [of "as @ [p]" bs] X spath_start [of h k _ "[]" bs] by simp
qed

lemma path_before:
  assumes "paths h q X" "k < s_height (h q)" "X k = as @ bs" "p = last (q # as)" "node_rank h p < Some v" "a \<in> set as"
  shows "s_data (h a) < v"
proof -
  have p: "p = last as" "p \<in> set as" using assms(4,6) last_in_set [of as] by auto
  then have "\<not> isHeadNode (h p)" using pathsD(6) [OF assms(1), of k p] assms(2,3) by (auto simp: on_path_def)
  then have "s_data (h p) < v" using assms(5) by (simp add: node_rank_def)
  moreover have "s_data (h a) \<le> s_data (h p)"
  proof -
    obtain cs where "as = cs @ [p]" using p by (metis append_butlast_last_id empty_iff empty_set)
    then show ?thesis using pathsD(5) [OF assms(1,2)] assms(3,6) by (fastforce simp: sorted_wrt_append)
  qed
  ultimately show ?thesis by simp
qed

lemma path_after:
  assumes "paths h q X" "k < s_height (h q)" "X k = as @ c # bs" "Some v < node_rank h c" "a \<in> set (c # bs)"
  shows "v < s_data (h a)"
proof -
  have "\<not> isHeadNode (h c)" using pathsD(6) [OF assms(1), of k c] assms(2,3) by (auto simp: on_path_def)
  then have "v < s_data (h c)" using assms(4) by (simp add: node_rank_def)
  moreover have "s_data (h c) \<le> s_data (h a)"
    using pathsD(5) [OF assms(1,2)] assms(3,5) by (fastforce simp: sorted_wrt_append)
  ultimately show ?thesis by simp
qed

text \<open>A write to layer \<open>k\<close> that turns its path into \<open>Y\<close>.\<close>

lemma paths_write:
  assumes P: "paths h q X" and k: "k < s_height (h q)" and lw: "layer_write k h h'"
    and Y: "spath h' k (s_skip (h' q) ! k) Y" "sorted_wrt (<) (map (\<lambda>a. s_data (h a)) Y)" "\<forall>a \<in> set Y. \<not> isHeadNode (h a) \<and> length (s_skip (h a)) = s_height (h a)"
    and up: "\<And>a. on_path h q X (Suc k) a \<Longrightarrow> a \<in> set Y" and down: "0 < k \<Longrightarrow> set Y \<subseteq> set (X (k - 1))"
  shows "paths h' q (X(k := Y))"
proof -
  have same: "s_height (h' a) = s_height (h a)" "s_data (h' a) = s_data (h a)" "isHeadNode (h' a) = isHeadNode (h a)"
    "markedForRemoval (h' a) = markedForRemoval (h a)" "j \<noteq> k \<Longrightarrow> s_skip (h' a) ! j = s_skip (h a) ! j"
    "length (s_skip (h' a)) = length (s_skip (h a))" for a j
    using lw by (auto simp: layer_write_def isHeadNode_def markedForRemoval_def)
  have "spath h' j (s_skip (h' q) ! j) (X j)" if "j < s_height (h q)" "j \<noteq> k" for j
    using pathsD(4) [OF P that(1)] same that by (subst spath_cong [of _ _ h]) auto
  moreover have "set (if Suc j = k then Y else X (Suc j)) \<subseteq> set (if j = k then Y else X j)" if "Suc j < s_height (h q)" for j
    using up down that pathsD(7) [OF P, of j] by (auto simp: on_path_def)
  moreover have nodes: "\<forall>a \<in> set (X j). \<not> isHeadNode (h a) \<and> length (s_skip (h a)) = s_height (h a)" if "j < s_height (h q)" for j
    using pathsD(6,9) [OF P, of j] that by (auto simp: on_path_def)
  ultimately show ?thesis
    using pathsD(1-3,8) [OF P] pathsD(5) [OF P] nodes Y k unfolding paths_def on_path_def by (simp add: same)
qed

lemma paths_link:
  assumes P: "paths h q X" and k: "k < s_height (h q)" and p: "p = q \<or> p \<in> set (X k)"
    and b: "b \<noteq> q" "b \<notin> set (X k)" "node_rank h b = Some v" "k < s_height (h b)" "0 < k \<Longrightarrow> b \<in> set (X (k - 1))"
      "length (s_skip (h b)) = s_height (h b)"
    and v: "node_rank h p < Some v" "\<And>c. s_skip (h p) ! k = Some c \<Longrightarrow> Some v < node_rank h c"
    and lw: "layer_write k h h'" and wr: "s_skip (h' b) ! k = s_skip (h p) ! k" "s_skip (h' p) ! k = Some b"
      "\<And>x. x \<noteq> p \<Longrightarrow> x \<noteq> b \<Longrightarrow> h' x = h x"
  obtains Y where "set Y = insert b (set (X k))" "paths h' q (X(k := Y))"
proof -
  obtain as bs where X: "X k = as @ bs" and pl: "p = last (q # as)" and sc: "s_skip (h p) ! k = hd_opt bs"
    using path_split [OF P k p] by blast
  have nb: "\<not> isHeadNode (h b)" "s_data (h b) = v" using b(3) by (auto simp: node_rank_def split: if_splits)
  have lt: "s_data (h a) < v" if "a \<in> set as" for a by (rule path_before [OF P k X pl v(1) that])
  have gt: "v < s_data (h a)" if a: "a \<in> set bs" for a
  proof -
    obtain c cs where bs: "bs = c # cs" using a by (cases bs) auto
    show ?thesis using path_after [OF P k _ v(2)] X sc a bs by simp
  qed
  have hts: "s_height (h' a) = s_height (h a)" for a using lw by (simp add: layer_write_def)
  have oth: "s_height (h' x) = s_height (h x) \<and> (x \<noteq> last (q # as) \<longrightarrow> s_skip (h' x) ! k = s_skip (h x) ! k)"
    if "x \<in> set (q # as @ bs)" for x
  proof -
    have "x \<noteq> b" using that b(1,2) X by auto
    then show ?thesis using wr(3) [of x] hts pl by auto
  qed
  have "spath h' k (s_skip (h' q) ! k) (as @ b # bs)"
    by (rule spath_link [where h = h])
      (use pathsD(4) [OF P k] paths_distinct [OF P k] b(1,2,4) X pl sc wr(1,2) hts oth in auto)
  moreover have "sorted_wrt (<) (map (\<lambda>a. s_data (h a)) (as @ b # bs))"
    using pathsD(5) [OF P k] X lt gt nb(2) by (auto simp: sorted_wrt_append)
  moreover have "\<forall>a \<in> set (as @ b # bs). \<not> isHeadNode (h a) \<and> length (s_skip (h a)) = s_height (h a)"
    using pathsD(6) [OF P, of k] pathsD(9) [OF P, of k] X nb(1) b(6) k by (auto simp: on_path_def)
  moreover have "a \<in> set (as @ b # bs)" if "on_path h q X (Suc k) a" for a
    using pathsD(7) [OF P that] X by (auto simp: on_path_def)
  moreover have "set (as @ b # bs) \<subseteq> set (X (k - 1))" if "0 < k"
    using b(5) [OF that] X pathsD(7) [OF P, of "k - 1"] k that by (auto simp: on_path_def)
  ultimately have "paths h' q (X(k := as @ b # bs))" by (rule paths_write [OF P k lw])
  then show thesis using that [of "as @ b # bs"] X by auto
qed

lemma paths_unlink:
  assumes P: "paths h q X" and k: "k < s_height (h q)" and p: "p = q \<or> p \<in> set (X k)"
    and a: "s_skip (h p) ! k = Some a" "\<not> on_path h q X (Suc k) a"
    and lw: "layer_write k h h'" and wr: "s_skip (h' p) ! k = s_skip (h a) ! k" "\<And>x. x \<noteq> p \<Longrightarrow> h' x = h x"
  obtains Y where "a \<in> set (X k)" "set Y = set (X k) - {a}" "paths h' q (X(k := Y))"
proof -
  obtain as bs' where X': "X k = as @ bs'" and pl: "p = last (q # as)" and sc: "s_skip (h p) ! k = hd_opt bs'"
    using path_split [OF P k p] by blast
  then obtain bs where X: "X k = as @ a # bs" using a(1) by (cases bs') auto
  have hts: "s_height (h' a) = s_height (h a)" for a using lw by (simp add: layer_write_def)
  have dist: "distinct (q # as @ a # bs)" using paths_distinct [OF P k] X by simp
  have "spath h' k (s_skip (h' q) ! k) (as @ bs)"
    by (rule spath_unlink [where h = h and c = a]) (use pathsD(4) [OF P k] dist X pl wr hts in auto)
  moreover have "sorted_wrt (<) (map (\<lambda>a. s_data (h a)) (as @ bs))"
    using pathsD(5) [OF P k] X by (auto simp: sorted_wrt_append)
  moreover have "\<forall>x \<in> set (as @ bs). \<not> isHeadNode (h x) \<and> length (s_skip (h x)) = s_height (h x)"
    using pathsD(6) [OF P, of k] pathsD(9) [OF P, of k] X k by (auto simp: on_path_def)
  moreover have "x \<in> set (as @ bs)" if "on_path h q X (Suc k) x" for x
    using pathsD(7) [OF P that] that a(2) X by (auto simp: on_path_def)
  moreover have "set (as @ bs) \<subseteq> set (X (k - 1))" if "0 < k"
    using X pathsD(7) [OF P, of "k - 1"] k that by (auto simp: on_path_def)
  ultimately have "paths h' q (X(k := as @ bs))" by (rule paths_write [OF P k lw])
  then show thesis using that [of "as @ bs"] X dist by auto
qed

section \<open>The search\<close>

text \<open>A node that a search has passed: the head or a node of the layer, with a smaller value.\<close>

definition passed :: "'a::linorder sheap \<Rightarrow> ptr \<Rightarrow> (nat \<Rightarrow> ptr list) \<Rightarrow> 'a \<Rightarrow> nat \<Rightarrow> ptr \<Rightarrow> bool" where
  "passed h q X dat k p \<longleftrightarrow> (p = q \<or> on_path h q X k p) \<and> node_rank h p < Some dat"

lemma passed_down: "paths h q X \<Longrightarrow> passed h q X dat k p \<Longrightarrow> i \<le> k \<Longrightarrow> passed h q X dat i p"
  by (auto simp: passed_def intro: on_path_down)

lemma passed_height: "paths h q X \<Longrightarrow> passed h q X dat k p \<Longrightarrow> k < s_height (h q) \<Longrightarrow> k < s_height (h p)"
  by (auto simp: passed_def intro: on_path_height)

text \<open>The loop along one layer ends between the smaller values and the others.\<close>

lemma walk_path:
  assumes P: "paths h q X" and k: "k < s_height (h q)" and p: "passed h q X dat k p"
  obtains n p' n' where "skip h p k = Inr n" "walk_right h dat k p n = Some (Inr (p', n'))" "passed h q X dat k p'"
    "node_rank h p \<le> node_rank h p'" "\<And>b. n' = Some b \<Longrightarrow> on_path h q X k b \<and> Some dat \<le> node_rank h b"
    "\<And>a. on_path h q X k a \<Longrightarrow> s_data (h a) = dat \<Longrightarrow> n' = Some a"
proof -
  have pq: "p = q \<or> p \<in> set (X k)" using p by (auto simp: passed_def on_path_def)
  obtain as bs where X: "X k = as @ bs" and pl: "p = last (q # as)" and sc: "s_skip (h p) ! k = hd_opt bs"
    using path_split [OF P k pq] by blast
  have srt: "sorted_wrt (<) (map (\<lambda>a. s_data (h a)) (as @ bs))" using pathsD(5) [OF P k] X by simp
  obtain cs ds where bs: "bs = cs @ ds" and sp: "splits_at h dat cs ds"
    using split_exists [of h bs dat] srt by (auto simp: sorted_wrt_append)
  have nh: "\<not> isHeadNode (h a)" if "a \<in> set (X k)" for a using pathsD(6) [OF P, of k a] that k by (simp add: on_path_def)
  have lt: "s_data (h a) < dat" if "a \<in> set as" for a using path_before [OF P k X pl _ that] p by (simp add: passed_def)
  have "spath h k (hd_opt bs) bs"
  proof (cases "p = q")
    case True
    then have "as = []" using pl paths_distinct [OF P k] X last_in_set [of as] by (cases as) (auto split: if_splits)
    then show ?thesis using pathsD(4) [OF P k] X sc True by simp
  next
    case False
    then obtain as' where "as = as' @ [p]" using pl by (cases as rule: rev_cases) auto
    then show ?thesis using spath_drop [of h k "s_skip (h q) ! k" as' p bs] pathsD(4) [OF P k] X sc by simp
  qed
  then have w: "walk_right h dat k p (hd_opt bs) = Some (Inr (last (p # cs), hd_opt ds))"
    using walk_right_eq [of h k "hd_opt bs" cs ds dat p] sp bs by (simp add: splits_at_def)
  have last: "last (p # cs) = p \<or> last (p # cs) \<in> set cs" by (cases cs rule: rev_cases) auto
  have pass: "passed h q X dat k (last (p # cs))"
    using last p k X bs nh sp by (auto simp: passed_def on_path_def node_rank_def splits_at_def)
  have le: "node_rank h p \<le> node_rank h (last (p # cs))"
  proof (cases "p = q \<or> cs = []")
    case True
    then show ?thesis using pathsD(1) [OF P] by (auto simp: node_rank_def)
  next
    case False
    then have "p \<in> set as" "last (p # cs) \<in> set cs" using pl by (auto split: if_splits)
    moreover have "s_data (h a) < s_data (h b)" if "a \<in> set as" "b \<in> set cs" for a b
      using srt bs that by (simp add: sorted_wrt_append)
    ultimately have "s_data (h p) \<le> s_data (h (last (p # cs)))" "p \<in> set (X k)" "last (p # cs) \<in> set (X k)"
      using X bs by (auto intro: less_imp_le)
    then show ?thesis using nh unfolding node_rank_def by simp
  qed
  show thesis
  proof (rule that [OF _ w pass le])
    show "skip h p k = Inr (hd_opt bs)" using passed_height [OF P p k] sc by (simp add: skip_def)
    show "on_path h q X k b \<and> Some dat \<le> node_rank h b" if b: "hd_opt ds = Some b" for b
    proof -
      have "b \<in> set ds" using b by (cases ds) auto
      then show ?thesis using k X bs nh [of b] sp by (simp add: on_path_def node_rank_def splits_at_def)
    qed
    show "hd_opt ds = Some a" if a: "on_path h q X k a" "s_data (h a) = dat" for a
    proof -
      have "a \<in> set ds" using a lt sp X bs by (auto simp: on_path_def splits_at_def)
      then obtain d es where ds: "ds = d # es" by (cases ds) auto
      have "dat \<le> s_data (h d)" using sp ds by (simp add: splits_at_def)
      moreover have "a = d \<or> s_data (h d) < s_data (h a)" using \<open>a \<in> set ds\<close> srt bs ds by (auto simp: sorted_wrt_append)
      ultimately show ?thesis using a(2) ds by auto
    qed
  qed
qed

text \<open>What the search leaves in \<^verbatim>\<open>preds\<close>: nodes it has passed, later ones in lower layers.\<close>

definition preds_from :: "'a::linorder sheap \<Rightarrow> ptr \<Rightarrow> (nat \<Rightarrow> ptr list) \<Rightarrow> 'a \<Rightarrow> nat \<Rightarrow> ptr \<Rightarrow> (nat \<Rightarrow> ptr option) \<Rightarrow> bool" where
  "preds_from h q X dat n p0 P \<longleftrightarrow> (\<forall>k < n. \<exists>p. P k = Some p \<and> passed h q X dat k p \<and> node_rank h p0 \<le> node_rank h p
     \<and> (\<forall>j < k. \<exists>p'. P j = Some p' \<and> node_rank h p \<le> node_rank h p'))"

lemma preds_from_Suc:
  assumes "preds_from h q X dat n p P" "P n = Some p" "passed h q X dat n p" "node_rank h p0 \<le> node_rank h p"
  shows "preds_from h q X dat (Suc n) p0 P"
  using assms unfolding preds_from_def less_Suc_eq by (metis order_trans)

text \<open>What it leaves in \<^verbatim>\<open>succs\<close>, and its answer: the highest layer with the value, and there and below the node of that value.\<close>

definition search_result ::
  "'a::linorder sheap \<Rightarrow> ptr \<Rightarrow> (nat \<Rightarrow> ptr list) \<Rightarrow> 'a \<Rightarrow> nat \<Rightarrow> int \<Rightarrow> (nat \<Rightarrow> ptr option) \<Rightarrow> bool" where
  "search_result h q X dat n l S \<longleftrightarrow>
     (if l = - 1 then \<forall>k < n. (\<forall>b. S k = Some b \<longrightarrow> on_path h q X k b \<and> Some dat < node_rank h b)
          \<and> (\<forall>a. on_path h q X k a \<longrightarrow> s_data (h a) \<noteq> dat)
      else \<exists>m a. l = int m \<and> m < n \<and> on_path h q X m a \<and> s_data (h a) = dat \<and> (\<forall>k \<le> m. S k = Some a))"

lemma search_found:
  assumes P: "paths h q X"
  shows "n \<le> s_height (h q) \<Longrightarrow> passed h q X dat (n - 1) p \<Longrightarrow> l \<noteq> - 1 \<Longrightarrow>
    \<exists>P' S'. insertion_loop h dat n p l (Some a) Pr S = Inr (l, P', S') \<and> preds_from h q X dat n p P'
      \<and> (\<forall>k < n. S' k = Some a) \<and> (\<forall>k \<ge> n. P' k = Pr k \<and> S' k = S k)"
proof (induction n arbitrary: p Pr S)
  case 0
  then show ?case by (simp add: preds_from_def)
next
  case (Suc n)
  have n: "n < s_height (h q)" "passed h q X dat n p" using Suc.prems by simp_all
  obtain m p' n' where w: "skip h p n = Inr m" "walk_right h dat n p m = Some (Inr (p', n'))" "passed h q X dat n p'"
    "node_rank h p \<le> node_rank h p'"
    using walk_path [OF P n] by metis
  obtain P' S' where IH: "insertion_loop h dat n p' l (Some a) (Pr(n := Some p')) (S(n := Some a)) = Inr (l, P', S')"
    "preds_from h q X dat n p' P'" "\<forall>k < n. S' k = Some a" "\<forall>k \<ge> n. P' k = (Pr(n := Some p')) k \<and> S' k = (S(n := Some a)) k"
    using Suc.IH [of p' "Pr(n := Some p')" "S(n := Some a)"] passed_down [OF P w(3)] Suc.prems by (auto simp del: fun_upd_apply)
  have "preds_from h q X dat (Suc n) p P'"
    using IH(4) w(3,4) by (intro preds_from_Suc [OF IH(2)]) auto
  then show ?case using w(1,2) IH Suc.prems(3) by (auto simp: diverge_def less_Suc_eq)
qed

lemma search_loop:
  assumes P: "paths h q X"
  shows "n \<le> s_height (h q) \<Longrightarrow> passed h q X dat (n - 1) p \<Longrightarrow>
    \<exists>l P' S'. insertion_loop h dat n p (- 1) None Pr S = Inr (l, P', S') \<and> preds_from h q X dat n p P'
      \<and> search_result h q X dat n l S' \<and> (\<forall>k \<ge> n. P' k = Pr k \<and> S' k = S k)"
proof (induction n arbitrary: p Pr S)
  case 0
  then show ?case by (simp add: preds_from_def search_result_def)
next
  case (Suc n)
  have n: "n < s_height (h q)" "passed h q X dat n p" using Suc.prems by simp_all
  obtain m p' n' where w: "skip h p n = Inr m" "walk_right h dat n p m = Some (Inr (p', n'))" "passed h q X dat n p'"
    "node_rank h p \<le> node_rank h p'" and ge: "\<And>b. n' = Some b \<Longrightarrow> on_path h q X n b \<and> Some dat \<le> node_rank h b"
    and eq: "\<And>a. on_path h q X n a \<Longrightarrow> s_data (h a) = dat \<Longrightarrow> n' = Some a"
    by (rule walk_path [OF P n]) blast
  have down: "n \<le> s_height (h q)" "passed h q X dat (n - 1) p'" using n passed_down [OF P w(3)] by auto
  show ?case
  proof (cases "sl_less dat h n'")
    case True
    obtain l P' S' where IH: "insertion_loop h dat n p' (- 1) None (Pr(n := Some p')) (S(n := n')) = Inr (l, P', S')"
      "preds_from h q X dat n p' P'" "search_result h q X dat n l S'" "\<forall>k \<ge> n. P' k = (Pr(n := Some p')) k \<and> S' k = (S(n := n')) k"
      using Suc.IH [OF down, of "Pr(n := Some p')" "S(n := n')"] by blast
    have "preds_from h q X dat (Suc n) p P'" using IH(4) w(3,4) by (intro preds_from_Suc [OF IH(2)]) auto
    moreover have "search_result h q X dat (Suc n) l S'"
    proof (cases "l = - 1")
      case found: True
      have "Some dat < node_rank h b" if "n' = Some b" for b
        using True that ge [OF that] pathsD(6) [OF P, of n b] by (simp add: sl_less_def node_rank_def)
      moreover have "s_data (h a) \<noteq> dat" if "on_path h q X n a" for a using eq [OF that] True by (auto simp: sl_less_def)
      moreover have "S' n = n'" using IH(4) by simp
      ultimately show ?thesis using IH(3) ge found by (auto simp: search_result_def less_Suc_eq)
    qed (use IH(3) in \<open>auto simp: search_result_def\<close>)
    ultimately show ?thesis using w(1,2) IH(1,4) True by (auto simp: diverge_def)
  next
    case False
    then obtain a where a: "n' = Some a" by (auto simp: sl_less_def split: option.splits)
    then have on: "on_path h q X n a" "s_data (h a) = dat"
      using False ge [OF a] pathsD(6) [OF P, of n a] by (auto simp: sl_less_def node_rank_def)
    obtain P' S' where IH: "insertion_loop h dat n p' (int n) (Some a) (Pr(n := Some p')) (S(n := Some a)) = Inr (int n, P', S')"
      "preds_from h q X dat n p' P'" "\<forall>k < n. S' k = Some a" "\<forall>k \<ge> n. P' k = (Pr(n := Some p')) k \<and> S' k = (S(n := Some a)) k"
      using search_found [OF P down, of "int n" a "Pr(n := Some p')" "S(n := Some a)"] by (auto simp del: fun_upd_apply)
    have "preds_from h q X dat (Suc n) p P'" using IH(4) w(3,4) by (intro preds_from_Suc [OF IH(2)]) auto
    moreover have "search_result h q X dat (Suc n) (int n) S'"
      using IH(3,4) on by (auto simp: search_result_def order_le_less)
    ultimately show ?thesis using w(1,2) IH(1,4) False a by (auto simp: diverge_def)
  qed
qed

section \<open>What the threads know\<close>

text \<open>The node a thread has taken from the recycler, the new head among them, and the old head it copies.\<close>

fun new_nodes :: "'a lpc \<Rightarrow> ptr set" where
  "new_nodes (Linking w b k) = {b}"
| "new_nodes (Linked w b) = {b}"
| "new_nodes (Requesting q b) = {b}"
| "new_nodes (Growing q b) = {b}"
| "new_nodes (Copied q b) = {b}"
| "new_nodes _ = {}"

fun new_head :: "'a lpc \<Rightarrow> ptr set" where
  "new_head (Requesting q b) = {b}"
| "new_head (Growing q b) = {b}"
| "new_head (Copied q b) = {b}"
| "new_head _ = {}"

fun copied_from :: "'a lpc \<Rightarrow> ptr set" where
  "copied_from (Copied q b) = {q}"
| "copied_from _ = {}"

lemma taken_uses: "new_nodes c \<subseteq> own_nodes c" "new_head c \<subseteq> new_nodes c" "unlinked_at c j \<subseteq> new_nodes c" "copied_from c \<subseteq> own_nodes c"
  by (cases c; simp)+

lemma new_head_unlinked: "b \<in> new_head c \<Longrightarrow> b \<in> unlinked_at c j"
  by (cases c) auto

lemma fresh_apart: "fresh s b \<Longrightarrow> b \<notin> uses (lk_pc s u)" "fresh s b \<Longrightarrow> b \<notin> new_nodes (lk_pc s u)" "fresh s b \<Longrightarrow> b \<notin> new_head (lk_pc s u)"
  using taken_uses [of "lk_pc s u"] by (auto simp: fresh_def uses_def)

text \<open>The facts of one thread about the heap, the head \<open>q\<close> and the layers \<open>X\<close>.\<close>

definition window_facts :: "'a::linorder sheap \<Rightarrow> 'a lpc \<Rightarrow> bool" where
  "window_facts h c \<longleftrightarrow> (\<forall>w. win_of c = Some w \<longrightarrow>
     values_ok h w \<and> (\<forall>a. w_target w = Some a \<longrightarrow> 0 < w_height w \<and> fullyLinked (h a)))"

abbreviation target_marked :: "'a sheap \<Rightarrow> 'a window \<Rightarrow> bool" where
  "target_marked h w \<equiv> \<forall>a. w_target w = Some a \<longrightarrow> markedForRemoval (h a)"

fun thread_facts :: "'a::linorder sheap \<Rightarrow> ptr \<Rightarrow> (nat \<Rightarrow> ptr list) \<Rightarrow> 'a lpc \<Rightarrow> bool" where
  "thread_facts h q X (Locking w l prev) \<longleftrightarrow> target_marked h w"
| "thread_facts h q X (Checking w l p) \<longleftrightarrow> target_marked h w"
| "thread_facts h q X (Locked w) \<longleftrightarrow> target_marked h w"
| "thread_facts h q X (Linking w b k) \<longleftrightarrow> w_adding w \<and> node_rank h b = Some (w_value w) \<and> \<not> markedForRemoval (h b)
     \<and> \<not> fullyLinked (h b) \<and> length (s_skip (h b)) = s_height (h b) \<and> (\<forall>j < k. on_path h q X j b)"
| "thread_facts h q X (Linked w b) \<longleftrightarrow> w_adding w \<and> node_rank h b = Some (w_value w) \<and> \<not> fullyLinked (h b)"
| "thread_facts h q X (Unlinking w k) \<longleftrightarrow> target_marked h w \<and> (\<forall>a j. w_target w = Some a \<longrightarrow> k \<le> j \<longrightarrow> \<not> on_path h q X j a)"
| "thread_facts h q X (Releasing w i d) \<longleftrightarrow> target_marked h w \<and> (\<forall>a j. w_target w = Some a \<longrightarrow> d \<longrightarrow> \<not> on_path h q X j a)"
| "thread_facts h q X (Retrying a) \<longleftrightarrow> markedForRemoval (h a)"
| "thread_facts h q X (Marked w a) \<longleftrightarrow> markedForRemoval (h a)"
| "thread_facts h q X (Growth p k) \<longleftrightarrow> isHeadNode (h p)"
| "thread_facts h q X (Requesting p b) \<longleftrightarrow> isHeadNode (h p) \<and> isHeadNode (h b) \<and> p \<noteq> b
     \<and> \<not> markedForRemoval (h b) \<and> length (s_skip (h b)) = s_height (h b)
     \<and> (p = q \<longrightarrow> s_skip (h b) = replicate (s_height (h b)) None)"
| "thread_facts h q X (Growing p b) \<longleftrightarrow> isHeadNode (h p) \<and> isHeadNode (h b) \<and> p \<noteq> b
     \<and> \<not> markedForRemoval (h b) \<and> length (s_skip (h b)) = s_height (h b)
     \<and> (p = q \<longrightarrow> s_skip (h b) = replicate (s_height (h b)) None)"
| "thread_facts h q X (Copied p b) \<longleftrightarrow> isHeadNode (h p) \<and> isHeadNode (h b) \<and> p \<noteq> b \<and> s_height (h p) < s_height (h b)
     \<and> (p = q \<longrightarrow> \<not> markedForRemoval (h b) \<and> length (s_skip (h b)) = s_height (h b)
          \<and> (\<forall>j < s_height (h b). s_skip (h b) ! j = (if j < s_height (h p) then s_skip (h p) ! j else None)))"
| "thread_facts h q X (Retiring p) \<longleftrightarrow> isHeadNode (h p) \<and> p \<noteq> q"
| "thread_facts h q X (Retired p) \<longleftrightarrow> isHeadNode (h p) \<and> p \<noteq> q"
| "thread_facts h q X _ \<longleftrightarrow> True"

definition conc_ok :: "'a::linorder locks \<Rightarrow> (nat \<Rightarrow> ptr list) \<Rightarrow> bool" where
  "conc_ok s X \<longleftrightarrow> paths (lk_heap s) (lk_head s) X
     \<and> (\<forall>t. window_facts (lk_heap s) (lk_pc s t) \<and> thread_facts (lk_heap s) (lk_head s) X (lk_pc s t))
     \<and> (\<forall>t w k p. win_of (lk_pc s t) = Some w \<longrightarrow> k < w_height w \<longrightarrow> w_preds w k = Some p \<longrightarrow> known s k p)
     \<and> (\<forall>t w a. win_of (lk_pc s t) = Some w \<longrightarrow> w_target w = Some a \<longrightarrow> known s 0 a)
     \<and> (\<forall>t j b. b \<in> unlinked_at (lk_pc s t) j \<longrightarrow> b \<noteq> lk_head s \<and> \<not> on_path (lk_heap s) (lk_head s) X j b)
     \<and> (\<forall>t u. t \<noteq> u \<longrightarrow> new_nodes (lk_pc s t) \<inter> new_nodes (lk_pc s u) = {} \<and> new_head (lk_pc s t) \<inter> uses (lk_pc s u) = {})
     \<and> (\<forall>a \<in> lk_free s. a \<noteq> lk_head s \<and> (\<forall>j. \<not> on_path (lk_heap s) (lk_head s) X j a) \<and> (\<forall>t. a \<notin> new_nodes (lk_pc s t)))"

lemma conc_okD:
  assumes "conc_ok s X"
  shows "paths (lk_heap s) (lk_head s) X" "window_facts (lk_heap s) (lk_pc s t)" "thread_facts (lk_heap s) (lk_head s) X (lk_pc s t)"
    "win_of (lk_pc s t) = Some w \<Longrightarrow> k < w_height w \<Longrightarrow> w_preds w k = Some p \<Longrightarrow> known s k p"
    "win_of (lk_pc s t) = Some w \<Longrightarrow> w_target w = Some a \<Longrightarrow> known s 0 a"
    "b \<in> unlinked_at (lk_pc s t) j \<Longrightarrow> b \<noteq> lk_head s" "b \<in> unlinked_at (lk_pc s t) j \<Longrightarrow> \<not> on_path (lk_heap s) (lk_head s) X j b"
    "t \<noteq> u \<Longrightarrow> b \<in> new_nodes (lk_pc s t) \<Longrightarrow> b \<notin> new_nodes (lk_pc s u)" "t \<noteq> u \<Longrightarrow> b \<in> new_head (lk_pc s t) \<Longrightarrow> b \<notin> uses (lk_pc s u)"
    "a \<in> lk_free s \<Longrightarrow> a \<noteq> lk_head s" "a \<in> lk_free s \<Longrightarrow> \<not> on_path (lk_heap s) (lk_head s) X j a" "a \<in> lk_free s \<Longrightarrow> a \<notin> new_nodes (lk_pc s t)"
proof -
  note c = assms [unfolded conc_ok_def]
  show "paths (lk_heap s) (lk_head s) X" using c by (rule conjunct1)
  note c = c [THEN conjunct2]
  show "window_facts (lk_heap s) (lk_pc s t)" "thread_facts (lk_heap s) (lk_head s) X (lk_pc s t)"
    using c [THEN conjunct1] by simp_all
  note c = c [THEN conjunct2]
  show "win_of (lk_pc s t) = Some w \<Longrightarrow> k < w_height w \<Longrightarrow> w_preds w k = Some p \<Longrightarrow> known s k p" using c [THEN conjunct1] by blast
  note c = c [THEN conjunct2]
  show "win_of (lk_pc s t) = Some w \<Longrightarrow> w_target w = Some a \<Longrightarrow> known s 0 a" using c [THEN conjunct1] by blast
  note c = c [THEN conjunct2]
  show "b \<in> unlinked_at (lk_pc s t) j \<Longrightarrow> b \<noteq> lk_head s" "b \<in> unlinked_at (lk_pc s t) j \<Longrightarrow> \<not> on_path (lk_heap s) (lk_head s) X j b"
    using c [THEN conjunct1] by blast+
  note c = c [THEN conjunct2]
  show "t \<noteq> u \<Longrightarrow> b \<in> new_nodes (lk_pc s t) \<Longrightarrow> b \<notin> new_nodes (lk_pc s u)" "t \<noteq> u \<Longrightarrow> b \<in> new_head (lk_pc s t) \<Longrightarrow> b \<notin> uses (lk_pc s u)"
    using c [THEN conjunct1] by blast+
  show "a \<in> lk_free s \<Longrightarrow> a \<noteq> lk_head s" "a \<in> lk_free s \<Longrightarrow> \<not> on_path (lk_heap s) (lk_head s) X j a" "a \<in> lk_free s \<Longrightarrow> a \<notin> new_nodes (lk_pc s t)"
    using c [THEN conjunct2] by blast+
qed

lemma conc_okI:
  assumes "paths (lk_heap s) (lk_head s) X" "\<And>t. window_facts (lk_heap s) (lk_pc s t)" "\<And>t. thread_facts (lk_heap s) (lk_head s) X (lk_pc s t)"
    "\<And>t w k p. win_of (lk_pc s t) = Some w \<Longrightarrow> k < w_height w \<and> w_preds w k = Some p \<or> k = 0 \<and> w_target w = Some p \<Longrightarrow> known s k p"
    "\<And>t j b. b \<in> unlinked_at (lk_pc s t) j \<Longrightarrow> b \<noteq> lk_head s \<and> \<not> on_path (lk_heap s) (lk_head s) X j b"
    "\<And>t u. t \<noteq> u \<Longrightarrow> new_nodes (lk_pc s t) \<inter> new_nodes (lk_pc s u) = {} \<and> new_head (lk_pc s t) \<inter> uses (lk_pc s u) = {}"
    "\<And>a. a \<in> lk_free s \<Longrightarrow> a \<noteq> lk_head s \<and> (\<forall>j. \<not> on_path (lk_heap s) (lk_head s) X j a) \<and> (\<forall>t. a \<notin> new_nodes (lk_pc s t))"
  shows "conc_ok s X"
  unfolding conc_ok_def using assms by (intro conjI allI impI ballI) blast+

section \<open>Writes of the other threads\<close>

definition quiet :: "'a::linorder sheap \<Rightarrow> 'a sheap \<Rightarrow> 'a lpc \<Rightarrow> bool" where
  "quiet h h' c \<longleftrightarrow> (\<forall>p \<in> uses c. s_height (h' p) = s_height (h p) \<and> node_rank h' p = node_rank h p
       \<and> (markedForRemoval (h p) \<longrightarrow> markedForRemoval (h' p)) \<and> (fullyLinked (h p) \<longrightarrow> fullyLinked (h' p)))
     \<and> (\<forall>b \<in> new_nodes c. s_flags (h' b) = s_flags (h b) \<and> length (s_skip (h' b)) = length (s_skip (h b)))
     \<and> (\<forall>b \<in> new_head c \<union> copied_from c. s_skip (h' b) = s_skip (h b))"

text \<open>How a step of another thread may change the layers and the head.\<close>

definition layers_move :: "'a sheap \<Rightarrow> ptr \<Rightarrow> (nat \<Rightarrow> ptr list) \<Rightarrow> 'a sheap \<Rightarrow> ptr \<Rightarrow> (nat \<Rightarrow> ptr list) \<Rightarrow> ptr set \<Rightarrow> bool" where
  "layers_move h q X h' q' X' N \<longleftrightarrow>
     (\<forall>j a. on_path h q X j a \<longrightarrow> markedForRemoval (h' a) \<or> on_path h' q' X' j a)
     \<and> (\<forall>j a. on_path h' q' X' j a \<longrightarrow> on_path h q X j a \<or> a \<in> N)"

lemma isHead_rank: "isHeadNode (h p) \<longleftrightarrow> node_rank h p = None"
  by (simp add: node_rank_def)

lemma flags_eq:
  "s_flags n = s_flags m \<Longrightarrow> markedForRemoval n = markedForRemoval m \<and> fullyLinked n = fullyLinked m \<and> isHeadNode n = isHeadNode m"
  by (simp add: markedForRemoval_def fullyLinked_def isHeadNode_def)

lemma uses_window:
  assumes "win_of c = Some w"
  shows "k < w_height w \<Longrightarrow> w_preds w k = Some p \<Longrightarrow> p \<in> uses c" "k < w_height w \<Longrightarrow> w_succs w k = Some p \<Longrightarrow> p \<in> uses c"
    "w_target w = Some a \<Longrightarrow> a \<in> uses c"
  using assms by (auto simp: uses_def remembers_def)

lemma quietD:
  assumes "quiet h h' c"
  shows "p \<in> uses c \<Longrightarrow> s_height (h' p) = s_height (h p)" "p \<in> uses c \<Longrightarrow> node_rank h' p = node_rank h p"
    "p \<in> uses c \<Longrightarrow> markedForRemoval (h p) \<Longrightarrow> markedForRemoval (h' p)" "p \<in> uses c \<Longrightarrow> fullyLinked (h p) \<Longrightarrow> fullyLinked (h' p)"
    "b \<in> new_nodes c \<Longrightarrow> s_flags (h' b) = s_flags (h b)" "b \<in> new_nodes c \<Longrightarrow> length (s_skip (h' b)) = length (s_skip (h b))"
    "b \<in> new_head c \<union> copied_from c \<Longrightarrow> s_skip (h' b) = s_skip (h b)"
  using assms unfolding quiet_def by blast+

lemma window_facts_quiet:
  assumes "window_facts h c" "quiet h h' c"
  shows "window_facts h' c"
proof -
  have "values_ok h' w" if w: "win_of c = Some w" "values_ok h w" for w
    using w(2) uses_window [OF w(1)] quietD(2) [OF assms(2)] unfolding values_ok_def
    by (fastforce split: option.splits)
  then show ?thesis
    using assms(1) uses_window(3) quietD(4) [OF assms(2)] unfolding window_facts_def by blast
qed

lemma thread_facts_quiet:
  assumes tf: "thread_facts h q X c" and qt: "quiet h h' c" and mv: "layers_move h q X h' q' X' N"
    and N: "\<And>a. a \<in> N \<Longrightarrow> \<not> fullyLinked (h a)" and wf: "window_facts h c" and q': "q' = q \<or> q' \<notin> uses c"
  shows "thread_facts h' q' X' c"
proof -
  have u: "own_nodes c \<subseteq> uses c" by (auto simp: uses_def)
  have tk: "markedForRemoval (h' b) = markedForRemoval (h b)" "fullyLinked (h' b) = fullyLinked (h b)" if "b \<in> new_nodes c" for b
    using flags_eq [OF quietD(5) [OF qt that]] by auto
  have tgt: "markedForRemoval (h' a)" "\<not> on_path h q X j a \<Longrightarrow> \<not> on_path h' q' X' j a"
    if "win_of c = Some w" "w_target w = Some a" "markedForRemoval (h a)" for w a j
    using that uses_window(3) [OF that(1,2)] quietD(3) [OF qt] wf N mv unfolding window_facts_def layers_move_def by blast+
  show ?thesis
  proof (cases c)
    case (Linking w b k)
    have fl: "s_flags (h' b) = s_flags (h b)" using quietD(5) [OF qt, of b] Linking by simp
    have "on_path h' q' X' j b" if "j < k" for j
    proof -
      have "on_path h q X j b" "\<not> markedForRemoval (h' b)" using tf that Linking flags_eq [OF fl] by simp_all
      then show ?thesis using mv unfolding layers_move_def by blast
    qed
    then show ?thesis using tf Linking flags_eq [OF fl] quietD(1,2,6) [OF qt, of b] u by auto
  next
    case (Linked w b)
    then show ?thesis using tf flags_eq [OF quietD(5) [OF qt, of b]] quietD(2) [OF qt, of b] u by auto
  next
    case (Copied p b)
    then show ?thesis
      using tf q' quietD(1,2) [OF qt, of p] quietD(1,2) [OF qt, of b] quietD(5,6) [OF qt, of b] quietD(7) [OF qt, of b] quietD(7) [OF qt, of p] u
      by (auto simp: isHead_rank dest: flags_eq)
  qed (use tf tgt u q' quietD [OF qt] tk in \<open>auto simp: isHead_rank\<close>)
qed

section \<open>Keeping the invariant\<close>

abbreviation move :: "'a locks \<Rightarrow> nat \<Rightarrow> 'a sheap \<Rightarrow> ptr \<Rightarrow> ptr set \<Rightarrow> 'a lpc \<Rightarrow> 'a locks" where
  "move s t h q F c \<equiv> s\<lparr>lk_heap := h, lk_head := q, lk_free := F, lk_pc := (lk_pc s)(t := c)\<rparr>"

lemma as_move:
  "(goto s t h c)\<lparr>lk_free := F\<rparr> = move s t h (lk_head s) F c" "(goto s t h c)\<lparr>lk_head := q\<rparr> = move s t h q (lk_free s) c"
  by (cases s; simp)+

text \<open>A node that a thread uses stays known.\<close>

lemma known_move:
  assumes ok: "conc_ok s X" and P: "paths h q X'" and mv: "layers_move (lk_heap s) (lk_head s) X h q X' N"
    and ht: "s_height (lk_heap s (lk_head s)) \<le> s_height (h q)"
    and marks: "markedForRemoval (lk_heap s p) \<Longrightarrow> markedForRemoval (h p)"
    and hd: "q = lk_head s \<or> c = Retiring (lk_head s)" and ret: "\<And>p. lk_pc s t = Retiring p \<Longrightarrow> markedForRemoval (h p)"
    and kn: "known s k p"
  shows "known (move s t h q F c) k p"
proof -
  let ?s = "move s t h q F c"
  have P': "paths (lk_heap ?s) (lk_head ?s) X'" using P by simp
  consider (layer) "on_layer s k p" | (mark) "markedForRemoval (lk_heap s p)" | (ret) u where "lk_pc s u = Retiring p"
    using kn unfolding known_def by blast
  then show ?thesis
  proof cases
    case layer
    then have k: "k < s_height (lk_heap s (lk_head s))" and "p = lk_head s \<or> p \<in> set (X k)"
      using on_layer_iff [OF conc_okD(1) [OF ok]] by auto
    then consider "p = lk_head s" "q = lk_head s" | "p = lk_head s" "c = Retiring p" | "markedForRemoval (h p)" | "on_path h q X' k p"
      using mv hd unfolding layers_move_def on_path_def by blast
    then show ?thesis
      using k ht on_layer_iff [OF P', of k p] unfolding known_def on_path_def by cases auto
  next
    case mark
    then show ?thesis using marks unfolding known_def by simp
  next
    case ret
    then show ?thesis using assms(7) by (cases "u = t") (auto simp: known_def)
  qed
qed

text \<open>What remains to be shown of a step of thread \<open>t\<close>.\<close>

lemma conc_move:
  assumes ok: "conc_ok s X" and P: "paths h q X'" and mv: "layers_move (lk_heap s) (lk_head s) X h q X' N"
    and N: "N \<subseteq> new_nodes (lk_pc s t)" "\<And>a. a \<in> N \<Longrightarrow> \<not> fullyLinked (lk_heap s a)"
    and ht: "s_height (lk_heap s (lk_head s)) \<le> s_height (h q)"
    and marks: "\<And>p u. p \<in> uses (lk_pc s u) \<Longrightarrow> markedForRemoval (lk_heap s p) \<Longrightarrow> markedForRemoval (h p)"
    and hd: "q = lk_head s \<or> c = Retiring (lk_head s) \<and> q \<in> new_head (lk_pc s t)"
    and ret: "\<And>p. lk_pc s t = Retiring p \<Longrightarrow> markedForRemoval (h p)"
    and qt: "\<And>u. u \<noteq> t \<Longrightarrow> quiet (lk_heap s) h (lk_pc s u)"
    and own: "window_facts h c" "thread_facts h q X' c"
    and kn: "\<And>w k p. win_of c = Some w \<Longrightarrow> k < w_height w \<and> w_preds w k = Some p \<or> k = 0 \<and> w_target w = Some p \<Longrightarrow> known (move s t h q F c) k p"
    and unl: "\<And>j b. b \<in> unlinked_at c j \<Longrightarrow> b \<noteq> q \<and> \<not> on_path h q X' j b"
    and tk: "\<And>b. b \<in> new_nodes c \<Longrightarrow> b \<in> new_nodes (lk_pc s t) \<or> fresh s b"
    and nh: "\<And>b. b \<in> new_head c \<Longrightarrow> b \<in> new_head (lk_pc s t) \<or> fresh s b"
    and us: "\<And>p u. p \<in> uses c \<Longrightarrow> u \<noteq> t \<Longrightarrow> p \<in> uses (lk_pc s t) \<or> p \<notin> new_head (lk_pc s u)"
    and fr: "\<And>a. a \<in> F \<Longrightarrow> a \<noteq> q \<and> (\<forall>j. \<not> on_path h q X' j a) \<and> (\<forall>u. u \<noteq> t \<longrightarrow> a \<notin> new_nodes (lk_pc s u)) \<and> a \<notin> new_nodes c"
  shows "conc_ok (move s t h q F c) X'"
proof -
  have qu: "q = lk_head s \<or> q \<notin> uses (lk_pc s u)" if "u \<noteq> t" for u
    using hd conc_okD(9) [OF ok, of t u q] that by auto
  have kno: "known (move s t h q F c) k p" if "u \<noteq> t" "win_of (lk_pc s u) = Some w"
    "k < w_height w \<and> w_preds w k = Some p \<or> k = 0 \<and> w_target w = Some p" for u w k p
  proof (rule known_move [OF ok P mv ht _ _ ret])
    show "known s k p" using that conc_okD(4,5) [OF ok] by blast
    show "markedForRemoval (lk_heap s p) \<Longrightarrow> markedForRemoval (h p)" using marks uses_window that by metis
  qed (use hd in auto)
  have unlo: "b \<noteq> q \<and> \<not> on_path h q X' j b" if "u \<noteq> t" "b \<in> unlinked_at (lk_pc s u) j" for u b j
  proof -
    have b: "b \<in> new_nodes (lk_pc s u)" "b \<in> uses (lk_pc s u)" using that taken_uses [of "lk_pc s u"] by (auto simp: uses_def)
    then have "b \<notin> N" using N(1) conc_okD(8) [OF ok that(1)] by blast
    then show ?thesis
      using mv conc_okD(6,7) [OF ok that(2)] qu [OF that(1)] b(2) unfolding layers_move_def by blast
  qed
  have apart: "new_nodes c \<inter> new_nodes (lk_pc s u) = {}" "new_head c \<inter> uses (lk_pc s u) = {}" "new_head (lk_pc s u) \<inter> uses c = {}" if u: "u \<noteq> t" for u
  proof -
    have new: "b \<notin> uses (lk_pc s u)" if "fresh s b" for b using that by (simp add: fresh_def)
    have tu: "b \<in> uses (lk_pc s u)" if "b \<in> new_nodes (lk_pc s u)" for b using that taken_uses(1) [of "lk_pc s u"] by (auto simp: uses_def)
    show "new_nodes c \<inter> new_nodes (lk_pc s u) = {}" using tk new tu conc_okD(8) [OF ok u] by blast
    show "new_head c \<inter> uses (lk_pc s u) = {}" using nh new conc_okD(9) [OF ok u [symmetric]] by blast
    show "new_head (lk_pc s u) \<inter> uses c = {}" using us [OF _ u] conc_okD(9) [OF ok u] by blast
  qed
  have others: "window_facts h (lk_pc s u)" "thread_facts h q X' (lk_pc s u)" if "u \<noteq> t" for u
    using window_facts_quiet [OF conc_okD(2) [OF ok] qt [OF that]]
      thread_facts_quiet [OF conc_okD(3) [OF ok] qt [OF that] mv N(2) conc_okD(2) [OF ok] qu [OF that]] by auto
  show ?thesis
  proof (rule conc_okI, goal_cases)
    case 1
    then show ?case using P by simp
  next
    case (2 u)
    then show ?case using own(1) others(1) by simp
  next
    case (3 u)
    then show ?case using own(2) others(2) by simp
  next
    case (4 u w k p)
    then show ?case using kn kno by (cases "u = t") auto
  next
    case (5 u j b)
    then show ?case using unl unlo by (cases "u = t") auto
  next
    case (6 u v)
    then show ?case using apart [of u] apart [of v] conc_okD(8,9) [OF ok 6] by (cases "u = t"; cases "v = t") auto
  next
    case (7 a)
    then show ?case using fr [of a] by auto
  qed
qed

text \<open>The kinds of writes.\<close>

lemma lock_sel:
  assumes "same_but_lock h h'"
  shows "markedForRemoval (h' p) = markedForRemoval (h p)" "fullyLinked (h' p) = fullyLinked (h p)" "isHeadNode (h' p) = isHeadNode (h p)"
    "node_rank h' = node_rank h" "on_path h' = on_path h" "s_height (h' p) = s_height (h p)" "s_skip (h' p) = s_skip (h p)"
  using assms by (auto simp: same_but_lock_def markedForRemoval_def fullyLinked_def isHeadNode_def node_rank_def on_path_def fun_eq_iff)

lemma facts_lock:
  assumes "same_but_lock h h'"
  shows "thread_facts h' q X c = thread_facts h q X c" "window_facts h' c = window_facts h c" "quiet h h' c'"
proof -
  show "thread_facts h' q X c = thread_facts h q X c" by (cases c) (simp_all add: lock_sel [OF assms])
  show "window_facts h' c = window_facts h c" by (simp add: window_facts_def values_ok_def lock_sel [OF assms] split: option.splits)
  show "quiet h h' c'" using assms by (simp add: quiet_def lock_sel [OF assms] same_but_lock_def)
qed

lemma paths_lock:
  assumes "paths h q X" "same_but_lock h h'"
  shows "paths h' q X"
  by (rule paths_cong [OF assms(1)]) (use assms(2) pathsD(2) [OF assms(1)] in \<open>simp_all add: lock_sel [OF assms(2)] same_but_lock_def\<close>)

lemma flag_mono [simp]:
  "markedForRemoval n \<Longrightarrow> markedForRemoval (setFlag f n)" "fullyLinked n \<Longrightarrow> fullyLinked (setFlag f n)"
  "fullyLinked (setFlag MARKED_FOR_REMOVAL n) = fullyLinked n" "markedForRemoval (setFlag MARKED_FOR_REMOVAL n)"
  by (simp_all add: markedForRemoval_def fullyLinked_def setFlag_def bit.conj_disj_distrib2 or_eq_0_iff)

lemma quiet_flag:
  assumes "a \<notin> new_nodes c" "f = MARKED_FOR_REMOVAL \<or> f = FULLY_LINKED"
  shows "quiet h (h(a := setFlag f (h a))) c"
  using assms by (auto simp: quiet_def node_rank_def)

lemma quiet_other: "(\<And>x. x \<noteq> b \<Longrightarrow> h' x = h x) \<Longrightarrow> b \<notin> uses c \<Longrightarrow> quiet h h' c"
proof -
  assume h: "\<And>x. x \<noteq> b \<Longrightarrow> h' x = h x" and b: "b \<notin> uses c"
  have "x \<noteq> b" if "x \<in> uses c \<union> new_nodes c \<union> new_head c \<union> copied_from c" for x
    using that b taken_uses [of c] by (auto simp: uses_def)
  then have "h' x = h x" "node_rank h' x = node_rank h x" if "x \<in> uses c \<union> new_nodes c \<union> new_head c \<union> copied_from c" for x
    using that h by (auto simp: node_rank_def)
  then show ?thesis by (auto simp: quiet_def)
qed

lemma quiet_skip: "setSkip a k v h = Inr h' \<Longrightarrow> a \<notin> new_head c \<union> copied_from c \<Longrightarrow> quiet h h' c"
  by (auto simp: setSkip_def rguard_def quiet_def node_rank_def isHeadNode_def markedForRemoval_def fullyLinked_def split: if_splits)

lemma quiet_refl [simp]: "quiet h h c"
  by (simp add: quiet_def)

lemma quiet_trans: "quiet h h' c \<Longrightarrow> quiet h' h'' c \<Longrightarrow> quiet h h'' c"
  by (simp add: quiet_def)

lemma layers_same: "s_height (h' q) = s_height (h q) \<Longrightarrow> layers_move h q X h' q X {}"
  by (simp add: layers_move_def on_path_def)

text \<open>A step that leaves the layers, the head and the window of its thread as they are.\<close>

definition same_window :: "'a lpc \<Rightarrow> 'a lpc \<Rightarrow> bool" where
  "same_window c' c \<longleftrightarrow> (\<forall>w'. win_of c' = Some w' \<longrightarrow> (\<exists>w. win_of c = Some w \<and> w_preds w' = w_preds w \<and> w_succs w' = w_succs w
     \<and> w_height w' = w_height w \<and> w_value w' = w_value w \<and> w_target w' = w_target w))"

lemma same_window_facts:
  assumes "same_window c' c" "window_facts h c"
  shows "window_facts h c'"
  unfolding window_facts_def
proof (intro allI impI)
  fix w' assume w': "win_of c' = Some w'"
  obtain w where w: "win_of c = Some w" "w_preds w' = w_preds w" "w_succs w' = w_succs w" "w_height w' = w_height w"
    "w_value w' = w_value w" "w_target w' = w_target w"
    using assms(1) w' by (auto simp: same_window_def)
  have "values_ok h w' = values_ok h w" unfolding values_ok_def w(2-6) by (rule refl)
  then show "values_ok h w' \<and> (\<forall>a. w_target w' = Some a \<longrightarrow> 0 < w_height w' \<and> fullyLinked (h a))"
    using assms(2) w by (simp add: window_facts_def)
qed

lemma same_window_uses:
  assumes "same_window c' c"
  shows "uses c' \<subseteq> uses c \<union> own_nodes c'"
proof
  fix p assume p: "p \<in> uses c'"
  show "p \<in> uses c \<union> own_nodes c'"
  proof (cases "win_of c'")
    case None
    then show ?thesis using p by (simp add: uses_def remembers_def)
  next
    case (Some w')
    then obtain w where "win_of c = Some w" "w_preds w' = w_preds w" "w_succs w' = w_succs w" "w_height w' = w_height w"
      "w_target w' = w_target w"
      using assms by (auto simp: same_window_def)
    then show ?thesis using p Some by (auto simp: uses_def remembers_def)
  qed
qed

lemma same_window_known:
  assumes "same_window c (lk_pc s t)" "conc_ok s X" "win_of c = Some w" "k < w_height w \<and> w_preds w k = Some p \<or> k = 0 \<and> w_target w = Some p"
  shows "known s k p \<and> p \<in> uses (lk_pc s t)"
proof -
  obtain w' where "win_of (lk_pc s t) = Some w'" "k < w_height w' \<and> w_preds w' k = Some p \<or> k = 0 \<and> w_target w' = Some p"
    using assms(1,3,4) by (auto simp: same_window_def)
  then show ?thesis using conc_okD(4,5) [OF assms(2)] uses_window by blast
qed

lemma conc_same:
  assumes ok: "conc_ok s X" and P: "paths h (lk_head s) X" and hts: "\<And>p. p \<in> insert (lk_head s) (uses (lk_pc s t)) \<Longrightarrow> s_height (h p) = s_height (lk_heap s p)"
    and marks: "\<And>p u. p \<in> uses (lk_pc s u) \<Longrightarrow> markedForRemoval (lk_heap s p) \<Longrightarrow> markedForRemoval (h p)"
    and ret: "\<And>p. lk_pc s t = Retiring p \<Longrightarrow> markedForRemoval (h p)"
    and qt: "\<And>u. u \<noteq> t \<Longrightarrow> quiet (lk_heap s) h (lk_pc s u)"
    and w: "same_window c (lk_pc s t)" and own: "window_facts h c" "thread_facts h (lk_head s) X c"
    and unl: "\<And>j b. b \<in> unlinked_at c j \<Longrightarrow> b \<in> unlinked_at (lk_pc s t) j \<or> fresh s b"
    and tk: "\<And>b. b \<in> new_nodes c \<Longrightarrow> b \<in> new_nodes (lk_pc s t) \<or> fresh s b"
    and nh: "\<And>b. b \<in> new_head c \<Longrightarrow> b \<in> new_head (lk_pc s t) \<or> fresh s b"
    and us: "\<And>p. p \<in> own_nodes c \<Longrightarrow> p \<in> uses (lk_pc s t) \<or> fresh s p \<or> p = lk_head s"
    and fr: "\<And>a. a \<in> F \<Longrightarrow> (a \<in> lk_free s \<or> a \<noteq> lk_head s \<and> (\<forall>j. \<not> on_path (lk_heap s) (lk_head s) X j a)
      \<and> (\<forall>u. u \<noteq> t \<longrightarrow> a \<notin> new_nodes (lk_pc s u))) \<and> a \<notin> new_nodes c"
  shows "conc_ok (move s t h (lk_head s) F c) X"
proof (rule conc_move [OF ok P layers_same _ _ _ marks _ ret qt own _ _ tk nh])
  have op: "on_path h (lk_head s) X = on_path (lk_heap s) (lk_head s) X" using hts by (simp add: on_path_def fun_eq_iff)
  show "known (move s t h (lk_head s) F c) k p"
    if "win_of c = Some w" "k < w_height w \<and> w_preds w k = Some p \<or> k = 0 \<and> w_target w = Some p" for w k p
    using same_window_known [OF w ok that] marks hts by (intro known_move [OF ok P layers_same _ _ _ ret]) auto
  show "b \<noteq> lk_head s \<and> \<not> on_path h (lk_head s) X j b" if "b \<in> unlinked_at c j" for j b
    using unl [OF that] conc_okD(6,7) [OF ok, of b t j] conc_okD(10,11) [OF ok, of b] by (auto simp: op fresh_def)
  show "p \<in> uses (lk_pc s t) \<or> p \<notin> new_head (lk_pc s u)" if "p \<in> uses c" "u \<noteq> t" for p u
  proof -
    have "p \<in> uses (lk_pc s t) \<or> p \<in> own_nodes c"
      using that(1) same_window_uses [OF w] by blast
    moreover have "lk_head s \<notin> new_head (lk_pc s u)" using conc_okD(6) [OF ok new_head_unlinked] by blast
    ultimately show ?thesis using us [of p] fresh_apart(3) [of s p u] by blast
  qed
  show "a \<noteq> lk_head s \<and> (\<forall>j. \<not> on_path h (lk_head s) X j a) \<and> (\<forall>u. u \<noteq> t \<longrightarrow> a \<notin> new_nodes (lk_pc s u)) \<and> a \<notin> new_nodes c" if "a \<in> F" for a
    using fr [OF that] conc_okD(10-12) [OF ok, of a] by (auto simp: op)
qed (use hts in auto)

section \<open>The steps\<close>

text \<open>Steps that change nothing but locks.\<close>

lemma conc_still:
  assumes ok: "conc_ok s X" and lk: "same_but_lock (lk_heap s) h" and w: "same_window c (lk_pc s t)"
    and tf: "thread_facts (lk_heap s) (lk_head s) X c" and ret: "\<And>p. lk_pc s t \<noteq> Retiring p"
    and sub: "\<And>j. unlinked_at c j \<subseteq> unlinked_at (lk_pc s t) j" "new_nodes c \<subseteq> new_nodes (lk_pc s t)" "new_head c \<subseteq> new_head (lk_pc s t)"
      "own_nodes c \<subseteq> insert (lk_head s) (uses (lk_pc s t))"
    and fr: "\<And>a. a \<in> F \<Longrightarrow> (a \<in> lk_free s \<or> a \<noteq> lk_head s \<and> (\<forall>j. \<not> on_path (lk_heap s) (lk_head s) X j a)
      \<and> (\<forall>u. u \<noteq> t \<longrightarrow> a \<notin> new_nodes (lk_pc s u))) \<and> a \<notin> new_nodes c"
  shows "conc_ok (move s t h (lk_head s) F c) X"
proof (rule conc_same [OF ok paths_lock [OF conc_okD(1) [OF ok] lk] _ _ _ facts_lock(3) [OF lk] w _ _ _ _ _ _ fr])
  show "window_facts h c" using same_window_facts [OF w conc_okD(2) [OF ok]] facts_lock(2) [OF lk] by simp
  show "thread_facts h (lk_head s) X c" using tf facts_lock(1) [OF lk] by simp
  show "b \<in> unlinked_at c j \<Longrightarrow> b \<in> unlinked_at (lk_pc s t) j \<or> fresh s b" for j b using sub(1) by blast
qed (use sub(2-4) ret lock_sel [OF lk] in auto)

lemma free_keeps:
  assumes "conc_ok s X" "new_nodes c \<subseteq> new_nodes (lk_pc s t)" "a \<in> lk_free s"
  shows "(a \<in> lk_free s \<or> Q) \<and> a \<notin> new_nodes c"
  using assms conc_okD(12) [OF assms(1,3), of t] by blast

lemma conc_quiet:
  assumes "conc_ok s X" "same_but_lock (lk_heap s) h" "same_window c (lk_pc s t)"
    "thread_facts (lk_heap s) (lk_head s) X c" "\<And>p. lk_pc s t \<noteq> Retiring p"
    "\<And>j. unlinked_at c j \<subseteq> unlinked_at (lk_pc s t) j" "new_nodes c \<subseteq> new_nodes (lk_pc s t)" "new_head c \<subseteq> new_head (lk_pc s t)"
    "own_nodes c \<subseteq> insert (lk_head s) (uses (lk_pc s t))"
  shows "conc_ok (goto s t h c) X"
  using conc_still [where F = "lk_free s", OF assms free_keeps [OF assms(1,7)]] by simp

text \<open>A node in the list, and an old head, is no node that a thread has just taken.\<close>

lemma linked_not_taken:
  assumes ok: "conc_ok s X" and "fullyLinked (lk_heap s a)" "\<not> isHeadNode (lk_heap s a)"
  shows "a \<notin> new_nodes (lk_pc s u)"
  using assms conc_okD(3) [OF ok, of u] by (cases "lk_pc s u") auto

lemma head_not_taken:
  assumes ok: "conc_ok s X" and "isHeadNode (lk_heap s q)" "q \<in> uses (lk_pc s t)" "u \<noteq> t"
  shows "q \<notin> new_nodes (lk_pc s u)"
proof
  assume q: "q \<in> new_nodes (lk_pc s u)"
  then have "q \<in> new_head (lk_pc s u)"
    using assms(2) conc_okD(3) [OF ok, of u] by (cases "lk_pc s u") (auto simp: isHead_rank)
  then show False using conc_okD(9) [OF ok assms(4)] assms(3) by blast
qed

text \<open>The target of a thread.\<close>

lemma target_facts:
  assumes ok: "conc_ok s X" and "win_of (lk_pc s t) = Some w" "w_target w = Some a"
  shows "fullyLinked (lk_heap s a)" "node_rank (lk_heap s) a = Some (w_value w)" "\<not> isHeadNode (lk_heap s a)" "a \<noteq> lk_head s"
    "a \<notin> new_nodes (lk_pc s u)" "a \<in> uses (lk_pc s t)" "j < w_height w \<Longrightarrow> w_succs w j = Some a"
proof -
  have w: "values_ok (lk_heap s) w" "0 < w_height w" "fullyLinked (lk_heap s a)"
    using conc_okD(2) [OF ok, of t] assms(2,3) by (auto simp: window_facts_def)
  then show fl: "fullyLinked (lk_heap s a)" "node_rank (lk_heap s) a = Some (w_value w)"
    using assms(3) by (auto simp: values_ok_def)
  then show nh: "\<not> isHeadNode (lk_heap s a)" by (simp add: isHead_rank)
  show "a \<noteq> lk_head s" using nh pathsD(1) [OF conc_okD(1) [OF ok]] by auto
  show "a \<notin> new_nodes (lk_pc s u)" by (rule linked_not_taken [OF ok fl(1) nh])
  show "a \<in> uses (lk_pc s t)" using assms(2,3) by (rule uses_window(3))
  show "j < w_height w \<Longrightarrow> w_succs w j = Some a" using w(1) assms(3) by (simp add: values_ok_def)
qed

text \<open>A search ends: the thread enters with its window.\<close>

lemma conc_enter:
  assumes ok: "conc_ok s X" and en: "enters M s w" and c: "win_of c = Some w" "new_nodes c = {}" "own_nodes c \<subseteq> set_option (w_target w)"
    "thread_facts (lk_heap s) (lk_head s) X c" "\<And>p. lk_pc s t \<noteq> Retiring p"
  shows "conc_ok (goto s t (lk_heap s) c) X"
proof -
  have tk: "unlinked_at c j = {}" "new_head c = {}" for j using c(2) taken_uses [of c] by auto
  have succ: "a \<in> set_option (w_succs w 0)" if "w_target w = Some a" for a
    using en that by (simp add: enters_def values_ok_def)
  have "conc_ok (move s t (lk_heap s) (lk_head s) (lk_free s) c) X"
  proof (rule conc_move [OF ok conc_okD(1) [OF ok] layers_same, of t])
    show "window_facts (lk_heap s) c" using en c(1) by (auto simp: window_facts_def enters_def)
    show "known (move s t (lk_heap s) (lk_head s) (lk_free s) c) k p"
      if "win_of c = Some w'" "k < w_height w' \<and> w_preds w' k = Some p \<or> k = 0 \<and> w_target w' = Some p" for w' k p
      by (rule known_move [OF ok conc_okD(1) [OF ok] layers_same]) (use that c en in \<open>auto simp: enters_def\<close>)
    show "p \<in> uses (lk_pc s t) \<or> p \<notin> new_head (lk_pc s u)" if "p \<in> uses c" "u \<noteq> t" for p u
    proof -
      have "(\<exists>k < w_height w. w_preds w k = Some p \<or> w_succs w k = Some p)"
        using that(1) c(1,3) succ en by (fastforce simp: uses_def remembers_def enters_def)
      then show ?thesis using en new_head_unlinked by (fastforce simp: enters_def)
    qed
    show "a \<noteq> lk_head s \<and> (\<forall>j. \<not> on_path (lk_heap s) (lk_head s) X j a) \<and> (\<forall>u. u \<noteq> t \<longrightarrow> a \<notin> new_nodes (lk_pc s u)) \<and> a \<notin> new_nodes c"
      if "a \<in> lk_free s" for a using conc_okD(10-12) [OF ok that] c(2) by auto
  qed (use c tk in auto)
  then show ?thesis by simp
qed

text \<open>The recycler hands out a node.\<close>

lemma fresh_outside:
  assumes ok: "conc_ok s X" and "fresh s b"
  shows "b \<noteq> lk_head s" "\<not> on_path (lk_heap s) (lk_head s) X j b"
  using assms conc_okD(10,11) [OF ok, of b] by (auto simp: fresh_def)

lemma conc_alloc:
  assumes ok: "conc_ok s X" and b: "fresh s b" and h: "h = (lk_heap s)(b := nd)" and w: "same_window c (lk_pc s t)"
    and c: "thread_facts h (lk_head s) X c" "new_nodes c = {b}" "own_nodes c \<subseteq> insert b (uses (lk_pc s t))" and ret: "\<And>p. lk_pc s t \<noteq> Retiring p"
  shows "conc_ok ((goto s t h c)\<lparr>lk_free := lk_free s - {b}\<rparr>) X"
proof -
  have nb: "b \<notin> uses (lk_pc s u)" for u using b by (rule fresh_apart)
  have qt: "quiet (lk_heap s) h (lk_pc s u)" for u by (rule quiet_other [of b]) (use nb h in auto)
  have P: "paths h (lk_head s) X"
    by (rule paths_cong [OF conc_okD(1) [OF ok]]) (use fresh_outside [OF ok b] pathsD(2) [OF conc_okD(1) [OF ok]] in \<open>auto simp: h\<close>)
  have "conc_ok (move s t h (lk_head s) (lk_free s - {b}) c) X"
  proof (rule conc_same [OF ok P _ _ _ qt w _ c(1)])
    show "window_facts h c"
      using same_window_facts [OF w window_facts_quiet [OF conc_okD(2) [OF ok] qt]] .
    show "s_height (h p) = s_height (lk_heap s p)" if "p \<in> insert (lk_head s) (uses (lk_pc s t))" for p
      using that nb [of t] fresh_outside(1) [OF ok b] by (auto simp: h)
    show "markedForRemoval (h p)" if "p \<in> uses (lk_pc s u)" "markedForRemoval (lk_heap s p)" for p u
      using that nb [of u] by (auto simp: h)
    show "(a \<in> lk_free s \<or> a \<noteq> lk_head s \<and> (\<forall>j. \<not> on_path (lk_heap s) (lk_head s) X j a) \<and> (\<forall>u. u \<noteq> t \<longrightarrow> a \<notin> new_nodes (lk_pc s u)))
        \<and> a \<notin> new_nodes c" if "a \<in> lk_free s - {b}" for a using that c(2) by simp
    show "d \<in> unlinked_at (lk_pc s t) j \<or> fresh s d" if "d \<in> unlinked_at c j" for j d using that taken_uses(3) [of c j] c(2) b by auto
  qed (use c ret b taken_uses [of c] in auto)
  then show ?thesis unfolding as_move .
qed

text \<open>A flag is set.\<close>

lemma values_rank: "node_rank h' = node_rank h \<Longrightarrow> values_ok h' w = values_ok h w"
  by (simp only: values_ok_def)

lemma conc_flag:
  assumes ok: "conc_ok s X" and h: "h = (lk_heap s)(a := setFlag f (lk_heap s a))" and f: "f = MARKED_FOR_REMOVAL \<and> a \<noteq> lk_head s \<or> f = FULLY_LINKED"
    and a: "\<And>u. u \<noteq> t \<Longrightarrow> a \<notin> new_nodes (lk_pc s u)" and w: "same_window c (lk_pc s t)"
    and c: "thread_facts h (lk_head s) X c" "new_nodes c = {}" "own_nodes c \<subseteq> uses (lk_pc s t)"
    and ret: "\<And>p. lk_pc s t = Retiring p \<Longrightarrow> p = a \<and> f = MARKED_FOR_REMOVAL"
  shows "conc_ok (goto s t h c) X"
proof -
  have sel: "s_height (h p) = s_height (lk_heap s p)" "s_skip (h p) = s_skip (lk_heap s p)" "s_data (h p) = s_data (lk_heap s p)"
    "node_rank h = node_rank (lk_heap s)" "isHeadNode (h p) = isHeadNode (lk_heap s p)"
    "markedForRemoval (lk_heap s p) \<Longrightarrow> markedForRemoval (h p)" "fullyLinked (lk_heap s p) \<Longrightarrow> fullyLinked (h p)" for p
    using f by (auto simp: h node_rank_def fun_eq_iff)
  have P: "paths h (lk_head s) X"
    by (rule paths_cong [OF conc_okD(1) [OF ok]]) (use sel f pathsD(2) [OF conc_okD(1) [OF ok]] in \<open>auto simp: h\<close>)
  have "conc_ok (move s t h (lk_head s) (lk_free s) c) X"
  proof (rule conc_same [OF ok P _ _ _ _ w _ c(1)])
    show "window_facts h c"
      using same_window_facts [OF w conc_okD(2) [OF ok]] sel(7) values_rank [OF sel(4)] by (auto simp: window_facts_def)
    show "quiet (lk_heap s) h (lk_pc s u)" if "u \<noteq> t" for u unfolding h by (rule quiet_flag) (use a [OF that] f in auto)
    show "(p \<in> lk_free s \<or> p \<noteq> lk_head s \<and> (\<forall>j. \<not> on_path (lk_heap s) (lk_head s) X j p) \<and> (\<forall>u. u \<noteq> t \<longrightarrow> p \<notin> new_nodes (lk_pc s u)))
        \<and> p \<notin> new_nodes c" if "p \<in> lk_free s" for p using that c(2) by simp
    show "markedForRemoval (h p)" if "lk_pc s t = Retiring p" for p using ret [OF that] by (auto simp: h)
  qed (use c sel taken_uses [of c] in auto)
  then show ?thesis by simp
qed

text \<open>
  A predecessor that its thread has locked and checked is on its layer: it is not marked, and no
  other thread can be retiring it.
\<close>

lemma valid_on_layer:
  assumes ok: "conc_ok s X" and inv: "lk_inv M s" and w: "win_of (lk_pc s t) = Some w" "locked_window (lk_heap s) M w" "held_by (lk_pc s t) = guarded w 0"
    and k: "k < w_height w" and v: "valid_at (lk_heap s) w k"
  obtains p where "w_preds w k = Some p" "p \<in> held_by (lk_pc s t)" "k < s_height (lk_heap s (lk_head s))" "p = lk_head s \<or> p \<in> set (X k)"
    "s_skip (lk_heap s p) ! k = w_succs w k" "k < s_height (lk_heap s p)" "length (s_skip (lk_heap s p)) = s_height (lk_heap s p)" "p \<in> uses (lk_pc s t)"
proof -
  obtain p where p: "w_preds w k = Some p" "\<not> markedForRemoval (lk_heap s p)" "s_skip (lk_heap s p) ! k = w_succs w k"
    using v by (auto simp: valid_at_def)
  have held: "p \<in> held_by (lk_pc s t)" using pred_held [OF w(2) k p(1)] w(3) by simp
  have "lk_pc s u \<noteq> Retiring p" for u
  proof
    assume u: "lk_pc s u = Retiring p"
    then have "u \<noteq> t" using w(1) by auto
    then show False using lk_invD(4) [OF inv, of u t p] held u by simp
  qed
  then have "on_layer s k p" using conc_okD(4) [OF ok w(1) k p(1)] p(2) by (simp add: known_def)
  then have on: "k < s_height (lk_heap s (lk_head s))" "p = lk_head s \<or> p \<in> set (X k)" using on_layer_iff [OF conc_okD(1) [OF ok]] by auto
  moreover have "k < s_height (lk_heap s p)" using w(2) k p(1) by (auto simp: locked_window_def window_ok_def)
  moreover have "length (s_skip (lk_heap s p)) = s_height (lk_heap s p)"
    using on pathsD(8,9) [OF conc_okD(1) [OF ok]] by (auto simp: on_path_def)
  moreover have "p \<in> uses (lk_pc s t)" using w(1) k p(1) by (rule uses_window(1))
  ultimately show thesis using that p held by blast
qed

lemma setSkip_eq: "setSkip a k v h = Inr h' \<longleftrightarrow> k < s_height (h a) \<and> h' = h(a := (h a)\<lparr>s_skip := (s_skip (h a))[k := v]\<rparr>)"
  by (auto simp: setSkip_def rguard_def)

lemma layer_write_sel:
  assumes "layer_write k h h'"
  shows "node_rank h' = node_rank h" "markedForRemoval (h' p) = markedForRemoval (h p)" "fullyLinked (h' p) = fullyLinked (h p)"
    "s_height (h' p) = s_height (h p)" "length (s_skip (h' p)) = length (s_skip (h p))" "isHeadNode (h' p) = isHeadNode (h p)"
    "s_data (h' p) = s_data (h p)"
  using assms by (auto simp: layer_write_def markedForRemoval_def fullyLinked_def isHeadNode_def node_rank_def fun_eq_iff)

text \<open>A node that a thread writes its pointers to is not one that another thread copies or grows.\<close>

lemma write_quiet:
  assumes ok: "conc_ok s X" and inv: "lk_inv M s" and "u \<noteq> t" and p: "p \<in> held_by (lk_pc s t)" "p \<in> uses (lk_pc s t)"
  shows "p \<notin> new_head (lk_pc s u) \<union> copied_from (lk_pc s u)"
proof -
  have "copied_from (lk_pc s u) \<subseteq> held_by (lk_pc s u)" by (cases "lk_pc s u") auto
  then show ?thesis using conc_okD(9) [OF ok \<open>u \<noteq> t\<close>] p lk_invD(4) [OF inv \<open>u \<noteq> t\<close>, of p] by blast
qed

lemma conc_write:
  assumes ok: "conc_ok s X" and lw: "layer_write k (lk_heap s) h" and P: "paths h (lk_head s) (X(k := Y))" and k: "k < s_height (lk_heap s (lk_head s))"
    and Y: "\<And>a. a \<in> set (X k) \<Longrightarrow> a \<notin> set Y \<Longrightarrow> markedForRemoval (lk_heap s a)" "set Y \<subseteq> set (X k) \<union> N"
    and N: "N \<subseteq> new_nodes (lk_pc s t)" "\<And>a. a \<in> N \<Longrightarrow> \<not> fullyLinked (lk_heap s a)"
    and qt: "\<And>u. u \<noteq> t \<Longrightarrow> quiet (lk_heap s) h (lk_pc s u)"
    and w: "same_window c (lk_pc s t)" and tf: "thread_facts h (lk_head s) (X(k := Y)) c" and ret: "\<And>p. lk_pc s t \<noteq> Retiring p"
    and c: "new_nodes c = new_nodes (lk_pc s t)" "new_head c = {}" "own_nodes c = own_nodes (lk_pc s t)" "\<And>j. unlinked_at c j \<subseteq> unlinked_at (lk_pc s t) j"
      "k \<notin> {j. unlinked_at c j \<inter> N \<noteq> {}}"
  shows "conc_ok (goto s t h c) (X(k := Y))"
proof -
  note sel = layer_write_sel [OF lw]
  have mv: "layers_move (lk_heap s) (lk_head s) X h (lk_head s) (X(k := Y)) N"
    using Y by (auto simp: layers_move_def on_path_def sel)
  have bk: "on_path (lk_heap s) (lk_head s) X j a \<or> j = k \<and> a \<in> N" if "on_path h (lk_head s) (X(k := Y)) j a" for j a
    using that Y(2) by (auto simp: on_path_def sel split: if_splits)
  have us: "uses c \<subseteq> uses (lk_pc s t)" using same_window_uses [OF w] c(3) by (auto simp: uses_def)
  have "conc_ok (move s t h (lk_head s) (lk_free s) c) (X(k := Y))"
  proof (rule conc_move [OF ok P mv N _ _ _ _ qt _ tf])
    show "window_facts h c"
      using same_window_facts [OF w conc_okD(2) [OF ok]] values_rank [OF sel(1)] by (simp add: window_facts_def sel)
    show "known (move s t h (lk_head s) (lk_free s) c) i p"
      if "win_of c = Some w" "i < w_height w \<and> w_preds w i = Some p \<or> i = 0 \<and> w_target w = Some p" for w i p
      using same_window_known [OF assms(10) ok that] ret by (intro known_move [OF ok P mv]) (auto simp: sel)
    show "b \<noteq> lk_head s \<and> \<not> on_path h (lk_head s) (X(k := Y)) j b" if "b \<in> unlinked_at c j" for j b
      using that c(4,5) conc_okD(6,7) [OF ok, of b t j] bk [of j b] by blast
    show "a \<noteq> lk_head s \<and> (\<forall>j. \<not> on_path h (lk_head s) (X(k := Y)) j a) \<and> (\<forall>u. u \<noteq> t \<longrightarrow> a \<notin> new_nodes (lk_pc s u)) \<and> a \<notin> new_nodes c"
      if "a \<in> lk_free s" for a using conc_okD(10-12) [OF ok that] bk N(1) c(1) by blast
  qed (use c ret us in \<open>auto simp: sel\<close>)
  then show ?thesis by simp
qed

lemma conc_link:
  assumes ok: "conc_ok s X" and inv: "lk_inv M s" and pc: "lk_pc s t = Linking w b k" and k: "k < w_height w"
    and lk: "link_loop [k] b (w_preds w) (w_succs w) (lk_heap s) = Inr h"
  obtains Y where "conc_ok (goto s t h (Linking w b (Suc k))) (X(k := Y))" "set Y = insert b (set (X k))" "layer_write k (lk_heap s) h"
    "b \<notin> set (X k)" "k < s_height (lk_heap s (lk_head s))"
proof -
  let ?h = "lk_heap s" and ?q = "lk_head s"
  have ph: "locked_window ?h M w" "w_height w \<le> s_height (?h b)" "valid_at ?h w k"
    using lk_invD(2) [OF inv, of t] pc k by auto
  have tf: "node_rank ?h b = Some (w_value w)" "\<not> fullyLinked (?h b)" "length (s_skip (?h b)) = s_height (?h b)" "w_adding w"
    "\<not> markedForRemoval (?h b)" "\<And>j. j < k \<Longrightarrow> on_path ?h ?q X j b"
    using conc_okD(3) [OF ok, of t] pc by auto
  obtain p where p: "w_preds w k = Some p" "p \<in> held_by (lk_pc s t)" "k < s_height (?h ?q)" "p = ?q \<or> p \<in> set (X k)"
    "s_skip (?h p) ! k = w_succs w k" "k < s_height (?h p)" "length (s_skip (?h p)) = s_height (?h p)" "p \<in> uses (lk_pc s t)"
    by (rule valid_on_layer [OF ok inv _ ph(1) _ k ph(3), of t]) (use pc in auto)
  have b: "b \<noteq> ?q" "b \<notin> set (X k)" using conc_okD(6,7) [OF ok, of b t k] pc p(3) by (auto simp: on_path_def)
  then have pb: "p \<noteq> b" using p(4) by auto
  obtain h1 where w1: "setSkip b k (w_succs w k) ?h = Inr h1" and w2: "setSkip p k (Some b) h1 = Inr h"
    using lk p(1) by (auto elim: link_one)
  have lw: "layer_write k ?h h" using setSkip_layer_write [OF w1] setSkip_layer_write [OF w2] by (rule layer_write_trans)
  have wf: "values_ok ?h w" using conc_okD(2) [OF ok, of t] pc by (simp add: window_facts_def)
  have new: "s_skip (h b) ! k = s_skip (?h p) ! k" "s_skip (h p) ! k = Some b" "\<And>x. x \<noteq> p \<Longrightarrow> x \<noteq> b \<Longrightarrow> h x = ?h x"
    using w1 w2 pb tf(3) p(5-7) by (auto simp: setSkip_eq)
  obtain Y where Y: "set Y = insert b (set (X k))" "paths h ?q (X(k := Y))"
  proof (rule paths_link [OF conc_okD(1) [OF ok] p(3,4) b tf(1) _ _ tf(3) _ _ lw new])
    show "0 < k \<Longrightarrow> b \<in> set (X (k - 1))" using tf(6) [of "k - 1"] by (simp add: on_path_def)
    show "node_rank ?h p < Some (w_value w)" using wf k p(1) by (simp add: values_ok_def)
    show "s_skip (?h p) ! k = Some c \<Longrightarrow> Some (w_value w) < node_rank ?h c" for c using wf k p(5) tf(4) by (simp add: values_ok_def)
  qed (use ph(2) k in auto)
  have "conc_ok (goto s t h (Linking w b (Suc k))) (X(k := Y))"
  proof (rule conc_write [OF ok lw Y(2) p(3), where N = "{b}"])
    show "quiet ?h h (lk_pc s u)" if "u \<noteq> t" for u
    proof (rule quiet_trans [OF quiet_skip [OF w1] quiet_skip [OF w2]])
      have "b \<notin> new_nodes (lk_pc s u)" using conc_okD(8) [OF ok that [symmetric], of b] pc by simp
      moreover have "b \<notin> copied_from (lk_pc s u)" using conc_okD(3) [OF ok, of u] tf(1) by (cases "lk_pc s u") (auto simp: isHead_rank)
      ultimately show "b \<notin> new_head (lk_pc s u) \<union> copied_from (lk_pc s u)" using taken_uses(2) [of "lk_pc s u"] by blast
      show "p \<notin> new_head (lk_pc s u) \<union> copied_from (lk_pc s u)" using write_quiet [OF ok inv that p(2,8)] .
    qed
    show "thread_facts h ?q (X(k := Y)) (Linking w b (Suc k))"
      using tf Y(1) p(3) by (auto simp: layer_write_sel [OF lw] on_path_def less_Suc_eq)
  qed (use Y(1) pc tf(2) in \<open>auto simp: same_window_def\<close>)
  then show thesis using that Y(1) lw b(2) p(3) by blast
qed

lemma conc_unlink:
  assumes ok: "conc_ok s X" and inv: "lk_inv M s" and pc: "lk_pc s t = Unlinking w (Suc k)" and a: "w_target w = Some a"
    and lk: "unlink_loop [k] a (w_preds w) (lk_heap s) = Inr h"
  obtains Y where "conc_ok (goto s t h (Unlinking w k)) (X(k := Y))" "set Y = set (X k) - {a}" "layer_write k (lk_heap s) h"
    "markedForRemoval (lk_heap s a)"
proof -
  let ?h = "lk_heap s" and ?q = "lk_head s"
  have ph: "locked_window ?h M w" "k < w_height w" "valid_at ?h w k"
    using lk_invD(2) [OF inv, of t] pc by auto
  have tf: "markedForRemoval (?h a)" "\<And>j. Suc k \<le> j \<Longrightarrow> \<not> on_path ?h ?q X j a" using conc_okD(3) [OF ok, of t] pc a by auto
  note tg = target_facts [OF ok, of t w a]
  obtain p where p: "w_preds w k = Some p" "p \<in> held_by (lk_pc s t)" "k < s_height (?h ?q)" "p = ?q \<or> p \<in> set (X k)"
    "s_skip (?h p) ! k = w_succs w k" "k < s_height (?h p)" "length (s_skip (?h p)) = s_height (?h p)" "p \<in> uses (lk_pc s t)"
    by (rule valid_on_layer [OF ok inv _ ph(1) _ ph(2,3), of t]) (use pc in auto)
  obtain n where n: "skip ?h a k = Inr n" and wr: "setSkip p k n ?h = Inr h" using lk p(1) by (auto elim: unlink_one)
  note lw = setSkip_layer_write [OF wr]
  have new: "s_skip (h p) ! k = s_skip (?h a) ! k" "\<And>x. x \<noteq> p \<Longrightarrow> h x = ?h x"
    using wr n p(6,7) by (auto simp: setSkip_eq skip_def rguard_def split: if_splits)
  obtain Y where Y: "set Y = set (X k) - {a}" "paths h ?q (X(k := Y))"
    by (rule paths_unlink [OF conc_okD(1) [OF ok] p(3,4) _ tf(2) lw new]) (use p(5) tg(7) [of k] ph(2) pc a in auto)
  have "conc_ok (goto s t h (Unlinking w k)) (X(k := Y))"
  proof (rule conc_write [OF ok lw Y(2) p(3), where N = "{}"])
    show "quiet ?h h (lk_pc s u)" if "u \<noteq> t" for u
      by (rule quiet_skip [OF wr write_quiet [OF ok inv that p(2,8)]])
    show "thread_facts h ?q (X(k := Y)) (Unlinking w k)"
      using tf a Y(1) by (auto simp: layer_write_sel [OF lw] on_path_def)
  qed (use Y(1) pc tf(1) in \<open>auto simp: same_window_def\<close>)
  then show thesis using that Y(1) lw tf(1) by blast
qed

text \<open>The new head is filled, and takes the place of the old one.\<close>

lemma conc_copy:
  assumes ok: "conc_ok s X" and inv: "lk_inv M s" and pc: "lk_pc s t = Growing q b" and cp: "copyHead b q (lk_heap s) = Inr h"
  shows "conc_ok (goto s t h (Copied q b)) X"
proof -
  let ?h = "lk_heap s" and ?q = "lk_head s"
  have tf: "isHeadNode (?h q)" "isHeadNode (?h b)" "q \<noteq> b" "\<not> markedForRemoval (?h b)" "length (s_skip (?h b)) = s_height (?h b)"
    "q = ?q \<Longrightarrow> s_skip (?h b) = replicate (s_height (?h b)) None"
    using conc_okD(3) [OF ok, of t] pc by auto
  have h: "s_height (?h q) < s_height (?h b)" "h = ?h(b := (?h b)\<lparr>s_flags := s_flags (?h q),
      s_skip := take (s_height (?h q)) (s_skip (?h q)) @ drop (s_height (?h q)) (s_skip (?h b))\<rparr>)"
    using cp by (auto simp: copyHead_def rguard_def split: if_splits)
  have b: "b \<noteq> ?q" "\<not> on_path ?h ?q X j b" for j using conc_okD(6,7) [OF ok, of b t j] pc by auto
  have nb: "b \<notin> uses (lk_pc s u)" if "u \<noteq> t" for u using conc_okD(9) [OF ok, of t u b] that pc by simp
  have other: "h x = ?h x" if "x \<noteq> b" for x using that by (simp add: h(2))
  have hb: "s_height (h b) = s_height (?h b)" "isHeadNode (h b)" using tf(1) by (auto simp: h(2) isHeadNode_def)
  have P: "paths h ?q X"
    by (rule paths_cong [OF conc_okD(1) [OF ok]]) (use b pathsD(2) [OF conc_okD(1) [OF ok]] in \<open>auto simp: h(2)\<close>)
  have "conc_ok (move s t h ?q (lk_free s) (Copied q b)) X"
  proof (rule conc_same [OF ok P])
    show "thread_facts h ?q X (Copied q b)"
    proof (cases "q = ?q")
      case True
      note D = pathsD(2,8) [OF conc_okD(1) [OF ok]]
      have len: "length (s_skip (?h q)) = s_height (?h q)" using D True by simp
      then have "s_skip (h b) ! j = (if j < s_height (?h q) then s_skip (?h q) ! j else None)" if "j < s_height (?h b)" for j
        using that tf(6) [OF True] by (simp add: h(2) nth_append)
      moreover have "\<not> markedForRemoval (h b)" using D(1) True by (simp add: h(2) markedForRemoval_def)
      moreover have "length (s_skip (h b)) = s_height (h b)" using len tf(5) h(1) by (simp add: h(2))
      moreover have "h ?q = ?h ?q" using other b(1) by simp
      ultimately show ?thesis using tf(1,3) h(1) hb True by simp
    next
      case False
      then show ?thesis using tf(1,3) h(1) hb other [OF tf(3)] by simp
    qed
    show "quiet ?h h (lk_pc s u)" if "u \<noteq> t" for u by (rule quiet_other [of b]) (use nb [OF that] other in auto)
    show "markedForRemoval (h p)" if "p \<in> uses (lk_pc s u)" "markedForRemoval (?h p)" for p u
      using that tf(4) other [of p] by (cases "p = b") auto
    show "s_height (h p) = s_height (?h p)" if "p \<in> insert ?q (uses (lk_pc s t))" for p using other hb(1) by (cases "p = b") auto
  qed (use pc conc_okD(12) [OF ok, of b t] in \<open>auto simp: same_window_def window_facts_def uses_def\<close>)
  then show ?thesis by simp
qed

lemma conc_swap:
  assumes ok: "conc_ok s X" and pc: "lk_pc s t = Copied (lk_head s) b"
  obtains X' where "conc_ok (move s t (lk_heap s) b (lk_free s) (Retiring (lk_head s))) X'" "X' 0 = X 0"
proof -
  let ?h = "lk_heap s" and ?q = "lk_head s"
  define X' where "X' = (\<lambda>j. if j < s_height (?h ?q) then X j else [])"
  have tf: "isHeadNode (?h b)" "?q \<noteq> b" "s_height (?h ?q) < s_height (?h b)" "\<not> markedForRemoval (?h b)" "length (s_skip (?h b)) = s_height (?h b)"
    "\<And>j. j < s_height (?h b) \<Longrightarrow> s_skip (?h b) ! j = (if j < s_height (?h ?q) then s_skip (?h ?q) ! j else None)"
    using conc_okD(3) [OF ok, of t] pc by auto
  note P = conc_okD(1) [OF ok]
  have "spath ?h j (s_skip (?h b) ! j) (X' j) \<and> sorted_wrt (<) (map (\<lambda>a. s_data (?h a)) (X' j))
      \<and> (\<forall>a \<in> set (X' j). \<not> isHeadNode (?h a) \<and> length (s_skip (?h a)) = s_height (?h a))" if j: "j < s_height (?h b)" for j
  proof (cases "j < s_height (?h ?q)")
    case True
    then show ?thesis
      using tf(6) [OF j] pathsD(4,5) [OF P True] pathsD(6,9) [OF P, of j] by (auto simp: X'_def on_path_def)
  next
    case False
    then show ?thesis using tf(6) [OF j] by (simp add: X'_def)
  qed
  moreover have "set (X' (Suc j)) \<subseteq> set (X' j)" for j using pathsD(7) [OF P, of j] by (auto simp: X'_def on_path_def)
  ultimately have P': "paths ?h b X'" using tf(1-5) by (simp add: paths_def)
  have op: "on_path ?h b X' j a \<longleftrightarrow> on_path ?h ?q X j a" for j a using tf(3) by (auto simp: on_path_def X'_def)
  have mv: "layers_move ?h ?q X ?h b X' {}" by (simp add: layers_move_def op)
  have "conc_ok (move s t ?h b (lk_free s) (Retiring ?q)) X'"
  proof (rule conc_move [OF ok P' mv])
    show "thread_facts ?h b X' (Retiring ?q)" using tf(2) pathsD(1) [OF P] by simp
    show "a \<noteq> b \<and> (\<forall>j. \<not> on_path ?h b X' j a) \<and> (\<forall>u. u \<noteq> t \<longrightarrow> a \<notin> new_nodes (lk_pc s u)) \<and> a \<notin> new_nodes (Retiring ?q)" if "a \<in> lk_free s" for a
      using conc_okD(11,12) [OF ok that] conc_okD(12) [OF ok that, of t] pc by (auto simp: op)
  qed (use tf(3) pc in \<open>auto simp: window_facts_def uses_def remembers_def\<close>)
  then show thesis using that pathsD(3) [OF P] by (simp add: X'_def)
qed

section \<open>The set of values\<close>

text \<open>The values of the list: those on the bottom layer that are not marked.\<close>

definition members :: "'a locks \<Rightarrow> 'a set" where
  "members s = {s_data (lk_heap s a) | a. on_layer s 0 a \<and> a \<noteq> lk_head s \<and> \<not> markedForRemoval (lk_heap s a)}"

text \<open>
  What a step of a thread does to the set, by the positions of the thread before and after it.
\<close>

fun lin_effect :: "'a lpc \<Rightarrow> 'a lpc \<Rightarrow> 'a set \<Rightarrow> 'a set \<Rightarrow> bool" where
  "lin_effect (Linking w b k) (Linking w' b' k') A A' \<longleftrightarrow>
     (if k = 0 then w_value w \<notin> A \<and> A' = insert (w_value w) A else A' = A)"
| "lin_effect (Marking w a) (Marked w' a') A A' \<longleftrightarrow> w_value w \<in> A \<and> A' = A - {w_value w}"
| "lin_effect _ _ A A' \<longleftrightarrow> A' = A"

lemma members_eq:
  assumes "conc_ok s X"
  shows "members s = (\<lambda>a. s_data (lk_heap s a)) ` {a \<in> set (X 0). \<not> markedForRemoval (lk_heap s a)}"
proof -
  note P = conc_okD(1) [OF assms]
  have "on_layer s 0 a \<and> a \<noteq> lk_head s \<longleftrightarrow> a \<in> set (X 0)" for a
    using on_layer_iff [OF P, of 0 a] paths_distinct [OF P pathsD(3) [OF P]] pathsD(3) [OF P] by auto
  then show ?thesis by (auto simp: members_def)
qed

lemma members_cong:
  assumes "conc_ok s X" "conc_ok s' X'" "set (X' 0) = set (X 0)"
    and "\<And>a. a \<in> set (X 0) \<Longrightarrow> s_data (lk_heap s' a) = s_data (lk_heap s a)"
    and "\<And>a. a \<in> set (X 0) \<Longrightarrow> markedForRemoval (lk_heap s' a) = markedForRemoval (lk_heap s a)"
  shows "members s' = members s"
  using assms(3-5) by (auto simp: members_eq [OF assms(1)] members_eq [OF assms(2)])

lemma data_inj:
  assumes "conc_ok s X" "a \<in> set (X 0)" "b \<in> set (X 0)" "s_data (lk_heap s a) = s_data (lk_heap s b)"
  shows "a = b"
proof -
  have "sorted_wrt (<) (map (\<lambda>a. s_data (lk_heap s a)) (X 0))"
    using pathsD(3,5) [OF conc_okD(1) [OF assms(1)]] by blast
  then have "distinct (map (\<lambda>a. s_data (lk_heap s a)) (X 0))" by (simp add: strict_sorted_iff)
  then show ?thesis using assms(2-4) by (auto simp: distinct_map dest: inj_onD)
qed

lemma effect_same: "(\<And>w b k. c \<noteq> Linking w b k) \<Longrightarrow> (\<And>w a. c \<noteq> Marking w a) \<Longrightarrow> lin_effect c c' A A' \<longleftrightarrow> A' = A"
  by (cases c; cases c') auto

text \<open>The invariant and the effect of a step, from a state to the next.\<close>

definition refines_step :: "nat \<Rightarrow> 'a::linorder locks \<Rightarrow> 'a locks \<Rightarrow> bool" where
  "refines_step t s s' \<longleftrightarrow> (\<exists>X. conc_ok s' X) \<and> lin_effect (lk_pc s t) (lk_pc s' t) (members s) (members s')"

lemma refines_same:
  assumes "conc_ok s X" "conc_ok s' X'" "set (X' 0) = set (X 0)"
    "\<And>a. a \<in> set (X 0) \<Longrightarrow> s_data (lk_heap s' a) = s_data (lk_heap s a)"
    "\<And>a. a \<in> set (X 0) \<Longrightarrow> markedForRemoval (lk_heap s' a) = markedForRemoval (lk_heap s a)"
    "\<And>A A'. lin_effect (lk_pc s t) (lk_pc s' t) A A' \<longleftrightarrow> A' = A"
  shows "refines_step t s s'"
  using assms(2,6) members_cong [OF assms(1-5)] by (auto simp: refines_step_def)

lemma refines_lock:
  assumes ok: "conc_ok s X" and s': "conc_ok s' X" and lk: "same_but_lock (lk_heap s) (lk_heap s')"
    and eff: "\<And>A A'. lin_effect (lk_pc s t) (lk_pc s' t) A A' \<longleftrightarrow> A' = A"
  shows "refines_step t s s'"
  by (rule refines_same [OF ok s' refl _ _ eff]) (use lk lock_sel(1) [OF lk] in \<open>auto simp: same_but_lock_def\<close>)

lemma refines_quiet:
  assumes "conc_ok s X" "same_but_lock (lk_heap s) h" "same_window c (lk_pc s t)"
    "thread_facts (lk_heap s) (lk_head s) X c" "\<And>p. lk_pc s t \<noteq> Retiring p"
    "\<And>j. unlinked_at c j \<subseteq> unlinked_at (lk_pc s t) j" "new_nodes c \<subseteq> new_nodes (lk_pc s t)" "new_head c \<subseteq> new_head (lk_pc s t)"
    "own_nodes c \<subseteq> insert (lk_head s) (uses (lk_pc s t))" "\<And>A A'. lin_effect (lk_pc s t) c A A' \<longleftrightarrow> A' = A"
  shows "refines_step t s (goto s t h c)"
  by (rule refines_lock [OF assms(1) conc_quiet [OF assms(1-9)]]) (use assms(2,10) in auto)

lemma refines_link:
  assumes ok: "conc_ok s X" and inv: "lk_inv M s" and pc: "lk_pc s t = Linking w b k" and k: "k < w_height w"
    and lk: "link_loop [k] b (w_preds w) (w_succs w) (lk_heap s) = Inr h"
  shows "refines_step t s (goto s t h (Linking w b (Suc k)))"
proof -
  let ?s = "goto s t h (Linking w b (Suc k))"
  obtain Y where ok': "conc_ok ?s (X(k := Y))" and Y: "set Y = insert b (set (X k))" and lw: "layer_write k (lk_heap s) h"
    and nb: "b \<notin> set (X k)"
    using conc_link [OF ok inv pc k lk] by blast
  note sel = layer_write_sel [OF lw]
  show ?thesis
  proof (cases "k = 0")
    case False
    then show ?thesis by (intro refines_same [OF ok ok']) (auto simp: sel pc)
  next
    case True
    have b: "node_rank (lk_heap s) b = Some (w_value w)" "\<not> markedForRemoval (lk_heap s b)"
      using conc_okD(3) [OF ok, of t] pc by auto
    then have d: "s_data (lk_heap s b) = w_value w" by (auto simp: node_rank_def split: if_splits)
    have "members ?s = insert (w_value w) (members s)"
      unfolding members_eq [OF ok] members_eq [OF ok'] using Y b(2) d True by (force simp: sel)
    moreover have "w_value w \<notin> members s"
      using data_inj [OF ok', of b] Y nb d True by (auto simp: members_eq [OF ok] sel)
    ultimately show ?thesis using ok' True by (auto simp: refines_step_def pc)
  qed
qed

lemma refines_unlink:
  assumes ok: "conc_ok s X" and inv: "lk_inv M s" and pc: "lk_pc s t = Unlinking w (Suc k)" and a: "w_target w = Some a"
    and lk: "unlink_loop [k] a (w_preds w) (lk_heap s) = Inr h"
  shows "refines_step t s (goto s t h (Unlinking w k))"
proof -
  obtain Y where ok': "conc_ok (goto s t h (Unlinking w k)) (X(k := Y))" and Y: "set Y = set (X k) - {a}"
    and lw: "layer_write k (lk_heap s) h" and m: "markedForRemoval (lk_heap s a)"
    using conc_unlink [OF ok inv pc a lk] by blast
  have "members (goto s t h (Unlinking w k)) = members s"
    using Y m by (auto simp: members_eq [OF ok] members_eq [OF ok'] layer_write_sel [OF lw])
  then show ?thesis using ok' by (auto simp: refines_step_def pc)
qed

lemma refines_mark:
  assumes ok: "conc_ok s X" and inv: "lk_inv M s" and pc: "lk_pc s t = Marking w a" and m: "\<not> markedForRemoval (lk_heap s a)"
  shows "refines_step t s (goto s t ((lk_heap s)(a := setFlag MARKED_FOR_REMOVAL (lk_heap s a))) (Marked w a))"
proof -
  let ?h = "(lk_heap s)(a := setFlag MARKED_FOR_REMOVAL (lk_heap s a))"
  have w: "w_target w = Some a" "win_of (lk_pc s t) = Some w" using lk_invD(2) [OF inv, of t] pc by auto
  note tg = target_facts [OF ok w(2,1)]
  have ok': "conc_ok (goto s t ?h (Marked w a)) X"
    by (rule conc_flag [OF ok]) (use tg pc in \<open>auto simp: same_window_def\<close>)
  have "lk_pc s u \<noteq> Retiring a" for u using conc_okD(3) [OF ok, of u] tg(3) by auto
  then have "on_layer s 0 a" using conc_okD(5) [OF ok w(2,1)] m by (simp add: known_def)
  then have aX: "a \<in> set (X 0)" using on_layer_iff [OF conc_okD(1) [OF ok]] tg(4) by auto
  have d: "s_data (lk_heap s a) = w_value w" using tg(2,3) by (simp add: node_rank_def)
  have "members (goto s t ?h (Marked w a)) = members s - {w_value w}"
    using data_inj [OF ok _ aX] d by (auto simp: members_eq [OF ok] members_eq [OF ok'] split: if_splits)
  moreover have "w_value w \<in> members s" using aX m d by (force simp: members_eq [OF ok])
  ultimately show ?thesis using ok' by (auto simp: refines_step_def pc)
qed

section \<open>Every step refines\<close>

lemma check_heap:
  "lock_loop [l] P S b (Some p) g h = Inr (valid, g', h') \<Longrightarrow> P l = Some p \<Longrightarrow> h' = h"
  by (auto simp: Let_def rmap_def split: option.splits if_splits)

lemma guard_lock: "acquireGuard p h = Inr h' \<Longrightarrow> same_but_lock h h'"
  by (auto simp: acquireGuard_def rguard_def split: if_splits)

lemma release_lock: "same_but_lock h (release_guards [i] g P h)"
  by (auto split: option.splits)

lemmas quiet_sets = same_window_def uses_def remembers_def

lemma refines_enter:
  assumes "conc_ok s X" "enters M s w" "win_of c = Some w" "new_nodes c = {}" "own_nodes c \<subseteq> set_option (w_target w)"
    "thread_facts (lk_heap s) (lk_head s) X c" "\<And>p. lk_pc s t \<noteq> Retiring p" "searching (lk_pc s t)"
  shows "refines_step t s (goto s t (lk_heap s) c)"
  by (rule refines_lock [OF assms(1) conc_enter [OF assms(1-7)]]) (use assms(8) in \<open>cases "lk_pc s t"; simp\<close>)+

text \<open>A node is taken, flagged, or given back.\<close>

lemma refines_alloc:
  assumes ok: "conc_ok s X" and b: "fresh s b" and ok': "conc_ok ((goto s t ((lk_heap s)(b := nd)) c)\<lparr>lk_free := F\<rparr>) X"
    and eff: "\<And>A A'. lin_effect (lk_pc s t) c A A' \<longleftrightarrow> A' = A"
  shows "refines_step t s ((goto s t ((lk_heap s)(b := nd)) c)\<lparr>lk_free := F\<rparr>)"
proof -
  have "a \<noteq> b" if "a \<in> set (X 0)" for a
    using fresh_outside(2) [OF ok b, of 0] pathsD(3) [OF conc_okD(1) [OF ok]] that by (auto simp: on_path_def)
  then show ?thesis by (intro refines_same [OF ok ok' refl]) (use eff in auto)
qed

lemma refines_take:
  assumes ok: "conc_ok s X" and pc: "lk_pc s t = Locked w" "w_adding w" and b: "fresh s b"
    and nd: "popped nd (w_height w) False" "s_data nd = w_value w"
  shows "refines_step t s ((goto s t ((lk_heap s)(b := nd)) (Linking w b 0))\<lparr>lk_free := lk_free s - {b}\<rparr>)"
proof (rule refines_alloc [OF ok b])
  have "\<not> isHeadNode nd" "\<not> markedForRemoval nd" "\<not> fullyLinked nd" "length (s_skip nd) = s_height nd"
    using nd by (auto simp: popped_def isHeadNode_def markedForRemoval_def fullyLinked_def)
  then show "conc_ok ((goto s t ((lk_heap s)(b := nd)) (Linking w b 0))\<lparr>lk_free := lk_free s - {b}\<rparr>) X"
    by (intro conc_alloc [OF ok b refl]) (use pc nd in \<open>auto simp: quiet_sets node_rank_def\<close>)
qed (use pc in auto)

lemma refines_full:
  assumes ok: "conc_ok s X" and pc: "lk_pc s t = Linked w b"
  shows "refines_step t s (goto s t ((lk_heap s)(b := setFlag FULLY_LINKED (lk_heap s b))) (Releasing w 0 True))"
proof -
  have "b \<notin> new_nodes (lk_pc s u)" if "u \<noteq> t" for u using conc_okD(8) [OF ok, of t u b] that pc by auto
  then have ok': "conc_ok (goto s t ((lk_heap s)(b := setFlag FULLY_LINKED (lk_heap s b))) (Releasing w 0 True)) X"
    by (intro conc_flag [OF ok refl]) (use pc conc_okD(3) [OF ok, of t] in \<open>auto simp: quiet_sets\<close>)
  show ?thesis by (rule refines_same [OF ok ok' refl]) (use pc in auto)
qed

lemma refines_released:
  assumes ok: "conc_ok s X" and pc: "lk_pc s t = Releasing w M True"
  shows "refines_step t s ((goto s t (lk_heap s) Outside)\<lparr>lk_free := lk_free s \<union> set_option (w_target w)\<rparr>)"
proof -
  have tgt: "a \<noteq> lk_head s \<and> (\<forall>j. \<not> on_path (lk_heap s) (lk_head s) X j a) \<and> (\<forall>u. a \<notin> new_nodes (lk_pc s u))"
    if "a \<in> set_option (w_target w)" for a
    using target_facts(4,5) [OF ok, of t w a] conc_okD(3) [OF ok, of t] pc that by auto
  have "conc_ok ((goto s t (lk_heap s) Outside)\<lparr>lk_free := lk_free s \<union> set_option (w_target w)\<rparr>) X"
    unfolding as_move by (rule conc_still [OF ok]) (use tgt pc in \<open>auto simp: quiet_sets\<close>)
  then show ?thesis by (rule refines_lock [OF ok]) (use pc in auto)
qed

lemma lk_change_refines:
  assumes "lk_change M t s s'" and inv: "lk_inv M s" and ok: "conc_ok s X"
  shows "refines_step t s s'"
proof -
  note tf = conc_okD(3) [OF ok, of t] and ph = lk_invD(2) [OF inv, of t]
  show ?thesis using assms(1)
  proof cases
    case (start w)
    show ?thesis unfolding start(1) by (rule refines_enter [OF ok start(3)]) (use start tf in auto)
  next
    case (retry a w)
    show ?thesis unfolding retry(1) by (rule refines_enter [OF ok retry(3)]) (use retry tf in auto)
  next
    case (acquire w l prev p h)
    show ?thesis unfolding acquire(1) by (rule refines_quiet [OF ok guard_lock]) (use acquire tf in \<open>auto simp: quiet_sets\<close>)
  next
    case (again w l prev p)
    show ?thesis unfolding again(1) by (rule refines_quiet [OF ok]) (use again tf in \<open>auto simp: quiet_sets\<close>)
  next
    case (check w l p valid g h)
    then have "h = lk_heap s" using ph check_heap [OF check(3)] by auto
    then show ?thesis unfolding check(1) by (intro refines_quiet [OF ok]) (use check(2) tf in \<open>auto simp: quiet_sets\<close>)
  next
    case (locked w prev)
    show ?thesis unfolding locked(1) by (rule refines_quiet [OF ok]) (use locked tf in \<open>auto simp: quiet_sets\<close>)
  next
    case (linked w b)
    show ?thesis unfolding linked(1) by (rule refines_quiet [OF ok]) (use linked tf in \<open>auto simp: quiet_sets\<close>)
  next
    case (remove w)
    have "\<not> on_path (lk_heap s) (lk_head s) X j a" if "w_target w = Some a" "w_height w \<le> j" for a j
      using on_path_height [OF conc_okD(1) [OF ok], of j a] window_target [of "lk_heap s" M w a] that ph remove
      by (auto simp: locked_window_def)
    then show ?thesis unfolding remove(1) by (intro refines_quiet [OF ok]) (use remove tf in \<open>auto simp: quiet_sets\<close>)
  next
    case (unlinked w)
    show ?thesis unfolding unlinked(1) by (rule refines_quiet [OF ok]) (use unlinked tf in \<open>auto simp: quiet_sets\<close>)
  next
    case (release w i d)
    show ?thesis unfolding release(1) by (rule refines_quiet [OF ok release_lock]) (use release tf in \<open>auto simp: quiet_sets\<close>)
  next
    case (failed w)
    show ?thesis unfolding failed(1) by (rule refines_quiet [OF ok]) (use failed tf in \<open>auto simp: quiet_sets split: option.splits\<close>)
  next
    case (link w b k h)
    then show ?thesis using refines_link [OF ok inv] by blast
  next
    case (unlink w k a h)
    then show ?thesis using refines_unlink [OF ok inv] by blast
  next
    case (take w b nd)
    then show ?thesis using refines_take [OF ok] by blast
  next
    case (full w b)
    then show ?thesis using refines_full [OF ok] by blast
  next
    case (released w)
    then show ?thesis using refines_released [OF ok] by blast
  qed
qed

lemma lk_mark_refines:
  assumes "lk_mark M t s s'" and inv: "lk_inv M s" and ok: "conc_ok s X"
  shows "refines_step t s s'"
proof -
  note tf = conc_okD(3) [OF ok, of t] and ph = lk_invD(2) [OF inv, of t]
  show ?thesis using assms(1)
  proof cases
    case (want w a)
    show ?thesis unfolding want(1) by (rule refines_enter [OF ok want(3)]) (use want in auto)
  next
    case (lock_target w a h)
    show ?thesis unfolding lock_target(1) by (rule refines_quiet [OF ok guard_lock]) (use lock_target in \<open>auto simp: quiet_sets\<close>)
  next
    case (mark w a)
    then show ?thesis using refines_mark [OF ok inv] by blast
  next
    case (marked w a)
    show ?thesis unfolding marked(1) by (rule refines_quiet [OF ok]) (use marked in \<open>auto simp: quiet_sets\<close>)
  next
    case (unlock a)
    show ?thesis unfolding unlock(1) by (rule refines_quiet [OF ok]) (use unlock in \<open>auto simp: quiet_sets\<close>)
  next
    case (unlock_marked w a)
    show ?thesis unfolding unlock_marked(1) by (rule refines_quiet [OF ok]) (use unlock_marked tf ph in \<open>auto simp: quiet_sets\<close>)
  qed
qed

text \<open>The steps of \<open>growHeight\<close>.\<close>

lemma refines_take_head:
  assumes ok: "conc_ok s X" and pc: "lk_pc s t = Growth q k" and b: "fresh s b" and nd: "popped nd k True"
    and null: "lk_head s = q \<longrightarrow> s_skip nd = replicate k None"
  shows "refines_step t s ((goto s t ((lk_heap s)(b := nd)) (Requesting q b))\<lparr>lk_free := lk_free s - {b}\<rparr>)"
proof (rule refines_alloc [OF ok b])
  have "isHeadNode nd" "\<not> markedForRemoval nd" "length (s_skip nd) = s_height nd" "s_height nd = k"
    using nd by (auto simp: popped_def isHeadNode_def markedForRemoval_def)
  moreover have "q \<noteq> b" using fresh_apart(1) [OF b, of t] pc by (auto simp: uses_def)
  ultimately show "conc_ok ((goto s t ((lk_heap s)(b := nd)) (Requesting q b))\<lparr>lk_free := lk_free s - {b}\<rparr>) X"
    by (intro conc_alloc [OF ok b refl]) (use pc null conc_okD(3) [OF ok, of t] in \<open>auto simp: quiet_sets\<close>)
qed (use pc in auto)

lemma refines_copy:
  assumes ok: "conc_ok s X" and inv: "lk_inv M s" and pc: "lk_pc s t = Growing q b" and cp: "copyHead b q (lk_heap s) = Inr h"
  shows "refines_step t s (goto s t h (Copied q b))"
proof -
  have "b \<notin> set (X 0)" using conc_okD(7) [OF ok, of b t 0] pc pathsD(3) [OF conc_okD(1) [OF ok]] by (auto simp: on_path_def)
  then have h: "h x = lk_heap s x" if "x \<in> set (X 0)" for x
    using cp that by (auto simp: copyHead_def rguard_def split: if_splits)
  show ?thesis by (rule refines_same [OF ok conc_copy [OF ok inv pc cp] refl]) (use h pc in auto)
qed

lemma refines_swap:
  assumes ok: "conc_ok s X" and pc: "lk_pc s t = Copied q b" "lk_head s = q"
  shows "refines_step t s ((goto s t (lk_heap s) (Retiring q))\<lparr>lk_head := b\<rparr>)"
proof -
  obtain X' where ok': "conc_ok (move s t (lk_heap s) b (lk_free s) (Retiring q)) X'" and "X' 0 = X 0"
    using conc_swap [OF ok, of t b] pc by blast
  then show ?thesis unfolding as_move by (intro refines_same [OF ok ok']) (use pc in auto)
qed

lemma refines_no_swap:
  assumes ok: "conc_ok s X" and pc: "lk_pc s t = Copied q b"
  shows "refines_step t s ((goto s t (lk_heap s) (Unlocking q))\<lparr>lk_free := insert b (lk_free s)\<rparr>)"
proof -
  have b: "b \<noteq> lk_head s" "\<And>j. \<not> on_path (lk_heap s) (lk_head s) X j b" using conc_okD(6,7) [OF ok, of b t] pc by auto
  have bt: "b \<notin> new_nodes (lk_pc s u)" if "u \<noteq> t" for u using conc_okD(8) [OF ok, of t u b] that pc by auto
  have "conc_ok ((goto s t (lk_heap s) (Unlocking q))\<lparr>lk_free := insert b (lk_free s)\<rparr>) X"
    unfolding as_move by (rule conc_still [OF ok]) (use b bt pc in \<open>auto simp: quiet_sets\<close>)
  then show ?thesis by (rule refines_lock [OF ok]) (use pc in auto)
qed

lemma old_head_facts:
  assumes ok: "conc_ok s X" and pc: "lk_pc s t = Retiring q \<or> lk_pc s t = Retired q"
  shows "q \<noteq> lk_head s" "\<not> on_path (lk_heap s) (lk_head s) X j q" "u \<noteq> t \<Longrightarrow> q \<notin> new_nodes (lk_pc s u)"
proof -
  have q: "q \<noteq> lk_head s" "isHeadNode (lk_heap s q)" "q \<in> uses (lk_pc s t)"
    using conc_okD(3) [OF ok, of t] pc by (auto simp: uses_def)
  then show "q \<noteq> lk_head s" "\<not> on_path (lk_heap s) (lk_head s) X j q" "u \<noteq> t \<Longrightarrow> q \<notin> new_nodes (lk_pc s u)"
    using pathsD(6) [OF conc_okD(1) [OF ok]] head_not_taken [OF ok q(2,3)] by blast+
qed

lemma refines_retire:
  assumes ok: "conc_ok s X" and pc: "lk_pc s t = Retiring q"
  shows "refines_step t s (goto s t ((lk_heap s)(q := setFlag MARKED_FOR_REMOVAL (lk_heap s q))) (Retired q))"
proof -
  note q = old_head_facts [OF ok disjI1 [OF pc]]
  have ok': "conc_ok (goto s t ((lk_heap s)(q := setFlag MARKED_FOR_REMOVAL (lk_heap s q))) (Retired q)) X"
    by (rule conc_flag [OF ok refl]) (use pc q conc_okD(3) [OF ok, of t] in \<open>auto simp: quiet_sets\<close>)
  have "q \<notin> set (X 0)" using q(2) [of 0] pathsD(3) [OF conc_okD(1) [OF ok]] by (auto simp: on_path_def)
  then show ?thesis by (intro refines_same [OF ok ok' refl]) (use pc in auto)
qed

lemma refines_unlock_head:
  assumes ok: "conc_ok s X" and pc: "lk_pc s t = Retired q"
  shows "refines_step t s ((goto s t (releaseGuard q (lk_heap s)) Outside)\<lparr>lk_free := insert q (lk_free s)\<rparr>)"
proof -
  note q = old_head_facts [OF ok disjI2 [OF pc]]
  have "conc_ok ((goto s t (releaseGuard q (lk_heap s)) Outside)\<lparr>lk_free := insert q (lk_free s)\<rparr>) X"
    unfolding as_move by (rule conc_still [OF ok]) (use q pc in \<open>auto simp: quiet_sets\<close>)
  then show ?thesis by (rule refines_lock [OF ok]) (use pc in auto)
qed

lemma lk_grow_refines:
  assumes "lk_grow t s s'" and inv: "lk_inv M s" and ok: "conc_ok s X"
  shows "refines_step t s s'"
  using assms(1)
proof cases
  case (grow k)
  show ?thesis unfolding grow(1)
    by (rule refines_quiet [OF ok]) (use grow pathsD(1) [OF conc_okD(1) [OF ok]] in \<open>auto simp: quiet_sets\<close>)
next
  case (lock_head q b h)
  show ?thesis unfolding lock_head(1)
    by (rule refines_quiet [OF ok guard_lock]) (use lock_head conc_okD(3) [OF ok, of t] in \<open>auto simp: quiet_sets\<close>)
qed (use refines_take_head [OF ok] refines_copy [OF ok inv] refines_swap [OF ok] refines_no_swap [OF ok] refines_retire [OF ok]
  refines_unlock_head [OF ok] in blast)+

lemma lk_step_refines: "lk_step M t s s' \<Longrightarrow> lk_inv M s \<Longrightarrow> conc_ok s X \<Longrightarrow> refines_step t s s'"
  unfolding lk_step_def using lk_change_refines lk_mark_refines lk_grow_refines by blast

section \<open>The window of a search\<close>

lemma rank_inj:
  assumes ok: "conc_ok s X" and p: "passed (lk_heap s) (lk_head s) X dat i p" "passed (lk_heap s) (lk_head s) X dat j p'"
    and eq: "node_rank (lk_heap s) p = node_rank (lk_heap s) p'"
  shows "p = p'"
proof -
  note P = conc_okD(1) [OF ok]
  have in0: "x = lk_head s \<and> isHeadNode (lk_heap s x) \<or> x \<in> set (X 0) \<and> \<not> isHeadNode (lk_heap s x)"
    if "passed (lk_heap s) (lk_head s) X dat k x" for x k
  proof -
    have "x = lk_head s \<or> on_path (lk_heap s) (lk_head s) X 0 x" using passed_down [OF P that, of 0] by (simp add: passed_def)
    then show ?thesis using pathsD(1) [OF P] pathsD(6) [OF P, of 0 x] by (auto simp: on_path_def)
  qed
  show ?thesis
    using in0 [OF p(1)] in0 [OF p(2)] eq data_inj [OF ok, of p p'] by (auto simp: node_rank_def)
qed

lemma search_window:
  assumes ok: "conc_ok s X" and pr: "preds_from (lk_heap s) (lk_head s) X (w_value w) (s_height (lk_heap s (lk_head s))) q (w_preds w)"
    and w: "0 < w_height w" "w_height w \<le> s_height (lk_heap s (lk_head s))" "w_height w \<le> M" "w_guards w = no_guards"
    and su: "\<And>k b. k < w_height w \<Longrightarrow> w_succs w k = Some b \<Longrightarrow> on_path (lk_heap s) (lk_head s) X k b"
    and tg: "case w_target w of
        None \<Rightarrow> \<forall>k b. k < w_height w \<longrightarrow> w_succs w k = Some b \<longrightarrow> Some (w_value w) < node_rank (lk_heap s) b
      | Some a \<Rightarrow> (\<forall>k < w_height w. w_succs w k = Some a) \<and> node_rank (lk_heap s) a = Some (w_value w)
          \<and> s_height (lk_heap s a) = w_height w \<and> fullyLinked (lk_heap s a)"
  shows "enters M s w"
proof -
  let ?h = "lk_heap s" and ?q = "lk_head s"
  note P = conc_okD(1) [OF ok]
  have pred: "\<exists>p. w_preds w k = Some p \<and> passed ?h ?q X (w_value w) k p" if "k < w_height w" for k
    using pr order_less_le_trans [OF that w(2)] by (auto simp: preds_from_def)
  have known: "known s k p" if "k < w_height w" "p = ?q \<or> on_path ?h ?q X k p" for k p
    using that w(2) on_layer_iff [OF P, of k p] by (auto simp: known_def on_path_def)
  have unl: "p \<notin> unlinked_at (lk_pc s u) k" if "p = ?q \<or> on_path ?h ?q X k p" for k p u
    using that conc_okD(6,7) [OF ok, of p u k] by auto
  have desc: "node_rank ?h p' < node_rank ?h p"
    if "i < j" "j < w_height w" "w_preds w i = Some p" "w_preds w j = Some p'" "p \<noteq> p'" for i j p p'
  proof -
    have "passed ?h ?q X (w_value w) i p" "passed ?h ?q X (w_value w) j p'" using pred [of i] pred [of j] that by auto
    then have "node_rank ?h p \<noteq> node_rank ?h p'" using rank_inj [OF ok] that(5) by blast
    moreover have "node_rank ?h p' \<le> node_rank ?h p"
      using pr order_less_le_trans [OF that(2) w(2)] that(1,3,4) unfolding preds_from_def by fastforce
    ultimately show ?thesis by simp
  qed
  have "window_ok ?h M w"
    unfolding window_ok_def using w tg desc pred passed_height [OF P] by (fastforce split: option.splits)
  moreover have "values_ok ?h w"
    using tg pred unfolding values_ok_def by (fastforce simp: passed_def split: option.splits)
  moreover have "known s 0 a \<and> fullyLinked (lk_heap s a)" if a: "w_target w = Some a" for a
    using tg su [OF w(1), of a] known [OF w(1), of a] w(1) a by auto
  moreover have "known s k p" "p \<notin> unlinked_at (lk_pc s u) k" if "k < w_height w" "w_preds w k = Some p" for k p u
    using pred [OF that(1)] that known [OF that(1)] unl by (auto simp: passed_def)
  moreover have "p \<notin> unlinked_at (lk_pc s u) k" if "k < w_height w" "w_succs w k = Some p" for k p u
    using su [OF that] unl by blast
  ultimately show ?thesis using w unfolding enters_def by blast
qed

section \<open>Runs\<close>

text \<open>A new list: a head with null pointers, and no thread at work.\<close>

definition lk_new :: "'a locks \<Rightarrow> bool" where
  "lk_new s \<longleftrightarrow> lk_idle s \<and> lk_head s \<notin> lk_free s
     \<and> (let n = lk_heap s (lk_head s) in 0 < s_height n \<and> popped n (s_height n) True \<and> s_skip n = replicate (s_height n) None)"

lemma lk_new_ok: "lk_new s \<Longrightarrow> conc_ok s (\<lambda>_. [])"
  by (rule conc_okI)
    (auto simp: lk_new_def lk_idle_def popped_def Let_def paths_def on_path_def isHeadNode_def markedForRemoval_def window_facts_def)

lemma lk_run_ok: "lk_run M s s' \<Longrightarrow> lk_new s \<Longrightarrow> \<exists>X. conc_ok s' X"
proof (induction rule: lk_run.induct)
  case (more s' t s'')
  then show ?case using lk_step_refines [OF more(2) lk_run_inv [OF more(1)]] by (auto simp: refines_step_def lk_new_def)
qed (use lk_new_ok in blast)

text \<open>The constructor makes a new list, if no lock of the memory it gets is held.\<close>

context skip_nodes
begin

lemma take_unlocked:
  assumes k: "1 \<le> k" "k < 64" and "\<And>p. \<not> s_lock (h p)" "recycler_take I k h R = Some (Inr (a, h', R'))"
  shows "\<not> s_lock (h' p)"
proof (cases "rc_queues R k" rule: popE)
  case (2 b q)
  then show ?thesis using assms(3,4) by (simp add: recycler_take.simps)
next
  case (1 q0)
  let ?as = "[rc_brk R..<rc_brk R + rc_chunk]"
  obtain q1 where q1: "create_nodes I k ?as h q0 = Inr (\<lambda>x. if x \<in> set ?as then fresh_node (si_default I) k else h x, q1)" "elems q1 = ?as"
    using create_nodes_eq [OF k, of ?as h q0] 1(3) by auto
  have "elems q1 \<noteq> []" using q1(2) by (simp add: upt_conv_Cons)
  then obtain b q where q: "lf_pop (si_ops I) q1 = (Some b, q)" by (cases q1 rule: popE) auto
  have "h' = (\<lambda>x. if x \<in> set ?as then fresh_node (si_default I) k else h x)"
    using 1(2) q1(1) q assms(4) by (simp add: recycler_take.simps)
  then show ?thesis using assms(3) by (simp add: fresh_node_def)
qed

lemma ctor_new:
  assumes "1 \<le> height" "height \<le> si_max I" "\<And>p. \<not> s_lock (h p)"
  shows "\<exists>L. ConcurrentSkipList_ctor I height h base = Inr L
    \<and> lk_new \<lparr>lk_heap = sl_heap L, lk_head = sl_head L, lk_free = - {sl_head L}, lk_pc = (\<lambda>_. Outside)\<rparr>"
proof -
  let ?R = "NodeRecycler_ctor I base"
  have k: "1 \<le> height" "height < 64" using assms(1,2) max_height by auto
  have ok: "rc_ok elems h 0 ?R" by (simp add: rc_ok_def NodeRecycler_ctor_def elems_new)
  obtain a h1 R1 where run: "recycler_pop I height True h ?R = Inr (a, h1, R1)" and t: "taken elems 0 height h ?R a h1 R1"
      and flags: "s_flags (h1 a) = IS_HEAD_NODE"
    using recycler_pop_eq [OF ok k, of True] by auto
  have "\<not> s_lock (h1 p)" for p
    using run take_unlocked [where R = ?R and h = h, OF k assms(3)] k
    by (auto simp: recycler_pop_def diverge_def rguard_def split: option.splits if_splits sum.splits)
  moreover have "s_height (h1 a) = height" "s_skip (h1 a) = replicate height None"
    using takenD(5) [OF t] assms(1) by (auto simp: idle_node_def)
  ultimately have "lk_new \<lparr>lk_heap = h1, lk_head = a, lk_free = - {a}, lk_pc = (\<lambda>_. Outside)\<rparr>"
    using flags assms(1) by (simp add: lk_new_def lk_idle_def popped_def)
  then show ?thesis using run by (simp add: ConcurrentSkipList_ctor_def)
qed

end

text \<open>One thread of the example goes on: it takes a node and links it.\<close>

abbreviation ex_win :: "nat window" where "ex_win \<equiv> ex_window (no_guards(0 := True))"

abbreviation ex_node :: "nat snode" where
  "ex_node \<equiv> \<lparr>s_flags = 0, s_height = 1, s_lock = False, s_data = 5, s_skip = [None]\<rparr>"

abbreviation ex_recycler :: "unit recycler" where
  "ex_recycler \<equiv> \<lparr>rc_queues = (\<lambda>_. ()), rc_nodes = None, rc_refs = 1, rc_dirty = True, rc_brk = 2\<rparr>"

definition ex_popped :: "nat locks" where
  "ex_popped = (goto ex_locked 0 ((lk_heap ex_locked)(1 := ex_node)) (Linking ex_win 1 0))\<lparr>lk_free := lk_free ex_locked - {1}\<rparr>"

definition ex_linked :: "nat locks" where
  "ex_linked = goto ex_popped 0 ((lk_heap ex_popped)(0 := (lk_heap ex_popped 0)\<lparr>s_skip := [Some 1]\<rparr>)) (Linking ex_win 1 (Suc 0))"

lemma ex_new: "lk_new ex_idle"
  using ex_idle_ok by (simp add: lk_new_def popped_def ex_defs)

lemma ex_pop: "lk_step 1 0 ex_locked ex_popped"
  unfolding ex_popped_def
proof (intro lk_stepI(1) lk_change.take)
  show "fresh ex_locked 1" by (simp add: fresh_def uses_def remembers_def ex_defs)
qed (simp_all add: popped_def ex_defs)

lemma ex_link: "lk_step 1 0 ex_popped ex_linked"
  unfolding ex_linked_def
  by (intro lk_stepI(1) lk_change.link) (simp_all add: ex_popped_def ex_defs setSkip_def rguard_def fun_upd_twist)

lemma ex_linked_run: "lk_run 1 ex_idle ex_popped" "lk_run 1 ex_idle ex_linked"
  using ex_run ex_pop ex_link by (blast intro: lk_run.more)+

section \<open>Properties\<close>




lemma ex_on_layer: "on_layer ex_linked 0 1" "s_data (lk_heap ex_linked 1) = 5" "lk_head ex_linked = 0" "s_height (lk_heap ex_linked 0) = 1"
  unfolding on_layer_def by (rule exI [of _ "[0, 1]"]) (simp_all add: ex_linked_def ex_popped_def ex_defs)




end
