(* ===== verification/Hcl_Skip_Heights.thy ===== *)
theory Hcl_Skip_Heights
  imports Hcl_Skip_List
begin

text \<open>
  The tables of \<^verbatim>\<open>SkipListRandomHeight\<close> (\<^verbatim>\<open>skip_list_inl.h\<close>): the probabilities of the heights, and the sizes at which the list
  grows. The code computes in double precision: \<open>rnd\<close> rounds the result of every operation, and \<open>e\<close> is the
  value of \<^verbatim>\<open>exp(1)\<close>. The samples of the random engine are arguments of the operations that use them.
\<close>

section \<open>The tables\<close>

record height_tables =
  ht_p :: real
  ht_limit :: real
  ht_lookup :: "nat \<Rightarrow> real"
  ht_sizes :: "nat \<Rightarrow> u64"

abbreviation kMaxHeight :: nat where "kMaxHeight \<equiv> 64"
abbreviation kMaxSizeLimit :: u64 where "kMaxSizeLimit \<equiv> - 1"

text \<open>The conversion of a size limit, which is cut off at the largest 64-bit number.\<close>

definition to_size :: "(real \<Rightarrow> real) \<Rightarrow> real \<Rightarrow> u64" where
  "to_size rnd sizeLimit = (if sizeLimit > rnd (2 ^ 64 - 1) then kMaxSizeLimit else of_int \<lfloor>sizeLimit\<rfloor>)"

definition table_start :: "(real \<Rightarrow> real) \<Rightarrow> real \<Rightarrow> height_tables" where
  "table_start rnd e =
     (let kProb = rnd (1 / e); p = rnd (1 - kProb)
      in \<lparr>ht_p = p, ht_limit = 1, ht_lookup = (\<lambda>_. 0)(0 := p), ht_sizes = (\<lambda>_. 0)(0 := 1)\<rparr>)"

definition table_step :: "(real \<Rightarrow> real) \<Rightarrow> real \<Rightarrow> nat \<Rightarrow> height_tables \<Rightarrow> height_tables" where
  "table_step rnd e i T =
     (let kProb = rnd (1 / e); p = rnd (ht_p T * kProb); sizeLimit = rnd (ht_limit T * e)
      in \<lparr>ht_p = p, ht_limit = sizeLimit, ht_lookup = (ht_lookup T)(i := rnd (ht_lookup T (i - 1) + p)),
          ht_sizes = (ht_sizes T)(i := to_size rnd sizeLimit)\<rparr>)"

definition initLookupTable :: "(real \<Rightarrow> real) \<Rightarrow> real \<Rightarrow> height_tables" where
  "initLookupTable rnd e =
     (let T = fold (table_step rnd e) [1..<kMaxHeight - 1] (table_start rnd e)
      in T\<lparr>ht_lookup := (ht_lookup T)(kMaxHeight - 1 := 1), ht_sizes := (ht_sizes T)(kMaxHeight - 1 := kMaxSizeLimit)\<rparr>)"

section \<open>Rounding\<close>

text \<open>What the tables need of the rounding: it is monotone, and leaves 0, 1 and what is already rounded.\<close>

locale rounding =
  fixes rnd :: "real \<Rightarrow> real"
  assumes mono: "x \<le> y \<Longrightarrow> rnd x \<le> rnd y"
    and idem: "rnd (rnd x) = rnd x"
    and fixed: "rnd 0 = 0" "rnd 1 = 1"
begin

lemma between: "0 \<le> x \<Longrightarrow> x \<le> 1 \<Longrightarrow> 0 \<le> rnd x \<and> rnd x \<le> 1"
  using mono [of 0 x] mono [of x 1] fixed by simp

lemma positive: "0 \<le> x \<Longrightarrow> 0 \<le> rnd x"
  using mono [of 0 x] fixed by simp

lemma prob: "1 \<le> e \<Longrightarrow> 0 \<le> rnd (1 / e) \<and> rnd (1 / e) \<le> 1"
  by (rule between) (simp_all add: divide_le_eq)

text \<open>The table of probabilities does not decrease, whatever is rounded.\<close>

lemma step_tables:
  assumes "1 \<le> e" "0 \<le> ht_p T" "rnd (ht_lookup T k) = ht_lookup T k" "\<forall>i < k. ht_lookup T i \<le> ht_lookup T (Suc i)"
    and T': "T' = table_step rnd e (Suc k) T"
  shows "0 \<le> ht_p T' \<and> rnd (ht_lookup T' (Suc k)) = ht_lookup T' (Suc k) \<and> (\<forall>i < Suc k. ht_lookup T' i \<le> ht_lookup T' (Suc i))"
proof -
  define p where "p = rnd (ht_p T * rnd (1 / e))"
  have p: "0 \<le> p" unfolding p_def using assms(2) prob [OF assms(1)] by (intro positive) simp
  have "rnd (ht_lookup T k) \<le> rnd (ht_lookup T k + p)" using p by (intro mono) simp
  then have "ht_lookup T k \<le> rnd (ht_lookup T k + p)" using assms(3) by simp
  moreover have "ht_p T' = p" "ht_lookup T' = (ht_lookup T)(Suc k := rnd (ht_lookup T k + p))"
    by (simp_all add: T' table_step_def Let_def p_def)
  ultimately show ?thesis using assms(4) p by (auto simp: idem less_Suc_eq)
qed

lemma fold_tables:
  assumes "1 \<le> e" "T = fold (table_step rnd e) [1..<Suc k] (table_start rnd e)"
  shows "0 \<le> ht_p T \<and> rnd (ht_lookup T k) = ht_lookup T k \<and> (\<forall>i < k. ht_lookup T i \<le> ht_lookup T (Suc i))"
  using assms(2)
proof (induction k arbitrary: T)
  case 0
  have "0 \<le> rnd (1 - rnd (1 / e))" using prob [OF assms(1)] by (intro positive) simp
  then show ?case using 0 by (simp add: table_start_def Let_def idem)
next
  case (Suc k)
  have "T = table_step rnd e (Suc k) (fold (table_step rnd e) [1..<Suc k] (table_start rnd e))" using Suc.prems by simp
  then show ?case using Suc.IH [OF refl] step_tables [OF assms(1)] by blast
qed

lemma lookup_increases:
  assumes "1 \<le> e" "i \<le> j" "j \<le> 62"
  shows "ht_lookup (initLookupTable rnd e) i \<le> ht_lookup (initLookupTable rnd e) j"
proof -
  define T where "T = fold (table_step rnd e) [1..<Suc 62] (table_start rnd e)"
  define f where "f = ht_lookup T"
  have tab: "initLookupTable rnd e = T\<lparr>ht_lookup := f(63 := 1), ht_sizes := (ht_sizes T)(63 := kMaxSizeLimit)\<rparr>"
    unfolding initLookupTable_def T_def f_def Let_def by simp
  have step: "f n \<le> f (Suc n)" if "n < 62" for n
    using fold_tables [OF assms(1) T_def] that by (simp add: f_def)
  have "f i \<le> f j" using assms(2,3)
  proof (induction rule: dec_induct)
    case (step n)
    then show ?case using \<open>\<And>n. n < 62 \<Longrightarrow> f n \<le> f (Suc n)\<close> [of n] by simp
  qed simp
  then show ?thesis using assms(2,3) by (simp add: tab)
qed

end

text \<open>Exact arithmetic, and arithmetic that cuts off the binary digits after the 53rd.\<close>

interpretation exact: rounding "\<lambda>x. x"
  by unfold_locales simp_all

definition cut_off :: "real \<Rightarrow> real" where
  "cut_off x = of_int \<lfloor>x * 2 ^ 53\<rfloor> / 2 ^ 53"

interpretation cut: rounding cut_off
proof
  show "x \<le> y \<Longrightarrow> cut_off x \<le> cut_off y" for x y
    by (simp add: cut_off_def divide_right_mono floor_mono)
qed (simp_all add: cut_off_def)

section \<open>The heights\<close>

text \<open>\<open>getHeight\<close> answers the first height whose probability the sample does not reach.\<close>

lemma getHeight_first:
  assumes "1 \<le> m" "m \<le> kMaxHeight"
  obtains k where "getHeight tbl p m = Inr k" "1 \<le> k" "k \<le> m" "\<And>i. i + 1 < k \<Longrightarrow> tbl i \<le> p" "k < m \<Longrightarrow> p < tbl (k - 1)"
proof (cases "filter (\<lambda>i. p < tbl i) [0..<m]")
  case Nil
  then have "tbl i \<le> p" if "i < m" for i using that by (auto simp: filter_empty_conv not_less)
  then show thesis using that [of m] Nil assms by (simp add: getHeight_def)
next
  case (Cons i xs)
  then obtain us vs where s: "[0..<m] = us @ i # vs" "\<forall>u \<in> set us. \<not> p < tbl u" "p < tbl i"
    by (auto simp: filter_eq_Cons_iff)
  have len: "length us < m" using arg_cong [OF s(1), of length] by simp
  then have i: "i = length us" using arg_cong [OF s(1), of "\<lambda>xs. xs ! length us"] by simp
  have "us = take i [0..<m]" using s(1) i by simp
  then have us: "us = [0..<i]" using i len by (simp add: min_def)
  have "tbl j \<le> p" if "j < i" for j using s(2) that unfolding us by (simp add: not_less)
  then show thesis using that [of "i + 1"] Cons assms i len s(3) by (simp add: getHeight_def)
qed

text \<open>In exact arithmetic the tables have a closed form.\<close>

lemma exact_fold:
  assumes "0 < e" "T = fold (table_step (\<lambda>x. x) e) [1..<Suc k] (table_start (\<lambda>x. x) e)"
  shows "ht_p T = (1 - 1 / e) * (1 / e) ^ k \<and> ht_limit T = e ^ k
    \<and> (\<forall>i \<le> k. ht_lookup T i = 1 - (1 / e) ^ (i + 1) \<and> (0 < i \<longrightarrow> ht_sizes T i = to_size (\<lambda>x. x) (e ^ i)))"
  using assms(2)
proof (induction k arbitrary: T)
  case 0
  then show ?case by (simp add: table_start_def Let_def)
next
  case (Suc k)
  obtain S where S: "T = table_step (\<lambda>x. x) e (Suc k) S" "ht_p S = (1 - 1 / e) * (1 / e) ^ k" "ht_limit S = e ^ k"
    "\<And>i. i \<le> k \<Longrightarrow> ht_lookup S i = 1 - (1 / e) ^ (i + 1)" "\<And>i. i \<le> k \<Longrightarrow> 0 < i \<Longrightarrow> ht_sizes S i = to_size (\<lambda>x. x) (e ^ i)"
    using Suc.IH [OF refl] Suc.prems by auto
  have "ht_p T = (1 - 1 / e) * (1 / e) ^ Suc k" "ht_limit T = e ^ Suc k"
    using S(2,3) by (simp_all add: S(1) table_step_def Let_def mult.commute)
  moreover have "ht_sizes T (Suc k) = to_size (\<lambda>x. x) (e ^ Suc k)"
    using S(3) by (simp add: S(1) table_step_def Let_def mult.commute)
  moreover have "ht_lookup T (Suc k) = 1 - (1 / e) ^ (Suc k + 1)"
  proof -
    define r where "r = 1 / e"
    have "ht_lookup T (Suc k) = ht_lookup S k + ht_p S * r" by (simp add: S(1) table_step_def Let_def r_def)
    also have "\<dots> = (1 - r ^ (k + 1)) + (1 - r) * r ^ k * r" unfolding S(2) using S(4) [of k] by (simp add: r_def)
    also have "\<dots> = 1 - r ^ (Suc k + 1)" by (simp add: algebra_simps)
    finally show ?thesis by (simp add: r_def)
  qed
  moreover have "ht_lookup T i = ht_lookup S i" "ht_sizes T i = ht_sizes S i" if "i \<le> k" for i
    using that by (simp_all add: S(1) table_step_def Let_def)
  ultimately show ?case using S(4,5) by (simp add: le_Suc_eq)
qed

lemma exact_tables:
  assumes "0 < e" "i \<le> 62"
  shows "ht_lookup (initLookupTable (\<lambda>x. x) e) i = 1 - (1 / e) ^ (i + 1)"
    "0 < i \<Longrightarrow> ht_sizes (initLookupTable (\<lambda>x. x) e) i = to_size (\<lambda>x. x) (e ^ i)"
proof -
  define T where "T = fold (table_step (\<lambda>x. x) e) [1..<Suc 62] (table_start (\<lambda>x. x) e)"
  have "initLookupTable (\<lambda>x. x) e = T\<lparr>ht_lookup := (ht_lookup T)(63 := 1), ht_sizes := (ht_sizes T)(63 := kMaxSizeLimit)\<rparr>"
    unfolding initLookupTable_def T_def Let_def by simp
  moreover note exact_fold [OF assms(1) T_def]
  ultimately show "ht_lookup (initLookupTable (\<lambda>x. x) e) i = 1 - (1 / e) ^ (i + 1)"
    "0 < i \<Longrightarrow> ht_sizes (initLookupTable (\<lambda>x. x) e) i = to_size (\<lambda>x. x) (e ^ i)"
    using assms(2) by simp_all
qed

text \<open>So the heights are distributed geometrically: a node is higher than \<open>k\<close> for the share \<open>(1 / e) ^ k\<close> of the samples.\<close>

lemma height_geometric:
  assumes "0 < e" "1 \<le> m" "m \<le> 63"
  obtains k where "getHeight (ht_lookup (initLookupTable (\<lambda>x. x) e)) p m = Inr k" "1 \<le> k" "k \<le> m"
    "1 < k \<Longrightarrow> 1 - (1 / e) ^ (k - 1) \<le> p" "k < m \<Longrightarrow> p < 1 - (1 / e) ^ k"
proof -
  let ?t = "ht_lookup (initLookupTable (\<lambda>x. x) e)"
  obtain k where k: "getHeight ?t p m = Inr k" "1 \<le> k" "k \<le> m" "\<And>i. i + 1 < k \<Longrightarrow> ?t i \<le> p" "k < m \<Longrightarrow> p < ?t (k - 1)"
    by (rule getHeight_first [of m ?t p]) (use assms in auto)
  have "1 - (1 / e) ^ (k - 1) \<le> p" if "1 < k"
  proof -
    have "k = Suc (Suc (k - 2))" using that by simp
    then obtain j where j: "k = Suc (Suc j)" ..
    then show ?thesis using k(4) [of j] exact_tables(1) [OF assms(1), of j] k(3) assms(3) by simp
  qed
  moreover have "p < 1 - (1 / e) ^ k" if "k < m"
    using k(5) [OF that] exact_tables(1) [OF assms(1), of "k - 1"] that k(2) assms(3) by simp
  ultimately show thesis using that k by blast
qed

end
