(* ===== verification/Hcl_Conc_Skiplist.thy ===== *)
theory Hcl_Conc_Skiplist
  imports Hcl_Skip_Spec Hcl_Launch
begin

text \<open>
  \<^verbatim>\<open>hcl::concurrent_skiplist\<close> (\<^verbatim>\<open>include/hcl/concurrent/skiplist/skiplist.h\<close>, \<^verbatim>\<open>.cpp\<close>): one skip list per
  server, in the memory of the server process. The upper bits of the hash value choose the server, and every
  operation is a remote call.
\<close>

unbundle bit_operations_syntax

section \<open>The class\<close>

record csl =
  csl_base :: container
  csl_nservers :: u32
  csl_serverid :: u32
  csl_nbits :: u64

datatype csl_op = CslInsert | CslFind | CslErase

definition csl_bind_table :: "(string \<times> csl_op) list" where
  "csl_bind_table = [(''_Insert'', CslInsert), (''_Find'', CslFind), (''_Erase'', CslErase)]"

text \<open>
  \<^verbatim>\<open>power_of_two\<close>: the loop over an \<^verbatim>\<open>int\<close>. Past \<open>2 ^ 30\<close> the doubling overflows; with wrap-around it
  would reach 0 and stay there.
\<close>

function power_of_two_loop :: "int \<Rightarrow> int \<Rightarrow> int result" where
  "power_of_two_loop n c =
     (if c < n then if 0 < c \<and> 2 * c < 2 ^ 31 then power_of_two_loop n (2 * c) else Inl Diverges else Inr c)"
  by auto
termination by (relation "measure (\<lambda>(n, c). nat (n - c))") auto

declare power_of_two_loop.simps [simp del]

definition power_of_two :: "int \<Rightarrow> int result" where
  "power_of_two n = power_of_two_loop n 1"

text \<open>\<^verbatim>\<open>log2\<close>, cut to an integer.\<close>

fun ilog2 :: "nat \<Rightarrow> nat" where
  "ilog2 c = (if c < 2 then 0 else Suc (ilog2 (c div 2)))"

declare ilog2.simps [simp del]

definition csl_serverLocation :: "('k \<Rightarrow> u64) \<Rightarrow> csl \<Rightarrow> 'k \<Rightarrow> u64 result" where
  "csl_serverLocation hash C k =
     (let hashval = hash k; mask = (- 1 :: u64); sh = 64 - csl_nbits C in
      if sh \<ge> 64 then Inl Shift_Too_Wide
      else let mask = push_bit (unat sh) mask;
               id = hashval AND mask;
               id = drop_bit (unat sh) id
           in Inr (if id \<ge> ucast (csl_nservers C) then ucast (csl_nservers C - 1) else id))"

definition csl_isLocal :: "('k \<Rightarrow> u64) \<Rightarrow> csl \<Rightarrow> 'k \<Rightarrow> bool result" where
  "csl_isLocal hash C k =
     (if is_server (csl_base C) then rmap (\<lambda>id. id = ucast (csl_serverid C)) (csl_serverLocation hash C k) else Inr False)"

text \<open>\<^verbatim>\<open>initialize_sets\<close>: the answer is the accessor of the list, on a server.\<close>

definition initialize_sets ::
  "('k::linorder, 'q) sl_inst \<Rightarrow> csl \<Rightarrow> u32 \<Rightarrow> u32 \<Rightarrow> 'k sheap \<Rightarrow> ptr \<Rightarrow> (csl \<times> ('k, 'q) skip_list option) result" where
  "initialize_sets I C np rank h base =
     (let C = C\<lparr>csl_nservers := np, csl_serverid := rank\<rparr> in
      rbind (power_of_two (sint np)) (\<lambda>nservers_2.
        let C = C\<lparr>csl_nbits := of_nat (ilog2 (nat nservers_2))\<rparr>
        in if is_server (csl_base C)
           then rmap (\<lambda>s. (C, Some (Accessor_ctor s))) (ConcurrentSkipList_ctor I 2 h base)
           else Inr (C, None)))"

definition csl_ctor ::
  "('f, 'd) segment_ops \<Rightarrow> hcl_process \<Rightarrow> charstruct \<Rightarrow> u16 \<Rightarrow> u16 \<Rightarrow> u16 \<Rightarrow> u64 \<Rightarrow> bool \<Rightarrow> bool
     \<Rightarrow> charstruct \<Rightarrow> 'f \<Rightarrow> (container \<times> (string \<times> csl_op) list \<times> 'f) result" where
  "csl_ctor bip p nm prt n idx mem srv on_node dir fs =
     rbind (container_ctor bip p nm prt n idx mem srv on_node dir fs) (\<lambda>(c, fs).
       if is_server c then rmap (\<lambda>b. (c, b, fs)) (bind_functions p c csl_bind_table) else Inr (c, [], fs))"

section \<open>Operations\<close>

text \<open>
  What a server holds: its list, behind a pointer, and the random samples it will draw, by insertion and
  attempt.
\<close>

record ('k, 'q) csl_object =
  co_list :: "('k, 'q) skip_list option"
  co_samples :: "nat \<Rightarrow> nat \<Rightarrow> real"

definition csl_dtor :: "('k, 'q) sl_inst \<Rightarrow> ('k, 'q) csl_object \<Rightarrow> ptr list result" where
  "csl_dtor I d = (case co_list d of None \<Rightarrow> Inr [] | Some L \<Rightarrow> ConcurrentSkipList_dtor (Accessor_dtor I L))"

definition csl_LocalInsert ::
  "('k::linorder, 'q) sl_inst \<Rightarrow> 'k \<Rightarrow> ('k, 'q) csl_object shm \<Rightarrow> (bool \<times> ('k, 'q) csl_object shm) result" where
  "csl_LocalInsert I k s =
     (case co_list (obj s) of
        None \<Rightarrow> Inl Null_Deref
      | Some L \<Rightarrow> rmap (\<lambda>((_, b), L). (b, s\<lparr>obj := \<lparr>co_list = Some L, co_samples = (\<lambda>i. co_samples (obj s) (Suc i))\<rparr>\<rparr>))
          (acc_insert I k (co_samples (obj s) 0) L))"

definition csl_LocalFind :: "'k::linorder \<Rightarrow> ('k, 'q) csl_object shm \<Rightarrow> (bool \<times> ('k, 'q) csl_object shm) result" where
  "csl_LocalFind k s =
     (case co_list (obj s) of None \<Rightarrow> Inl Null_Deref | Some L \<Rightarrow> rmap (\<lambda>b. (b, s)) (acc_contains L k))"

definition csl_LocalErase ::
  "('k::linorder, 'q) sl_inst \<Rightarrow> 'k \<Rightarrow> ('k, 'q) csl_object shm \<Rightarrow> (bool \<times> ('k, 'q) csl_object shm) result" where
  "csl_LocalErase I k s =
     (case co_list (obj s) of
        None \<Rightarrow> Inl Null_Deref
      | Some L \<Rightarrow> rmap (\<lambda>(b, L). (b, s\<lparr>obj := (obj s)\<lparr>co_list := Some L\<rparr>\<rparr>)) (acc_remove I k L))"

fun csl_handler ::
  "('k::linorder, 'q) sl_inst \<Rightarrow> csl_op \<Rightarrow> ('k, unit) request \<Rightarrow> container \<Rightarrow> ('k, 'q) csl_object shm
     \<Rightarrow> (('k, unit) response \<times> ('k, 'q) csl_object shm) result" where
  "csl_handler I CslInsert (QKey k) c s = THALLIUM_DEFINE RBool (csl_LocalInsert I k s)"
| "csl_handler I CslFind (QKey k) c s = THALLIUM_DEFINE RBool (csl_LocalFind k s)"
| "csl_handler I CslErase (QKey k) c s = THALLIUM_DEFINE RBool (csl_LocalErase I k s)"
| "csl_handler I op q c s = Inl Bad_Message"

type_synonym ('k, 'q) csl_cluster = "(('k, 'q) csl_object, csl_op) cluster"
type_synonym ('k, 'q) csl_thallium = "(('k, 'q) csl_object, csl_op, ('k, unit) request, ('k, unit) response) thallium"

definition csl_Insert ::
  "('k \<Rightarrow> u64) \<Rightarrow> hcl_process \<Rightarrow> ('k, 'q) csl_thallium \<Rightarrow> csl \<Rightarrow> 'k \<Rightarrow> ('k, 'q) csl_cluster
     \<Rightarrow> (bool \<times> ('k, 'q) csl_cluster) result" where
  "csl_Insert hash p thl C k w = rbind (csl_serverLocation hash C k) (\<lambda>key_int.
     RPC_CALL_WRAPPER p thl (csl_base C) ''_Insert'' (ucast key_int) as_bool (QKey k) w)"

definition csl_Find ::
  "('k \<Rightarrow> u64) \<Rightarrow> hcl_process \<Rightarrow> ('k, 'q) csl_thallium \<Rightarrow> csl \<Rightarrow> 'k \<Rightarrow> ('k, 'q) csl_cluster
     \<Rightarrow> (bool \<times> ('k, 'q) csl_cluster) result" where
  "csl_Find hash p thl C k w = rbind (csl_serverLocation hash C k) (\<lambda>key_int.
     RPC_CALL_WRAPPER p thl (csl_base C) ''_Find'' (ucast key_int) as_bool (QKey k) w)"

definition csl_Erase ::
  "('k \<Rightarrow> u64) \<Rightarrow> hcl_process \<Rightarrow> ('k, 'q) csl_thallium \<Rightarrow> csl \<Rightarrow> 'k \<Rightarrow> ('k, 'q) csl_cluster
     \<Rightarrow> (bool \<times> ('k, 'q) csl_cluster) result" where
  "csl_Erase hash p thl C k w = rbind (csl_serverLocation hash C k) (\<lambda>key_int.
     RPC_CALL_WRAPPER p thl (csl_base C) ''_Erase'' (ucast key_int) as_bool (QKey k) w)"

section \<open>Placement of keys\<close>

lemma unat_drop_bit: "unat (drop_bit m w) = unat w div 2 ^ m" for w :: u64
proof -
  have "unat (drop_bit m w) = drop_bit m (take_bit 64 (unat w))"
    using unsigned_drop_bit_eq [of m w, where 'a = nat] by simp
  moreover have "unat w < 2 ^ 64" using unsigned_less [of w, where 'a = nat] by simp
  ultimately show ?thesis by (simp only: take_bit_nat_eq_self drop_bit_eq_div)
qed

definition csl_home :: "('k \<Rightarrow> u64) \<Rightarrow> nat \<Rightarrow> nat \<Rightarrow> 'k \<Rightarrow> nat" where
  "csl_home hash b n k = min (unat (hash k) div 2 ^ (64 - b)) (n - 1)"

lemma csl_home_less: "0 < n \<Longrightarrow> csl_home hash b n k < n"
  by (cases n) (auto simp: csl_home_def less_Suc_eq_le)

lemma csl_location_eq:
  assumes n: "csl_nservers C = of_nat n" "0 < n" "n < 2 ^ 16" and b: "csl_nbits C = of_nat b" "0 < b" "b < 64"
  shows "csl_serverLocation hash C k = Inr (of_nat (csl_home hash b n k))"
proof -
  define sh where "sh = (64 :: u64) - csl_nbits C"
  have "unat (csl_nbits C) = b" using b by (simp add: unat_of_nat)
  then have sh: "unat sh = 64 - b" using b(3) by (simp add: sh_def unat_sub word_le_nat_alt)
  have "drop_bit (64 - b) (hash k AND push_bit (64 - b) (- 1)) = drop_bit (64 - b) (hash k)"
    by (intro bit_word_eqI) (auto simp: bit_drop_bit_eq bit_and_iff bit_not_iff bit_mask_iff dest: bit_imp_le_length)
  moreover have ud: "unat (drop_bit (64 - b) (hash k)) = unat (hash k) div 2 ^ (64 - b)"
    by (rule unat_drop_bit)
  ultimately have id: "unat (drop_bit (unat sh) (hash k AND push_bit (unat sh) (- 1))) = unat (hash k) div 2 ^ (64 - b)" using sh by simp
  have un: "unat (csl_nservers C) = n" using n by (simp add: unat_of_nat)
  then have un1: "unat (csl_nservers C - 1) = n - 1" using n(2) by (simp add: unat_sub word_le_nat_alt)
  have "\<not> sh \<ge> 64" using sh b(2) by (simp add: word_le_nat_alt)
  then have "csl_serverLocation hash C k = Inr (if n \<le> unat (hash k) div 2 ^ (64 - b) then ucast (csl_nservers C - 1)
      else drop_bit (unat sh) (hash k AND push_bit (unat sh) (- 1)))"
    unfolding csl_serverLocation_def Let_def sh_def [symmetric] word_le_nat_alt id by (simp add: un)
  also have "\<dots> = Inr (of_nat (csl_home hash b n k))"
  proof (cases "n \<le> unat (hash k) div 2 ^ (64 - b)")
    case True
    then have "csl_home hash b n k = n - 1" by (simp add: csl_home_def)
    moreover have "(ucast (csl_nservers C - 1) :: u64) = of_nat (n - 1)"
      using un1 by (metis of_nat_unat ucast_id unat_ucast_u32)
    ultimately show ?thesis using True by simp
  next
    case False
    then have "csl_home hash b n k = unat (drop_bit (unat sh) (hash k AND push_bit (unat sh) (- 1)))"
      using n(2) id by (simp add: csl_home_def)
    then show ?thesis using False by simp
  qed
  finally show ?thesis .
qed

lemma ilog2_power [simp]: "ilog2 (2 ^ b) = b"
proof (induction b)
  case (Suc b)
  have "\<not> (2 :: nat) ^ Suc b < 2" by simp
  then show ?case using Suc by (subst ilog2.simps) simp
qed (simp add: ilog2.simps)

text \<open>The smallest power of two that is large enough.\<close>

lemma power_of_two_loop_eq:
  assumes "n \<le> 2 ^ 30"
  shows "b \<le> 30 \<Longrightarrow> b = 0 \<or> 2 ^ (b - 1) < n \<Longrightarrow>
    \<exists>b'. power_of_two_loop n (2 ^ b) = Inr (2 ^ b') \<and> b' \<le> 30 \<and> n \<le> 2 ^ b' \<and> (b' = 0 \<or> 2 ^ (b' - 1) < n)"
proof (induction "30 - b" arbitrary: b)
  case 0
  then have "b = 30" by simp
  then show ?case using 0 assms by (subst power_of_two_loop.simps) (auto intro!: exI [of _ 30])
next
  case (Suc m)
  show ?case
  proof (cases "2 ^ b < n")
    case True
    have "b + 1 \<le> 30" using Suc.hyps(2) by simp
    then have "(2 :: int) ^ (b + 1) \<le> 2 ^ 30" by (intro power_increasing) simp_all
    then have "power_of_two_loop n (2 ^ b) = power_of_two_loop n (2 ^ (b + 1))"
      using True by (subst power_of_two_loop.simps) simp
    then show ?thesis using Suc.hyps(1) [of "b + 1"] Suc.hyps(2) True by simp
  next
    case False
    then show ?thesis using Suc.prems by (subst power_of_two_loop.simps) (auto intro!: exI [of _ b])
  qed
qed

lemma power_of_two_eq:
  assumes "n \<le> 2 ^ 30"
  obtains b where "power_of_two n = Inr (2 ^ b)" "b \<le> 30" "n \<le> 2 ^ b" "b = 0 \<or> 2 ^ (b - 1) < n"
  using power_of_two_loop_eq [OF assms, of 0] by (auto simp: power_of_two_def)

lemma sint_small: "unat np < 2 ^ 16 \<Longrightarrow> sint np = int (unat np)" for np :: u32
proof -
  assume "unat np < 2 ^ 16"
  then have "int (unat np) < int (2 ^ 16)" by (rule of_nat_less_iff [THEN iffD2])
  then have "uint np < 2 ^ 16" by simp
  moreover have "- (2 ^ 31) \<le> uint np" by (rule order_trans [OF _ uint_ge_0]) simp
  ultimately have "signed_take_bit 31 (uint np) = uint np" by (intro signed_take_bit_int_eq_self) simp_all
  then show ?thesis by (simp add: sint_uint)
qed

section \<open>The cluster as one set\<close>

definition csl_look :: "('k::linorder, 'q) csl_object \<Rightarrow> 'k \<Rightarrow> unit option" where
  "csl_look d k = (case co_list d of None \<Rightarrow> None | Some L \<Rightarrow> if k \<in> sl_view L then Some () else None)"

definition csl_ok :: "('k::linorder, 'q) sl_inst \<Rightarrow> ('q \<Rightarrow> ptr list) \<Rightarrow> ('k, 'q) csl_object \<Rightarrow> bool" where
  "csl_ok I elems d \<longleftrightarrow> (\<exists>L. co_list d = Some L \<and> sl_inv I elems L)"

definition csl_view :: "('k::linorder \<Rightarrow> u64) \<Rightarrow> nat \<Rightarrow> ('k, 'q) csl_cluster \<Rightarrow> 'k set" where
  "csl_view hash b w = {k. shard_view csl_look (csl_home hash b (length w)) w k \<noteq> None}"

text \<open>
  All clients were initialised with the number of servers, and so with the number of bits that \<^verbatim>\<open>initialize_sets\<close>
  computes for it. With one server there are no bits.
\<close>

definition csl_inv ::
  "('k::linorder, 'q) sl_inst \<Rightarrow> ('q \<Rightarrow> ptr list) \<Rightarrow> ('k \<Rightarrow> u64) \<Rightarrow> hcl_process \<Rightarrow> nat \<Rightarrow> csl set \<Rightarrow> ('k, 'q) csl_cluster \<Rightarrow> bool" where
  "csl_inv I elems hash p b Cs w \<longleftrightarrow> power_of_two (int (length w)) = Inr (2 ^ b) \<and> b < 64
     \<and> (\<forall>C \<in> Cs. connected p csl_bind_table (csl_base C) w \<and> csl_nservers C = of_nat (length w) \<and> csl_nbits C = of_nat b)
     \<and> sharded csl_look (csl_ok I elems) (csl_home hash b (length w)) w"

datatype 'k csl_cmd = Csl_Insert csl 'k | Csl_Find csl 'k | Csl_Erase csl 'k

primrec csl_client :: "'k csl_cmd \<Rightarrow> csl" where
  "csl_client (Csl_Insert C k) = C" | "csl_client (Csl_Find C k) = C" | "csl_client (Csl_Erase C k) = C"

primrec csl_key :: "'k csl_cmd \<Rightarrow> 'k" where
  "csl_key (Csl_Insert C k) = k" | "csl_key (Csl_Find C k) = k" | "csl_key (Csl_Erase C k) = k"

primrec csl_exec ::
  "('k \<Rightarrow> u64) \<Rightarrow> hcl_process \<Rightarrow> ('k, 'q) csl_thallium \<Rightarrow> 'k csl_cmd \<Rightarrow> ('k, 'q) csl_cluster
     \<Rightarrow> (bool \<times> ('k, 'q) csl_cluster) result" where
  "csl_exec hash p thl (Csl_Insert C k) = csl_Insert hash p thl C k"
| "csl_exec hash p thl (Csl_Find C k) = csl_Find hash p thl C k"
| "csl_exec hash p thl (Csl_Erase C k) = csl_Erase hash p thl C k"

primrec csl_step :: "'k csl_cmd \<Rightarrow> 'k set \<Rightarrow> bool \<times> 'k set" where
  "csl_step (Csl_Insert C k) S = (k \<notin> S, insert k S)"
| "csl_step (Csl_Find C k) S = (k \<in> S, S)"
| "csl_step (Csl_Erase C k) S = (k \<in> S, S - {k})"

primrec csl_body ::
  "('k::linorder, 'q) sl_inst \<Rightarrow> 'k csl_cmd \<Rightarrow> ('k, 'q) csl_object shm \<Rightarrow> (bool \<times> ('k, 'q) csl_object shm) result" where
  "csl_body I (Csl_Insert C k) = csl_LocalInsert I k"
| "csl_body I (Csl_Find C k) = csl_LocalFind k"
| "csl_body I (Csl_Erase C k) = csl_LocalErase I k"

lemma csl_step_grows: "card (snd (csl_step x S)) \<le> Suc (card S)"
  by (cases x; cases "finite S") (auto simp: card_insert_if le_SucI card_Diff1_le)

text \<open>A command changes the membership of its own key only.\<close>

definition csl_after :: "'k csl_cmd \<Rightarrow> bool \<Rightarrow> unit option" where
  "csl_after x present = (case x of Csl_Insert C k \<Rightarrow> Some () | Csl_Find C k \<Rightarrow> if present then Some () else None | Csl_Erase C k \<Rightarrow> None)"

lemma csl_step_local:
  "fst (csl_step x S) = (case x of Csl_Insert C k \<Rightarrow> csl_key x \<notin> S | _ \<Rightarrow> csl_key x \<in> S)"
  "k \<in> snd (csl_step x S) \<longleftrightarrow> (if k = csl_key x then csl_after x (csl_key x \<in> S) \<noteq> None else k \<in> S)"
  by (cases x; auto simp: csl_after_def)+

locale csl_deployment = transport thl "csl_handler I" + skip_nodes I elems
  for I :: "('k::linorder, 'q) sl_inst" and elems :: "'q \<Rightarrow> ptr list" and thl :: "('k, 'q) csl_thallium"
begin

lemma exec_at_home:
  assumes con: "connected p csl_bind_table (csl_base (csl_client x)) w"
    and C: "csl_nservers (csl_client x) = of_nat (length w)" "csl_nbits (csl_client x) = of_nat b" "0 < b" "b < 64"
  shows "csl_exec hash p thl x w = at_server (csl_home hash b (length w) (csl_key x)) (csl_body I x) w"
    "csl_home hash b (length w) (csl_key x) < length w"
proof -
  have u16: "ucast (of_nat n :: u64) = (of_nat n :: u16)" for n
    by transfer (simp add: take_bit_take_bit)
  have len: "0 < length w" "length w < 2 ^ 16" using con by (auto simp: connected_def)
  show home: "csl_home hash b (length w) (csl_key x) < length w" using csl_home_less [OF len(1)] .
  note loc = csl_location_eq [OF C(1) len C(2-4), of hash "csl_key x"]
  note call = remote_call [OF con home]
  show "csl_exec hash p thl x w = at_server (csl_home hash b (length w) (csl_key x)) (csl_body I x) w"
  proof (cases x)
    case (Csl_Insert C k)
    then show ?thesis
      using call [where sfx = "''_Insert''" and op = CslInsert and q = "QKey k" and enc = RBool and f = "csl_LocalInsert I k" and dec = as_bool] loc
      by (simp add: csl_Insert_def u16 csl_bind_table_def)
  next
    case (Csl_Find C k)
    then show ?thesis
      using call [where sfx = "''_Find''" and op = CslFind and q = "QKey k" and enc = RBool and f = "csl_LocalFind k" and dec = as_bool] loc
      by (simp add: csl_Find_def u16 csl_bind_table_def)
  next
    case (Csl_Erase C k)
    then show ?thesis
      using call [where sfx = "''_Erase''" and op = CslErase and q = "QKey k" and enc = RBool and f = "csl_LocalErase I k" and dec = as_bool] loc
      by (simp add: csl_Erase_def u16 csl_bind_table_def)
  qed
qed

lemma body_refines:
  assumes ok: "csl_ok I elems (obj s)" and small: "\<forall>L. co_list (obj s) = Some L \<longrightarrow> card (sl_view L) < sl_capacity"
  shows "\<exists>s'. csl_body I x s = Inr (fst (csl_step x {k. csl_look (obj s) k \<noteq> None}), s') \<and> csl_ok I elems (obj s') \<and> mtx s' = mtx s
    \<and> csl_look (obj s') = (csl_look (obj s))(csl_key x := csl_after x (csl_look (obj s) (csl_key x) \<noteq> None))"
proof -
  obtain L where L0: "co_list (obj s) = Some L" "sl_inv I elems L" using ok by (auto simp: csl_ok_def)
  have L: "co_list (obj s) = Some L" "sl_set I elems L (sl_view L)" "card (sl_view L) < sl_capacity"
    using L0 small sl_inv_set [OF L0(2)] by simp_all
  have look: "csl_look (obj s) = (\<lambda>k. if k \<in> sl_view L then Some () else None)" using L(1) by (simp add: csl_look_def fun_eq_iff)
  show ?thesis
  proof (cases x)
    case (Csl_Insert C k)
    obtain n sz L' where "addOrGetData I k (co_samples (obj s) 0) L = Inr ((n, sz), L')" "sl_set I elems L' (insert k (sl_view L))"
        "sz \<noteq> 0 \<longleftrightarrow> k \<notin> sl_view L"
      using addOrGetData_ok [OF L(2), of k "co_samples (obj s) 0"] L(3) by (auto split: if_splits)
    then show ?thesis
      using Csl_Insert L(1) sl_view_eq [of I elems L'] unfolding look
      by (auto simp: csl_LocalInsert_def acc_insert_def csl_ok_def sl_inv_def csl_look_def csl_after_def fun_eq_iff)
  next
    case (Csl_Find C k)
    then show ?thesis using L(1) acc_contains_ok [OF L(2)] ok unfolding look
      by (auto simp: csl_LocalFind_def csl_look_def csl_after_def fun_eq_iff)
  next
    case (Csl_Erase C k)
    obtain L' where "sl_remove I k L = Inr (k \<in> sl_view L, L')" "sl_set I elems L' (sl_view L - {k})"
      using sl_remove_ok [OF L(2), of k] by blast
    then show ?thesis
      using Csl_Erase L(1) sl_view_eq [of I elems L'] unfolding look
      by (auto simp: csl_LocalErase_def acc_remove_def csl_ok_def sl_inv_def csl_look_def csl_after_def fun_eq_iff)
  qed
qed

end

lemma csl_view_finite:
  assumes "sharded csl_look (csl_ok I elems) (csl_home hash b (length w)) w" "0 < length w"
  shows "finite (csl_view hash b w)"
    and "i < length w \<Longrightarrow> {k. csl_look (obj (seg (w ! i))) k \<noteq> None} \<subseteq> csl_view hash b w"
proof -
  have fin: "finite {k. csl_look (obj (seg (w ! i))) k \<noteq> None}" if "i < length w" for i
    using shardedD(2) [OF assms(1) that] sl_set_size [OF sl_inv_set] by (fastforce simp: csl_ok_def csl_look_def)
  have "csl_view hash b w \<subseteq> (\<Union>i < length w. {k. csl_look (obj (seg (w ! i))) k \<noteq> None})"
    using csl_home_less [OF assms(2)] unfolding csl_view_def shard_view_def by fast
  then show "finite (csl_view hash b w)" using fin finite_subset by blast
  show "{k. csl_look (obj (seg (w ! i))) k \<noteq> None} \<subseteq> csl_view hash b w" if "i < length w"
    using shardedD(3) [OF assms(1) that] by (auto simp: csl_view_def shard_view_def)
qed

lemma csl_inv_bits:
  assumes "csl_inv I elems hash p b Cs w" "C \<in> Cs" shows "b = 0 \<longleftrightarrow> length w = 1"
proof -
  have len: "0 < length w" "length w < 2 ^ 16" using assms by (auto simp: csl_inv_def connected_def)
  have "int (length w) \<le> 2 ^ 30" using len(2) by simp
  from power_of_two_eq [OF this] obtain b' where b': "power_of_two (int (length w)) = Inr (2 ^ b')" "int (length w) \<le> 2 ^ b'"
    "b' = 0 \<or> 2 ^ (b' - 1) < int (length w)" .
  have "b' = b" using assms(1) b'(1) by (simp add: csl_inv_def)
  then show ?thesis using b'(2,3) len(1) by (cases b) (auto simp: le_Suc_eq)
qed

text \<open>With one server no key has a server.\<close>

lemma csl_exec_one_server:
  assumes "csl_inv I elems hash p b Cs w" "csl_client x \<in> Cs" "length w = 1"
  shows "csl_exec hash p thl x w = Inl Shift_Too_Wide"
proof -
  have "csl_nbits (csl_client x) = 0" using assms csl_inv_bits [OF assms(1,2)] by (simp add: csl_inv_def)
  then have "csl_serverLocation hash (csl_client x) (csl_key x) = Inl Shift_Too_Wide" by (simp add: csl_serverLocation_def)
  then show ?thesis by (cases x) (simp_all add: csl_Insert_def csl_Find_def csl_Erase_def)
qed

sublocale csl_deployment \<subseteq> csl: bounded_simulation "csl_exec hash p thl" csl_step
  "\<lambda>w. csl_inv I elems hash p b Cs w \<and> length w \<noteq> 1" "csl_view hash b" "\<lambda>_ x. csl_client x \<in> Cs" card sl_capacity for hash p b Cs
proof
  fix w and x :: "'k csl_cmd"
  assume ok: "csl_inv I elems hash p b Cs w \<and> length w \<noteq> 1" and x: "csl_client x \<in> Cs" and small: "card (csl_view hash b w) < sl_capacity"
  then have inv: "csl_inv I elems hash p b Cs w" and many: "0 < b" using csl_inv_bits [of I elems hash p b Cs w] by auto
  let ?hm = "csl_home hash b (length w)"
  let ?i = "?hm (csl_key x)"
  have C: "connected p csl_bind_table (csl_base (csl_client x)) w" "csl_nservers (csl_client x) = of_nat (length w)"
      "csl_nbits (csl_client x) = of_nat b" "0 < b" "b < 64"
    and sh: "sharded csl_look (csl_ok I elems) ?hm w"
    using inv x many by (auto simp: csl_inv_def)
  note run = exec_at_home [OF C, of hash]
  let ?s = "seg (w ! ?i)" and ?S = "{k. csl_look (obj (seg (w ! ?i))) k \<noteq> None}"
  have fin: "finite (csl_view hash b w)" "?S \<subseteq> csl_view hash b w"
    using csl_view_finite(1) [OF sh] csl_view_finite(2) [OF sh _ run(2)] run(2) by (auto dest: gr_implies_not0)
  have "card (sl_view L) < sl_capacity" if "co_list (obj ?s) = Some L" for L
  proof -
    have "sl_view L = ?S" using that by (auto simp: csl_look_def)
    then show ?thesis using card_mono [OF fin] small by simp
  qed
  then obtain s' where s': "csl_body I x ?s = Inr (fst (csl_step x ?S), s')" "csl_ok I elems (obj s')" "mtx s' = mtx ?s"
      "csl_look (obj s') = (csl_look (obj ?s))(csl_key x := csl_after x (csl_look (obj ?s) (csl_key x) \<noteq> None))"
    using body_refines [OF shardedD(2) [OF sh run(2)], of x] by blast
  have exec: "csl_exec hash p thl x w = Inr (fst (csl_step x ?S), put_seg w ?i s')"
    unfolding run(1) using s'(1) by (simp add: at_server_def)
  have here: "csl_key x \<in> ?S \<longleftrightarrow> csl_key x \<in> csl_view hash b w" by (simp add: csl_view_def shard_view_def)
  have "sharded csl_look (csl_ok I elems) ?hm (put_seg w ?i s')"
    using quiescentD [OF shardedD(1) [OF sh] run(2)] s'(2,3) by (intro sharded_put_seg [OF sh run(2) _ _ s'(4)]) simp_all
  then have "csl_inv I elems hash p b Cs (put_seg w ?i s') \<and> length (put_seg w ?i s') \<noteq> 1"
    using ok run(2) by (auto simp: csl_inv_def intro: hcl_wf)
  moreover have "csl_view hash b (put_seg w ?i s') = snd (csl_step x (csl_view hash b w))"
    unfolding csl_view_def length_put_seg shard_view_put_seg [of ?hm "csl_key x" w csl_look s', OF run(2) s'(4)]
    by (auto simp: csl_step_local(2) shard_view_def)
  moreover have "fst (csl_step x ?S) = fst (csl_step x (csl_view hash b w))"
    using here by (cases x) (simp_all add: csl_step_local(1))
  ultimately show "\<exists>w'. csl_exec hash p thl x w = Inr (fst (csl_step x (csl_view hash b w)), w') \<and> (csl_inv I elems hash p b Cs w' \<and> length w' \<noteq> 1)
      \<and> csl_view hash b w' = snd (csl_step x (csl_view hash b w)) \<and> (\<lambda>x. csl_client x \<in> Cs) = (\<lambda>x. csl_client x \<in> Cs)"
    using exec by auto
qed (rule csl_step_grows)

context csl_deployment
begin

lemmas csl_runs = csl.bounded_run

end

section \<open>An instance\<close>

interpretation lcsl: csl_deployment "list_skip d 24 tbl limits" "\<lambda>q. q" "direct_engine (csl_handler (list_skip d 24 tbl limits))"
  for d :: "'k::linorder" and tbl limits
  unfolding csl_deployment_def by (rule conjI, rule direct.transport_axioms, rule lskip.skip_nodes_axioms)

lemma csl_table_names: "table_ok csl_bind_table"
  by (simp add: table_ok_def csl_bind_table_def NUL_def)

definition ex_csl :: "nat \<Rightarrow> nat \<Rightarrow> csl" where
  "ex_csl n b = \<lparr>csl_base = ex_client n 0 False, csl_nservers = of_nat n, csl_serverid = 0, csl_nbits = of_nat b\<rparr>"

lemma ex_csl_sel [simp]:
  "csl_base (ex_csl n b) = ex_client n 0 False" "csl_nservers (ex_csl n b) = of_nat n" "csl_nbits (ex_csl n b) = of_nat b"
  by (simp_all add: ex_csl_def)

text \<open>A cluster of \<open>n\<close> servers with empty lists.\<close>

lemma ex_csl_cluster:
  fixes hash :: "'k::linorder \<Rightarrow> u64"
  assumes n: "0 < n" "n < 2 ^ 16" and b: "power_of_two (int n) = Inr (2 ^ b)" "b < 64"
  shows "\<exists>w :: ('k, ptr list) csl_cluster. length w = n
    \<and> csl_inv (list_skip d 24 tbl limits) (\<lambda>q. q) hash (ex_process n) b {ex_csl n b} w \<and> csl_view hash b w = {}"
proof -
  let ?I = "list_skip d 24 tbl limits"
  obtain L where L: "sl_set ?I (\<lambda>q. q) L {}"
    using lskip.ctor_ok [of 2 d tbl limits "\<lambda>_. fresh_node d 0" 0] by auto
  let ?d = "\<lparr>co_list = Some L, co_samples = \<lambda>_ _. 0\<rparr>"
  let ?w = "ex_cluster csl_bind_table (replicate n ?d)"
  have look: "csl_look ?d k = None" "csl_ok ?I (\<lambda>q. q) ?d" for k
    using L sl_view_eq [OF L] by (auto simp: csl_look_def csl_ok_def sl_inv_def)
  have "connected (ex_process n) csl_bind_table (ex_client n 0 False) ?w"
    using n by (intro ex_connected [OF csl_table_names]) auto
  moreover have "sharded csl_look (csl_ok ?I (\<lambda>q. q)) (csl_home hash b n) ?w"
    unfolding sharded_def using look by (auto simp: ex_cluster_def quiescent_def)
  moreover have "csl_view hash b ?w = {}"
    using csl_home_less [OF n(1), of hash b] look(1) by (auto simp: csl_view_def shard_view_def)
  ultimately show ?thesis using b by (intro exI [of _ ?w]) (simp add: csl_inv_def)
qed

section \<open>Properties\<close>

text \<open>
  C12. \<^verbatim>\<open>concurrent_skiplist\<close> is one set, from two servers on: when all clients were initialised with the number of
  servers, any sequence of \<^verbatim>\<open>Insert\<close>, \<^verbatim>\<open>Find\<close> and \<^verbatim>\<open>Erase\<close> of any clients succeeds, whatever the random generators of
  the servers give, with the answers of one set in one memory, as long as the 64-bit sizes cannot wrap. With one server
  the first operation, whichever it is, shifts by 64, the width of the operand, and nothing is guaranteed of it.
\<close>

theorem concurrent_skiplist_refines_set:
  assumes "csl_deployment I elems thl" "csl_inv I elems hash p b Cs w" "\<forall>x \<in> set xs. csl_client x \<in> Cs"
    and "card (csl_view hash b w) + length xs < 2 ^ 64"
  shows "if length w = 1 then xs = [] \<or> run_cmds (csl_exec hash p thl) xs w = Inl Shift_Too_Wide
    else \<exists>w'. run_cmds (csl_exec hash p thl) xs w = Inr (fst (run_spec csl_step xs (csl_view hash b w)), w')
      \<and> csl_inv I elems hash p b Cs w' \<and> csl_view hash b w' = snd (run_spec csl_step xs (csl_view hash b w))"
proof (cases "length w = 1")
  case True
  then show ?thesis using assms(3) csl_exec_one_server [OF assms(2)] by (cases xs) auto
next
  case False
  then show ?thesis using csl_deployment.csl_runs [OF assms(1) _ assms(3)] assms(2,4) by fastforce
qed

theorem concurrent_skiplist_refines_set_witness:
  "(\<exists>w :: (nat, ptr list) csl_cluster. length w = 1 \<and>
    run_cmds (csl_exec of_nat (ex_process 1) (direct_engine (csl_handler (list_skip 0 24 (\<lambda>_. 0) (\<lambda>_. 1)))))
      [Csl_Insert (ex_csl 1 0) 7] w = Inl Shift_Too_Wide) \<and>
  (\<exists>w w' :: (nat, ptr list) csl_cluster. length w = 3 \<and>
    run_cmds (csl_exec of_nat (ex_process 3) (direct_engine (csl_handler (list_skip 0 24 (\<lambda>_. 0) (\<lambda>_. 1)))))
      [Csl_Insert (ex_csl 3 2) 7, Csl_Insert (ex_csl 3 2) (2 ^ 63), Csl_Insert (ex_csl 3 2) 7, Csl_Find (ex_csl 3 2) 7,
       Csl_Erase (ex_csl 3 2) 7, Csl_Find (ex_csl 3 2) 7, Csl_Find (ex_csl 3 2) (2 ^ 63)] w =
    Inr ([True, True, False, True, True, False, True], w'))"
proof -
  let ?I = "list_skip 0 24 (\<lambda>_. 0) (\<lambda>_. 1) :: (nat, ptr list) sl_inst"
  have pow: "power_of_two 1 = Inr (2 ^ 0)" "power_of_two 3 = Inr (2 ^ 2)"
    by (simp_all add: power_of_two_def power_of_two_loop.simps)
  obtain v :: "(nat, ptr list) csl_cluster" where v: "length v = 1"
      "csl_inv ?I (\<lambda>q. q) of_nat (ex_process 1) 0 {ex_csl 1 0} v" "csl_view of_nat 0 v = {}"
    using ex_csl_cluster [of 1 0 0 "\<lambda>_. 0" "\<lambda>_. 1" of_nat] pow(1) by auto
  obtain w :: "(nat, ptr list) csl_cluster" where w: "length w = 3"
      "csl_inv ?I (\<lambda>q. q) of_nat (ex_process 3) 2 {ex_csl 3 2} w" "csl_view of_nat 2 w = {}"
    using ex_csl_cluster [of 3 2 0 "\<lambda>_. 0" "\<lambda>_. 1" of_nat] pow(2) by auto
  show ?thesis
    using concurrent_skiplist_refines_set [OF lcsl.csl_deployment_axioms w(2), of "[Csl_Insert (ex_csl 3 2) 7,
        Csl_Insert (ex_csl 3 2) (2 ^ 63), Csl_Insert (ex_csl 3 2) 7, Csl_Find (ex_csl 3 2) 7,
        Csl_Erase (ex_csl 3 2) 7, Csl_Find (ex_csl 3 2) 7, Csl_Find (ex_csl 3 2) (2 ^ 63)]"] w(1,3)
      concurrent_skiplist_refines_set [OF lcsl.csl_deployment_axioms v(2), of "[Csl_Insert (ex_csl 1 0) 7]"] v(1,3)
    by (auto simp: Let_def simp del: run_cmds.simps)
qed

text \<open>
  C13. After \<^verbatim>\<open>initialize_sets\<close> with \<open>np\<close> servers, fewer than \<open>2 ^ 16\<close>, the server of a key is the number that the upper
  \<open>b\<close> bits of its hash give, or the last server when there are not so many, \<open>2 ^ b\<close> being the smallest power of two that
  is not less than \<open>np\<close>. With a single server there are no upper bits and both shifts are by 64, the width of the
  operand, which C++ leaves undefined.
\<close>

theorem skiplist_server_location:
  assumes "initialize_sets I C0 np rank h base = Inr (C, l)" "0 < unat np" "unat np < 2 ^ 16"
  shows "if unat np = 1 then csl_serverLocation hash C k = Inl Shift_Too_Wide
    else \<exists>b. 2 ^ (b - 1) < unat np \<and> unat np \<le> 2 ^ b \<and> csl_serverLocation hash C k = Inr (of_nat (csl_home hash b (unat np) k))
      \<and> csl_home hash b (unat np) k < unat np"
proof -
  have "unat np \<le> 2 ^ 30" using assms(3) by simp
  then have "int (unat np) \<le> int (2 ^ 30)" by (rule of_nat_le_iff [THEN iffD2])
  then have "int (unat np) \<le> 2 ^ 30" by simp
  from power_of_two_eq [OF this] obtain b where
    b: "power_of_two (int (unat np)) = Inr (2 ^ b)" "b \<le> 30" "int (unat np) \<le> 2 ^ b" "b = 0 \<or> 2 ^ (b - 1) < int (unat np)" .
  have C: "csl_nservers C = np" "csl_nbits C = of_nat b"
    using assms(1) b(1) sint_small [OF assms(3)]
    by (auto simp: initialize_sets_def Let_def nat_power_eq split: if_splits)
  have le: "unat np \<le> 2 ^ b" "b = 0 \<or> 2 ^ (b - 1) < unat np" 
    using b(3,4) of_nat_le_iff [of "unat np" "2 ^ b", where 'a = int] of_nat_less_iff [of "2 ^ (b - 1)" "unat np", where 'a = int] by simp_all
  show ?thesis
  proof (cases "unat np = 1")
    case True
    then have "b = 0" using le(2) by (cases b) auto
    then show ?thesis using True C(2) by (simp add: csl_serverLocation_def)
  next
    case False
    then have "b \<noteq> 0" using le(1) assms(2) by (cases b) auto
    then show ?thesis
      using csl_location_eq [of C "unat np" b hash k] C assms(2,3) b(2) le False csl_home_less [OF assms(2), of hash b k]
      by (auto intro!: exI [of _ b])
  qed
qed

theorem skiplist_server_location_witness:
  "\<exists>C C' :: csl. initialize_sets (list_skip 0 24 (\<lambda>_. 0) (\<lambda>_. 1) :: (nat, ptr list) sl_inst) (ex_csl 0 0) 1 0 (\<lambda>_. fresh_node 0 0) 0 = Inr (C, None)
    \<and> csl_serverLocation of_nat C (7 :: nat) = Inl Shift_Too_Wide
    \<and> initialize_sets (list_skip 0 24 (\<lambda>_. 0) (\<lambda>_. 1) :: (nat, ptr list) sl_inst) (ex_csl 0 0) 3 0 (\<lambda>_. fresh_node 0 0) 0 = Inr (C', None)
    \<and> (\<exists>b. unat (3 :: u32) \<le> 2 ^ b \<and> csl_serverLocation of_nat C' (7 :: nat) = Inr (of_nat (csl_home of_nat b 3 7)))"
proof -
  let ?I = "list_skip 0 24 (\<lambda>_. 0) (\<lambda>_. 1) :: (nat, ptr list) sl_inst"
  have nsrv: "\<not> is_server (csl_base (ex_csl 0 0))" by (simp add: ex_client_def)
  have "power_of_two 1 = Inr 1" "power_of_two 3 = Inr 4"
    by (simp_all add: power_of_two_def power_of_two_loop.simps)
  then obtain C C' where C: "initialize_sets ?I (ex_csl 0 0) 1 0 (\<lambda>_. fresh_node 0 0) 0 = Inr (C, None)"
      "initialize_sets ?I (ex_csl 0 0) 3 0 (\<lambda>_. fresh_node 0 0) 0 = Inr (C', None)"
    using nsrv by (auto simp: initialize_sets_def Let_def)
  show ?thesis
    using skiplist_server_location [OF C(1), of of_nat 7] skiplist_server_location [OF C(2), of of_nat 7] C by auto
qed

end
