(* ===== verification/Hcl_Debug.thy ===== *)
theory Hcl_Debug
  imports Complex_Main Hcl_Prelude
begin

text \<open>
  \<^verbatim>\<open>common/debug.h\<close> and the time stamp of \<^verbatim>\<open>common/logging.h\<close>: the stop watch, the signal handler and the text in
  front of a log line. The clocks and the stack are arguments.
\<close>

section \<open>The stop watch\<close>

text \<open>Times are nanoseconds; the elapsed time is in milliseconds, and \<open>rnd\<close> rounds to double precision.\<close>

record timer =
  tm_t1 :: int
  tm_elapsed :: real

definition Timer_ctor :: "int \<Rightarrow> timer" where
  "Timer_ctor mem = \<lparr>tm_t1 = mem, tm_elapsed = 0\<rparr>"

definition resumeTime :: "int \<Rightarrow> timer \<Rightarrow> timer" where
  "resumeTime now T = T\<lparr>tm_t1 := now\<rparr>"

definition pauseTime :: "(real \<Rightarrow> real) \<Rightarrow> int \<Rightarrow> timer \<Rightarrow> real \<times> timer" where
  "pauseTime rnd t2 T =
     (let elapsed = rnd (tm_elapsed T + rnd (of_int (t2 - tm_t1 T) / 1000000))
      in (elapsed, T\<lparr>tm_elapsed := elapsed\<rparr>))"

definition getElapsedTime :: "timer \<Rightarrow> real" where
  "getElapsedTime T = tm_elapsed T"

text \<open>In exact arithmetic, the elapsed time is the sum of the intervals between \<open>resumeTime\<close> and \<open>pauseTime\<close>.\<close>

fun intervals :: "(int \<times> int) list \<Rightarrow> timer \<Rightarrow> timer" where
  "intervals [] T = T"
| "intervals ((a, b) # ts) T = intervals ts (snd (pauseTime (\<lambda>x. x) b (resumeTime a T)))"

lemma timer_sums: "getElapsedTime (intervals ts T) = getElapsedTime T + (\<Sum>(a, b) \<leftarrow> ts. of_int (b - a) / 1000000)"
  by (induction ts arbitrary: T rule: list.induct)
    (auto simp: getElapsedTime_def pauseTime_def resumeTime_def Let_def split: prod.splits)

text \<open>A pause with no new start in between counts the time before it twice.\<close>

lemma pause_twice:
  assumes "T' = snd (pauseTime (\<lambda>x. x) b (resumeTime a (Timer_ctor mem)))"
  shows "fst (pauseTime (\<lambda>x. x) c T') = of_int (b - a) / 1000000 + of_int (c - a) / 1000000"
  by (simp add: assms pauseTime_def resumeTime_def Timer_ctor_def Let_def)

section \<open>The signal handler\<close>

text \<open>
  \<open>frames\<close> is the stack at the signal. \<^verbatim>\<open>backtrace\<close> stores as many addresses as it is allowed to, which is 300; the
  array has room for 10. The answer is what is written to the error stream.
\<close>

definition handler :: "string list \<Rightarrow> nat \<Rightarrow> string list result" where
  "handler frames sig =
     (let size = min 300 (length frames)
      in if size \<le> 10 then Inr ((''Error: signal '' @ to_string sig) # take size frames) else Inl Buffer_Overflow)"

lemma handler_overflows: "handler frames sig = Inl Buffer_Overflow \<longleftrightarrow> 10 < length frames"
  by (auto simp: handler_def Let_def)

section \<open>The time stamp\<close>

record local_time =
  tm_year :: nat
  tm_mon :: nat
  tm_mday :: nat
  tm_hour :: nat
  tm_min :: nat
  tm_sec :: nat

text \<open>\<^verbatim>\<open>%0wd\<close>: at least \<open>w\<close> digits. The milliseconds are written without leading zeros.\<close>

definition padded :: "nat \<Rightarrow> nat \<Rightarrow> string" where
  "padded w n = replicate (w - length (to_string n)) (CHR ''0'') @ to_string n"

definition hcl_macro_get_time :: "nat \<Rightarrow> local_time \<Rightarrow> string" where
  "hcl_macro_get_time millis now =
     padded 4 (tm_year now + 1900) @ ''-'' @ padded 2 (tm_mon now + 1) @ ''-'' @ padded 2 (tm_mday now) @ '' ''
       @ padded 2 (tm_hour now) @ '':'' @ padded 2 (tm_min now) @ '':'' @ padded 2 (tm_sec now) @ ''.''
       @ to_string (millis mod 1000)"

end
