(* ===== verification/Spec2Isabelle.thy ===== *)
theory Spec2Isabelle
  imports Hcl_Map Hcl_Unordered_Map Hcl_Multimap Hcl_Set Hcl_Queue Hcl_Priority_Queue Hcl_Vector
    Hcl_Sequence Hcl_Clock Hcl_Conc_Unordered_Map Hcl_Conc_Queue Hcl_Skipper Hcl_Skip_Conc
    Hcl_Skip_Heights Hcl_Conc_Skiplist Hcl_Debug
begin

text \<open>
  HCL, the Hermes Container Library, in Isabelle/HOL.

  \<^bold>\<open>The program.\<close> HCL gives the processes of a cluster distributed containers. A container is an object
  per server; clients place a key on a server by its hash, or name the server themselves, and reach it
  in shared memory when it runs on their node and by a remote procedure call otherwise. The parts are the
  library object with its configuration and RPC engine, the base class of the containers, ten containers,
  a global clock and a global sequence. Sources are below \<^verbatim>\<open>src/include/hcl\<close> and \<^verbatim>\<open>src/src/hcl\<close>.

  \<^bold>\<open>Theories and sources.\<close>
  \<^item> \<^verbatim>\<open>Hcl_Prelude\<close>: results with errors (\<^verbatim>\<open>hcl_error\<close>: every throw, failed assertion, division by zero, null
    pointer, blocked lock and out-of-range access of the sources is a constructor), shared objects beside
    their interprocess mutex, C strings, decimal output.
  \<^item> \<^verbatim>\<open>Hcl_Char_Struct\<close>, \<^verbatim>\<open>Hcl_Uri\<close>: \<^verbatim>\<open>common/data_structures\<close>, the 256-byte string and the addresses of a server.
  \<^item> \<^verbatim>\<open>Hcl_Config\<close>: \<^verbatim>\<open>common/configuration_manager\<close>, \<^verbatim>\<open>hcl_internal\<close>, \<^verbatim>\<open>communication/rpc_lib\<close>, \<^verbatim>\<open>common/singleton.h\<close>:
    server list, configuration, creation and release of the RPC objects.
  \<^item> \<^verbatim>\<open>Hcl_Container\<close>: \<^verbatim>\<open>common/container\<close>, \<^verbatim>\<open>common/macros.h\<close>, \<^verbatim>\<open>communication/rpc_lib_int.cpp\<close>: the base class, the
    cluster (a list of servers, each with its shared object and its bound procedures), local access and
    remote calls. The engine is a parameter; the locale \<^verbatim>\<open>transport\<close> says that it runs the procedure bound at
    the addressed server.
  \<^item> \<^verbatim>\<open>Hcl_Boost\<close>: the interfaces of the Boost and standard containers as records of operations, with their
    documented laws as locales, interpreted on lists.
  \<^item> \<^verbatim>\<open>Hcl_Service\<close>: where an operation runs, gathering loops, and the contracts of the containers as locales:
    \<^verbatim>\<open>kv_service\<close> and \<^verbatim>\<open>keyed_store\<close> (one map), \<^verbatim>\<open>simulation\<close> and \<^verbatim>\<open>indexed_service\<close> (one abstract object per server).
  \<^item> \<^verbatim>\<open>Hcl_Launch\<close>: what the constructors establish, and the example deployment the witnesses run on.
  \<^item> \<^verbatim>\<open>Hcl_Map\<close>, \<^verbatim>\<open>Hcl_Unordered_Map\<close>, \<^verbatim>\<open>Hcl_Multimap\<close>, \<^verbatim>\<open>Hcl_Set\<close>, \<^verbatim>\<open>Hcl_Queue\<close>, \<^verbatim>\<open>Hcl_Priority_Queue\<close>, \<^verbatim>\<open>Hcl_Vector\<close>,
    \<^verbatim>\<open>Hcl_Sequence\<close>, \<^verbatim>\<open>Hcl_Clock\<close>: the container of that name, one definition per local operation (\<^verbatim>\<open>_LocalPut\<close>),
    remote procedure table, handler, distributed operation (\<^verbatim>\<open>_Put\<close>) and constructor.
  \<^item> \<^verbatim>\<open>Hcl_Memory_Pool\<close>, \<^verbatim>\<open>Hcl_Block_Map\<close>: \<^verbatim>\<open>base/containers/concurrent_unordered_map\<close>, the node allocator and the
    chained hash table on an explicit heap of nodes.
  \<^item> \<^verbatim>\<open>Hcl_Conc_Unordered_Map\<close>, \<^verbatim>\<open>Hcl_Conc_Queue\<close>: \<^verbatim>\<open>concurrent/unordered_map\<close> and \<^verbatim>\<open>concurrent/queue\<close>.
  \<^item> \<^verbatim>\<open>Hcl_Skip_List\<close>: \<^verbatim>\<open>base/containers/concurrent_skiplist\<close>, nodes with a successor per layer in an explicit heap, the
    recycler of nodes, every operation of \<^verbatim>\<open>ConcurrentSkipList\<close>, of its accessor and of its iterator. \<^verbatim>\<open>Hcl_Skip_Layers\<close> says
    what its loops do on a heap whose layers are sorted paths, \<^verbatim>\<open>Hcl_Skip_Set\<close> that every operation keeps the layers and
    what it does to the set of values, \<^verbatim>\<open>Hcl_Skip_Spec\<close> the refinement of a sorted set (locales \<^verbatim>\<open>skip_nodes\<close> and
    \<^verbatim>\<open>bounded_simulation\<close>). \<^verbatim>\<open>Hcl_Skipper\<close>: the cursor \<^verbatim>\<open>Skipper\<close>.
    \<^verbatim>\<open>Hcl_Skip_Locks\<close>: what follows the search in \<^verbatim>\<open>addOrGetData\<close>, \<^verbatim>\<open>remove\<close> and \<^verbatim>\<open>growHeight\<close>, thread by thread and
    access by access (locale \<^verbatim>\<open>lock_order\<close>). \<^verbatim>\<open>Hcl_Skip_Conc\<close>: what the threads know of the layers, and the set of values under
    interleaving. \<^verbatim>\<open>Hcl_Skip_Heights\<close>: the tables of the height generator.
  \<^item> \<^verbatim>\<open>Hcl_Conc_Skiplist\<close>: \<^verbatim>\<open>concurrent/skiplist\<close>, one such list per server.
  \<^item> \<^verbatim>\<open>Hcl_Debug\<close>: the stop watch and the signal handler of \<^verbatim>\<open>common/debug.h\<close>, the time stamp of \<^verbatim>\<open>common/logging.h\<close>.

  \<^bold>\<open>State.\<close> A shared object is a record of its mutex and its value; \<^verbatim>\<open>scoped_lock\<close> runs a body between lock and
  unlock and is \<^verbatim>\<open>Would_Block\<close> on a held mutex. A cluster is a list of servers; an operation maps a cluster to
  a result and the cluster after it. Operations are atomic at that grain, so a sequence of commands is
  an interleaving of the critical sections of any clients. Where the code takes no lock, the atomic
  steps of the threads are an \<^verbatim>\<open>inductive\<close> relation (\<^verbatim>\<open>pool_step\<close>), and
  so are the locks of the skip list (\<^verbatim>\<open>lk_step\<close>). Machine integers are words of their width.

  \<^bold>\<open>What is shown.\<close>
  \<^item> Every container refines an abstract object (a map, a set, a queue, a multiset or a list per server):
    any sequence of commands of any clients succeeds with the outputs of the abstract object and keeps the
    invariant. The constructors establish the invariant.
  \<^item> Range queries and \<^verbatim>\<open>GetAllData\<close> return each selected entry once; the exceptions of the code are theorems too.
  \<^item> Key placement: \<^verbatim>\<open>unordered_map\<close> narrows the hash on one path only; the intervals of
    \<^verbatim>\<open>concurrent_unordered_map\<close> partition the positions, without overflow.
  \<^item> The allocator hands out no node twice under every interleaving, and always returns.
  \<^item> The skip list takes each lock once, links and unlinks a node in all of its layers, grows, reuses nodes, and is a
    sorted set whatever heights the random generator gives; a cursor over it is exact; no node is freed twice.
  \<^item> Under every interleaving the node locks of the skip list never deadlock, and a window that a thread has locked and
    checked stays valid until the thread writes it. The layers stay sorted, and the list is a set that changes at two
    accesses only: the link of a new node at the bottom layer, and the mark of a node to remove. Both need that the recycler
    hands out nodes no thread remembers.
  \<^item> Strings, addresses and the server list: round trips, exact bounds and the overflow beyond them.

  \<^bold>\<open>Loops and bounds.\<close> Loops over pointers, and the polling of \<^verbatim>\<open>WaitForElement\<close>, are partial functions whose
  divergence is \<open>None\<close> (\<^verbatim>\<open>Diverges\<close> as a result); on well-formed heaps they are proved to return. No fuel is used.

  \<^bold>\<open>Not modelled.\<close> The macros for logging and profiling; the threads inside Thallium; tests and benchmarks. In
  the skip list, the interleaving of a search with the writes of other threads: a thread goes on with any window of nodes
  that are, or were until they were marked, on their layers, as a search between two steps of the others is shown to
  give. The recycler of the code also hands out nodes that a thread still remembers, which the steps of the threads leave
  out. The tables of the height generator are parameters of the list: its theorems hold for any. They are computed with
  any rounding, and their closed form is that of exact arithmetic.
\<close>

end
